(* ===== verification/Prelude.thy ===== *)
theory Prelude
  imports Main "HOL-Library.Word" "HOL-Library.Monad_Syntax"
begin

text \<open>
  The vocabulary that every component shares: the machine integers of the C code, the byte
  memory that pointers of the code range over, loads from that memory, byte order
  (libbpf/src/bpf_endian.h), and the lemma collections and generic lemmas the component
  theories use.

  A pointer into a packet or a message is an offset (a \<open>nat\<close>) into a list of bytes. A load
  outside the list is \<^term>\<open>None\<close>: this is the memory fault the code must never cause, and it is
  propagated by the option monad, so "the function returns \<open>Some r\<close>" says that no load of
  the function leaves its memory. The host is little-endian, as in the branch
  \<open>__ORDER_LITTLE_ENDIAN__\<close> of bpf_endian.h.
\<close>

unbundle bit_operations_syntax

type_synonym u8 = "8 word"
type_synonym u16 = "16 word"
type_synonym u32 = "32 word"
type_synonym u64 = "64 word"
type_synonym bytes = "u8 list"

text \<open>
  \<open>layout\<close> collects the equations of field accessors, so that a load of a field unfolds to
  loads of bytes; \<open>fault\<close> collects the facts that a load inside the memory succeeds.
\<close>

named_theorems layout "field accessors of packet headers and messages"
named_theorems fault "loads inside the memory succeed"

section \<open>Error numbers\<close>

text \<open>The codes of <errno.h> that the code names.\<close>

definition ENOENT :: int where "ENOENT = 2"
definition E2BIG :: int where "E2BIG = 7"
definition ENOMEM :: int where "ENOMEM = 12"
definition EBUSY :: int where "EBUSY = 16"
definition EEXIST :: int where "EEXIST = 17"
definition EINVAL :: int where "EINVAL = 22"
definition ENAMETOOLONG :: int where "ENAMETOOLONG = 36"
definition ELOOP :: int where "ELOOP = 40"
definition ENOTSUP :: int where "ENOTSUP = 95"

lemmas errno_defs = ENOENT_def E2BIG_def ENOMEM_def EBUSY_def EEXIST_def EINVAL_def ENAMETOOLONG_def ELOOP_def ENOTSUP_def

section \<open>Integer conversions of C\<close>

text \<open>
  \<open>size_of_int\<close> is the conversion of an \<open>int\<close> to \<open>size_t\<close> (64 bits) that C makes when an
  \<open>int\<close> meets a \<open>sizeof\<close>; \<open>int_of_size\<close> is the assignment of a \<open>size_t\<close> back to an \<open>int\<close>
  (the low 32 bits, read as two's complement).
\<close>

definition size_of_int :: "int \<Rightarrow> u64" where
  "size_of_int i = word_of_int i"

definition int_of_size :: "u64 \<Rightarrow> int" where
  "int_of_size w = sint (ucast w :: u32)"

lemma size_of_int_less_iff:
  "0 \<le> i \<Longrightarrow> i < 2 ^ 63 \<Longrightarrow> n < 2 ^ 63 \<Longrightarrow> (size_of_int i < of_nat n) = (i < int n)"
  by (simp add: size_of_int_def word_less_def uint_word_of_int unsigned_of_nat take_bit_eq_mod
      flip: of_nat_mod)

lemma sint_u32_small: "0 \<le> i \<Longrightarrow> i < 2 ^ 31 \<Longrightarrow> sint (word_of_int i :: u32) = i"
  by (simp add: signed_of_int signed_take_bit_int_eq_self)

lemma sint_u32_neg: "- (2 ^ 31) \<le> i \<Longrightarrow> i < 0 \<Longrightarrow> sint (word_of_int i :: u32) = i"
  by (simp add: signed_of_int signed_take_bit_int_eq_self)

lemma unat_of_nat_u32: "n < 2 ^ 32 \<Longrightarrow> unat (of_nat n :: u32) = n"
  by (simp add: unsigned_of_nat take_bit_eq_mod)

text \<open>Narrowing a 64-bit value keeps the low bits, so it commutes with the ring operations.\<close>

lemma narrow_u64:
  "(ucast (word_of_int i :: u64) :: u32) = word_of_int i"
  "(ucast (word_of_int i :: u64) :: u16) = word_of_int i"
  by (rule ucast_down_wi, simp add: is_down)+

text \<open>A 16-bit field minus a small \<open>sizeof\<close>, assigned to an \<open>int\<close>, is the true difference.\<close>

lemma int_of_size_diff:
  assumes "k < 2 ^ 16"
  shows "int_of_size (ucast (w :: u16) - of_nat k) = int (unat w) - int k"
proof -
  have w: "int (unat w) < 2 ^ 16"
    using unsigned_less [of w, where 'a = int] by simp
  have "ucast w - of_nat k = (word_of_int (int (unat w) - int k) :: u64)"
    by simp
  then have "ucast (ucast w - of_nat k :: u64) = (word_of_int (int (unat w) - int k) :: u32)"
    by (simp only: narrow_u64)
  then have "int_of_size (ucast w - of_nat k) = sint (word_of_int (int (unat w) - int k) :: u32)"
    by (simp only: int_of_size_def)
  also have "\<dots> = int (unat w) - int k"
  proof -
    define i where "i = int (unat w)"
    have i: "0 \<le> i" "i < 65536" and k: "int k < 65536"
      using w assms by (simp_all add: i_def)
    have "sint (word_of_int (i - int k) :: u32) = i - int k"
      using i k by (cases "int k \<le> i") (simp_all add: sint_u32_small sint_u32_neg del: of_int_diff)
    then show ?thesis by (simp only: i_def)
  qed
  finally show ?thesis .
qed

section \<open>Byte memory and loads\<close>

definition load8 :: "bytes \<Rightarrow> nat \<Rightarrow> u8 option" where
  "load8 m a = (if a < length m then Some (m ! a) else None)"

text \<open>Little-endian loads: the byte at the lower address is the low byte.\<close>

definition le16 :: "u8 \<Rightarrow> u8 \<Rightarrow> u16" where
  "le16 b0 b1 = ucast b0 OR push_bit 8 (ucast b1)"

definition le32 :: "u16 \<Rightarrow> u16 \<Rightarrow> u32" where
  "le32 lo hi = ucast lo OR push_bit 16 (ucast hi)"

definition load16 :: "bytes \<Rightarrow> nat \<Rightarrow> u16 option" where
  "load16 m a = do { b0 \<leftarrow> load8 m a; b1 \<leftarrow> load8 m (a + 1); Some (le16 b0 b1) }"

definition load32 :: "bytes \<Rightarrow> nat \<Rightarrow> u32 option" where
  "load32 m a = do { lo \<leftarrow> load16 m a; hi \<leftarrow> load16 m (a + 2); Some (le32 lo hi) }"

lemma load8_in [fault]: "a < length m \<Longrightarrow> load8 m a = Some (m ! a)"
  by (simp add: load8_def)

lemma load16_in [fault]: "a + 2 \<le> length m \<Longrightarrow> load16 m a = Some (le16 (m ! a) (m ! (a + 1)))"
  by (simp add: load16_def fault)

lemma load32_in [fault]:
  "a + 4 \<le> length m \<Longrightarrow>
   load32 m a = Some (le32 (le16 (m ! a) (m ! (a + 1))) (le16 (m ! (a + 2)) (m ! (a + 3))))"
  by (simp add: load32_def fault numeral_eq_Suc)

lemma load8_out: "length m \<le> a \<Longrightarrow> load8 m a = None"
  by (simp add: load8_def)

lemma load8_Some_iff: "load8 m a = Some b \<longleftrightarrow> a < length m \<and> m ! a = b"
  by (auto simp: load8_def)

section \<open>Byte order (libbpf/src/bpf_endian.h)\<close>

definition swab16 :: "u16 \<Rightarrow> u16" where
  "swab16 x = push_bit 8 x OR drop_bit 8 x"

definition bpf_htons :: "u16 \<Rightarrow> u16" where
  "bpf_htons x = swab16 x"

definition bpf_ntohs :: "u16 \<Rightarrow> u16" where
  "bpf_ntohs x = swab16 x"

lemma bit_swab16: "bit (swab16 x) n \<longleftrightarrow> n < 16 \<and> bit x (if n < 8 then n + 8 else n - 8)"
proof -
  have "\<not> bit x n" if "16 \<le> n" for n
    using that bit_imp_le_length [of x n] by auto
  then show ?thesis
    by (auto simp: swab16_def bit_simps add.commute)
qed

lemma swab16_swab16 [simp]: "swab16 (swab16 x) = x"
  by (rule bit_word_eqI) (auto simp: bit_swab16)

lemma bpf_ntohs_htons [simp]: "bpf_ntohs (bpf_htons x) = x" "bpf_htons (bpf_ntohs x) = x"
  by (simp_all add: bpf_htons_def bpf_ntohs_def)

lemma bpf_htons_inject [simp]: "bpf_htons x = bpf_htons y \<longleftrightarrow> x = y"
  by (metis bpf_ntohs_htons(1))

lemma swab16_and: "swab16 (x AND y) = swab16 x AND swab16 y"
  by (rule bit_word_eqI) (simp add: bit_swab16 bit_simps)

lemma swab16_eq_0 [simp]: "swab16 x = 0 \<longleftrightarrow> x = 0"
  by (metis swab16_def swab16_swab16 or.right_neutral push_bit_of_0 drop_bit_of_0)

text \<open>
  The host value of a big-endian field is its first byte times 256 plus its second byte;
  swapping the bytes of a little-endian load gives it.
\<close>

definition be16 :: "u8 \<Rightarrow> u8 \<Rightarrow> nat" where
  "be16 hi lo = 256 * unat hi + unat lo"

lemma bit_byte_out: "8 \<le> n \<Longrightarrow> \<not> bit (b :: u8) n"
  using bit_imp_le_length [of b n] by auto

lemma swab16_le16: "swab16 (le16 b0 b1) = le16 b1 b0"
  by (rule bit_word_eqI) (auto simp: bit_swab16 le16_def bit_simps bit_byte_out)

lemma unat_byte_less: "unat (b :: u8) < 256"
  using unsigned_less [of b, where 'a = nat] by simp

lemma unat_le16: "unat (le16 b0 b1) = be16 b1 b0"
proof -
  have "ucast b0 AND push_bit 8 (ucast b1 :: u16) = 0"
    by (rule bit_word_eqI) (auto simp: bit_simps bit_byte_out)
  then have eq: "le16 b0 b1 = ucast b0 + push_bit 8 (ucast b1)"
    by (simp only: le16_def disjunctive_add_eq_or)
  have "unat (push_bit 8 (ucast b1 :: u16)) = 256 * unat b1"
    using unat_byte_less [of b1]
    by (simp only: unsigned_push_bit_eq unsigned_ucast_eq) (simp add: push_bit_eq_mult take_bit_eq_mod)
  then show ?thesis
    using unat_byte_less [of b0] unat_byte_less [of b1]
    by (simp only: eq unat_word_ariths be16_def) (simp add: unsigned_ucast_eq take_bit_eq_mod)
qed

section \<open>Fixed-size arrays\<close>

text \<open>
  A C array is a list of its declared length; reading or writing outside it is a fault.
\<close>

definition arr_get :: "'a list \<Rightarrow> nat \<Rightarrow> 'a option" where
  "arr_get xs i = (if i < length xs then Some (xs ! i) else None)"

definition arr_set :: "'a list \<Rightarrow> nat \<Rightarrow> 'a \<Rightarrow> 'a list option" where
  "arr_set xs i v = (if i < length xs then Some (xs[i := v]) else None)"

lemma arr_in [fault]:
  "i < length xs \<Longrightarrow> arr_get xs i = Some (xs ! i)"
  "i < length xs \<Longrightarrow> arr_set xs i v = Some (xs[i := v])"
  by (simp_all add: arr_get_def arr_set_def)

lemma arr_out:
  "length xs \<le> i \<Longrightarrow> arr_get xs i = None"
  "length xs \<le> i \<Longrightarrow> arr_set xs i v = None"
  by (simp_all add: arr_get_def arr_set_def)

lemma arr_SomeD:
  "arr_get xs i = Some v \<Longrightarrow> i < length xs \<and> v = xs ! i"
  "arr_set xs i v = Some ys \<Longrightarrow> i < length xs \<and> ys = xs[i := v]"
  by (auto simp: arr_get_def arr_set_def split: if_splits)

text \<open>A search from index 0 upwards finds the first index, and the range splits there.\<close>

lemma first_index:
  fixes P :: "nat \<Rightarrow> bool"
  assumes "\<exists>k<n. P k"
  obtains k where "k < n" "P k" "\<forall>i<k. \<not> P i"
proof -
  from assms obtain k where k: "k < n \<and> P k" and least: "\<forall>i<k. \<not> (i < n \<and> P i)"
    using exists_least_iff [of "\<lambda>k. k < n \<and> P k"] by blast
  from k least have "\<forall>i<k. \<not> P i" by auto
  with k that show thesis by blast
qed

lemma upt_split: "k < n \<Longrightarrow> [0..<n] = [0..<k] @ k # [Suc k..<n]"
  by (metis less_imp_le_nat upt_add_eq_append upt_conv_Cons le_add_diff_inverse zero_le)

end
