(* ===== verification/Headers.thy ===== *)
theory Headers
  imports Prelude
begin

text \<open>
  The protocol headers of <linux/if_ether.h>, <linux/ip.h>, <linux/ipv6.h>, <linux/tcp.h>,
  <linux/udp.h> and <linux/icmp.h> as the parsers see them: the size of each struct and a load
  for each field the code reads, at the field's offset in the kernel's ABI on a little-endian
  host. The structs are system headers, not files of the repository; their layout is the wire
  format of the protocols. A 16- or 32-bit field is loaded as the code loads it, that is in
  network byte order and without conversion.
\<close>

section \<open>Sizes\<close>

definition sizeof_ethhdr :: nat where "sizeof_ethhdr = 14"
definition sizeof_vlan_hdr :: nat where "sizeof_vlan_hdr = 4"
definition sizeof_iphdr :: nat where "sizeof_iphdr = 20"
definition sizeof_ipv6hdr :: nat where "sizeof_ipv6hdr = 40"
definition sizeof_tcphdr :: nat where "sizeof_tcphdr = 20"
definition sizeof_udphdr :: nat where "sizeof_udphdr = 8"
definition sizeof_icmphdr :: nat where "sizeof_icmphdr = 8"
definition sizeof_icmp6hdr :: nat where "sizeof_icmp6hdr = 8"
definition sizeof_icmphdr_common :: nat where "sizeof_icmphdr_common = 4"

lemmas sizeof_defs [simp] =
  sizeof_ethhdr_def sizeof_vlan_hdr_def sizeof_iphdr_def sizeof_ipv6hdr_def sizeof_tcphdr_def
  sizeof_udphdr_def sizeof_icmphdr_def sizeof_icmp6hdr_def sizeof_icmphdr_common_def

section \<open>Fields\<close>

text \<open>The two 4-bit bit-fields of a byte; the first declared field is the low nibble.\<close>

definition low_nibble :: "u8 \<Rightarrow> nat" where "low_nibble b = unat (b AND 0x0F)"
definition high_nibble :: "u8 \<Rightarrow> nat" where "high_nibble b = unat (drop_bit 4 b)"

definition eth_h_proto :: "bytes \<Rightarrow> nat \<Rightarrow> u16 option" where
  [layout]: "eth_h_proto m p = load16 m (p + 12)"

definition vlan_h_TCI :: "bytes \<Rightarrow> nat \<Rightarrow> u16 option" where
  [layout]: "vlan_h_TCI m p = load16 m p"

definition vlan_h_encapsulated_proto :: "bytes \<Rightarrow> nat \<Rightarrow> u16 option" where
  [layout]: "vlan_h_encapsulated_proto m p = load16 m (p + 2)"

text \<open>\<open>ihl\<close> is the low nibble of the first byte (the little-endian bit-field order).\<close>

definition ip_ihl :: "bytes \<Rightarrow> nat \<Rightarrow> nat option" where
  [layout]: "ip_ihl m p = do { b \<leftarrow> load8 m p; Some (low_nibble b) }"

definition ip_tot_len :: "bytes \<Rightarrow> nat \<Rightarrow> u16 option" where
  [layout]: "ip_tot_len m p = load16 m (p + 2)"

definition ip_frag_off :: "bytes \<Rightarrow> nat \<Rightarrow> u16 option" where
  [layout]: "ip_frag_off m p = load16 m (p + 6)"

definition ip_protocol :: "bytes \<Rightarrow> nat \<Rightarrow> u8 option" where
  [layout]: "ip_protocol m p = load8 m (p + 9)"

definition ip_saddr :: "bytes \<Rightarrow> nat \<Rightarrow> u32 option" where
  [layout]: "ip_saddr m p = load32 m (p + 12)"

definition ip_daddr :: "bytes \<Rightarrow> nat \<Rightarrow> u32 option" where
  [layout]: "ip_daddr m p = load32 m (p + 16)"

definition ip6_nexthdr :: "bytes \<Rightarrow> nat \<Rightarrow> u8 option" where
  [layout]: "ip6_nexthdr m p = load8 m (p + 6)"

definition tcp_source :: "bytes \<Rightarrow> nat \<Rightarrow> u16 option" where
  [layout]: "tcp_source m p = load16 m p"

definition tcp_dest :: "bytes \<Rightarrow> nat \<Rightarrow> u16 option" where
  [layout]: "tcp_dest m p = load16 m (p + 2)"

definition tcp_seq :: "bytes \<Rightarrow> nat \<Rightarrow> u32 option" where
  [layout]: "tcp_seq m p = load32 m (p + 4)"

text \<open>\<open>doff\<close> is the high nibble of byte 12, \<open>syn\<close> is bit 1 of byte 13.\<close>

definition tcp_doff :: "bytes \<Rightarrow> nat \<Rightarrow> nat option" where
  [layout]: "tcp_doff m p = do { b \<leftarrow> load8 m (p + 12); Some (high_nibble b) }"

definition tcp_syn :: "bytes \<Rightarrow> nat \<Rightarrow> u16 option" where
  [layout]: "tcp_syn m p = do { b \<leftarrow> load8 m (p + 13); Some (if bit b 1 then 1 else 0) }"

definition udp_source :: "bytes \<Rightarrow> nat \<Rightarrow> u16 option" where
  [layout]: "udp_source m p = load16 m p"

definition udp_dest :: "bytes \<Rightarrow> nat \<Rightarrow> u16 option" where
  [layout]: "udp_dest m p = load16 m (p + 2)"

definition udp_len :: "bytes \<Rightarrow> nat \<Rightarrow> u16 option" where
  [layout]: "udp_len m p = load16 m (p + 4)"

definition icmp_type :: "bytes \<Rightarrow> nat \<Rightarrow> u8 option" where
  [layout]: "icmp_type m p = load8 m p"

lemma low_nibble_less: "low_nibble b < 16"
proof -
  have "unat (b AND 0x0F) \<le> unat (0x0F :: u8)"
    by (rule word_and_le1 [THEN word_le_nat_alt [THEN iffD1]])
  then show ?thesis by (simp add: low_nibble_def)
qed

lemma high_nibble_less: "high_nibble b < 16"
proof -
  have "unat b < 256" using unsigned_less [of b, where 'a = nat] by simp
  then show ?thesis by (simp add: high_nibble_def drop_bit_eq_div unat_div)
qed

lemma ip_ihl_in [fault]: "p < length m \<Longrightarrow> ip_ihl m p = Some (low_nibble (m ! p))"
  by (simp add: ip_ihl_def fault)

lemma tcp_doff_in [fault]:
  "p + 12 < length m \<Longrightarrow> tcp_doff m p = Some (high_nibble (m ! (p + 12)))"
  by (simp add: tcp_doff_def fault)

section \<open>Protocol numbers\<close>

definition ETH_P_IP :: u16 where "ETH_P_IP = 0x0800"
definition ETH_P_IPV6 :: u16 where "ETH_P_IPV6 = 0x86DD"
definition ETH_P_8021Q :: u16 where "ETH_P_8021Q = 0x8100"
definition ETH_P_8021AD :: u16 where "ETH_P_8021AD = 0x88A8"

definition IPPROTO_ICMP :: int where "IPPROTO_ICMP = 1"
definition IPPROTO_TCP :: int where "IPPROTO_TCP = 6"
definition IPPROTO_UDP :: int where "IPPROTO_UDP = 17"

lemmas proto_defs = ETH_P_IP_def ETH_P_IPV6_def ETH_P_8021Q_def ETH_P_8021AD_def
  IPPROTO_ICMP_def IPPROTO_TCP_def IPPROTO_UDP_def

end
