(* ===== verification/Parsing.thy ===== *)
theory Parsing
  imports Headers
begin

text \<open>
  main/common/parsing.h: the five header parsers of the XDP program and the contract they
  share. A parser takes the packet bytes, \<open>data_end\<close> and the cursor, and returns the C return
  value, the cursor after the call and the value stored through the header out-parameter
  (\<^term>\<open>None\<close> when the call does not store one). The outer option is \<^term>\<open>None\<close> exactly when a
  load leaves the packet.
\<close>

record hdr_cursor =
  pos :: nat

type_synonym parse_result = "(int \<times> hdr_cursor \<times> nat option) option"

section \<open>The parsers\<close>

definition parse_ethhdr :: "bytes \<Rightarrow> nat \<Rightarrow> hdr_cursor \<Rightarrow> parse_result" where
  "parse_ethhdr m data_end nh =
     (let eth = pos nh; hdrsize = sizeof_ethhdr in
      if eth + sizeof_ethhdr > data_end then Some (-1, nh, None)
      else do {
        p \<leftarrow> eth_h_proto m eth;
        Some (uint p, nh\<lparr>pos := pos nh + hdrsize\<rparr>, Some eth)
      })"

definition parse_iphdr :: "bytes \<Rightarrow> nat \<Rightarrow> hdr_cursor \<Rightarrow> parse_result" where
  "parse_iphdr m data_end nh =
     (let iph = pos nh in
      if iph + sizeof_iphdr > data_end then Some (-1, nh, None)
      else do {
        ihl \<leftarrow> ip_ihl m iph;
        let hdrsize = int ihl * 4;
        if size_of_int hdrsize < of_nat sizeof_iphdr then Some (-1, nh, None)
        else if pos nh + nat hdrsize > data_end then Some (-1, nh, None)
        else do {
          p \<leftarrow> ip_protocol m iph;
          Some (uint p, nh\<lparr>pos := pos nh + nat hdrsize\<rparr>, Some iph)
        }
      })"

definition parse_icmphdr :: "bytes \<Rightarrow> nat \<Rightarrow> hdr_cursor \<Rightarrow> parse_result" where
  "parse_icmphdr m data_end nh =
     (let icmph = pos nh in
      if icmph + sizeof_icmphdr > data_end then Some (-1, nh, None)
      else do {
        t \<leftarrow> icmp_type m icmph;
        Some (uint t, nh\<lparr>pos := icmph + sizeof_icmphdr\<rparr>, Some icmph)
      })"

text \<open>
  The UDP parser moves the cursor and stores the header before it looks at the length, so
  both are also changed when it returns -1 for a length below 8.
\<close>

definition parse_udphdr :: "bytes \<Rightarrow> nat \<Rightarrow> hdr_cursor \<Rightarrow> parse_result" where
  "parse_udphdr m data_end nh =
     (let h = pos nh in
      if h + sizeof_udphdr > data_end then Some (-1, nh, None)
      else do {
        hlen \<leftarrow> udp_len m h;
        let len = int_of_size (ucast (bpf_ntohs hlen) - of_nat sizeof_udphdr);
        if len < 0 then Some (-1, nh\<lparr>pos := h + sizeof_udphdr\<rparr>, Some h)
        else Some (len, nh\<lparr>pos := h + sizeof_udphdr\<rparr>, Some h)
      })"

definition parse_tcphdr :: "bytes \<Rightarrow> nat \<Rightarrow> hdr_cursor \<Rightarrow> parse_result" where
  "parse_tcphdr m data_end nh =
     (let h = pos nh in
      if h + sizeof_tcphdr > data_end then Some (-1, nh, None)
      else do {
        doff \<leftarrow> tcp_doff m h;
        let len = int doff * 4;
        if size_of_int len < of_nat sizeof_tcphdr then Some (-1, nh, None)
        else if pos nh + nat len > data_end then Some (-1, nh, None)
        else Some (len, nh\<lparr>pos := pos nh + nat len\<rparr>, Some h)
      })"

lemmas parser_defs = parse_ethhdr_def parse_iphdr_def parse_icmphdr_def parse_udphdr_def
  parse_tcphdr_def

section \<open>The contract of a header parser\<close>

text \<open>
  What the XDP program relies on when it calls a parser on a packet whose memory reaches
  \<open>data_end\<close>: the call does not fault; on success the header lies inside the packet and the
  cursor has moved past it, not beyond \<open>data_end\<close>; on failure the result is -1.
\<close>

locale header_parser =
  fixes parse :: "bytes \<Rightarrow> nat \<Rightarrow> hdr_cursor \<Rightarrow> parse_result"
    and hdr_size :: nat
  assumes no_fault: "data_end \<le> length m \<Longrightarrow> parse m data_end nh \<noteq> None"
    and parse_ok: "data_end \<le> length m \<Longrightarrow> parse m data_end nh = Some (r, nh', h) \<Longrightarrow> 0 \<le> r \<Longrightarrow>
      h = Some (pos nh) \<and> pos nh + hdr_size \<le> pos nh' \<and> pos nh' \<le> data_end"
    and parse_error: "data_end \<le> length m \<Longrightarrow> parse m data_end nh = Some (r, nh', h) \<Longrightarrow> r < 0 \<Longrightarrow> r = -1"
    and parse_short: "data_end \<le> length m \<Longrightarrow> data_end < pos nh + hdr_size \<Longrightarrow>
      parse m data_end nh = Some (-1, nh, None)"
begin

text \<open>The case analysis of a call: success with everything the caller may use, or -1.\<close>

lemma parse_cases:
  assumes "data_end \<le> length m"
  obtains (ok) r nh' where "parse m data_end nh = Some (r, nh', Some (pos nh))" "0 \<le> r"
      "pos nh + hdr_size \<le> pos nh'" "pos nh' \<le> data_end"
    | (error) nh' h where "parse m data_end nh = Some (-1, nh', h)"
proof -
  obtain r nh' h where res: "parse m data_end nh = Some (r, nh', h)"
    using no_fault [OF assms, of nh] by (metis not_None_eq prod_cases3)
  show thesis
  proof (cases "0 \<le> r")
    case True
    with parse_ok [OF assms res] res show thesis by (auto intro: that(1))
  next
    case False
    with parse_error [OF assms res] res show thesis by (auto intro: that(2))
  qed
qed

text \<open>After a successful parse every byte of the header can be loaded.\<close>

lemma header_bytes_readable:
  assumes "data_end \<le> length m" "parse m data_end nh = Some (r, nh', h)" "0 \<le> r" "i < hdr_size"
  shows "load8 m (pos nh + i) \<noteq> None"
  using parse_ok [OF assms(1-3)] assms(1,4) by (simp add: load8_def)

text \<open>The contract over a whole packet, as one statement about the result.\<close>

lemma stays_inside:
  "\<exists>r nh' h. parse m (length m) nh = Some (r, nh', h) \<and> (r < 0 \<longrightarrow> r = -1) \<and>
    (0 \<le> r \<longrightarrow> h = Some (pos nh) \<and> pos nh + hdr_size \<le> pos nh' \<and> pos nh' \<le> length m) \<and>
    (length m < pos nh + hdr_size \<longrightarrow> r = -1)"
  by (rule parse_cases [OF order_refl, of m nh]) auto

lemma header_inside:
  assumes "data_end \<le> length m" "parse m data_end nh = Some (r, nh', h)" "0 \<le> r"
  shows "pos nh + hdr_size \<le> length m"
  using parse_ok [OF assms] assms(1) by linarith

end

text \<open>All parsers but the UDP one also leave cursor and out-parameter alone on failure.\<close>

locale header_parser_frame = header_parser +
  assumes frame: "data_end \<le> length m \<Longrightarrow> parse m data_end nh = Some (r, nh', h) \<Longrightarrow> r < 0 \<Longrightarrow>
      nh' = nh \<and> h = None"
begin

lemma failed_result:
  assumes "data_end \<le> length m" "parse m data_end nh = Some (r, nh', h)" "r < 0"
  shows "parse m data_end nh = Some (-1, nh, None)"
  using frame [OF assms] parse_error [OF assms] assms(2) by simp

end

text \<open>Comparison of a small nonnegative \<open>int\<close> with a \<open>sizeof\<close>, as the parsers make it.\<close>

lemma hdrsize_check:
  "n < 16 \<Longrightarrow> (size_of_int (int n * 4) < 20) = (n < 5)"
  "n < 16 \<Longrightarrow> (size_of_int (4 * int n) < 20) = (n < 5)"
  using size_of_int_less_iff [of "int n * 4" 20] by (simp_all add: mult.commute)

text \<open>
  The two variable-length parsers in closed form: the nibble that holds the header length in
  32-bit words must be at least 5 and the whole header must fit.
\<close>

lemma parse_iphdr_eq:
  assumes "data_end \<le> length m"
  shows "parse_iphdr m data_end nh =
    (let n = low_nibble (m ! pos nh) in
     if data_end < pos nh + 20 \<or> n < 5 \<or> data_end < pos nh + 4 * n then Some (-1, nh, None)
     else Some (uint (m ! (pos nh + 9)), nh\<lparr>pos := pos nh + 4 * n\<rparr>, Some (pos nh)))"
  using assms
  by (auto simp: parse_iphdr_def ip_protocol_def fault Let_def hdrsize_check low_nibble_less high_nibble_less
      nat_mult_distrib mult.commute)

lemma parse_tcphdr_eq:
  assumes "data_end \<le> length m"
  shows "parse_tcphdr m data_end nh =
    (let n = high_nibble (m ! (pos nh + 12)) in
     if data_end < pos nh + 20 \<or> n < 5 \<or> data_end < pos nh + 4 * n then Some (-1, nh, None)
     else Some (int (4 * n), nh\<lparr>pos := pos nh + 4 * n\<rparr>, Some (pos nh)))"
  using assms
  by (auto simp: parse_tcphdr_def fault Let_def hdrsize_check low_nibble_less high_nibble_less
      nat_mult_distrib mult.commute)

interpretation eth: header_parser_frame parse_ethhdr sizeof_ethhdr
  by unfold_locales (auto simp: parser_defs layout fault Let_def split: if_splits)

interpretation icmp: header_parser_frame parse_icmphdr sizeof_icmphdr
  by unfold_locales (auto simp: parser_defs layout fault Let_def split: if_splits)

interpretation udp: header_parser parse_udphdr sizeof_udphdr
  by unfold_locales (auto simp: parser_defs layout fault Let_def split: if_splits)

interpretation ip: header_parser_frame parse_iphdr sizeof_iphdr
  by unfold_locales (auto simp: parse_iphdr_eq Let_def split: if_splits)

interpretation tcp: header_parser_frame parse_tcphdr sizeof_tcphdr
  by unfold_locales (auto simp: parse_tcphdr_eq Let_def split: if_splits)

end
