(* ===== verification/Xdp_Kernel.thy ===== *)
theory Xdp_Kernel
  imports Headers
begin

text \<open>
  The state the XDP program shares with user space (main/common/map_define.h,
  main/common/xdp_stats_kern.h), the packet records of main/common/policy_struct_kern_user.h,
  the rules of main/common/check_rules.h and the statistics of xdp_stats_kern.h.

  The BPF maps belong to the kernel. Of the two address lists the program only reads entries,
  so each is the function its lookups compute, arbitrary in every theorem. Of the statistics map
  the program updates the entry a lookup returns a pointer to, so it is the function from keys to
  entries of the current CPU; \<^term>\<open>None\<close> is the NULL pointer. Samples handed to
  \<open>bpf_perf_event_output\<close> and calls of \<open>bpf_trace_printk\<close> are recorded in order.
\<close>

section \<open>Records\<close>

record datarec =
  rx_packets :: u64
  rx_bytes :: u64

record packet_rec =
  protocol :: u8
  src_addr :: u32
  dest_addr :: u32
  tot_len :: u16
  ip_flags :: "u8 list"
  frag_off :: u16
  tcp_flags :: "u8 list"

record pkt_meta =
  src :: u32
  dst :: u32
  port16 :: "u16 list"
  l3_proto :: u16
  l4_proto :: u16
  data_len :: u16
  pkt_len :: u16
  seq :: u32

text \<open>The zero-initialised records of the C declarations \<open>= {}\<close>.\<close>

definition packet_rec_zero :: packet_rec where
  "packet_rec_zero = \<lparr>protocol = 0, src_addr = 0, dest_addr = 0, tot_len = 0,
     ip_flags = [0, 0, 0], frag_off = 0, tcp_flags = [0, 0, 0, 0, 0, 0]\<rparr>"

definition pkt_meta_zero :: pkt_meta where
  "pkt_meta_zero = \<lparr>src = 0, dst = 0, port16 = [0, 0], l3_proto = 0, l4_proto = 0,
     data_len = 0, pkt_len = 0, seq = 0\<rparr>"

type_synonym printk_call = "string \<times> u32 list"

record xdp_kernel =
  white_list :: "u32 \<Rightarrow> u32 option"
  black_list :: "u32 \<Rightarrow> u32 option"
  xdp_stats_map :: "u32 \<Rightarrow> datarec option"
  perf_map :: "(u64 \<times> pkt_meta) list"
  trace_pipe :: "printk_call list"

definition bpf_printk :: "string \<Rightarrow> u32 list \<Rightarrow> xdp_kernel \<Rightarrow> xdp_kernel" where
  "bpf_printk fmt args st = st\<lparr>trace_pipe := trace_pipe st @ [(fmt, args)]\<rparr>"

lemma bpf_printk_frame [simp]:
  "white_list (bpf_printk f a st) = white_list st"
  "black_list (bpf_printk f a st) = black_list st"
  "xdp_stats_map (bpf_printk f a st) = xdp_stats_map st"
  "perf_map (bpf_printk f a st) = perf_map st"
  by (simp_all add: bpf_printk_def)

section \<open>Verdicts\<close>

definition XDP_ABORTED :: u32 where "XDP_ABORTED = 0"
definition XDP_DROP :: u32 where "XDP_DROP = 1"
definition XDP_PASS :: u32 where "XDP_PASS = 2"
definition XDP_TX :: u32 where "XDP_TX = 3"
definition XDP_REDIRECT :: u32 where "XDP_REDIRECT = 4"
definition XDP_ACTION_MAX :: u32 where "XDP_ACTION_MAX = XDP_REDIRECT + 1"

lemmas xdp_action_defs = XDP_ABORTED_def XDP_DROP_def XDP_PASS_def XDP_TX_def XDP_REDIRECT_def
  XDP_ACTION_MAX_def

section \<open>Rules (main/common/check_rules.h)\<close>

definition IP_MF :: u16 where "IP_MF = 0x2000"
definition IP_OFFMASK :: u16 where "IP_OFFMASK = 0x1fff"

definition in_white_list :: "xdp_kernel \<Rightarrow> u32 \<Rightarrow> int" where
  "in_white_list st src_address = (if white_list st src_address \<noteq> None then 1 else 0)"

definition in_black_list :: "xdp_kernel \<Rightarrow> u32 \<Rightarrow> int" where
  "in_black_list st src_address = (if black_list st src_address \<noteq> None then 1 else 0)"

definition icmp_fragment :: "u16 \<Rightarrow> int" where
  "icmp_fragment frag = (if frag AND bpf_htons (IP_MF OR IP_OFFMASK) \<noteq> 0 then 1 else 0)"

definition icmp_large_packet :: "u16 \<Rightarrow> int" where
  "icmp_large_packet len = (if bpf_htons len > 0x0400 then 1 else 0)"

definition icmp_stupid :: "packet_rec \<Rightarrow> xdp_kernel \<Rightarrow> int \<times> xdp_kernel" where
  "icmp_stupid pkt st =
     (if icmp_fragment (frag_off pkt) \<noteq> 0 then
        (1, bpf_printk (''action: DROP, src: %u, dst: %u, reason_id: Fragmented ICMP Packet'' @ [CHR 0x0A])
              [src_addr pkt, dest_addr pkt] st)
      else if icmp_large_packet (tot_len pkt) \<noteq> 0 then
        (1, bpf_printk (''action: DROP, src: %u, dst: %u, reason_id: Large ICMP Packet'' @ [CHR 0x0A])
              [src_addr pkt, dest_addr pkt] st)
      else (0, st))"

definition tcp_fragment :: "u16 \<Rightarrow> u8 \<Rightarrow> int" where
  "tcp_fragment frag syn_flag =
     (if frag AND bpf_htons (IP_MF OR IP_OFFMASK) \<noteq> 0 \<and> syn_flag AND 0x0001 \<noteq> 0 then 1 else 0)"

definition tcp_stupid :: "packet_rec \<Rightarrow> xdp_kernel \<Rightarrow> int \<times> xdp_kernel" where
  "tcp_stupid pkt st =
     (if tcp_fragment (frag_off pkt) (tcp_flags pkt ! 4) \<noteq> 0 then
        (1, bpf_printk (''action: DROP, src: %u, dst: %u, reason_id: Fragmented TCP Packet'' @ [CHR 0x0A])
              [src_addr pkt, dest_addr pkt] st)
      else (0, st))"

text \<open>The rules in host arithmetic: fragment bits are the low 14 bits of the big-endian field.\<close>

definition is_fragment :: "u8 \<Rightarrow> u8 \<Rightarrow> bool" where
  "is_fragment hi lo \<longleftrightarrow> be16 hi lo mod 2 ^ 14 \<noteq> 0"

lemma fragment_mask:
  "(le16 hi lo AND bpf_htons (IP_MF OR IP_OFFMASK) \<noteq> 0) = is_fragment hi lo"
proof -
  have "le16 hi lo AND bpf_htons (IP_MF OR IP_OFFMASK)
    = swab16 (le16 lo hi AND (IP_MF OR IP_OFFMASK))"
    by (simp only: swab16_and swab16_le16 bpf_htons_def)
  moreover have "x AND (IP_MF OR IP_OFFMASK) = 0 \<longleftrightarrow> unat x mod 2 ^ 14 = 0" for x :: u16
  proof -
    have "IP_MF OR IP_OFFMASK = mask 14"
      by (simp add: IP_MF_def IP_OFFMASK_def mask_eq_exp_minus_1)
    then have "x AND (IP_MF OR IP_OFFMASK) = take_bit 14 x"
      by (simp only: take_bit_eq_mask)
    moreover have "take_bit 14 x = 0 \<longleftrightarrow> take_bit 14 (unat x) = 0"
      by (metis unsigned_0 unsigned_take_bit_eq unsigned_word_eqI)
    ultimately show ?thesis by (simp only: take_bit_eq_mod)
  qed
  ultimately show ?thesis by (simp only: swab16_eq_0 is_fragment_def unat_le16 simp_thms)
qed

lemma large_packet_mask: "(bpf_htons (le16 hi lo) > 0x0400) = (be16 hi lo > 1024)"
  by (simp add: bpf_htons_def swab16_le16 word_less_nat_alt unat_le16)

section \<open>Statistics and samples (main/common/xdp_stats_kern.h)\<close>

definition BPF_F_CURRENT_CPU :: u64 where "BPF_F_CURRENT_CPU = 0xffffffff"

definition xdp_stats_record_action ::
    "bytes \<Rightarrow> u32 \<Rightarrow> pkt_meta \<Rightarrow> xdp_kernel \<Rightarrow> u32 \<times> xdp_kernel" where
  "xdp_stats_record_action ctx action pkt st =
     (if action \<ge> XDP_ACTION_MAX then (XDP_ABORTED, st)
      else case xdp_stats_map st action of
        None \<Rightarrow> (XDP_ABORTED, st)
      | Some rec \<Rightarrow>
          let rec = rec\<lparr>rx_packets := rx_packets rec + 1\<rparr>;
              rec = rec\<lparr>rx_bytes := rx_bytes rec + ucast (of_nat (length ctx) :: u32)\<rparr>;
              st = st\<lparr>xdp_stats_map := (xdp_stats_map st)(action := Some rec)\<rparr>
          in if action \<noteq> XDP_PASS then (action, st)
             else (action, st\<lparr>perf_map := perf_map st @
                     [(push_bit 32 (ucast (pkt_len pkt)) OR BPF_F_CURRENT_CPU, pkt)]\<rparr>))"

end
