(* ===== verification/Xdp_Prog.thy ===== *)
theory Xdp_Prog
  imports Parsing Xdp_Kernel
begin

text \<open>
  main/xdp_prog_kern.c: the XDP program. \<open>xdp_parser_func\<close> runs on one packet and returns the
  verdict and the kernel state after the run; \<^term>\<open>None\<close> is a memory fault. The inner switch
  over the transport protocol is one definition per case, each ending in \<open>Goto_out\<close> (the
  \<open>goto out\<close> of the code, with the action set before it) or in \<open>Break\<close>.
\<close>

datatype flow = Goto_out u32 pkt_meta | Break u32 pkt_meta

definition xdp_tcp_case ::
    "bytes \<Rightarrow> nat \<Rightarrow> hdr_cursor \<Rightarrow> packet_rec \<Rightarrow> u32 \<Rightarrow> pkt_meta \<Rightarrow> xdp_kernel \<Rightarrow> (flow \<times> xdp_kernel) option"
  where
  "xdp_tcp_case m data_end nh pkt off meta st = do {
     (ret, nh, tcphdr) \<leftarrow> parse_tcphdr m data_end nh;
     if ret < 0 then Some (Goto_out XDP_DROP meta, st)
     else do {
       h \<leftarrow> tcphdr;
       syn \<leftarrow> tcp_syn m h;
       let pkt = pkt\<lparr>tcp_flags := (tcp_flags pkt)[4 := ucast syn]\<rparr>;
       let (stupid, st) = tcp_stupid pkt st;
       if stupid \<noteq> 0 then Some (Goto_out XDP_DROP meta, st)
       else do {
         let off = off + of_nat sizeof_tcphdr;
         s \<leftarrow> tcp_source m h;
         d \<leftarrow> tcp_dest m h;
         q \<leftarrow> tcp_seq m h;
         Some (Break off (meta\<lparr>port16 := [s, d], seq := q\<rparr>), st)
       }
     }
   }"

definition xdp_udp_case ::
    "bytes \<Rightarrow> nat \<Rightarrow> hdr_cursor \<Rightarrow> u32 \<Rightarrow> pkt_meta \<Rightarrow> xdp_kernel \<Rightarrow> (flow \<times> xdp_kernel) option"
  where
  "xdp_udp_case m data_end nh off meta st = do {
     (ret, nh, udphdr) \<leftarrow> parse_udphdr m data_end nh;
     if ret < 0 then Some (Goto_out XDP_DROP meta, st)
     else do {
       h \<leftarrow> udphdr;
       let off = off + of_nat sizeof_udphdr;
       s \<leftarrow> udp_source m h;
       d \<leftarrow> udp_dest m h;
       Some (Break off (meta\<lparr>port16 := [s, d]\<rparr>), st)
     }
   }"

text \<open>The return value of \<open>parse_icmphdr\<close> is not checked.\<close>

definition xdp_icmp_case ::
    "bytes \<Rightarrow> nat \<Rightarrow> hdr_cursor \<Rightarrow> packet_rec \<Rightarrow> u32 \<Rightarrow> pkt_meta \<Rightarrow> xdp_kernel \<Rightarrow> (flow \<times> xdp_kernel) option"
  where
  "xdp_icmp_case m data_end nh pkt off meta st = do {
     (_, nh, icmphdr) \<leftarrow> parse_icmphdr m data_end nh;
     let (stupid, st) = icmp_stupid pkt st;
     if stupid \<noteq> 0 then Some (Goto_out XDP_DROP meta, st)
     else Some (Break (off + of_nat sizeof_icmphdr) (meta\<lparr>port16 := [0, 0]\<rparr>), st)
   }"

text \<open>The switch over the transport protocol.\<close>

definition xdp_l4_switch ::
    "bytes \<Rightarrow> nat \<Rightarrow> hdr_cursor \<Rightarrow> int \<Rightarrow> packet_rec \<Rightarrow> u32 \<Rightarrow> u32 \<Rightarrow> pkt_meta \<Rightarrow> xdp_kernel \<Rightarrow> (flow \<times> xdp_kernel) option"
  where
  "xdp_l4_switch m data_end nh ip_type pkt action off meta st =
     (if ip_type = IPPROTO_TCP then xdp_tcp_case m data_end nh pkt off meta st
      else if ip_type = IPPROTO_UDP then xdp_udp_case m data_end nh off meta st
      else if ip_type = IPPROTO_ICMP then xdp_icmp_case m data_end nh pkt off meta st
      else Some (Goto_out action meta, st))"

text \<open>The data of a passed packet, filled in before \<open>out:\<close>.\<close>

definition xdp_fill_meta ::
    "bytes \<Rightarrow> nat \<Rightarrow> nat option \<Rightarrow> int \<Rightarrow> u32 \<Rightarrow> pkt_meta \<Rightarrow> pkt_meta option"
  where
  "xdp_fill_meta m data_end iphdr eth_type off meta = do {
     let off = off + of_nat (sizeof_ethhdr + sizeof_iphdr);
     ip \<leftarrow> iphdr;
     s \<leftarrow> ip_saddr m ip;
     d \<leftarrow> ip_daddr m ip;
     p \<leftarrow> ip_protocol m ip;
     Some (meta\<lparr>pkt_len := of_nat data_end,
                data_len := ucast (of_nat data_end - ucast off :: u64),
                l3_proto := bpf_htons (word_of_int eth_type),
                src := s, dst := d, l4_proto := ucast p\<rparr>)
   }"

definition xdp_ipv4_case ::
    "bytes \<Rightarrow> nat \<Rightarrow> hdr_cursor \<Rightarrow> int \<Rightarrow> u32 \<Rightarrow> xdp_kernel \<Rightarrow> (u32 \<times> xdp_kernel) option"
  where
  "xdp_ipv4_case m data_end nh eth_type action st = do {
     (ip_type, nh, iphdr) \<leftarrow> parse_iphdr m data_end nh;
     if ip_type < 0 then Some (xdp_stats_record_action m XDP_DROP pkt_meta_zero st)
     else do {
       ip \<leftarrow> iphdr;
       saddr \<leftarrow> ip_saddr m ip;
       daddr \<leftarrow> ip_daddr m ip;
       if in_white_list st saddr \<noteq> 0 then
         Some (XDP_PASS, bpf_printk (''action: PASS, src: %u, dst: %u, reason_1: IP in WHITE LIST'' @ [CHR 0x0A])
                 [saddr, daddr] st)
       else if in_black_list st saddr \<noteq> 0 then
         Some (XDP_DROP, bpf_printk (''action: DROP, src: %u, dst: %u, reason_1: IP in BLACK LIST'' @ [CHR 0x0A])
                 [saddr, daddr] st)
       else do {
         len \<leftarrow> ip_tot_len m ip;
         frag \<leftarrow> ip_frag_off m ip;
         let pkt = packet_rec_zero\<lparr>protocol := ucast (bpf_htons (word_of_int ip_type)),
               src_addr := saddr, dest_addr := daddr, tot_len := len, frag_off := frag\<rparr>;
         (flow, st) \<leftarrow> xdp_l4_switch m data_end nh ip_type pkt action 0 pkt_meta_zero st;
         case flow of
           Goto_out act meta \<Rightarrow> Some (xdp_stats_record_action m act meta st)
         | Break off meta \<Rightarrow> do {
             meta \<leftarrow> xdp_fill_meta m data_end iphdr eth_type off meta;
             Some (xdp_stats_record_action m action meta st)
           }
       }
     }
   }"

definition xdp_parser_func :: "bytes \<Rightarrow> xdp_kernel \<Rightarrow> (u32 \<times> xdp_kernel) option" where
  "xdp_parser_func m st = (
     let data_end = length m; action = XDP_PASS; nh = \<lparr>pos = 0\<rparr> in do {
       (eth_type, nh, eth) \<leftarrow> parse_ethhdr m data_end nh;
       if eth_type < 0 then Some (xdp_stats_record_action m XDP_DROP pkt_meta_zero st)
       else if eth_type = uint (bpf_htons ETH_P_IP) then
         xdp_ipv4_case m data_end nh eth_type action st
       else if eth_type = uint (bpf_htons ETH_P_IPV6) then
         Some (xdp_stats_record_action m action pkt_meta_zero st)
       else Some (xdp_stats_record_action m action pkt_meta_zero st)
     })"

section \<open>Abstract view of a packet\<close>

text \<open>
  What a packet is to the policy, read off its bytes in network order and with no reference
  to the parsers: the bounds and the numbers of the protocol standards.
\<close>

datatype transport = Tcp bool | Udp | Icmp | Other_proto | Bad_transport

datatype view =
    Runt
  | Not_ipv4
  | Bad_ipv4
  | Ipv4 (v_src: u32) (v_dst: u32) (v_frag: bool) (v_len: nat) (v_l4: transport)

definition field32 :: "bytes \<Rightarrow> nat \<Rightarrow> u32" where
  "field32 m a = le32 (le16 (m ! a) (m ! (a + 1))) (le16 (m ! (a + 2)) (m ! (a + 3)))"

definition transport_of :: "bytes \<Rightarrow> nat \<Rightarrow> transport" where
  "transport_of m p = (
     let proto = unat (m ! 23); doff = high_nibble (m ! (p + 12)) in
     if proto = 6 then
       (if length m < p + 20 \<or> doff < 5 \<or> length m < p + 4 * doff then Bad_transport
        else Tcp (bit (m ! (p + 13)) 1))
     else if proto = 17 then
       (if length m < p + 8 \<or> be16 (m ! (p + 4)) (m ! (p + 5)) < 8 then Bad_transport else Udp)
     else if proto = 1 then Icmp
     else Other_proto)"

definition packet_view :: "bytes \<Rightarrow> view" where
  "packet_view m = (
     if length m < 14 then Runt
     else if be16 (m ! 12) (m ! 13) \<noteq> 0x0800 then Not_ipv4
     else let ihl = low_nibble (m ! 14) in
       if length m < 34 \<or> ihl < 5 \<or> length m < 14 + 4 * ihl then Bad_ipv4
       else Ipv4 (field32 m 26) (field32 m 30) (is_fragment (m ! 20) (m ! 21))
              (be16 (m ! 16) (m ! 17)) (transport_of m (14 + 4 * ihl)))"

text \<open>The policy: which packets the program is meant to drop.\<close>

fun transport_drop :: "bool \<Rightarrow> nat \<Rightarrow> transport \<Rightarrow> bool" where
  "transport_drop frag len (Tcp syn) = (frag \<and> syn)"
| "transport_drop frag len Udp = False"
| "transport_drop frag len Icmp = (frag \<or> len > 1024)"
| "transport_drop frag len Other_proto = False"
| "transport_drop frag len Bad_transport = True"

fun policy_drop :: "(u32 \<Rightarrow> bool) \<Rightarrow> (u32 \<Rightarrow> bool) \<Rightarrow> view \<Rightarrow> bool" where
  "policy_drop wl bl Runt = True"
| "policy_drop wl bl Not_ipv4 = False"
| "policy_drop wl bl Bad_ipv4 = True"
| "policy_drop wl bl (Ipv4 s d frag len l4) = (\<not> wl s \<and> (bl s \<or> transport_drop frag len l4))"

text \<open>
  The sample of a passed packet, read off the bytes: addresses and ports stay in network order,
  the other fields are host values. \<open>data_len\<close> is what the 16-bit field holds: the packet length
  minus the fixed header sizes, modulo \<open>2 ^ 16\<close>.
\<close>

fun l4_header_size :: "transport \<Rightarrow> nat" where
  "l4_header_size (Tcp _) = 20"
| "l4_header_size Udp = 8"
| "l4_header_size Icmp = 8"
| "l4_header_size _ = 0"

definition field16 :: "bytes \<Rightarrow> nat \<Rightarrow> u16" where
  "field16 m a = le16 (m ! a) (m ! (a + 1))"

fun l4_meta :: "bytes \<Rightarrow> nat \<Rightarrow> transport \<Rightarrow> pkt_meta" where
  "l4_meta m p (Tcp _) = pkt_meta_zero\<lparr>port16 := [field16 m p, field16 m (p + 2)], seq := field32 m (p + 4)\<rparr>"
| "l4_meta m p Udp = pkt_meta_zero\<lparr>port16 := [field16 m p, field16 m (p + 2)]\<rparr>"
| "l4_meta m p _ = pkt_meta_zero"

definition sample_of :: "bytes \<Rightarrow> transport \<Rightarrow> pkt_meta" where
  "sample_of m l4 =
     (if l4 = Other_proto then pkt_meta_zero
      else (l4_meta m (14 + 4 * low_nibble (m ! 14)) l4)\<lparr>
        pkt_len := of_nat (length m),
        data_len := of_int (int (length m) - int (34 + l4_header_size l4)),
        l3_proto := ETH_P_IP, src := field32 m 26, dst := field32 m 30,
        l4_proto := ucast (m ! 23)\<rparr>)"

text \<open>The log line of a packet dropped by a rule on its transport header.\<close>

fun drop_log :: "bool \<Rightarrow> transport \<Rightarrow> u32 \<Rightarrow> u32 \<Rightarrow> xdp_kernel \<Rightarrow> xdp_kernel" where
  "drop_log frag (Tcp _) s d = bpf_printk (''action: DROP, src: %u, dst: %u, reason_id: Fragmented TCP Packet'' @ [CHR 0x0A]) [s, d]"
| "drop_log frag Icmp s d =
     (if frag then bpf_printk (''action: DROP, src: %u, dst: %u, reason_id: Fragmented ICMP Packet'' @ [CHR 0x0A]) [s, d]
      else bpf_printk (''action: DROP, src: %u, dst: %u, reason_id: Large ICMP Packet'' @ [CHR 0x0A]) [s, d])"
| "drop_log frag _ s d = (\<lambda>st. st)"

definition xdp_spec :: "bytes \<Rightarrow> xdp_kernel \<Rightarrow> u32 \<times> xdp_kernel" where
  "xdp_spec m st = (case packet_view m of
     Runt \<Rightarrow> xdp_stats_record_action m XDP_DROP pkt_meta_zero st
   | Not_ipv4 \<Rightarrow> xdp_stats_record_action m XDP_PASS pkt_meta_zero st
   | Bad_ipv4 \<Rightarrow> xdp_stats_record_action m XDP_DROP pkt_meta_zero st
   | Ipv4 s d frag len l4 \<Rightarrow>
       if white_list st s \<noteq> None then
         (XDP_PASS, bpf_printk (''action: PASS, src: %u, dst: %u, reason_1: IP in WHITE LIST'' @ [CHR 0x0A]) [s, d] st)
       else if black_list st s \<noteq> None then
         (XDP_DROP, bpf_printk (''action: DROP, src: %u, dst: %u, reason_1: IP in BLACK LIST'' @ [CHR 0x0A]) [s, d] st)
       else if transport_drop frag len l4 then
         xdp_stats_record_action m XDP_DROP pkt_meta_zero (drop_log frag l4 s d st)
       else xdp_stats_record_action m XDP_PASS (sample_of m l4) st)"

lemma sample_of_Other [simp]: "sample_of m Other_proto = pkt_meta_zero"
  by (simp add: sample_of_def)

section \<open>The program computes its specification\<close>

lemma h_proto_eq:
  "(uint (le16 b0 b1) = uint (bpf_htons x)) = (be16 b0 b1 = unat x)"
proof -
  have "(uint (le16 b0 b1) = uint (bpf_htons x)) = (le16 b0 b1 = bpf_htons x)"
    by (simp only: word_uint_eq_iff)
  also have "\<dots> = (le16 b1 b0 = x)"
    by (metis bpf_htons_def swab16_le16 swab16_swab16)
  also have "\<dots> = (be16 b0 b1 = unat x)"
    by (metis unat_le16 word_unat_eq_iff)
  finally show ?thesis .
qed

lemma load16_field [fault]: "a + 2 \<le> length m \<Longrightarrow> load16 m a = Some (field16 m a)"
  by (simp add: field16_def fault)

lemma load32_field [fault]: "a + 4 \<le> length m \<Longrightarrow> load32 m a = Some (field32 m a)"
  by (simp add: field32_def fault)

lemmas load_field = load16_field load32_field

lemma syn_flag: "(ucast (if b then 1 else 0 :: u16) AND (0x0001 :: u8) \<noteq> 0) = b"
  by simp

text \<open>One transport case at a time, in closed form.\<close>

lemma xdp_tcp_case_eq:
  assumes "length (tcp_flags pkt) = 6" "frag_off pkt = le16 hi lo"
  shows "xdp_tcp_case m (length m) nh pkt off meta st =
    (let p = pos nh; doff = high_nibble (m ! (p + 12)) in
     if length m < p + 20 \<or> doff < 5 \<or> length m < p + 4 * doff then Some (Goto_out XDP_DROP meta, st)
     else if is_fragment hi lo \<and> bit (m ! (p + 13)) 1 then
       Some (Goto_out XDP_DROP meta, drop_log (is_fragment hi lo) (Tcp True) (src_addr pkt) (dest_addr pkt) st)
     else Some (Break (off + 20) (meta\<lparr>port16 := [field16 m p, field16 m (p + 2)], seq := field32 m (p + 4)\<rparr>), st))"
  using assms
  by (auto simp: xdp_tcp_case_def parse_tcphdr_eq Let_def tcp_syn_def tcp_source_def tcp_dest_def
      tcp_seq_def load8_in load_field tcp_stupid_def tcp_fragment_def fragment_mask syn_flag)

lemma xdp_udp_case_eq:
  "xdp_udp_case m (length m) nh off meta st =
    (let p = pos nh in
     if length m < p + 8 \<or> be16 (m ! (p + 4)) (m ! (p + 5)) < 8 then Some (Goto_out XDP_DROP meta, st)
     else Some (Break (off + 8) (meta\<lparr>port16 := [field16 m p, field16 m (p + 2)]\<rparr>), st))"
proof -
  have len: "int_of_size (ucast (bpf_ntohs (le16 b0 b1)) - 8) = int (be16 b0 b1) - 8" for b0 b1
    using int_of_size_diff [of 8 "bpf_ntohs (le16 b0 b1)"]
    by (simp add: bpf_ntohs_def swab16_le16 unat_le16 del: of_nat_unat)
  show ?thesis
    by (auto simp: xdp_udp_case_def parse_udphdr_def Let_def udp_len_def udp_source_def udp_dest_def
        load16_in len field16_def add.commute)
qed

lemma xdp_icmp_case_eq:
  assumes "frag_off pkt = le16 hi lo" "tot_len pkt = le16 lhi llo"
  shows "xdp_icmp_case m (length m) nh pkt off meta st =
    (if is_fragment hi lo \<or> be16 lhi llo > 1024 then
       Some (Goto_out XDP_DROP meta, drop_log (is_fragment hi lo) Icmp (src_addr pkt) (dest_addr pkt) st)
     else Some (Break (off + 8) (meta\<lparr>port16 := [0, 0]\<rparr>), st))"
proof -
  obtain r nh' h where "parse_icmphdr m (length m) nh = Some (r, nh', h)"
    using icmp.no_fault [of "length m" m nh] by auto
  then show ?thesis
    using assms
    by (auto simp: xdp_icmp_case_def icmp_stupid_def icmp_fragment_def icmp_large_packet_def
        fragment_mask large_packet_mask)
qed

text \<open>The whole switch, against the abstract transport.\<close>

fun case_of :: "bytes \<Rightarrow> nat \<Rightarrow> transport \<Rightarrow> bool \<Rightarrow> nat \<Rightarrow> flow" where
  "case_of m p l4 frag len =
     (if transport_drop frag len l4 then Goto_out XDP_DROP pkt_meta_zero
      else if l4 = Other_proto then Goto_out XDP_PASS pkt_meta_zero
      else Break (of_nat (l4_header_size l4)) (l4_meta m p l4))"

lemma pkt_meta_zero_port16 [simp]: "pkt_meta_zero\<lparr>port16 := [0, 0]\<rparr> = pkt_meta_zero"
  by (simp add: pkt_meta_zero_def)

lemma xdp_l4_switch_eq:
  fixes m p
  defines "l4 \<equiv> transport_of m p"
  assumes "length (tcp_flags pkt) = 6" "frag_off pkt = le16 hi lo" "tot_len pkt = le16 lhi llo"
  shows "xdp_l4_switch m (length m) \<lparr>pos = p\<rparr> (uint (m ! 23)) pkt XDP_PASS 0 pkt_meta_zero st =
    Some (case_of m p l4 (is_fragment hi lo) (be16 lhi llo),
      if transport_drop (is_fragment hi lo) (be16 lhi llo) l4
      then drop_log (is_fragment hi lo) l4 (src_addr pkt) (dest_addr pkt) st else st)"
proof -
  have num: "uint (m ! 23) = int (unat (m ! 23))" by simp
  consider "unat (m ! 23) = 6" | "unat (m ! 23) = 17" | "unat (m ! 23) = 1"
    | "unat (m ! 23) \<noteq> 6" "unat (m ! 23) \<noteq> 17" "unat (m ! 23) \<noteq> 1" by blast
  then show ?thesis
  proof cases
    case 1
    then show ?thesis
      using assms by (simp add: xdp_l4_switch_def proto_defs num xdp_tcp_case_eq transport_of_def Let_def
          del: of_nat_unat)
  next
    case 2
    then show ?thesis
      using assms by (simp add: xdp_l4_switch_def proto_defs num xdp_udp_case_eq transport_of_def Let_def
          del: of_nat_unat)
  next
    case 3
    then show ?thesis
      using assms by (auto simp add: xdp_l4_switch_def proto_defs num xdp_icmp_case_eq transport_of_def Let_def
          simp del: of_nat_unat)
  next
    case 4
    then have "uint (m ! 23) \<noteq> 6" "uint (m ! 23) \<noteq> 17" "uint (m ! 23) \<noteq> 1"
      by (simp_all add: num del: of_nat_unat)
    with 4 show ?thesis
      using assms by (simp add: xdp_l4_switch_def proto_defs transport_of_def Let_def)
  qed
qed

lemma xdp_fill_meta_eq:
  assumes "34 \<le> length m" "l4 \<noteq> Other_proto" "l4 \<noteq> Bad_transport"
    "eth_type = uint (bpf_htons ETH_P_IP)"
  shows "xdp_fill_meta m (length m) (Some 14) eth_type (of_nat (l4_header_size l4))
      (l4_meta m (14 + 4 * low_nibble (m ! 14)) l4) = Some (sample_of m l4)"
proof -
  have "ucast (of_nat (length m) - ucast (of_nat (l4_header_size l4) + 34 :: u32) :: u64)
      = (of_int (int (length m) - int (34 + l4_header_size l4)) :: u16)"
  proof -
    have "ucast (of_nat (l4_header_size l4) + 34 :: u32) = (of_nat (34 + l4_header_size l4) :: u64)"
      by (cases l4) simp_all
    then have "of_nat (length m) - ucast (of_nat (l4_header_size l4) + 34 :: u32)
        = (word_of_int (int (length m) - int (34 + l4_header_size l4)) :: u64)"
      by simp
    then show ?thesis by (simp only: narrow_u64)
  qed
  then show ?thesis
    using assms by (simp add: xdp_fill_meta_def sample_of_def ip_saddr_def ip_daddr_def ip_protocol_def
        load_field load8_in bpf_htons_def)
qed

lemma xdp_ipv4_case_spec:
  assumes "14 \<le> length m" "be16 (m ! 12) (m ! 13) = 0x0800"
  shows "xdp_ipv4_case m (length m) \<lparr>pos = 14\<rparr> (uint (bpf_htons ETH_P_IP)) XDP_PASS st
    = Some (xdp_spec m st)"
proof (cases "length m < 34 \<or> low_nibble (m ! 14) < 5 \<or> length m < 14 + 4 * low_nibble (m ! 14)")
  case True
  then show ?thesis
    using assms by (simp add: xdp_ipv4_case_def parse_iphdr_eq xdp_spec_def packet_view_def Let_def)
next
  case False
  let ?p = "14 + 4 * low_nibble (m ! 14)"
  have parse: "parse_iphdr m (length m) \<lparr>pos = 14\<rparr> = Some (uint (m ! 23), \<lparr>pos = ?p\<rparr>, Some 14)"
    using False by (simp add: parse_iphdr_eq Let_def)
  have view: "packet_view m = Ipv4 (field32 m 26) (field32 m 30) (is_fragment (m ! 20) (m ! 21))
      (be16 (m ! 16) (m ! 17)) (transport_of m ?p)"
    using False assms by (simp add: packet_view_def Let_def)
  have loads: "ip_saddr m 14 = Some (field32 m 26)" "ip_daddr m 14 = Some (field32 m 30)"
    "ip_tot_len m 14 = Some (le16 (m ! 16) (m ! 17))" "ip_frag_off m 14 = Some (le16 (m ! 20) (m ! 21))"
    using False by (simp_all add: layout load_field field16_def)
  have fill: "xdp_fill_meta m (length m) (Some 14) (uint (bpf_htons ETH_P_IP))
      (of_nat (l4_header_size (transport_of m ?p))) (l4_meta m ?p (transport_of m ?p))
      = Some (sample_of m (transport_of m ?p))"
    if "transport_of m ?p \<noteq> Other_proto" "\<not> transport_drop frag len (transport_of m ?p)" for frag len
    using that False by (intro xdp_fill_meta_eq) auto
  show ?thesis
    using False
    by (simp add: xdp_ipv4_case_def parse loads view xdp_spec_def in_white_list_def in_black_list_def
        xdp_l4_switch_eq packet_rec_zero_def fill)
qed

theorem xdp_parser_func_spec: "xdp_parser_func m st = Some (xdp_spec m st)"
proof (cases "length m < 14")
  case True
  then show ?thesis
    by (simp add: xdp_parser_func_def parse_ethhdr_def xdp_spec_def packet_view_def)
next
  case False
  then have parse: "parse_ethhdr m (length m) \<lparr>pos = 0\<rparr>
      = Some (uint (le16 (m ! 12) (m ! 13)), \<lparr>pos = 14\<rparr>, Some 0)"
    by (simp add: parse_ethhdr_def eth_h_proto_def load_field field16_def)
  show ?thesis
  proof (cases "be16 (m ! 12) (m ! 13) = 0x0800")
    case True
    then have eth: "uint (le16 (m ! 12) (m ! 13)) = uint (bpf_htons ETH_P_IP)"
      by (simp add: h_proto_eq ETH_P_IP_def)
    show ?thesis
      using False xdp_ipv4_case_spec [OF _ True]
      by (simp add: xdp_parser_func_def parse eth)
  next
    case no: False
    then have "uint (le16 (m ! 12) (m ! 13)) \<noteq> uint (bpf_htons ETH_P_IP)"
      by (simp add: h_proto_eq ETH_P_IP_def)
    then show ?thesis
      using False no
      by (simp add: xdp_parser_func_def parse xdp_spec_def packet_view_def)
  qed
qed

end
