(* ===== verification/Xdp_Policy.thy ===== *)
theory Xdp_Policy
  imports Xdp_Prog
begin

text \<open>
  The properties of the XDP program (main/xdp_prog_kern.c), all read off its specification
  \<open>xdp_spec\<close>: the verdict, the two lists, the accounting of the statistics map and of the
  samples, and what happens to an ICMP packet that ends inside its header.
\<close>

section \<open>A concrete state and concrete packets for the witnesses\<close>

definition demo_state :: xdp_kernel where
  "demo_state = \<lparr>white_list = (\<lambda>a. if a = 0x0100000A then Some 0 else None),
     black_list = (\<lambda>a. if a = 0x0200000A then Some 0 else None),
     xdp_stats_map = (\<lambda>a. if a < 5 then Some \<lparr>rx_packets = 7, rx_bytes = 700\<rparr> else None),
     perf_map = [], trace_pipe = []\<rparr>"

text \<open>An Ethernet and an IPv4 header, from 10.0.0.\<open>s\<close> to 10.0.0.9, with the given protocol and fragment bits.\<close>

definition demo_ipv4 :: "u8 \<Rightarrow> u8 \<Rightarrow> u8 \<Rightarrow> bytes" where
  "demo_ipv4 s proto frag =
     [0, 0, 0, 0, 0, 0, 0, 0, 0, 0, 0, 0, 8, 0,
      0x45, 0, 0, 40, 0, 0, frag, 0, 64, proto, 0, 0, 10, 0, 0, s, 10, 0, 0, 9]"

definition demo_syn :: "u8 \<Rightarrow> u8 \<Rightarrow> bytes" where
  "demo_syn s frag = demo_ipv4 s 6 frag @ [0x30, 0x39, 0, 80, 0, 0, 0, 1, 0, 0, 0, 0, 0x50, 2, 0, 0, 0, 0, 0, 0]"

lemma demo_views:
  "packet_view (demo_syn s 0x20) = Ipv4 (field32 (demo_syn s 0x20) 26) 0x0900000A True 40 (Tcp True)"
  "packet_view (demo_syn s 0) = Ipv4 (field32 (demo_syn s 0) 26) 0x0900000A False 40 (Tcp True)"
  "packet_view (demo_ipv4 s 1 0) = Ipv4 (field32 (demo_ipv4 s 1 0) 26) 0x0900000A False 40 Icmp"
  by (simp_all add: packet_view_def demo_syn_def demo_ipv4_def be16_def low_nibble_def high_nibble_def
      transport_of_def is_fragment_def field32_def le32_def le16_def drop_bit_eq_div push_bit_eq_mult Let_def)

lemma demo_sources:
  "field32 (demo_syn 1 f) 26 = 0x0100000A" "field32 (demo_syn 2 f) 26 = 0x0200000A"
  "field32 (demo_syn 3 f) 26 = 0x0300000A" "field32 (demo_ipv4 3 1 f) 26 = 0x0300000A"
  by (simp_all add: demo_syn_def demo_ipv4_def field32_def le32_def le16_def push_bit_eq_mult)

section \<open>Helper lemmas\<close>

definition listed :: "(u32 \<Rightarrow> u32 option) \<Rightarrow> u32 \<Rightarrow> bool" where
  "listed l a \<longleftrightarrow> l a \<noteq> None"

lemma record_drop:
  "xdp_stats_map st XDP_DROP = Some r \<Longrightarrow> xdp_stats_record_action m XDP_DROP pkt st =
    (XDP_DROP, st\<lparr>xdp_stats_map := (xdp_stats_map st)(XDP_DROP \<mapsto>
      \<lparr>rx_packets = rx_packets r + 1, rx_bytes = rx_bytes r + ucast (of_nat (length m) :: u32)\<rparr>)\<rparr>)"
  by (cases r) (simp add: xdp_stats_record_action_def xdp_action_defs Let_def word_le_nat_alt)

lemma record_pass:
  "xdp_stats_map st XDP_PASS = Some r \<Longrightarrow> xdp_stats_record_action m XDP_PASS pkt st =
    (XDP_PASS, st\<lparr>xdp_stats_map := (xdp_stats_map st)(XDP_PASS \<mapsto>
      \<lparr>rx_packets = rx_packets r + 1, rx_bytes = rx_bytes r + ucast (of_nat (length m) :: u32)\<rparr>),
      perf_map := perf_map st @ [(push_bit 32 (ucast (pkt_len pkt)) OR BPF_F_CURRENT_CPU, pkt)]\<rparr>)"
  by (cases r) (simp add: xdp_stats_record_action_def xdp_action_defs Let_def)

lemma drop_log_frame [simp]:
  "xdp_stats_map (drop_log frag l4 s d st) = xdp_stats_map st"
  "perf_map (drop_log frag l4 s d st) = perf_map st"
  "white_list (drop_log frag l4 s d st) = white_list st"
  "black_list (drop_log frag l4 s d st) = black_list st"
  by (cases l4; simp)+

section \<open>Properties\<close>

text \<open>C1. The XDP program computes its specification on every packet and every kernel state: it
never reads outside the packet, and verdict, statistics, samples and log lines are those that the
abstract view of the packet and the policy prescribe.\<close>

theorem xdp_program_refines_spec: "xdp_parser_func m st = Some (xdp_spec m st)"
  by (rule xdp_parser_func_spec)

text \<open>C6. The verdict is the policy's: with both statistics entries present, a packet is dropped if
it is a runt or malformed IPv4, or its source is not white-listed and is black-listed or its
transport header is rejected; every other packet is passed.\<close>

theorem verdict_is_policy:
  assumes "xdp_stats_map st XDP_DROP \<noteq> None" "xdp_stats_map st XDP_PASS \<noteq> None"
  shows "map_option fst (xdp_parser_func m st) =
    Some (if policy_drop (listed (white_list st)) (listed (black_list st)) (packet_view m)
          then XDP_DROP else XDP_PASS)"
  using assms
  by (auto simp: xdp_parser_func_spec xdp_spec_def listed_def record_drop record_pass split: view.split)

lemma verdict_is_policy_witness:
  "map_option fst (xdp_parser_func (demo_syn 3 0x20) demo_state) = Some XDP_DROP \<and>
   map_option fst (xdp_parser_func (demo_syn 3 0) demo_state) = Some XDP_PASS"
  using verdict_is_policy [of demo_state "demo_syn 3 0x20"] verdict_is_policy [of demo_state "demo_syn 3 0"]
  by (simp add: demo_views demo_sources demo_state_def listed_def xdp_action_defs)

text \<open>C8. The white list wins over the black list and over every rule: a well-formed IPv4 packet
from a white-listed source is passed whatever its transport header is, one log line is written,
and neither the statistics nor the samples change.\<close>

theorem white_list_wins:
  assumes "packet_view m = Ipv4 s d frag len l4" "white_list st s \<noteq> None"
  shows "xdp_parser_func m st = Some (XDP_PASS, st\<lparr>trace_pipe := trace_pipe st @
    [(''action: PASS, src: %u, dst: %u, reason_1: IP in WHITE LIST'' @ [CHR 0x0A], [s, d])]\<rparr>)"
  using assms by (simp add: xdp_parser_func_spec xdp_spec_def bpf_printk_def)

lemma white_list_wins_witness:
  "xdp_parser_func (demo_syn 1 0x20) demo_state = Some (XDP_PASS, demo_state\<lparr>trace_pipe :=
    [(''action: PASS, src: %u, dst: %u, reason_1: IP in WHITE LIST'' @ [CHR 0x0A], [0x0100000A, 0x0900000A])]\<rparr>)"
  using white_list_wins [OF demo_views(1) [of 1, unfolded demo_sources], of demo_state]
  by (simp add: demo_state_def)

text \<open>C7. Exact accounting: with all entries present, a run that ends in a verdict adds one packet
and the packet's length (as a 32-bit number) to the entry of that verdict and to no other, and
hands over one sample if the verdict is PASS and none otherwise; a packet decided by one of the two
lists is in neither the statistics nor the samples. The lists never change.\<close>

theorem accounting_exact:
  assumes "xdp_stats_map st XDP_DROP = Some rd" "xdp_stats_map st XDP_PASS = Some rp"
    "xdp_parser_func m st = Some (act, st')"
  defines "by_list \<equiv> (case packet_view m of
      Ipv4 s d frag len l4 \<Rightarrow> white_list st s \<noteq> None \<or> black_list st s \<noteq> None | _ \<Rightarrow> False)"
  defines "bump \<equiv> (\<lambda>r. \<lparr>rx_packets = rx_packets r + 1, rx_bytes = rx_bytes r + ucast (of_nat (length m) :: u32)\<rparr>)"
  shows "xdp_stats_map st' =
      (if by_list then xdp_stats_map st
       else if act = XDP_PASS then (xdp_stats_map st)(XDP_PASS \<mapsto> bump rp)
       else (xdp_stats_map st)(XDP_DROP \<mapsto> bump rd)) \<and>
    length (perf_map st') = length (perf_map st) + (if \<not> by_list \<and> act = XDP_PASS then 1 else 0) \<and>
    take (length (perf_map st)) (perf_map st') = perf_map st \<and>
    white_list st' = white_list st \<and> black_list st' = black_list st"
proof -
  have ne: "XDP_DROP \<noteq> XDP_PASS" by (simp add: xdp_action_defs)
  show ?thesis
    using assms(1-3) ne
    by (cases "packet_view m")
       (auto simp: xdp_parser_func_spec xdp_spec_def by_list_def bump_def record_drop record_pass
         split: if_splits)
qed

lemma accounting_exact_witness:
  "\<exists>st'. xdp_parser_func (demo_syn 3 0x20) demo_state = Some (XDP_DROP, st') \<and>
    xdp_stats_map st' XDP_DROP = Some \<lparr>rx_packets = 8, rx_bytes = 754\<rparr> \<and> perf_map st' = []"
proof -
  obtain act st' where run: "xdp_parser_func (demo_syn 3 0x20) demo_state = Some (act, st')"
    using xdp_parser_func_spec by (metis surj_pair)
  have e: "xdp_stats_map demo_state XDP_DROP = Some \<lparr>rx_packets = 7, rx_bytes = 700\<rparr>"
    "xdp_stats_map demo_state XDP_PASS = Some \<lparr>rx_packets = 7, rx_bytes = 700\<rparr>"
    by (simp_all add: demo_state_def xdp_action_defs)
  have l: "white_list demo_state 0x0300000A = None" "black_list demo_state 0x0300000A = None"
    "perf_map demo_state = []" by (simp_all add: demo_state_def)
  have act: "act = XDP_DROP"
    using run e l by (simp add: xdp_parser_func_spec xdp_spec_def demo_views demo_sources record_drop)
  have len: "length (demo_syn 3 0x20) = 54" by (simp add: demo_syn_def demo_ipv4_def)
  have ne: "XDP_DROP \<noteq> XDP_PASS" by (simp add: xdp_action_defs)
  show ?thesis
    using accounting_exact [OF e run [unfolded act]] run act ne
    by (simp add: demo_views demo_sources l len)
qed



text \<open>C15. The five parsers of the XDP program never read outside the packet, whatever the cursor, and
after a success the whole fixed header can be read and the cursor is inside the packet.\<close>

theorem parsers_stay_inside:
  assumes "parse \<in> {(parse_ethhdr, 14), (parse_iphdr, 20), (parse_tcphdr, 20), (parse_udphdr, 8), (parse_icmphdr, 8 :: nat)}"
  shows "\<exists>r nh' h. fst parse m (length m) nh = Some (r, nh', h) \<and>
    (r < 0 \<longrightarrow> r = -1) \<and>
    (0 \<le> r \<longrightarrow> h = Some (pos nh) \<and> pos nh + snd parse \<le> pos nh' \<and> pos nh' \<le> length m) \<and>
    (length m < pos nh + snd parse \<longrightarrow> r = -1)"
proof -
  consider "parse = (parse_ethhdr, 14)" | "parse = (parse_iphdr, 20)" | "parse = (parse_tcphdr, 20)"
    | "parse = (parse_udphdr, 8)" | "parse = (parse_icmphdr, 8)" using assms by auto
  then show ?thesis
    using eth.stays_inside [of m nh] ip.stays_inside [of m nh] tcp.stays_inside [of m nh]
      udp.stays_inside [of m nh] icmp.stays_inside [of m nh]
    by cases simp_all
qed

lemma parsers_stay_inside_witness:
  "\<exists>r nh' h. parse_iphdr (demo_syn 3 0) (length (demo_syn 3 0)) \<lparr>pos = 14\<rparr> = Some (r, nh', h) \<and> (r < 0 \<longrightarrow> r = -1)"
  using parsers_stay_inside [of "(parse_iphdr, 20)" "demo_syn 3 0" "\<lparr>pos = 14\<rparr>"] by auto

end
