(* ===== verification/Parsing_Helpers.thy ===== *)
theory Parsing_Helpers
  imports Parsing
begin

text \<open>
  common/parsing_helpers.h: the larger set of parsers shared by the programs of the repository,
  with VLAN tags, IPv6 and ICMPv6. Names that main/common/parsing.h has too carry the prefix
  \<open>helpers_\<close>; the theory shows that those parsers agree with the ones of \<open>Parsing\<close>, that every
  parser meets the contract of a header parser, and that the Ethernet parser undoes the
  encapsulation of up to two VLAN tags.
\<close>

section \<open>VLAN tags\<close>

definition VLAN_MAX_DEPTH :: nat where "VLAN_MAX_DEPTH = 2"
definition VLAN_VID_MASK :: u16 where "VLAN_VID_MASK = 0x0fff"

definition proto_is_vlan :: "u16 \<Rightarrow> int" where
  "proto_is_vlan h_proto = (if h_proto = bpf_htons ETH_P_8021Q \<or> h_proto = bpf_htons ETH_P_8021AD then 1 else 0)"

text \<open>
  The loop over \<open>i\<close>: protocol, position of the next tag and the array \<open>vlans->id\<close>
  (\<^term>\<open>None\<close> is the NULL pointer).
\<close>

fun vlan_loop ::
    "bytes \<Rightarrow> nat \<Rightarrow> nat list \<Rightarrow> u16 \<Rightarrow> nat \<Rightarrow> u16 list option \<Rightarrow> (u16 \<times> nat \<times> u16 list option) option"
  where
  "vlan_loop m data_end [] h_proto vlh vlans = Some (h_proto, vlh, vlans)"
| "vlan_loop m data_end (i # is) h_proto vlh vlans =
     (if proto_is_vlan h_proto = 0 then Some (h_proto, vlh, vlans)
      else if vlh + sizeof_vlan_hdr > data_end then Some (h_proto, vlh, vlans)
      else do {
        h_proto \<leftarrow> vlan_h_encapsulated_proto m vlh;
        vlans \<leftarrow> (case vlans of
            None \<Rightarrow> Some None
          | Some ids \<Rightarrow> do {
              tci \<leftarrow> vlan_h_TCI m vlh;
              ids \<leftarrow> arr_set ids i (bpf_ntohs tci AND VLAN_VID_MASK);
              Some (Some ids)
            });
        vlan_loop m data_end is h_proto (vlh + sizeof_vlan_hdr) vlans
      })"

definition parse_ethhdr_vlan ::
    "bytes \<Rightarrow> nat \<Rightarrow> hdr_cursor \<Rightarrow> u16 list option \<Rightarrow> (int \<times> hdr_cursor \<times> nat option \<times> u16 list option) option"
  where
  "parse_ethhdr_vlan m data_end nh vlans =
     (let eth = pos nh; hdrsize = sizeof_ethhdr in
      if pos nh + hdrsize > data_end then Some (-1, nh, None, vlans)
      else do {
        let nh = nh\<lparr>pos := pos nh + hdrsize\<rparr>;
        h_proto \<leftarrow> eth_h_proto m eth;
        (h_proto, vlh, vlans) \<leftarrow> vlan_loop m data_end [0..<VLAN_MAX_DEPTH] h_proto (pos nh) vlans;
        Some (uint h_proto, nh\<lparr>pos := vlh\<rparr>, Some eth, vlans)
      })"

definition helpers_parse_ethhdr :: "bytes \<Rightarrow> nat \<Rightarrow> hdr_cursor \<Rightarrow> parse_result" where
  "helpers_parse_ethhdr m data_end nh = do {
     (r, nh, eth, _) \<leftarrow> parse_ethhdr_vlan m data_end nh None;
     Some (r, nh, eth)
   }"

section \<open>The other parsers\<close>

definition parse_ip6hdr :: "bytes \<Rightarrow> nat \<Rightarrow> hdr_cursor \<Rightarrow> parse_result" where
  "parse_ip6hdr m data_end nh =
     (let ip6h = pos nh in
      if ip6h + sizeof_ipv6hdr > data_end then Some (-1, nh, None)
      else do {
        n \<leftarrow> ip6_nexthdr m ip6h;
        Some (uint n, nh\<lparr>pos := ip6h + sizeof_ipv6hdr\<rparr>, Some ip6h)
      })"

definition helpers_parse_iphdr :: "bytes \<Rightarrow> nat \<Rightarrow> hdr_cursor \<Rightarrow> parse_result" where
  "helpers_parse_iphdr m data_end nh =
     (let iph = pos nh in
      if iph + sizeof_iphdr > data_end then Some (-1, nh, None)
      else do {
        ihl \<leftarrow> ip_ihl m iph;
        let hdrsize = int ihl * 4;
        if size_of_int hdrsize < of_nat sizeof_iphdr then Some (-1, nh, None)
        else if pos nh + nat hdrsize > data_end then Some (-1, nh, None)
        else do {
          p \<leftarrow> ip_protocol m iph;
          Some (uint p, nh\<lparr>pos := pos nh + nat hdrsize\<rparr>, Some iph)
        }
      })"

text \<open>The three ICMP parsers: the type is the first byte of each of the structs.\<close>

definition parse_icmp6hdr :: "bytes \<Rightarrow> nat \<Rightarrow> hdr_cursor \<Rightarrow> parse_result" where
  "parse_icmp6hdr m data_end nh =
     (let icmp6h = pos nh in
      if icmp6h + sizeof_icmp6hdr > data_end then Some (-1, nh, None)
      else do {
        t \<leftarrow> icmp_type m icmp6h;
        Some (uint t, nh\<lparr>pos := icmp6h + sizeof_icmp6hdr\<rparr>, Some icmp6h)
      })"

definition helpers_parse_icmphdr :: "bytes \<Rightarrow> nat \<Rightarrow> hdr_cursor \<Rightarrow> parse_result" where
  "helpers_parse_icmphdr m data_end nh =
     (let icmph = pos nh in
      if icmph + sizeof_icmphdr > data_end then Some (-1, nh, None)
      else do {
        t \<leftarrow> icmp_type m icmph;
        Some (uint t, nh\<lparr>pos := icmph + sizeof_icmphdr\<rparr>, Some icmph)
      })"

definition parse_icmphdr_common :: "bytes \<Rightarrow> nat \<Rightarrow> hdr_cursor \<Rightarrow> parse_result" where
  "parse_icmphdr_common m data_end nh =
     (let h = pos nh in
      if h + sizeof_icmphdr_common > data_end then Some (-1, nh, None)
      else do {
        t \<leftarrow> icmp_type m h;
        Some (uint t, nh\<lparr>pos := h + sizeof_icmphdr_common\<rparr>, Some h)
      })"

definition helpers_parse_udphdr :: "bytes \<Rightarrow> nat \<Rightarrow> hdr_cursor \<Rightarrow> parse_result" where
  "helpers_parse_udphdr m data_end nh =
     (let h = pos nh in
      if h + sizeof_udphdr > data_end then Some (-1, nh, None)
      else do {
        let nh = nh\<lparr>pos := h + sizeof_udphdr\<rparr>;
        hlen \<leftarrow> udp_len m h;
        let len = int_of_size (ucast (bpf_ntohs hlen) - of_nat sizeof_udphdr);
        if len < 0 then Some (-1, nh, Some h) else Some (len, nh, Some h)
      })"

definition helpers_parse_tcphdr :: "bytes \<Rightarrow> nat \<Rightarrow> hdr_cursor \<Rightarrow> parse_result" where
  "helpers_parse_tcphdr m data_end nh =
     (let h = pos nh in
      if h + sizeof_tcphdr > data_end then Some (-1, nh, None)
      else do {
        doff \<leftarrow> tcp_doff m h;
        let len = int doff * 4;
        if size_of_int len < of_nat sizeof_tcphdr then Some (-1, nh, None)
        else if pos nh + nat len > data_end then Some (-1, nh, None)
        else Some (len, nh\<lparr>pos := pos nh + nat len\<rparr>, Some h)
      })"

section \<open>The contract\<close>

lemma vlan_loop_stays:
  assumes "data_end \<le> length m" "v \<le> data_end"
  shows "\<exists>p' v'. vlan_loop m data_end is p v None = Some (p', v', None) \<and> v \<le> v' \<and> v' \<le> data_end"
  using assms
proof (induction "is" arbitrary: p v)
  case (Cons i js)
  show ?case
  proof (cases "proto_is_vlan p = 0 \<or> v + 4 > data_end")
    case True
    then show ?thesis using Cons.prems by auto
  next
    case False
    then obtain p' v' where "vlan_loop m data_end js (le16 (m ! (v + 2)) (m ! (v + 3))) (v + 4) None
        = Some (p', v', None)" "v + 4 \<le> v'" "v' \<le> data_end"
      using Cons.IH [of "v + 4"] Cons.prems by fastforce
    then show ?thesis using False Cons.prems
      by (auto simp: vlan_h_encapsulated_proto_def fault add.commute numeral_eq_Suc)
  qed
qed auto

lemma helpers_parse_ethhdr_cases:
  assumes "data_end \<le> length m"
  shows "if data_end < pos nh + 14 then helpers_parse_ethhdr m data_end nh = Some (-1, nh, None)
    else \<exists>(p :: u16) v. helpers_parse_ethhdr m data_end nh = Some (uint p, \<lparr>pos = v\<rparr>, Some (pos nh)) \<and>
      pos nh + 14 \<le> v \<and> v \<le> data_end"
proof (cases "data_end < pos nh + 14")
  case True
  then show ?thesis by (simp add: helpers_parse_ethhdr_def parse_ethhdr_vlan_def)
next
  case False
  then obtain p v where "vlan_loop m data_end [0..<VLAN_MAX_DEPTH] (le16 (m ! (pos nh + 12)) (m ! (pos nh + 12 + 1)))
      (pos nh + 14) None = Some (p, v, None)" "pos nh + 14 \<le> v" "v \<le> data_end"
    using vlan_loop_stays [OF assms, of "pos nh + 14"] by fastforce
  with False assms show ?thesis
    by (cases nh) (auto simp: helpers_parse_ethhdr_def parse_ethhdr_vlan_def Let_def eth_h_proto_def fault)
qed

interpretation vlan: header_parser_frame helpers_parse_ethhdr sizeof_ethhdr
proof
  fix data_end :: nat and m :: bytes and nh r nh' h
  assume *: "data_end \<le> length m"
  note c = helpers_parse_ethhdr_cases [OF this, of nh]
  show "helpers_parse_ethhdr m data_end nh \<noteq> None" using c by (auto split: if_splits)
  show "data_end < pos nh + sizeof_ethhdr \<Longrightarrow> helpers_parse_ethhdr m data_end nh = Some (- 1, nh, None)"
    using c by simp
  assume "helpers_parse_ethhdr m data_end nh = Some (r, nh', h)"
  with c show "0 \<le> r \<Longrightarrow> h = Some (pos nh) \<and> pos nh + sizeof_ethhdr \<le> pos nh' \<and> pos nh' \<le> data_end"
    and "r < 0 \<Longrightarrow> r = - 1" and "r < 0 \<Longrightarrow> nh' = nh \<and> h = None"
    by (auto split: if_splits)
qed

interpretation ip6: header_parser_frame parse_ip6hdr sizeof_ipv6hdr
  by unfold_locales (auto simp: parse_ip6hdr_def layout fault Let_def split: if_splits)

interpretation icmp6: header_parser_frame parse_icmp6hdr sizeof_icmp6hdr
  by unfold_locales (auto simp: parse_icmp6hdr_def layout fault Let_def split: if_splits)

interpretation icmp_common: header_parser_frame parse_icmphdr_common sizeof_icmphdr_common
  by unfold_locales (auto simp: parse_icmphdr_common_def layout fault Let_def split: if_splits)

section \<open>Agreement with the parsers of the XDP program\<close>

lemma helpers_udp_eq: "helpers_parse_udphdr = parse_udphdr"
  by (intro ext) (simp add: helpers_parse_udphdr_def parse_udphdr_def Let_def cong: if_cong)

lemma helpers_fixed_eq:
  "helpers_parse_iphdr = parse_iphdr" "helpers_parse_icmphdr = parse_icmphdr" "helpers_parse_tcphdr = parse_tcphdr"
  by (intro ext, simp add: helpers_parse_iphdr_def parse_iphdr_def helpers_parse_icmphdr_def
      parse_icmphdr_def helpers_parse_tcphdr_def parse_tcphdr_def)+

lemma helpers_eth_untagged:
  assumes "data_end \<le> length m" "pos nh + 14 \<le> data_end"
    "proto_is_vlan (le16 (m ! (pos nh + 12)) (m ! (pos nh + 12 + 1))) = 0"
  shows "helpers_parse_ethhdr m data_end nh = parse_ethhdr m data_end nh"
  using assms
  by (simp add: helpers_parse_ethhdr_def parse_ethhdr_vlan_def parse_ethhdr_def eth_h_proto_def fault
      Let_def VLAN_MAX_DEPTH_def upt_rec)

section \<open>Encapsulated frames\<close>

text \<open>
  A frame with VLAN tags as it is sent: the two addresses, a tag protocol and a tag control word
  per tag, the protocol and the payload, 16-bit values high byte first.
\<close>

definition be_bytes :: "u16 \<Rightarrow> bytes" where
  "be_bytes v = [ucast (drop_bit 8 v), ucast v]"

definition tag_bytes :: "u16 \<times> u16 \<Rightarrow> bytes" where
  "tag_bytes = (\<lambda>(tpid, tci). be_bytes tpid @ be_bytes tci)"

definition vlan_frame :: "bytes \<Rightarrow> (u16 \<times> u16) list \<Rightarrow> u16 \<Rightarrow> bytes \<Rightarrow> bytes" where
  "vlan_frame macs tags proto payload = macs @ concat (map tag_bytes tags) @ be_bytes proto @ payload"

definition is_tpid :: "u16 \<Rightarrow> bool" where
  "is_tpid v \<longleftrightarrow> v = ETH_P_8021Q \<or> v = ETH_P_8021AD"

lemma le16_be_bytes: "le16 (ucast (drop_bit 8 v)) (ucast v) = bpf_htons v"
  by (rule bit_word_eqI) (auto simp: bpf_htons_def bit_swab16 le16_def bit_simps add.commute)

lemma proto_is_vlan_htons: "proto_is_vlan (bpf_htons v) = (if is_tpid v then 1 else 0)"
  by (simp add: proto_is_vlan_def is_tpid_def)

lemma be_bytes_nth: "be_bytes v ! 0 = ucast (drop_bit 8 v)" "be_bytes v ! Suc 0 = ucast v" "length (be_bytes v) = 2"
  by (simp_all add: be_bytes_def)

text \<open>Where the frame has a big-endian word, a load gives its swapped value.\<close>

lemma load16_be_bytes: "load16 (pre @ be_bytes v @ post) (length pre) = Some (bpf_htons v)"
  by (simp add: fault nth_append be_bytes_def le16_be_bytes)

text \<open>One round of the loop on a tag of the frame, and the end of the tags.\<close>

lemma vlan_loop_tag:
  assumes "i < length ids" "is_tpid tpid"
  shows "vlan_loop (pre @ be_bytes tci @ be_bytes p @ post) (length (pre @ be_bytes tci @ be_bytes p @ post))
      (i # is) (bpf_htons tpid) (length pre) (Some ids)
    = vlan_loop (pre @ be_bytes tci @ be_bytes p @ post) (length (pre @ be_bytes tci @ be_bytes p @ post))
      is (bpf_htons p) (length pre + 4) (Some (ids[i := tci AND VLAN_VID_MASK]))"
proof -
  have "load16 (pre @ be_bytes tci @ be_bytes p @ post) (length pre + 2) = Some (bpf_htons p)"
    using load16_be_bytes [of "pre @ be_bytes tci" p post] by (simp add: be_bytes_nth)
  then show ?thesis
    using assms load16_be_bytes [of pre tci "be_bytes p @ post"]
    by (simp add: proto_is_vlan_htons vlan_h_encapsulated_proto_def vlan_h_TCI_def be_bytes_nth fault)
qed

lemma vlan_loop_end: "\<not> is_tpid p \<Longrightarrow> vlan_loop m de is (bpf_htons p) v ids = Some (bpf_htons p, v, ids)"
  by (cases "is") (simp_all add: proto_is_vlan_htons)

lemma parse_vlan_frame:
  assumes "length macs = 12" "length tags \<le> 2" "length ids = 2" "\<forall>t\<in>set tags. is_tpid (fst t)"
    "length tags < 2 \<longrightarrow> \<not> is_tpid proto"
  shows "parse_ethhdr_vlan (vlan_frame macs tags proto payload) (length (vlan_frame macs tags proto payload))
      \<lparr>pos = 0\<rparr> (Some ids)
    = Some (uint (bpf_htons proto), \<lparr>pos = 14 + 4 * length tags\<rparr>, Some 0,
        Some (map (\<lambda>t. snd t AND VLAN_VID_MASK) tags @ drop (length tags) ids))"
proof -
  have two: "[0..<2] = [0, 1 :: nat]" by (simp add: upt_rec)
  obtain i0 i1 where ids: "ids = [i0, i1]"
    using assms(3) by (auto simp: numeral_2_eq_2 length_Suc_conv)
  have h: "load16 (macs @ be_bytes p @ rest) 12 = Some (bpf_htons p)" for p rest
    using load16_be_bytes [of macs p rest] assms(1) by simp
  consider "tags = []" | p0 t0 where "tags = [(p0, t0)]" | p0 t0 p1 t1 where "tags = [(p0, t0), (p1, t1)]"
    using assms(2) by (cases tags rule: remdups_adj.cases) (auto simp: numeral_2_eq_2)
  then show ?thesis
  proof cases
    case 1
    then show ?thesis
      using assms h [of proto payload]
      by (simp add: parse_ethhdr_vlan_def vlan_frame_def Let_def eth_h_proto_def VLAN_MAX_DEPTH_def
          vlan_loop_end be_bytes_nth del: vlan_loop.simps(2))
  next
    case (2 p0 t0)
    then show ?thesis
      using assms h [of p0 "be_bytes t0 @ be_bytes proto @ payload"] ids
        vlan_loop_tag [of 0 ids p0 "macs @ be_bytes p0" t0 proto payload "[1]"]
      by (simp add: parse_ethhdr_vlan_def vlan_frame_def tag_bytes_def Let_def eth_h_proto_def
          VLAN_MAX_DEPTH_def two vlan_loop_end be_bytes_nth del: vlan_loop.simps(2))
  next
    case (3 p0 t0 p1 t1)
    then show ?thesis
      using assms h [of p0 "be_bytes t0 @ be_bytes p1 @ be_bytes t1 @ be_bytes proto @ payload"] ids
        vlan_loop_tag [of 0 ids p0 "macs @ be_bytes p0" t0 p1 "be_bytes t1 @ be_bytes proto @ payload" "[1]"]
        vlan_loop_tag [of 1 "[t0 AND VLAN_VID_MASK, i1]" p1 "macs @ be_bytes p0 @ be_bytes t0 @ be_bytes p1" t1 proto payload "[]"]
      by (simp add: parse_ethhdr_vlan_def vlan_frame_def tag_bytes_def Let_def eth_h_proto_def
          VLAN_MAX_DEPTH_def two be_bytes_nth del: vlan_loop.simps(2))
  qed
qed

section \<open>Properties\<close>

text \<open>C31. Parsing undoes the encapsulation: for a frame with up to two VLAN tags the Ethernet parser
returns the inner protocol (in network byte order, although the file's comment says that all
return values are in host byte order), leaves the cursor behind the tags and collects the VLAN
identifiers of all tags in order.\<close>

theorem vlan_parse_roundtrip:
  assumes "length macs = 12" "length tags \<le> 2" "length ids = 2" "\<forall>t\<in>set tags. is_tpid (fst t)"
    "length tags < 2 \<longrightarrow> \<not> is_tpid proto"
  shows "parse_ethhdr_vlan (vlan_frame macs tags proto payload) (length (vlan_frame macs tags proto payload))
      \<lparr>pos = 0\<rparr> (Some ids)
    = Some (uint (bpf_htons proto), \<lparr>pos = 14 + 4 * length tags\<rparr>, Some 0,
        Some (map (\<lambda>t. snd t AND VLAN_VID_MASK) tags @ drop (length tags) ids))"
  by (rule parse_vlan_frame [OF assms])

lemma vlan_parse_roundtrip_witness:
  "parse_ethhdr_vlan (vlan_frame (replicate 12 7) [(0x88A8, 0x2064), (0x8100, 5)] 0x0800 [1, 2])
     (length (vlan_frame (replicate 12 7) [(0x88A8, 0x2064), (0x8100, 5)] 0x0800 [1, 2])) \<lparr>pos = 0\<rparr> (Some [0, 0])
   = Some (8, \<lparr>pos = 22\<rparr>, Some 0, Some [0x64, 5])"
proof -
  have "bpf_htons 0x0800 = 8" by (simp add: bpf_htons_def swab16_def)
  then show ?thesis
    using vlan_parse_roundtrip [of "replicate 12 7" "[(0x88A8, 0x2064), (0x8100, 5)]" "[0, 0]" "0x0800" "[1, 2]"]
    by (simp add: is_tpid_def proto_defs VLAN_VID_MASK_def)
qed

text \<open>C32. The two copies of the parsers agree: on every input the IPv4, ICMP, UDP and TCP parsers of
common/parsing_helpers.h and of main/common/parsing.h return the same, and so do the Ethernet
parsers on every complete Ethernet header without a VLAN tag.\<close>

theorem parser_copies_agree:
  "helpers_parse_iphdr m data_end nh = parse_iphdr m data_end nh \<and>
   helpers_parse_icmphdr m data_end nh = parse_icmphdr m data_end nh \<and>
   helpers_parse_udphdr m data_end nh = parse_udphdr m data_end nh \<and>
   helpers_parse_tcphdr m data_end nh = parse_tcphdr m data_end nh \<and>
   (data_end \<le> length m \<longrightarrow> pos nh + 14 \<le> data_end \<longrightarrow>
    proto_is_vlan (le16 (m ! (pos nh + 12)) (m ! (pos nh + 12 + 1))) = 0 \<longrightarrow>
    helpers_parse_ethhdr m data_end nh = parse_ethhdr m data_end nh)"
  by (simp add: helpers_fixed_eq helpers_udp_eq helpers_eth_untagged)

lemma parser_copies_agree_witness:
  "helpers_parse_ethhdr [7, 7, 7, 7, 7, 7, 7, 7, 7, 7, 7, 7, 8, 0] 14 \<lparr>pos = 0\<rparr>
   = parse_ethhdr [7, 7, 7, 7, 7, 7, 7, 7, 7, 7, 7, 7, 8, 0] 14 \<lparr>pos = 0\<rparr>"
proof -
  have "proto_is_vlan (le16 8 0) = 0"
    by (simp add: proto_is_vlan_def proto_defs bpf_htons_def swab16_def le16_def)
  then show ?thesis
    using parser_copies_agree [of "[7, 7, 7, 7, 7, 7, 7, 7, 7, 7, 7, 7, 8, 0]" 14 "\<lparr>pos = 0\<rparr>"]
    by simp
qed

end
