(* ===== verification/Bytes.thy ===== *)
theory Bytes
  imports Prelude
begin

text \<open>
  Writing to byte memory, and the little-endian encoding of words: what a store of a word writes
  is what a load at the same place reads. A write outside the memory is a fault (\<^term>\<open>None\<close>).
\<close>

section \<open>Reading and writing ranges\<close>

definition mem_read :: "bytes \<Rightarrow> nat \<Rightarrow> nat \<Rightarrow> bytes option" where
  "mem_read m a n = (if a + n \<le> length m then Some (take n (drop a m)) else None)"

definition mem_write :: "bytes \<Rightarrow> nat \<Rightarrow> bytes \<Rightarrow> bytes option" where
  "mem_write m a bs = (if a + length bs \<le> length m then Some (take a m @ bs @ drop (a + length bs) m) else None)"

definition store16 :: "bytes \<Rightarrow> nat \<Rightarrow> u16 \<Rightarrow> bytes option" where
  "store16 m a v = mem_write m a [ucast v, ucast (drop_bit 8 v)]"

lemma mem_read_at: "length pre = a \<Longrightarrow> length bs = n \<Longrightarrow> mem_read (pre @ bs @ post) a n = Some bs"
  by (auto simp: mem_read_def)

lemma mem_write_at:
  "length pre = a \<Longrightarrow> length bs = length old \<Longrightarrow> mem_write (pre @ old @ post) a bs = Some (pre @ bs @ post)"
  by (auto simp: mem_write_def)

lemma mem_read_length: "mem_read m a n = Some bs \<Longrightarrow> length bs = n \<and> a + n \<le> length m"
  by (auto simp: mem_read_def split: if_splits)

section \<open>Words\<close>

definition enc16 :: "u16 \<Rightarrow> bytes" where
  "enc16 v = [ucast v, ucast (drop_bit 8 v)]"

definition enc32 :: "u32 \<Rightarrow> bytes" where
  "enc32 v = enc16 (ucast v) @ enc16 (ucast (drop_bit 16 v))"

definition store32 :: "bytes \<Rightarrow> nat \<Rightarrow> u32 \<Rightarrow> bytes option" where
  "store32 m a v = mem_write m a (enc32 v)"

lemma store16_enc: "store16 m a v = mem_write m a (enc16 v)"
  by (simp add: store16_def enc16_def)

lemma length_enc [simp]: "length (enc16 v) = 2" "length (enc32 w) = 4"
  by (simp_all add: enc16_def enc32_def)

lemma le16_enc: "le16 (ucast v) (ucast (drop_bit 8 v)) = v"
  by (rule bit_word_eqI) (auto simp: le16_def bit_simps)

lemma le32_enc: "le32 (ucast w) (ucast (drop_bit 16 w)) = w"
  by (rule bit_word_eqI) (auto simp: le32_def bit_simps)

lemma load8_byte_at: "length pre = a \<Longrightarrow> load8 (pre @ b # post) a = Some b"
  by (auto simp: load8_def nth_append)

lemma load16_enc_at: "length pre = a \<Longrightarrow> load16 (pre @ enc16 v @ post) a = Some v"
  using load8_byte_at [of pre a "ucast v"] load8_byte_at [of "pre @ [ucast v]" "a + 1" "ucast (drop_bit 8 v)" post]
  by (simp add: load16_def enc16_def le16_enc)

lemma load32_enc_at: "length pre = a \<Longrightarrow> load32 (pre @ enc32 w @ post) a = Some w"
  using load16_enc_at [of pre a "ucast w"] load16_enc_at [of "pre @ enc16 (ucast w)" "a + 2" "ucast (drop_bit 16 w)" post]
  by (simp add: load32_def enc32_def le32_enc)

text \<open>A chain of writes over consecutive fields: each one replaces its part of the memory.\<close>

lemma store16_at: "length pre = a \<Longrightarrow> length old = 2 \<Longrightarrow> store16 (pre @ old @ post) a v = Some (pre @ enc16 v @ post)"
  by (simp add: store16_enc mem_write_at)

lemma store32_at: "length pre = a \<Longrightarrow> length old = 4 \<Longrightarrow> store32 (pre @ old @ post) a v = Some (pre @ enc32 v @ post)"
  by (simp add: store32_def mem_write_at)

end
