(* ===== verification/Rewrite_Helpers.thy ===== *)
theory Rewrite_Helpers
  imports Parsing_Helpers Bytes
begin

text \<open>
  common/rewrite_helpers.h: popping and pushing a VLAN tag and swapping addresses.

  \<open>xdp_md\<close> is the packet's memory (headroom, packet and tailroom) with the offsets \<open>data\<close> and
  \<open>data_end\<close>. The BPF helper \<open>bpf_xdp_adjust_head\<close> is the kernel's; it is the argument \<open>adjust\<close>,
  which takes the distance and returns the helper's result and the context after the call.
\<close>

lemma store16_htons:
  "length pre = a \<Longrightarrow> length old = 2 \<Longrightarrow> store16 (pre @ old @ post) a (bpf_htons v) = Some (pre @ be_bytes v @ post)"
proof -
  have "[ucast (bpf_htons v), ucast (drop_bit 8 (bpf_htons v))] = be_bytes v"
    by (auto simp: be_bytes_def bpf_htons_def bit_swab16 bit_simps add.commute intro!: bit_word_eqI)
  then show "length pre = a \<Longrightarrow> length old = 2 \<Longrightarrow> ?thesis"
    by (simp only: store16_def) (simp add: mem_write_at be_bytes_nth)
qed

section \<open>VLAN tags\<close>

record xdp_md =
  md_mem :: bytes
  md_data :: nat
  md_data_end :: nat

definition vlan_tag_pop :: "(int \<Rightarrow> xdp_md \<Rightarrow> int \<times> xdp_md) \<Rightarrow> xdp_md \<Rightarrow> nat \<Rightarrow> (int \<times> xdp_md) option" where
  "vlan_tag_pop adjust ctx eth = do {
     let data_end = md_data_end ctx;
     proto \<leftarrow> eth_h_proto (md_mem ctx) eth;
     if proto_is_vlan proto = 0 then Some (-1, ctx)
     else let vlh = eth + sizeof_ethhdr in
     if vlh + sizeof_vlan_hdr > data_end then Some (-1, ctx)
     else do {
       tci \<leftarrow> vlan_h_TCI (md_mem ctx) vlh;
       let vlid = uint (bpf_ntohs tci);
       h_proto \<leftarrow> vlan_h_encapsulated_proto (md_mem ctx) vlh;
       eth_cpy \<leftarrow> mem_read (md_mem ctx) eth sizeof_ethhdr;
       let (r, ctx) = adjust (int sizeof_vlan_hdr) ctx;
       if r \<noteq> 0 then Some (-1, ctx)
       else let eth = md_data ctx; data_end = md_data_end ctx in
       if eth + sizeof_ethhdr > data_end then Some (-1, ctx)
       else do {
         m \<leftarrow> mem_write (md_mem ctx) eth eth_cpy;
         m \<leftarrow> store16 m (eth + 12) h_proto;
         Some (vlid, ctx\<lparr>md_mem := m\<rparr>)
       }
     }
   }"

definition vlan_tag_push ::
    "(int \<Rightarrow> xdp_md \<Rightarrow> int \<times> xdp_md) \<Rightarrow> xdp_md \<Rightarrow> nat \<Rightarrow> int \<Rightarrow> (int \<times> xdp_md) option" where
  "vlan_tag_push adjust ctx eth vlid = do {
     eth_cpy \<leftarrow> mem_read (md_mem ctx) eth sizeof_ethhdr;
     let (r, ctx) = adjust (0 - int sizeof_vlan_hdr) ctx;
     if r \<noteq> 0 then Some (-1, ctx)
     else let data_end = md_data_end ctx; eth = md_data ctx in
     if eth + sizeof_ethhdr > data_end then Some (-1, ctx)
     else do {
       m \<leftarrow> mem_write (md_mem ctx) eth eth_cpy;
       let vlh = eth + sizeof_ethhdr;
       if vlh + sizeof_vlan_hdr > data_end then Some (-1, ctx\<lparr>md_mem := m\<rparr>)
       else do {
         m \<leftarrow> store16 m vlh (bpf_htons (word_of_int vlid));
         p \<leftarrow> eth_h_proto m eth;
         m \<leftarrow> store16 m (vlh + 2) p;
         m \<leftarrow> store16 m (eth + 12) (bpf_htons ETH_P_8021Q);
         Some (0, ctx\<lparr>md_mem := m\<rparr>)
       }
     }
   }"

section \<open>Swapping addresses\<close>

definition ETH_ALEN :: nat where "ETH_ALEN = 6"

text \<open>\<open>h_dest\<close> is at offset 0 and \<open>h_source\<close> at offset 6 of an Ethernet header.\<close>

definition swap_src_dst_mac :: "bytes \<Rightarrow> nat \<Rightarrow> bytes option" where
  "swap_src_dst_mac m eth = do {
     h_tmp \<leftarrow> mem_read m (eth + 6) ETH_ALEN;
     d \<leftarrow> mem_read m eth ETH_ALEN;
     m \<leftarrow> mem_write m (eth + 6) d;
     mem_write m eth h_tmp
   }"

text \<open>The addresses of an IPv6 header: \<open>saddr\<close> at offset 8, \<open>daddr\<close> at offset 24.\<close>

definition swap_src_dst_ipv6 :: "bytes \<Rightarrow> nat \<Rightarrow> bytes option" where
  "swap_src_dst_ipv6 m ipv6 = do {
     tmp \<leftarrow> mem_read m (ipv6 + 8) 16;
     d \<leftarrow> mem_read m (ipv6 + 24) 16;
     m \<leftarrow> mem_write m (ipv6 + 8) d;
     mem_write m (ipv6 + 24) tmp
   }"

text \<open>The addresses of an IPv4 header: \<open>saddr\<close> at offset 12, \<open>daddr\<close> at offset 16.\<close>

definition swap_src_dst_ipv4 :: "bytes \<Rightarrow> nat \<Rightarrow> bytes option" where
  "swap_src_dst_ipv4 m iphdr = do {
     tmp \<leftarrow> mem_read m (iphdr + 12) 4;
     d \<leftarrow> mem_read m (iphdr + 16) 4;
     m \<leftarrow> mem_write m (iphdr + 12) d;
     mem_write m (iphdr + 16) tmp
   }"

section \<open>Lemmas\<close>

text \<open>
  Two fields of equal size one after the other, and how each swap exchanges them. The three
  functions differ in the order of the copies only.
\<close>

definition swap_fields :: "bytes \<Rightarrow> nat \<Rightarrow> nat \<Rightarrow> bytes option" where
  "swap_fields m a n = (if a + 2 * n \<le> length m
     then Some (take a m @ take n (drop (a + n) m) @ take n (drop a m) @ drop (a + 2 * n) m) else None)"

lemma split_fields:
  assumes "a + 2 * n \<le> length (m :: bytes)"
  obtains pre x y post where "m = pre @ x @ y @ post" "length pre = a" "length x = n" "length y = n"
proof -
  have "m = take a m @ take n (drop a m) @ take n (drop n (drop a m)) @ drop n (drop n (drop a m))"
    by (simp only: append_take_drop_id)
  then show thesis using assms by (intro that) (auto simp: add.commute)
qed

lemma swap_fields_app:
  "length pre = a \<Longrightarrow> length x = n \<Longrightarrow> length y = n \<Longrightarrow>
   swap_fields (pre @ x @ y @ post) a n = Some (pre @ y @ x @ post)"
  by (simp add: swap_fields_def mult_2)

lemma swap_mac_eq: "swap_src_dst_mac m eth = swap_fields m eth 6"
proof (cases "eth + 2 * 6 \<le> length m")
  case True
  then obtain pre x y post where m: "m = pre @ x @ y @ post" "length pre = eth" "length x = 6" "length y = 6"
    by (rule split_fields)
  then show ?thesis
    using mem_read_at [of "pre @ x" "eth + 6" y 6 post] mem_read_at [of pre eth x 6 "y @ post"]
      mem_write_at [of "pre @ x" "eth + 6" x y post] mem_write_at [of pre eth y x "x @ post"]
    by (simp add: swap_src_dst_mac_def ETH_ALEN_def swap_fields_app)
next
  case False
  then show ?thesis by (simp add: swap_src_dst_mac_def ETH_ALEN_def mem_read_def swap_fields_def)
qed

lemma swap_after_eq:
  assumes "swap = (\<lambda>m. do { tmp \<leftarrow> mem_read m a n; d \<leftarrow> mem_read m (a + n) n;
     m \<leftarrow> mem_write m a d; mem_write m (a + n) tmp })"
  shows "swap m = swap_fields m a n"
proof (cases "a + 2 * n \<le> length m")
  case True
  then obtain pre x y post where m: "m = pre @ x @ y @ post" "length pre = a" "length x = n" "length y = n"
    by (rule split_fields)
  then show ?thesis
    using mem_read_at [of pre a x n "y @ post"] mem_read_at [of "pre @ x" "a + n" y n post]
      mem_write_at [of pre a y x "y @ post"] mem_write_at [of "pre @ y" "a + n" x y post]
    by (simp add: assms swap_fields_app)
next
  case False
  then show ?thesis by (auto simp: assms mem_read_def swap_fields_def)
qed

lemma swap_ipv6_eq: "swap_src_dst_ipv6 m p = swap_fields m (p + 8) 16"
  by (rule swap_after_eq [of "\<lambda>m. swap_src_dst_ipv6 m p"])
     (simp add: swap_src_dst_ipv6_def fun_eq_iff add.assoc)

lemma swap_ipv4_eq: "swap_src_dst_ipv4 m p = swap_fields m (p + 12) 4"
  by (rule swap_after_eq [of "\<lambda>m. swap_src_dst_ipv4 m p"])
     (simp add: swap_src_dst_ipv4_def fun_eq_iff add.assoc)

lemma swap_fields_twice:
  assumes "swap_fields m a n = Some m'"
  shows "swap_fields m' a n = Some m"
proof -
  have "a + 2 * n \<le> length m" using assms by (simp add: swap_fields_def split: if_splits)
  then obtain pre x y post where "m = pre @ x @ y @ post" "length pre = a" "length x = n" "length y = n"
    by (rule split_fields)
  with assms show ?thesis by (auto simp: swap_fields_app)
qed

text \<open>
  What the programs rely on of \<open>bpf_xdp_adjust_head\<close>: while the new start is not below the headroom
  limit \<open>lo\<close> and leaves room for an Ethernet header, the call succeeds and moves \<open>data\<close> only.
\<close>

definition adjust_head_law :: "nat \<Rightarrow> (int \<Rightarrow> xdp_md \<Rightarrow> int \<times> xdp_md) \<Rightarrow> bool" where
  "adjust_head_law lo adjust \<longleftrightarrow> (\<forall>d ctx. int lo \<le> int (md_data ctx) + d \<longrightarrow>
     int (md_data ctx) + d + 14 \<le> int (md_data_end ctx) \<longrightarrow>
     adjust d ctx = (0, ctx\<lparr>md_data := nat (int (md_data ctx) + d)\<rparr>))"

definition md_frame :: "xdp_md \<Rightarrow> bytes" where
  "md_frame ctx = take (md_data_end ctx - md_data ctx) (drop (md_data ctx) (md_mem ctx))"

lemma two_bytes: "length bs = 2 \<Longrightarrow> \<exists>v. bs = be_bytes v"
proof -
  assume "length bs = 2"
  then obtain b0 b1 where "bs = [b0, b1]" by (auto simp: numeral_2_eq_2 length_Suc_conv)
  moreover have "ucast (drop_bit 8 (le16 b1 b0)) = b0" "ucast (le16 b1 b0) = b1"
    by (auto simp: le16_def bit_simps bit_byte_out intro!: bit_word_eqI)
  ultimately show ?thesis by (auto simp: be_bytes_def intro: exI [of _ "le16 b1 b0"])
qed

lemma load16_at: "length pre = a \<Longrightarrow> load16 (pre @ be_bytes v @ post) a = Some (bpf_htons v)"
  using load16_be_bytes by blast

lemma vlan_push_eq:
  assumes "adjust_head_law lo adjust" "lo \<le> length pre" "length gap = 4" "length macs = 12"
    "md_mem ctx = pre @ gap @ macs @ be_bytes pv @ rest" "md_data ctx = length pre + 4"
    "length pre + 18 \<le> md_data_end ctx"
  shows "vlan_tag_push adjust ctx (md_data ctx) vlid = Some (0, ctx\<lparr>md_data := length pre,
      md_mem := pre @ macs @ be_bytes ETH_P_8021Q @ be_bytes (word_of_int vlid) @ be_bytes pv @ rest\<rparr>)"
proof -
  let ?ctx = "ctx\<lparr>md_data := length pre\<rparr>"
  obtain x y where xy: "drop 10 macs @ be_bytes pv = x @ y" "length x = 2" "length y = 2"
    using assms(4) by (intro that [of "drop 10 macs" "be_bytes pv"]) (simp_all add: be_bytes_nth)
  have adj: "adjust (0 - int sizeof_vlan_hdr) ctx = (0, ?ctx)"
    using assms by (simp add: adjust_head_law_def)
  have copy: "mem_read (md_mem ctx) (md_data ctx) sizeof_ethhdr = Some (macs @ be_bytes pv)"
    using mem_read_at [of "pre @ gap" "md_data ctx" "macs @ be_bytes pv" 14 rest] assms
    by (simp add: be_bytes_nth)
  have "macs @ be_bytes pv @ rest = take 10 macs @ x @ y @ rest"
    by (metis append.assoc append_take_drop_id xy(1))
  then have mem: "md_mem ctx = pre @ (gap @ take 10 macs) @ (x @ y @ rest)"
    using assms(5) by simp
  have "mem_write (md_mem ctx) (length pre) (macs @ be_bytes pv)
      = Some (pre @ (macs @ be_bytes pv) @ (x @ y @ rest))"
    unfolding mem using assms(3,4) by (intro mem_write_at) (simp_all add: be_bytes_nth)
  then have m1: "mem_write (md_mem ctx) (length pre) (macs @ be_bytes pv)
      = Some (pre @ macs @ be_bytes pv @ x @ y @ rest)" by simp
  show ?thesis
    using assms xy(2,3) adj copy m1
      store16_htons [of "pre @ macs @ be_bytes pv" "length pre + 14" x "y @ rest" "word_of_int vlid"]
      load16_at [of "pre @ macs" "length pre + 12" pv "be_bytes (word_of_int vlid) @ y @ rest"]
      store16_htons [of "pre @ macs @ be_bytes pv @ be_bytes (word_of_int vlid)" "length pre + 14 + 2" y rest pv]
      store16_htons [of "pre @ macs" "length pre + 12" "be_bytes pv"
        "be_bytes (word_of_int vlid) @ be_bytes pv @ rest" ETH_P_8021Q]
    by (simp add: vlan_tag_push_def Let_def eth_h_proto_def be_bytes_nth)
qed

lemma vlan_pop_eq:
  assumes "adjust_head_law lo adjust" "lo \<le> length pre" "length macs = 12" "is_tpid tpid"
    "md_mem ctx = pre @ macs @ be_bytes tpid @ be_bytes tci @ be_bytes pv @ rest" "md_data ctx = length pre"
    "length pre + 18 \<le> md_data_end ctx"
  shows "vlan_tag_pop adjust ctx (md_data ctx) = Some (uint tci, ctx\<lparr>md_data := length pre + 4,
      md_mem := pre @ take 4 macs @ macs @ be_bytes pv @ rest\<rparr>)"
proof -
  let ?ctx = "ctx\<lparr>md_data := length pre + 4\<rparr>"
  have adj: "adjust (int sizeof_vlan_hdr) ctx = (0, ?ctx)"
    using assms by (simp add: adjust_head_law_def nat_add_distrib)
  have "md_mem ctx = (pre @ take 4 macs) @ (drop 4 macs @ be_bytes tpid @ be_bytes tci @ be_bytes pv) @ rest"
    using assms(5) by (simp add: append_assoc [symmetric] del: append_assoc) (simp add: append_assoc)
  then have m1: "mem_write (md_mem ctx) (length pre + 4) (macs @ be_bytes tpid)
      = Some (pre @ take 4 macs @ macs @ be_bytes tpid @ rest)"
    using mem_write_at [of "pre @ take 4 macs" "length pre + 4" "macs @ be_bytes tpid"
        "drop 4 macs @ be_bytes tpid @ be_bytes tci @ be_bytes pv" rest] assms(3)
    by (simp add: be_bytes_nth)
  show ?thesis
    using assms adj m1
      load16_at [of "pre @ macs" "length pre + 12" tpid "be_bytes tci @ be_bytes pv @ rest"]
      load16_at [of "pre @ macs @ be_bytes tpid" "length pre + 14" tci "be_bytes pv @ rest"]
      load16_at [of "pre @ macs @ be_bytes tpid @ be_bytes tci" "length pre + 14 + 2" pv rest]
      mem_read_at [of pre "length pre" "macs @ be_bytes tpid" 14 "be_bytes tci @ be_bytes pv @ rest"]
      store16_htons [of "pre @ take 4 macs @ macs" "length pre + 4 + 12" "be_bytes tpid" rest pv]
    by (simp add: vlan_tag_pop_def Let_def layout be_bytes_nth proto_is_vlan_htons)
qed

text \<open>A packet with room in front of it, as the lists the lemmas above work on.\<close>

lemma split_packet:
  assumes "4 \<le> md_data ctx" "md_data ctx + 14 \<le> md_data_end ctx" "md_data_end ctx \<le> length (md_mem ctx)"
  obtains pre gap macs pv rest where "md_mem ctx = pre @ gap @ macs @ be_bytes pv @ rest"
    "md_data ctx = length pre + 4" "length gap = 4" "length macs = 12"
proof -
  let ?m = "md_mem ctx" and ?d = "md_data ctx"
  obtain pre gap tail where m: "?m = pre @ gap @ tail" "length pre + 4 = ?d" "length gap = 4"
    using assms by (intro that [of "take (?d - 4) ?m" "take 4 (drop (?d - 4) ?m)" "drop 4 (drop (?d - 4) ?m)"])
      (simp_all only: append_take_drop_id, simp_all)
  have tail: "14 \<le> length tail" using assms m by simp
  obtain macs p rest where t: "tail = macs @ p @ rest" "length macs = 12" "length p = 2"
    using tail by (intro that [of "take 12 tail" "take 2 (drop 12 tail)" "drop 2 (drop 12 tail)"])
      (simp_all only: append_take_drop_id, simp_all)
  with two_bytes [OF t(3)] m show thesis by (auto intro: that)
qed

section \<open>Properties\<close>

text \<open>C33. Popping undoes pushing: on every packet with four bytes of headroom, \<open>vlan_tag_push\<close> makes
the frame with one 802.1Q tag in front of its protocol, and \<open>vlan_tag_pop\<close> on the result returns
the tag control word (modulo \<open>2 ^ 16\<close>, with the priority bits) and restores the frame.\<close>

theorem vlan_push_pop_roundtrip:
  assumes "adjust_head_law lo adjust" "lo + 4 \<le> md_data ctx" "md_data ctx + 14 \<le> md_data_end ctx"
    "md_data_end ctx \<le> length (md_mem ctx)"
  shows "\<exists>ctx1 ctx2. vlan_tag_push adjust ctx (md_data ctx) vlid = Some (0, ctx1) \<and>
    (\<exists>macs proto payload. length macs = 12 \<and> md_frame ctx = vlan_frame macs [] proto payload \<and>
       md_frame ctx1 = vlan_frame macs [(ETH_P_8021Q, word_of_int vlid)] proto payload) \<and>
    vlan_tag_pop adjust ctx1 (md_data ctx1) = Some (vlid mod 65536, ctx2) \<and> md_frame ctx2 = md_frame ctx"
proof -
  obtain pre gap macs pv rest where mem: "md_mem ctx = pre @ gap @ macs @ be_bytes pv @ rest"
      and len: "md_data ctx = length pre + 4" "length gap = 4" "length macs = 12"
    by (rule split_packet [of ctx]) (use assms in auto)
  let ?stop = "md_data_end ctx" and ?tci = "word_of_int vlid :: u16"
  let ?ctx1 = "ctx\<lparr>md_data := length pre,
      md_mem := pre @ macs @ be_bytes ETH_P_8021Q @ be_bytes ?tci @ be_bytes pv @ rest\<rparr>"
  let ?ctx2 = "?ctx1\<lparr>md_data := length pre + 4, md_mem := pre @ take 4 macs @ macs @ be_bytes pv @ rest\<rparr>"
  let ?payload = "take (?stop - (length pre + 18)) rest"
  have push: "vlan_tag_push adjust ctx (md_data ctx) vlid = Some (0, ?ctx1)"
    using assms mem len by (intro vlan_push_eq [where gap = gap and lo = lo]) auto
  have "vlan_tag_pop adjust ?ctx1 (md_data ?ctx1) = Some (uint ?tci, ?ctx2)"
    using assms mem len by (intro vlan_pop_eq [where lo = lo and tpid = ETH_P_8021Q]) (auto simp: is_tpid_def)
  then have pop: "vlan_tag_pop adjust ?ctx1 (md_data ?ctx1) = Some (vlid mod 65536, ?ctx2)"
    by (simp add: uint_word_of_int)
  have "md_frame ctx = vlan_frame macs [] pv ?payload"
    "md_frame ?ctx1 = vlan_frame macs [(ETH_P_8021Q, ?tci)] pv ?payload"
    "md_frame ?ctx2 = md_frame ctx"
    using assms mem len by (simp_all add: md_frame_def vlan_frame_def tag_bytes_def be_bytes_nth
        add.commute [of "length pre"])
  with push pop len show ?thesis by blast
qed

definition demo_adjust :: "int \<Rightarrow> xdp_md \<Rightarrow> int \<times> xdp_md" where
  "demo_adjust d ctx = (if 32 \<le> int (md_data ctx) + d \<and> int (md_data ctx) + d + 14 \<le> int (md_data_end ctx)
     then (0, ctx\<lparr>md_data := nat (int (md_data ctx) + d)\<rparr>) else (-22, ctx))"

lemma demo_adjust: "adjust_head_law 32 demo_adjust"
  by (simp add: adjust_head_law_def demo_adjust_def)

lemma vlan_push_pop_roundtrip_witness:
  "\<exists>ctx1 ctx2. vlan_tag_push demo_adjust \<lparr>md_mem = replicate 300 7, md_data = 256, md_data_end = 300\<rparr> 256 0x2005 = Some (0, ctx1) \<and>
    vlan_tag_pop demo_adjust ctx1 (md_data ctx1) = Some (0x2005, ctx2) \<and> md_frame ctx2 = replicate 44 7"
  using vlan_push_pop_roundtrip [OF demo_adjust, of "\<lparr>md_mem = replicate 300 7, md_data = 256, md_data_end = 300\<rparr>" "0x2005"]
  by (auto simp: md_frame_def)

text \<open>The three address swaps exchange the two fields in place, fault exactly when the second
field ends outside the memory, and undo themselves.\<close>

theorem swaps_are_involutions:
  assumes "swap \<in> {(swap_src_dst_mac, 0, 6), (swap_src_dst_ipv6, 8, 16), (swap_src_dst_ipv4, 12, 4 :: nat)}"
  shows "case swap of (f, off, n) \<Rightarrow>
    (if p + off + 2 * n \<le> length m
     then \<exists>m'. f m p = Some m' \<and> length m' = length m \<and>
       take n (drop (p + off) m') = take n (drop (p + off + n) m) \<and>
       take n (drop (p + off + n) m') = take n (drop (p + off) m) \<and>
       take (p + off) m' = take (p + off) m \<and> drop (p + off + 2 * n) m' = drop (p + off + 2 * n) m \<and>
       f m' p = Some m
     else f m p = None)"
proof -
  have "if a + 2 * n \<le> length m
     then \<exists>m'. swap_fields m a n = Some m' \<and> length m' = length m \<and>
       take n (drop a m') = take n (drop (a + n) m) \<and> take n (drop (a + n) m') = take n (drop a m) \<and>
       take a m' = take a m \<and> drop (a + 2 * n) m' = drop (a + 2 * n) m \<and> swap_fields m' a n = Some m
     else swap_fields m a n = None" for a n
  proof (cases "a + 2 * n \<le> length m")
    case True
    then obtain pre x y post where "m = pre @ x @ y @ post" "length pre = a" "length x = n" "length y = n"
      by (rule split_fields)
    with True show ?thesis by (auto simp: swap_fields_app mult_2)
  qed (simp add: swap_fields_def)
  from this [of p 6] this [of "p + 8" 16] this [of "p + 12" 4] show ?thesis
    using assms by (auto simp only: insert_iff empty_iff prod.case swap_mac_eq swap_ipv6_eq swap_ipv4_eq add_0_right)
qed

lemma swaps_are_involutions_witness:
  "\<exists>m'. swap_src_dst_mac [1, 2, 3, 4, 5, 6, 7, 8, 9, 10, 11, 12, 8, 0] 0 = Some m' \<and>
    take 6 m' = [7, 8, 9, 10, 11, 12] \<and>
    swap_src_dst_mac m' 0 = Some [1, 2, 3, 4, 5, 6, 7, 8, 9, 10, 11, 12, 8, 0]"
  using swaps_are_involutions [of "(swap_src_dst_mac, 0, 6)" 0 "[1, 2, 3, 4, 5, 6, 7, 8, 9, 10, 11, 12, 8, 0]"]
  by auto

end
