(* ===== verification/Policy_Stats.thy ===== *)
theory Policy_Stats
  imports Xdp_Kernel
begin

text \<open>
  main/start_policy.c, first half of \<open>detect_attackers\<close>: counting, per policy, the packets of
  each source address. The arrays have their C sizes and an access outside them is a fault
  (\<^term>\<open>None\<close>). The array \<open>psi\<close> is a local variable that the code does not initialise beyond
  its \<open>num_ip\<close> fields, so its first contents are an argument.
\<close>

section \<open>Data\<close>

record policy =
  policy_id :: int
  policy_ip :: u32
  threshold :: int

text \<open>\<open>ip_addr\<close> and \<open>ip_count\<close> are the rows 0 and 1 of \<open>ip[2][100]\<close>.\<close>

record policy_stats_ip =
  ip_addr :: "u32 list"
  ip_count :: "u32 list"
  num_ip :: u32

definition psi_slots :: nat where "psi_slots = 100"

definition psi_sized :: "policy_stats_ip \<Rightarrow> bool" where
  "psi_sized p \<longleftrightarrow> length (ip_addr p) = psi_slots \<and> length (ip_count p) = psi_slots"

section \<open>The loops\<close>

text \<open>
  The loop over \<open>k\<close>: the indices below \<open>num_ip\<close> in turn, up to the first one that holds the
  source, whose counter is incremented. The flag says whether one was found.
\<close>

fun src_loop :: "u32 \<Rightarrow> nat list \<Rightarrow> policy_stats_ip \<Rightarrow> (bool \<times> policy_stats_ip) option" where
  "src_loop s [] p = Some (False, p)"
| "src_loop s (k # ks) p = do {
     a \<leftarrow> arr_get (ip_addr p) k;
     if s = a then do {
       c \<leftarrow> arr_get (ip_count p) k;
       cs \<leftarrow> arr_set (ip_count p) k (c + 1);
       Some (True, p\<lparr>ip_count := cs\<rparr>)
     } else src_loop s ks p
   }"

text \<open>One packet against one policy. The counter \<open>n\<close> (\<open>num_ip\<close> of the function) is shared by all policies.\<close>

definition policy_step :: "policy \<Rightarrow> pkt_meta \<Rightarrow> policy_stats_ip \<Rightarrow> nat \<Rightarrow> (policy_stats_ip \<times> nat) option" where
  "policy_step pol pkt p n =
     (if dst pkt = policy_ip pol then do {
        (flag, p) \<leftarrow> src_loop (src pkt) [0..<unat (num_ip p)] p;
        (p, n) \<leftarrow> (if \<not> flag then do {
             as \<leftarrow> arr_set (ip_addr p) n (src pkt);
             cs \<leftarrow> arr_set (ip_count p) n 1;
             Some (p\<lparr>ip_addr := as, ip_count := cs\<rparr>, n + 1)
           } else Some (p, n));
        Some (p\<lparr>num_ip := of_nat n\<rparr>, n)
      } else Some (p, n))"

fun policy_loop ::
    "policy list \<Rightarrow> pkt_meta \<Rightarrow> policy_stats_ip list \<Rightarrow> nat \<Rightarrow> (policy_stats_ip list \<times> nat) option"
  where
  "policy_loop (pol # pols) pkt (p # ps) n = do {
     (p, n) \<leftarrow> policy_step pol pkt p n;
     (ps, n) \<leftarrow> policy_loop pols pkt ps n;
     Some (p # ps, n)
   }"
| "policy_loop _ pkt ps n = Some (ps, n)"

fun packet_loop ::
    "policy list \<Rightarrow> pkt_meta list \<Rightarrow> policy_stats_ip list \<Rightarrow> nat \<Rightarrow> (policy_stats_ip list \<times> nat) option"
  where
  "packet_loop pols [] ps n = Some (ps, n)"
| "packet_loop pols (pkt # pkts) ps n = do {
     (ps, n) \<leftarrow> policy_loop pols pkt ps n;
     packet_loop pols pkts ps n
   }"

text \<open>
  The counting half of \<open>detect_attackers\<close>: \<open>psi\<close> has one element per policy, with arbitrary
  rows; every \<open>num_ip\<close> is set to 0 and the queue is counted.
\<close>

definition count_packets ::
    "policy list \<Rightarrow> pkt_meta list \<Rightarrow> policy_stats_ip list \<Rightarrow> (policy_stats_ip list \<times> nat) option"
  where
  "count_packets pols queue psi = packet_loop pols queue (map (\<lambda>p. p\<lparr>num_ip := 0\<rparr>) psi) 0"

section \<open>Counting with one policy\<close>

text \<open>
  The abstract counter: sources in the order of their first packet, each with its number of
  packets.
\<close>

fun tally :: "u32 \<Rightarrow> (u32 \<times> nat) list \<Rightarrow> (u32 \<times> nat) list" where
  "tally s [] = [(s, 1)]"
| "tally s ((a, c) # t) = (if s = a then (a, c + 1) # t else (a, c) # tally s t)"

definition tallies :: "u32 list \<Rightarrow> (u32 \<times> nat) list" where
  "tallies ss = fold tally ss []"

text \<open>The sources of the packets sent to an address.\<close>

definition sources_to :: "u32 \<Rightarrow> pkt_meta list \<Rightarrow> u32 list" where
  "sources_to a queue = map src (filter (\<lambda>p. dst p = a) queue)"

text \<open>The table \<open>p\<close> with \<open>n\<close> used slots holds the tallies \<open>t\<close>.\<close>

definition holds :: "policy_stats_ip \<Rightarrow> nat \<Rightarrow> (u32 \<times> nat) list \<Rightarrow> bool" where
  "holds p n t \<longleftrightarrow> psi_sized p \<and> n = length t \<and> n \<le> psi_slots \<and> num_ip p = of_nat n \<and>
     (\<forall>k<n. ip_addr p ! k = fst (t ! k) \<and> ip_count p ! k = of_nat (snd (t ! k)))"

lemma length_tally: "length (tally s t) = (if s \<in> fst ` set t then length t else length t + 1)"
  by (induction s t rule: tally.induct) auto

lemma fst_set_tally: "fst ` set (tally s t) = insert s (fst ` set t)"
  by (induction s t rule: tally.induct) auto

lemma distinct_tally: "distinct (map fst t) \<Longrightarrow> distinct (map fst (tally s t))"
proof (induction s t rule: tally.induct)
  case (2 s a c t)
  then show ?case using fst_set_tally [of s t] by (auto simp flip: set_map)
qed simp

lemma tally_new: "s \<notin> fst ` set t \<Longrightarrow> tally s t = t @ [(s, 1)]"
  by (induction s t rule: tally.induct) auto

lemma tally_old: "k < length t \<Longrightarrow> fst (t ! k) = s \<Longrightarrow> \<forall>i<k. fst (t ! i) \<noteq> s \<Longrightarrow>
  tally s t = t[k := (s, snd (t ! k) + 1)]"
proof (induction s t arbitrary: k rule: tally.induct)
  case (2 s a c t)
  show ?case
  proof (cases k)
    case 0
    with 2 show ?thesis by auto
  next
    case (Suc j)
    with "2.prems"(3) have "a \<noteq> s" by force
    moreover have "\<forall>i<j. fst (t ! i) \<noteq> s" using "2.prems"(3) Suc by force
    ultimately show ?thesis using 2 Suc by auto
  qed
qed simp

lemma distinct_tallies: "distinct (map fst (tallies ss))"
proof -
  have "distinct (map fst (fold tally ss t))" if "distinct (map fst t)" for t
    using that by (induction ss arbitrary: t) (simp_all add: distinct_tally)
  then show ?thesis by (simp add: tallies_def)
qed

lemma fst_set_tallies: "fst ` set (tallies ss) = set ss"
proof -
  have "fst ` set (fold tally ss t) = set ss \<union> fst ` set t" for t
    by (induction ss arbitrary: t) (auto simp: fst_set_tally)
  then show ?thesis by (simp add: tallies_def)
qed

lemma length_tallies: "length (tallies ss) = card (set ss)"
proof -
  have "card (set ss) = card (set (map fst (tallies ss)))"
    using fst_set_tallies [of ss] by simp
  also have "\<dots> = length (tallies ss)"
    using distinct_card [OF distinct_tallies [of ss]] by simp
  finally show ?thesis by simp
qed

lemma map_of_tally: "map_of (tally s t) = (map_of t)(s \<mapsto> (case map_of t s of None \<Rightarrow> 1 | Some c \<Rightarrow> c + 1))"
  by (induction s t rule: tally.induct) (auto simp: fun_eq_iff)

text \<open>The tally of a source is the number of its packets.\<close>

lemma map_of_tallies:
  "map_of (tallies ss) s = (if s \<in> set ss then Some (count_list ss s) else None)"
proof (induction ss rule: rev_induct)
  case Nil
  then show ?case by (simp add: tallies_def)
next
  case (snoc a ss)
  have "tallies (ss @ [a]) = tally a (tallies ss)" by (simp add: tallies_def)
  with snoc show ?case by (auto simp: map_of_tally count_list_0_iff)
qed

text \<open>The index loop, by whether it meets the source.\<close>

lemma src_loop_miss:
  "\<forall>k\<in>set ks. k < length (ip_addr p) \<and> ip_addr p ! k \<noteq> s \<Longrightarrow> src_loop s ks p = Some (False, p)"
  by (induction ks) (auto simp: fault)

lemma src_loop_hit:
  assumes "\<forall>i\<in>set pre. i < length (ip_addr p) \<and> ip_addr p ! i \<noteq> s"
    "k < length (ip_addr p)" "k < length (ip_count p)" "ip_addr p ! k = s"
  shows "src_loop s (pre @ k # post) p
    = Some (True, p\<lparr>ip_count := (ip_count p)[k := ip_count p ! k + 1]\<rparr>)"
  using assms by (induction pre) (auto simp: fault)

lemma holds_num_ip: "holds p n t \<Longrightarrow> unat (num_ip p) = n"
  by (simp add: holds_def psi_slots_def unat_of_nat_u32)

lemma holdsD:
  assumes "holds p n t"
  shows "n = length t" "n \<le> psi_slots" "length (ip_addr p) = psi_slots" "length (ip_count p) = psi_slots"
    "\<And>k. k < n \<Longrightarrow> ip_addr p ! k = fst (t ! k)" "\<And>k. k < n \<Longrightarrow> ip_count p ! k = of_nat (snd (t ! k))"
  using assms by (auto simp: holds_def psi_sized_def)

lemma policy_step_known:
  assumes h: "holds p n t" and d: "dst pkt = policy_ip pol" and old: "src pkt \<in> fst ` set t"
  shows "\<exists>p'. policy_step pol pkt p n = Some (p', n) \<and> holds p' n (tally (src pkt) t)"
proof -
  define s where "s = src pkt"
  have "\<exists>k<length t. fst (t ! k) = s"
    using old by (force simp: s_def in_set_conv_nth)
  then obtain k where k: "k < length t" "fst (t ! k) = s" and before: "\<forall>i<k. fst (t ! i) \<noteq> s"
    by (rule first_index)
  let ?p = "p\<lparr>ip_count := (ip_count p)[k := ip_count p ! k + 1]\<rparr>"
  have "src_loop s ([0..<k] @ k # [Suc k..<n]) p = Some (True, ?p)"
    using k before holdsD [OF h] by (intro src_loop_hit) simp_all
  then have "src_loop s [0..<n] p = Some (True, ?p)"
    using k(1) holdsD(1) [OF h] by (simp only: upt_split)
  then have step: "policy_step pol pkt p n = Some (?p\<lparr>num_ip := of_nat n\<rparr>, n)"
    using d holds_num_ip [OF h] by (simp add: policy_step_def s_def)
  have "holds (?p\<lparr>num_ip := of_nat n\<rparr>) n (t[k := (s, snd (t ! k) + 1)])"
    using h k by (auto simp: holds_def psi_sized_def nth_list_update)
  with step tally_old [OF k before] show ?thesis by (auto simp: s_def)
qed

lemma policy_step_fresh:
  assumes h: "holds p n t" and d: "dst pkt = policy_ip pol" and new: "src pkt \<notin> fst ` set t"
  shows "if n < psi_slots
    then \<exists>p'. policy_step pol pkt p n = Some (p', n + 1) \<and> holds p' (n + 1) (tally (src pkt) t)
    else policy_step pol pkt p n = None"
proof -
  have "ip_addr p ! k \<noteq> src pkt" if "k < n" for k
    using holdsD(1,5) [OF h] new that by (metis imageI nth_mem)
  then have miss: "src_loop (src pkt) [0..<n] p = Some (False, p)"
    using holdsD(2,3) [OF h] by (intro src_loop_miss) simp
  show ?thesis
  proof (cases "n < psi_slots")
    case True
    let ?p = "p\<lparr>ip_addr := (ip_addr p)[n := src pkt], ip_count := (ip_count p)[n := 1], num_ip := of_nat (n + 1)\<rparr>"
    have "policy_step pol pkt p n = Some (?p, n + 1)"
      using True h d miss holds_num_ip [OF h]
      by (simp add: policy_step_def holds_def psi_sized_def fault)
    moreover have "holds ?p (n + 1) (t @ [(src pkt, 1)])"
      using True h by (auto simp: holds_def psi_sized_def nth_append less_Suc_eq)
    ultimately show ?thesis using True tally_new [OF new] by auto
  next
    case False
    then show ?thesis
      using h d miss holds_num_ip [OF h]
      by (simp add: policy_step_def holds_def psi_sized_def arr_out)
  qed
qed

lemma length_fold_tally: "length t \<le> length (fold tally ss t)"
proof (induction ss arbitrary: t)
  case (Cons s ss)
  have "length t \<le> length (tally s t)" by (simp add: length_tally)
  also have "\<dots> \<le> length (fold tally ss (tally s t))" by (rule Cons.IH)
  finally show ?case by simp
qed simp

text \<open>
  The whole queue against one policy: the counting faults exactly when the queue holds packets
  of more than 100 sources; otherwise the table holds the tallies.
\<close>

lemma packet_loop_single:
  assumes "holds p n t"
  shows "(if length (fold tally (sources_to (policy_ip pol) queue) t) \<le> psi_slots
    then \<exists>p' n'. packet_loop [pol] queue [p] n = Some ([p'], n') \<and>
      holds p' n' (fold tally (sources_to (policy_ip pol) queue) t)
    else packet_loop [pol] queue [p] n = None)"
  using assms
proof (induction queue arbitrary: p n t)
  case Nil
  then show ?case by (auto simp: sources_to_def holds_def)
next
  case (Cons pkt queue)
  show ?case
  proof (cases "dst pkt = policy_ip pol")
    case False
    then have "policy_step pol pkt p n = Some (p, n)" by (simp add: policy_step_def)
    moreover have "sources_to (policy_ip pol) (pkt # queue) = sources_to (policy_ip pol) queue"
      using False by (simp add: sources_to_def)
    ultimately show ?thesis using Cons.IH [OF Cons.prems] by simp
  next
    case d: True
    have srcs: "sources_to (policy_ip pol) (pkt # queue) = src pkt # sources_to (policy_ip pol) queue"
      using d by (simp add: sources_to_def)
    show ?thesis
    proof (cases "src pkt \<in> fst ` set t \<or> n < psi_slots")
      case True
      then obtain p' n' where "policy_step pol pkt p n = Some (p', n')"
          and "holds p' n' (tally (src pkt) t)"
        using policy_step_known [OF Cons.prems d] policy_step_fresh [OF Cons.prems d]
        by (cases "src pkt \<in> fst ` set t") auto
      with Cons.IH [of p' n' "tally (src pkt) t"] show ?thesis by (simp add: srcs)
    next
      case False
      then have "policy_step pol pkt p n = None"
        using policy_step_fresh [OF Cons.prems d] by simp
      moreover have "psi_slots < length (tally (src pkt) t)"
        using False Cons.prems by (auto simp: length_tally holds_def)
      ultimately show ?thesis
        using length_fold_tally [of "tally (src pkt) t" "sources_to (policy_ip pol) queue"] by (simp add: srcs)
    qed
  qed
qed

lemma count_packets_single:
  assumes "psi_sized p"
  shows "(if card (set (sources_to (policy_ip pol) queue)) \<le> psi_slots
    then \<exists>p' n. count_packets [pol] queue [p] = Some ([p'], n) \<and>
      holds p' n (tallies (sources_to (policy_ip pol) queue))
    else count_packets [pol] queue [p] = None)"
proof -
  have "holds (p\<lparr>num_ip := 0\<rparr>) 0 []"
    using assms by (simp add: holds_def psi_sized_def)
  from packet_loop_single [OF this, of pol queue] show ?thesis
    by (simp add: count_packets_def tallies_def flip: length_tallies)
qed

text \<open>
  With any number of policies the shared counter grows by at most one per matching pair of a
  packet and a policy, so at most 100 such pairs never fault.
\<close>

definition matches :: "policy list \<Rightarrow> pkt_meta \<Rightarrow> nat" where
  "matches pols pkt = length (filter (\<lambda>pol. dst pkt = policy_ip pol) pols)"

definition psi_ok :: "policy_stats_ip \<Rightarrow> bool" where
  "psi_ok p \<longleftrightarrow> psi_sized p \<and> unat (num_ip p) \<le> psi_slots"

lemma src_loop_ok:
  assumes "psi_sized p" "\<forall>k\<in>set ks. k < psi_slots"
  shows "\<exists>b p'. src_loop s ks p = Some (b, p') \<and> psi_sized p'"
  using assms by (induction ks) (auto simp: psi_sized_def fault)

lemma policy_step_ok:
  assumes "psi_ok p" "n + (if dst pkt = policy_ip pol then 1 else 0) \<le> psi_slots"
  shows "\<exists>p' n'. policy_step pol pkt p n = Some (p', n') \<and> psi_ok p' \<and>
    n' \<le> n + (if dst pkt = policy_ip pol then 1 else 0)"
proof (cases "dst pkt = policy_ip pol")
  case True
  obtain b p' where run: "src_loop (src pkt) [0..<unat (num_ip p)] p = Some (b, p')" and "psi_sized p'"
    using src_loop_ok [of p "[0..<unat (num_ip p)]" "src pkt"] assms(1) by (auto simp: psi_ok_def)
  have small: "unat (of_nat k :: u32) \<le> psi_slots" if "k \<le> psi_slots" for k
    using that by (simp add: psi_slots_def unat_of_nat_u32)
  show ?thesis
  proof (cases b)
    case True
    with \<open>psi_sized p'\<close> \<open>dst pkt = policy_ip pol\<close> assms run small [of n] show ?thesis
      by (simp add: policy_step_def psi_ok_def psi_sized_def)
  next
    case False
    with \<open>psi_sized p'\<close> \<open>dst pkt = policy_ip pol\<close> assms run small [of "n + 1"] show ?thesis
      by (simp add: policy_step_def psi_ok_def psi_sized_def fault)
  qed
next
  case False
  with assms show ?thesis by (simp add: policy_step_def)
qed

lemma policy_loop_ok:
  assumes "\<forall>p\<in>set ps. psi_ok p" "n + matches pols pkt \<le> psi_slots"
  shows "\<exists>ps' n'. policy_loop pols pkt ps n = Some (ps', n') \<and> (\<forall>p\<in>set ps'. psi_ok p) \<and>
    length ps' = length ps \<and> n' \<le> n + matches pols pkt"
  using assms
proof (induction pols pkt ps n rule: policy_loop.induct)
  case (1 pol pols pkt p ps n)
  obtain p' n1 where step: "policy_step pol pkt p n = Some (p', n1)" "psi_ok p'"
      "n1 \<le> n + (if dst pkt = policy_ip pol then 1 else 0)"
    using policy_step_ok [of p n pkt pol] "1.prems" by (auto simp: matches_def split: if_splits)
  with "1.prems" have "n1 + matches pols pkt \<le> psi_slots" by (auto simp: matches_def split: if_splits)
  with "1.IH" [OF step(1) refl] "1.prems" obtain ps' n' where
    "policy_loop pols pkt ps n1 = Some (ps', n')" "\<forall>p\<in>set ps'. psi_ok p" "length ps' = length ps"
    "n' \<le> n1 + matches pols pkt" by auto
  with step show ?case by (auto simp: matches_def split: if_splits)
qed auto

lemma packet_loop_ok:
  assumes "\<forall>p\<in>set ps. psi_ok p" "n + (\<Sum>pkt\<leftarrow>queue. matches pols pkt) \<le> psi_slots"
  shows "\<exists>ps' n'. packet_loop pols queue ps n = Some (ps', n') \<and> (\<forall>p\<in>set ps'. psi_ok p) \<and>
    length ps' = length ps \<and> n' \<le> psi_slots"
  using assms
proof (induction queue arbitrary: ps n)
  case (Cons pkt queue)
  then obtain ps1 n1 where "policy_loop pols pkt ps n = Some (ps1, n1)" "\<forall>p\<in>set ps1. psi_ok p"
      "length ps1 = length ps" "n1 \<le> n + matches pols pkt"
    using policy_loop_ok [of ps n pols pkt] by auto
  with Cons.IH [of ps1 n1] Cons.prems show ?case by auto
qed auto

lemma count_packets_ok:
  assumes "\<forall>p\<in>set psi. psi_sized p" "(\<Sum>pkt\<leftarrow>queue. matches pols pkt) \<le> psi_slots"
  shows "\<exists>ps n. count_packets pols queue psi = Some (ps, n) \<and> (\<forall>p\<in>set ps. psi_ok p) \<and>
    length ps = length psi \<and> n \<le> psi_slots"
  unfolding count_packets_def
  using packet_loop_ok [where ps = "map (\<lambda>p. p\<lparr>num_ip := 0\<rparr>) psi" and n = 0 and queue = queue and pols = pols] assms
  by (simp add: psi_ok_def psi_sized_def)

end
