(* ===== verification/Bpf_User.thy ===== *)
theory Bpf_User
  imports Prelude
begin

text \<open>
  common/common_user_bpf_xdp.c and common/common_defines.h: opening a pinned map and checking
  its description, attaching and detaching the program, the names of the actions.

  The bpf(2) and netlink system calls behind libbpf are the kernel's: the record \<open>bpf_env\<close> holds
  one function per call the code makes, over an arbitrary kernel state \<open>'k\<close>, and every definition
  that makes a call takes it as an argument. The state that the call returns replaces the old one,
  so the order of the calls is the order of the code.
\<close>

section \<open>The kernel interface\<close>

record bpf_map_info =
  map_type :: u32
  key_size :: u32
  value_size :: u32
  max_entries :: u32

record 'k bpf_env =
  bpf_obj_get :: "string \<Rightarrow> 'k \<Rightarrow> int \<times> 'k"
  bpf_obj_get_info_by_fd :: "int \<Rightarrow> bpf_map_info \<Rightarrow> 'k \<Rightarrow> int \<times> bpf_map_info \<times> 'k"
  bpf_map_update_elem :: "int \<Rightarrow> u32 \<Rightarrow> u32 list \<Rightarrow> 'k \<Rightarrow> int \<times> 'k"
  bpf_map_delete_elem :: "int \<Rightarrow> u32 \<Rightarrow> 'k \<Rightarrow> int \<times> 'k"
  bpf_set_link_xdp_fd :: "int \<Rightarrow> int \<Rightarrow> u32 \<Rightarrow> 'k \<Rightarrow> int \<times> 'k"
  bpf_get_link_xdp_id :: "int \<Rightarrow> u32 \<Rightarrow> 'k \<Rightarrow> int \<times> u32 \<times> 'k"

section \<open>Exit codes (common/common_defines.h)\<close>

definition EXIT_OK :: int where "EXIT_OK = 0"
definition EXIT_FAIL :: int where "EXIT_FAIL = 1"
definition EXIT_FAIL_OPTION :: int where "EXIT_FAIL_OPTION = 2"
definition EXIT_FAIL_XDP :: int where "EXIT_FAIL_XDP = 30"
definition EXIT_FAIL_BPF :: int where "EXIT_FAIL_BPF = 40"

lemmas exit_defs = EXIT_OK_def EXIT_FAIL_def EXIT_FAIL_OPTION_def EXIT_FAIL_XDP_def EXIT_FAIL_BPF_def

section \<open>Paths\<close>

text \<open>
  \<open>snprintf(buf, n, ...)\<close> of a text: the length of the whole text (-1 when an \<open>int\<close> cannot hold
  it) and what the buffer holds, cut off at \<open>n - 1\<close> characters.
\<close>

definition snprintf :: "nat \<Rightarrow> string \<Rightarrow> int \<times> string" where
  "snprintf n txt = (if length txt < 2 ^ 31 then int (length txt) else -1, take (n - 1) txt)"

lemma snprintf_fits:
  "length txt < n \<Longrightarrow> n \<le> 2 ^ 31 \<Longrightarrow> snprintf n txt = (int (length txt), txt)"
  by (simp add: snprintf_def)

definition PATH_MAX :: nat where "PATH_MAX = 4096"

section \<open>Map descriptions\<close>

text \<open>A zero field of the expectation accepts every value.\<close>

definition check_map_fd_info :: "bpf_map_info \<Rightarrow> bpf_map_info \<Rightarrow> int" where
  "check_map_fd_info minfo expct =
     (if key_size expct \<noteq> 0 \<and> key_size expct \<noteq> key_size minfo then EXIT_FAIL
      else if value_size expct \<noteq> 0 \<and> value_size expct \<noteq> value_size minfo then EXIT_FAIL
      else if max_entries expct \<noteq> 0 \<and> max_entries expct \<noteq> max_entries minfo then EXIT_FAIL
      else if map_type expct \<noteq> 0 \<and> map_type expct \<noteq> map_type minfo then EXIT_FAIL
      else 0)"

text \<open>
  \<open>open_bpf_map_file\<close> returns a descriptor, and a description when the caller passes a place for
  one (\<^term>\<open>None\<close> is the NULL pointer). When the description cannot be read the function returns
  \<open>EXIT_FAIL_BPF\<close>, a positive number.
\<close>

definition open_bpf_map_file ::
    "'k bpf_env \<Rightarrow> string \<Rightarrow> string \<Rightarrow> bpf_map_info option \<Rightarrow> 'k \<Rightarrow> int \<times> bpf_map_info option \<times> 'k"
  where
  "open_bpf_map_file env pin_dir mapname minfo k =
     (let (len, filename) = snprintf PATH_MAX (pin_dir @ ''/'' @ mapname) in
      if len < 0 then (-1, minfo, k)
      else let (fd, k) = bpf_obj_get env filename k in
      if fd < 0 then (fd, minfo, k)
      else case minfo of
        None \<Rightarrow> (fd, None, k)
      | Some i \<Rightarrow>
          let (err, i, k) = bpf_obj_get_info_by_fd env fd i k in
          if err \<noteq> 0 then (EXIT_FAIL_BPF, Some i, k) else (fd, Some i, k))"

section \<open>Attaching the program\<close>

definition XDP_FLAGS_UPDATE_IF_NOEXIST :: u32 where "XDP_FLAGS_UPDATE_IF_NOEXIST = 1"
definition XDP_FLAGS_SKB_MODE :: u32 where "XDP_FLAGS_SKB_MODE = 2"
definition XDP_FLAGS_DRV_MODE :: u32 where "XDP_FLAGS_DRV_MODE = 4"
definition XDP_FLAGS_HW_MODE :: u32 where "XDP_FLAGS_HW_MODE = 8"
definition XDP_FLAGS_MODES :: u32 where
  "XDP_FLAGS_MODES = XDP_FLAGS_SKB_MODE OR XDP_FLAGS_DRV_MODE OR XDP_FLAGS_HW_MODE"

lemmas xdp_flags_defs = XDP_FLAGS_UPDATE_IF_NOEXIST_def XDP_FLAGS_SKB_MODE_def
  XDP_FLAGS_DRV_MODE_def XDP_FLAGS_HW_MODE_def XDP_FLAGS_MODES_def

definition xdp_link_attach :: "'k bpf_env \<Rightarrow> int \<Rightarrow> u32 \<Rightarrow> int \<Rightarrow> 'k \<Rightarrow> int \<times> 'k" where
  "xdp_link_attach env ifindex xdp_flags prog_fd k =
     (let (err, k) = bpf_set_link_xdp_fd env ifindex prog_fd xdp_flags k;
          (err, k) =
            (if err = - EEXIST \<and> xdp_flags AND XDP_FLAGS_UPDATE_IF_NOEXIST = 0 then
               let old_flags = xdp_flags;
                   xdp_flags = xdp_flags AND NOT XDP_FLAGS_MODES;
                   xdp_flags = xdp_flags OR
                     (if old_flags AND XDP_FLAGS_SKB_MODE \<noteq> 0 then XDP_FLAGS_DRV_MODE else XDP_FLAGS_SKB_MODE);
                   (err, k) = bpf_set_link_xdp_fd env ifindex (-1) xdp_flags k
               in if err = 0 then bpf_set_link_xdp_fd env ifindex prog_fd old_flags k else (err, k)
             else (err, k))
      in if err < 0 then (EXIT_FAIL_XDP, k) else (EXIT_OK, k))"

definition xdp_link_detach :: "'k bpf_env \<Rightarrow> int \<Rightarrow> u32 \<Rightarrow> u32 \<Rightarrow> 'k \<Rightarrow> int \<times> 'k" where
  "xdp_link_detach env ifindex xdp_flags expected_prog_id k =
     (let (err, curr_prog_id, k) = bpf_get_link_xdp_id env ifindex xdp_flags k in
      if err \<noteq> 0 then (EXIT_FAIL_XDP, k)
      else if curr_prog_id = 0 then (EXIT_OK, k)
      else if expected_prog_id \<noteq> 0 \<and> curr_prog_id \<noteq> expected_prog_id then (EXIT_FAIL, k)
      else let (err, k) = bpf_set_link_xdp_fd env ifindex (-1) xdp_flags k in
      if err < 0 then (EXIT_FAIL_XDP, k) else (EXIT_OK, k))"

section \<open>Names of the actions\<close>

text \<open>Here \<open>XDP_ACTION_MAX\<close> counts \<open>XDP_UNKNOWN\<close> too.\<close>

definition xdp_action_names :: "string list" where
  "xdp_action_names = [''XDP_ABORTED'', ''XDP_DROP'', ''XDP_PASS'', ''XDP_TX'', ''XDP_REDIRECT'', ''XDP_UNKNOWN'']"

definition action2str :: "u32 \<Rightarrow> string option" where
  "action2str action = (if action < 6 then Some (xdp_action_names ! unat action) else None)"

end
