(* ===== verification/Policy_Block.thy ===== *)
theory Policy_Block
  imports Policy_Stats Bpf_User
begin

text \<open>
  main/start_policy.c: the global state of the program, \<open>policy_change_black_list\<close>, the lock
  table \<open>count_down\<close> and the blocking half of \<open>detect_attackers\<close>.

  Arguments that stand for the environment: \<open>env\<close> (the system calls), \<open>ncpus\<close> (the result of
  \<open>bpf_num_possible_cpus\<close>) and \<open>tm\<close>, where \<open>tm n\<close> is the result of the n-th call of
  \<open>time(NULL)\<close>. What is printed is not modelled.
\<close>

section \<open>State\<close>

record 'k poller =
  pin_dir :: string
  info :: bpf_map_info
  map_expect :: bpf_map_info
  list_policy :: "policy list"
  policy_len :: nat
  packets_queue :: "pkt_meta list"
  time_start :: u64
  time_end :: u64
  prev_time :: u64
  count_down :: "u32 list \<times> u32 list"
  kernel :: 'k
  time_calls :: nat

definition IP_DYNAMIC :: nat where "IP_DYNAMIC = 100"
definition INTERVAL :: nat where "INTERVAL = 1"
definition LOCK_TIME :: u64 where "LOCK_TIME = 5"
definition BLOCK :: int where "BLOCK = 1"
definition UNBLOCK :: int where "UNBLOCK = 0"

definition read_time :: "(nat \<Rightarrow> u64) \<Rightarrow> 'k poller \<Rightarrow> u64 \<times> 'k poller" where
  "read_time tm st = (tm (time_calls st), st\<lparr>time_calls := time_calls st + 1\<rparr>)"

section \<open>Changing the black list\<close>

text \<open>
  The result of the map operation only decides what is printed: the function returns 0 also
  when the kernel refused the change. The descriptor is not closed.
\<close>

definition policy_change_black_list ::
    "'k bpf_env \<Rightarrow> nat \<Rightarrow> u32 \<Rightarrow> int \<Rightarrow> 'k poller \<Rightarrow> int \<times> 'k poller" where
  "policy_change_black_list env ncpus ip action st =
     (let (fd, i, k) = open_bpf_map_file env (pin_dir st) ''black_list'' (Some (info st)) (kernel st);
          st = st\<lparr>kernel := k, info := (case i of None \<Rightarrow> info st | Some i \<Rightarrow> i)\<rparr>
      in if fd < 0 then (EXIT_FAIL_BPF, st)
      else let st = st\<lparr>map_expect := (map_expect st)\<lparr>key_size := 4, value_size := 4\<rparr>\<rparr>;
               err = check_map_fd_info (info st) (map_expect st)
      in if err \<noteq> 0 then (err, st)
      else if action = BLOCK then
        let values = replicate ncpus 0;
            (res, k) = bpf_map_update_elem env fd ip values (kernel st)
        in (0, st\<lparr>kernel := k\<rparr>)
      else if action = UNBLOCK then
        let (res, k) = bpf_map_delete_elem env fd ip (kernel st)
        in (0, st\<lparr>kernel := k\<rparr>)
      else (1, st))"

text \<open>What a call of it leaves alone.\<close>

lemma policy_change_frame:
  assumes "policy_change_black_list env ncpus ip action st = (r, st')"
  shows "list_policy st' = list_policy st" "policy_len st' = policy_len st"
    "packets_queue st' = packets_queue st" "time_start st' = time_start st"
    "time_end st' = time_end st" "prev_time st' = prev_time st"
    "count_down st' = count_down st" "time_calls st' = time_calls st" "pin_dir st' = pin_dir st"
  using assms
  by (auto simp: policy_change_black_list_def Let_def split: prod.splits if_splits)

section \<open>The lock table\<close>

text \<open>
  A slot is free when its address is 0. \<open>free_slot_loop\<close> is the loop over \<open>g\<close>: the first
  free slot takes the address and the time; without a free slot nothing is recorded.
\<close>

fun free_slot_loop :: "nat list \<Rightarrow> u32 \<Rightarrow> u32 \<Rightarrow> u32 list \<times> u32 list \<Rightarrow> (u32 list \<times> u32 list) option" where
  "free_slot_loop [] ip t (ips, ts) = Some (ips, ts)"
| "free_slot_loop (g # gs) ip t (ips, ts) = do {
     a \<leftarrow> arr_get ips g;
     if a = 0 then do {
       ips \<leftarrow> arr_set ips g ip;
       ts \<leftarrow> arr_set ts g t;
       Some (ips, ts)
     } else free_slot_loop gs ip t (ips, ts)
   }"

definition table_sized :: "u32 list \<times> u32 list \<Rightarrow> bool" where
  "table_sized cd \<longleftrightarrow> length (fst cd) = IP_DYNAMIC \<and> length (snd cd) = IP_DYNAMIC"

text \<open>The locks a table holds: the address and the time of every slot that is not free.\<close>

definition locks :: "u32 list \<times> u32 list \<Rightarrow> (u32 \<times> u32) list" where
  "locks cd = filter (\<lambda>(a, t). a \<noteq> 0) (zip (fst cd) (snd cd))"

lemma free_slot_loop_full:
  "\<forall>g\<in>set gs. g < length ips \<and> ips ! g \<noteq> 0 \<Longrightarrow> free_slot_loop gs ip t (ips, ts) = Some (ips, ts)"
  by (induction gs) (auto simp: fault)

lemma free_slot_loop_free:
  assumes "\<forall>g\<in>set pre. g < length ips \<and> ips ! g \<noteq> 0" "g < length ips" "g < length ts" "ips ! g = 0"
  shows "free_slot_loop (pre @ g # post) ip t (ips, ts) = Some (ips[g := ip], ts[g := t])"
  using assms by (induction pre) (auto simp: fault)

lemma free_slot_loop_cases:
  assumes "table_sized (ips, ts)"
  shows "if 0 \<in> set ips
    then \<exists>g<IP_DYNAMIC. ips ! g = 0 \<and> (\<forall>i<g. ips ! i \<noteq> 0) \<and>
      free_slot_loop [0..<IP_DYNAMIC] ip t (ips, ts) = Some (ips[g := ip], ts[g := t])
    else free_slot_loop [0..<IP_DYNAMIC] ip t (ips, ts) = Some (ips, ts)"
proof (cases "0 \<in> set ips")
  case True
  then have "\<exists>g<length ips. ips ! g = 0" by (simp add: in_set_conv_nth)
  then obtain g where g: "g < length ips" "ips ! g = 0" "\<forall>i<g. ips ! i \<noteq> 0"
    by (rule first_index)
  have len: "length ips = IP_DYNAMIC" "length ts = IP_DYNAMIC"
    using assms by (simp_all add: table_sized_def)
  have "free_slot_loop ([0..<g] @ g # [Suc g..<IP_DYNAMIC]) ip t (ips, ts) = Some (ips[g := ip], ts[g := t])"
    using g len by (intro free_slot_loop_free) simp_all
  then have "free_slot_loop [0..<IP_DYNAMIC] ip t (ips, ts) = Some (ips[g := ip], ts[g := t])"
    using g(1) len by (simp only: upt_split)
  with True g len show ?thesis by (simp, intro exI [of _ g]) simp
next
  case False
  then have "free_slot_loop [0..<IP_DYNAMIC] ip t (ips, ts) = Some (ips, ts)"
    using assms by (intro free_slot_loop_full) (auto simp: table_sized_def in_set_conv_nth)
  with False show ?thesis by simp
qed

lemma free_slot_loop_sized:
  assumes "table_sized cd"
  shows "\<exists>cd'. free_slot_loop [0..<IP_DYNAMIC] ip t cd = Some cd' \<and> table_sized cd'"
  using free_slot_loop_cases [of "fst cd" "snd cd" ip t] assms
  by (cases cd) (auto simp: table_sized_def split: if_splits)

section \<open>Blocking the offenders\<close>

text \<open>
  The counter divided by \<open>INTERVAL\<close> is an unsigned value, so the signed threshold is converted
  to unsigned for the comparison.
\<close>

definition offends :: "policy \<Rightarrow> u32 \<Rightarrow> bool" where
  "offends pol c \<longleftrightarrow> c div of_nat INTERVAL > word_of_int (threshold pol)"

definition block_offender ::
    "'k bpf_env \<Rightarrow> nat \<Rightarrow> (nat \<Rightarrow> u64) \<Rightarrow> u32 \<Rightarrow> 'k poller \<Rightarrow> 'k poller option" where
  "block_offender env ncpus tm ip st =
     (let (now, st) = read_time tm st;
          (_, st) = policy_change_black_list env ncpus ip BLOCK st
      in do {
        cd \<leftarrow> free_slot_loop [0..<IP_DYNAMIC] ip (ucast now) (count_down st);
        Some (st\<lparr>count_down := cd\<rparr>)
      })"

fun offender_loop ::
    "'k bpf_env \<Rightarrow> nat \<Rightarrow> (nat \<Rightarrow> u64) \<Rightarrow> policy \<Rightarrow> policy_stats_ip \<Rightarrow> nat list \<Rightarrow> 'k poller \<Rightarrow> 'k poller option"
  where
  "offender_loop env ncpus tm pol p [] st = Some st"
| "offender_loop env ncpus tm pol p (j # js) st = do {
     st \<leftarrow> (if num_ip p \<noteq> 0 then do {
         c \<leftarrow> arr_get (ip_count p) j;
         if offends pol c then do {
           a \<leftarrow> arr_get (ip_addr p) j;
           block_offender env ncpus tm a st
         } else Some st
       } else Some st);
     offender_loop env ncpus tm pol p js st
   }"

fun policies_loop ::
    "'k bpf_env \<Rightarrow> nat \<Rightarrow> (nat \<Rightarrow> u64) \<Rightarrow> policy list \<Rightarrow> policy_stats_ip list \<Rightarrow> 'k poller \<Rightarrow> 'k poller option"
  where
  "policies_loop env ncpus tm (pol # pols) (p # ps) st = do {
     st \<leftarrow> offender_loop env ncpus tm pol p [0..<unat (num_ip p)] st;
     policies_loop env ncpus tm pols ps st
   }"
| "policies_loop env ncpus tm _ _ st = Some st"

text \<open>\<open>junk i\<close> is what the stack holds in \<open>psi[i]\<close> when the function is entered.\<close>

definition detect_attackers ::
    "'k bpf_env \<Rightarrow> nat \<Rightarrow> (nat \<Rightarrow> u64) \<Rightarrow> (nat \<Rightarrow> policy_stats_ip) \<Rightarrow> 'k poller \<Rightarrow> (int \<times> 'k poller) option"
  where
  "detect_attackers env ncpus tm junk st = do {
     let pols = take (policy_len st) (list_policy st);
     (psi, n) \<leftarrow> count_packets pols (packets_queue st) (map junk [0..<policy_len st]);
     st \<leftarrow> policies_loop env ncpus tm pols psi st;
     Some (0, st)
   }"

section \<open>What the blocking half does\<close>

text \<open>\<open>block_all\<close> blocks a list of addresses in turn.\<close>

fun block_all ::
    "'k bpf_env \<Rightarrow> nat \<Rightarrow> (nat \<Rightarrow> u64) \<Rightarrow> u32 list \<Rightarrow> 'k poller \<Rightarrow> 'k poller option" where
  "block_all env ncpus tm [] st = Some st"
| "block_all env ncpus tm (a # as) st = do {
     st \<leftarrow> block_offender env ncpus tm a st;
     block_all env ncpus tm as st
   }"

lemma offender_loop_block_all:
  assumes "holds p n t"
  shows "offender_loop env ncpus tm pol p [0..<n] st
    = block_all env ncpus tm (map fst (filter (\<lambda>(a, c). offends pol (of_nat c)) t)) st"
proof -
  have "offender_loop env ncpus tm pol p js st
      = block_all env ncpus tm (map fst (filter (\<lambda>(a, c). offends pol (of_nat c)) (map ((!) t) js))) st"
    if "\<forall>j\<in>set js. j < n" for js
    using that
  proof (induction js arbitrary: st)
    case (Cons j js)
    then have j: "j < n" by simp
    then have "num_ip p \<noteq> 0" using holds_num_ip [OF assms] by auto
    moreover have "arr_get (ip_count p) j = Some (of_nat (snd (t ! j)))"
        "arr_get (ip_addr p) j = Some (fst (t ! j))"
      using j holdsD [OF assms] by (simp_all add: fault)
    ultimately show ?case
      using Cons by (cases "t ! j") (simp split: Option.bind_split)
  qed simp
  from this [of "[0..<n]"] holdsD(1) [OF assms] show ?thesis
    by (simp add: map_nth)
qed

text \<open>
  One policy and at most 100 sources: exactly the sources over the threshold are blocked, in
  the order of their first packets. \<open>offenders\<close> is that list.
\<close>

definition offenders :: "policy \<Rightarrow> pkt_meta list \<Rightarrow> u32 list" where
  "offenders pol queue =
     map fst (filter (\<lambda>(a, c). offends pol (of_nat c)) (tallies (sources_to (policy_ip pol) queue)))"

lemma set_offenders:
  "set (offenders pol queue) =
    {a \<in> set (sources_to (policy_ip pol) queue).
       offends pol (of_nat (count_list (sources_to (policy_ip pol) queue) a))}"
proof -
  let ?ss = "sources_to (policy_ip pol) queue"
  have "(a, c) \<in> set (tallies ?ss) \<longleftrightarrow> a \<in> set ?ss \<and> c = count_list ?ss a" for a c
    using map_of_eq_Some_iff [OF distinct_tallies, of ?ss a c] map_of_tallies [of ?ss a]
    by (auto split: if_splits)
  then show ?thesis by (force simp: offenders_def)
qed

lemma detect_attackers_single:
  assumes "policy_len st = 1" "take 1 (list_policy st) = [pol]" "psi_sized (junk 0)"
    "card (set (sources_to (policy_ip pol) (packets_queue st))) \<le> psi_slots"
  shows "detect_attackers env ncpus tm junk st
    = map_option (Pair 0) (block_all env ncpus tm (offenders pol (packets_queue st)) st)"
proof -
  obtain p n where "count_packets [pol] (packets_queue st) [junk 0] = Some ([p], n)"
      and h: "holds p n (tallies (sources_to (policy_ip pol) (packets_queue st)))"
    using count_packets_single [OF assms(3), of pol "packets_queue st"] assms(4) by auto
  then show ?thesis
    using assms(1,2)
    by (cases "block_all env ncpus tm (offenders pol (packets_queue st)) st")
       (simp_all add: detect_attackers_def holds_num_ip [OF h] offender_loop_block_all [OF h] offenders_def)
qed

lemma detect_attackers_overflow:
  assumes "policy_len st = 1" "take 1 (list_policy st) = [pol]" "psi_sized (junk 0)"
    "psi_slots < card (set (sources_to (policy_ip pol) (packets_queue st)))"
  shows "detect_attackers env ncpus tm junk st = None"
  using count_packets_single [OF assms(3), of pol "packets_queue st"] assms
  by (simp add: detect_attackers_def)

section \<open>The kernel's black list\<close>

text \<open>
  What the program relies on: \<open>view k\<close> is the content of the map pinned at \<open>path\<close>. Opening it
  gives a descriptor and changes nothing; its description has 4-byte keys and values; through the
  descriptor an entry can be set (the map has room) and deleted.
\<close>

definition black_list_kernel ::
    "'k bpf_env \<Rightarrow> string \<Rightarrow> ('k \<Rightarrow> u32 \<Rightarrow> u32 list option) \<Rightarrow> bool" where
  "black_list_kernel env path view \<longleftrightarrow>
     (\<forall>k. \<exists>fd k1. bpf_obj_get env path k = (fd, k1) \<and> 0 \<le> fd \<and> view k1 = view k \<and>
       (\<forall>i. \<exists>i' k2. bpf_obj_get_info_by_fd env fd i k1 = (0, i', k2) \<and> view k2 = view k \<and>
          key_size i' = 4 \<and> value_size i' = 4 \<and>
          (\<forall>a v. \<exists>k3. bpf_map_update_elem env fd a v k2 = (0, k3) \<and> view k3 = (view k)(a := Some v)) \<and>
          (\<forall>a. \<exists>r k3. bpf_map_delete_elem env fd a k2 = (r, k3) \<and> view k3 = (view k)(a := None))))"

text \<open>The globals are as \<open>main\<close> leaves them: the expectation checks the sizes only.\<close>

definition ready :: "'k poller \<Rightarrow> bool" where
  "ready st \<longleftrightarrow> length (pin_dir st @ ''/black_list'') < PATH_MAX \<and>
     max_entries (map_expect st) = 0 \<and> map_type (map_expect st) = 0"

definition black_list_path :: "'k poller \<Rightarrow> string" where
  "black_list_path st = pin_dir st @ ''/black_list''"

lemma open_black_list:
  assumes "black_list_kernel env (black_list_path st) view" "ready st"
  obtains fd i k where
    "open_bpf_map_file env (pin_dir st) ''black_list'' (Some (info st)) (kernel st) = (fd, Some i, k)"
    "0 \<le> fd" "key_size i = 4" "value_size i = 4"
    "\<And>a v. \<exists>k3. bpf_map_update_elem env fd a v k = (0, k3) \<and> view k3 = (view (kernel st))(a := Some v)"
    "\<And>a. \<exists>r k3. bpf_map_delete_elem env fd a k = (r, k3) \<and> view k3 = (view (kernel st))(a := None)"
proof -
  have path: "snprintf PATH_MAX (pin_dir st @ ''/'' @ ''black_list'')
      = (int (length (black_list_path st)), black_list_path st)"
    using assms(2) snprintf_fits [of "black_list_path st" PATH_MAX]
    by (simp add: ready_def black_list_path_def PATH_MAX_def)
  obtain fd k1 where get: "bpf_obj_get env (black_list_path st) (kernel st) = (fd, k1)" "0 \<le> fd"
      and info: "\<forall>i. \<exists>i' k2. bpf_obj_get_info_by_fd env fd i k1 = (0, i', k2) \<and> view k2 = view (kernel st) \<and>
          key_size i' = 4 \<and> value_size i' = 4 \<and>
          (\<forall>a v. \<exists>k3. bpf_map_update_elem env fd a v k2 = (0, k3) \<and> view k3 = (view (kernel st))(a := Some v)) \<and>
          (\<forall>a. \<exists>r k3. bpf_map_delete_elem env fd a k2 = (r, k3) \<and> view k3 = (view (kernel st))(a := None))"
    using assms(1) by (auto simp: black_list_kernel_def dest: spec [of _ "kernel st"])
  obtain i' k2 where "bpf_obj_get_info_by_fd env fd (info st) k1 = (0, i', k2)"
      "key_size i' = 4" "value_size i' = 4"
      "\<forall>a v. \<exists>k3. bpf_map_update_elem env fd a v k2 = (0, k3) \<and> view k3 = (view (kernel st))(a := Some v)"
      "\<forall>a. \<exists>r k3. bpf_map_delete_elem env fd a k2 = (r, k3) \<and> view k3 = (view (kernel st))(a := None)"
    using info by blast
  then show thesis
    using get path by (intro that [of fd i' k2]) (auto simp: open_bpf_map_file_def Let_def)
qed

lemma policy_change_effect:
  assumes "black_list_kernel env (black_list_path st) view" "ready st"
  shows "\<exists>st'. policy_change_black_list env ncpus ip BLOCK st = (0, st') \<and> ready st' \<and>
      view (kernel st') = (view (kernel st))(ip := Some (replicate ncpus 0))"
    and "\<exists>st'. policy_change_black_list env ncpus ip UNBLOCK st = (0, st') \<and> ready st' \<and>
      view (kernel st') = (view (kernel st))(ip := None)"
proof -
  obtain fd i k where o: "open_bpf_map_file env (pin_dir st) ''black_list'' (Some (info st)) (kernel st) = (fd, Some i, k)"
    "0 \<le> fd" "key_size i = 4" "value_size i = 4"
    and upd: "\<And>a v. \<exists>k3. bpf_map_update_elem env fd a v k = (0, k3) \<and> view k3 = (view (kernel st))(a := Some v)"
    and del: "\<And>a. \<exists>r k3. bpf_map_delete_elem env fd a k = (r, k3) \<and> view k3 = (view (kernel st))(a := None)"
    using open_black_list [OF assms] by blast
  from upd [of ip "replicate ncpus 0"] del [of ip]
  obtain k3 r k4 where "bpf_map_update_elem env fd ip (replicate ncpus 0) k = (0, k3)"
      "view k3 = (view (kernel st))(ip := Some (replicate ncpus 0))"
      "bpf_map_delete_elem env fd ip k = (r, k4)" "view k4 = (view (kernel st))(ip := None)"
    by blast
  then show "\<exists>st'. policy_change_black_list env ncpus ip BLOCK st = (0, st') \<and> ready st' \<and>
      view (kernel st') = (view (kernel st))(ip := Some (replicate ncpus 0))"
    and "\<exists>st'. policy_change_black_list env ncpus ip UNBLOCK st = (0, st') \<and> ready st' \<and>
      view (kernel st') = (view (kernel st))(ip := None)"
    using o assms(2)
    by (simp_all add: policy_change_black_list_def check_map_fd_info_def ready_def BLOCK_def UNBLOCK_def)
qed

section \<open>The locks after blocking\<close>

lemma set_locks:
  assumes "table_sized (ips, ts)"
  shows "set (locks (ips, ts)) = {(ips ! i, ts ! i) | i. i < IP_DYNAMIC \<and> ips ! i \<noteq> 0}"
  using assms by (auto simp: locks_def table_sized_def set_zip)

lemma set_locks_update:
  assumes "table_sized (ips, ts)" "g < IP_DYNAMIC" "ips ! g = 0" "ip \<noteq> 0"
  shows "set (locks (ips[g := ip], ts[g := t])) = insert (ip, t) (set (locks (ips, ts)))"
proof -
  have sized: "table_sized (ips[g := ip], ts[g := t])"
    using assms(1) by (simp add: table_sized_def)
  have len: "g < length ips" "g < length ts"
    using assms(1,2) by (simp_all add: table_sized_def)
  show ?thesis
    unfolding set_locks [OF sized] set_locks [OF assms(1)]
    using assms(2-4) len by (auto simp: nth_list_update)
qed

text \<open>
  Recording a lock: a free slot takes it; a full table silently keeps its old locks.
\<close>

lemma free_slot_loop_locks:
  assumes "table_sized cd" "ip \<noteq> 0"
  shows "\<exists>cd'. free_slot_loop [0..<IP_DYNAMIC] ip t cd = Some cd' \<and> table_sized cd' \<and>
    set (locks cd') = (if 0 \<in> set (fst cd) then insert (ip, t) (set (locks cd)) else set (locks cd))"
proof -
  obtain ips ts where cd: "cd = (ips, ts)" by (cases cd)
  show ?thesis
  proof (cases "0 \<in> set ips")
    case True
    then obtain g where "g < IP_DYNAMIC" "ips ! g = 0"
        "free_slot_loop [0..<IP_DYNAMIC] ip t (ips, ts) = Some (ips[g := ip], ts[g := t])"
      using free_slot_loop_cases [of ips ts ip t] assms(1) by (auto simp: cd)
    with True assms set_locks_update [of ips ts g ip t] show ?thesis
      by (simp add: cd table_sized_def)
  next
    case False
    then show ?thesis
      using free_slot_loop_cases [of ips ts ip t] assms by (simp add: cd)
  qed
qed

lemma block_offender_effect:
  assumes "black_list_kernel env (black_list_path st) view" "ready st" "table_sized (count_down st)"
  shows "\<exists>st'. block_offender env ncpus tm ip st = Some st' \<and> ready st' \<and>
    table_sized (count_down st') \<and> pin_dir st' = pin_dir st \<and>
    view (kernel st') = (view (kernel st))(ip := Some (replicate ncpus 0)) \<and>
    (ip \<noteq> 0 \<longrightarrow> set (locks (count_down st')) =
      (if 0 \<in> set (fst (count_down st)) then insert (ip, ucast (tm (time_calls st))) (set (locks (count_down st)))
       else set (locks (count_down st))))"
proof -
  let ?st = "st\<lparr>time_calls := time_calls st + 1\<rparr>"
  have "black_list_kernel env (black_list_path ?st) view" "ready ?st"
    using assms(1,2) by (simp_all add: black_list_path_def ready_def)
  then obtain st1 where change: "policy_change_black_list env ncpus ip BLOCK ?st = (0, st1)" "ready st1"
      "view (kernel st1) = (view (kernel st))(ip := Some (replicate ncpus 0))"
    using policy_change_effect(1) [of env ?st view ncpus ip] by auto
  have cd: "count_down st1 = count_down st" "pin_dir st1 = pin_dir st"
    using policy_change_frame [OF change(1)] by simp_all
  obtain cd' where slot: "free_slot_loop [0..<IP_DYNAMIC] ip (ucast (tm (time_calls st))) (count_down st) = Some cd'"
      "table_sized cd'"
    using free_slot_loop_sized [OF assms(3)] by blast
  have "ip \<noteq> 0 \<longrightarrow> set (locks cd') =
      (if 0 \<in> set (fst (count_down st)) then insert (ip, ucast (tm (time_calls st))) (set (locks (count_down st)))
       else set (locks (count_down st)))"
    using free_slot_loop_locks [OF assms(3), of ip "ucast (tm (time_calls st))"] slot by auto
  with slot change cd show ?thesis
    by (auto simp: block_offender_def read_time_def ready_def)
qed

lemma block_all_effect:
  assumes "black_list_kernel env (black_list_path st) view" "ready st" "table_sized (count_down st)"
  shows "\<exists>st'. block_all env ncpus tm as st = Some st' \<and> ready st' \<and>
    table_sized (count_down st') \<and> pin_dir st' = pin_dir st \<and>
    view (kernel st') = (\<lambda>a. if a \<in> set as then Some (replicate ncpus 0) else view (kernel st) a)"
  using assms
proof (induction as arbitrary: st)
  case Nil
  then show ?case by simp
next
  case (Cons a as)
  obtain st1 where one: "block_offender env ncpus tm a st = Some st1" "ready st1"
      "table_sized (count_down st1)" "pin_dir st1 = pin_dir st"
      "view (kernel st1) = (view (kernel st))(a := Some (replicate ncpus 0))"
    using block_offender_effect [OF Cons.prems, of ncpus tm a] by blast
  moreover have "black_list_kernel env (black_list_path st1) view"
    using Cons.prems(1) one(4) by (simp add: black_list_path_def)
  ultimately obtain st2 where "block_all env ncpus tm as st1 = Some st2" "ready st2"
      "table_sized (count_down st2)" "pin_dir st2 = pin_dir st1"
      "view (kernel st2) = (\<lambda>a. if a \<in> set as then Some (replicate ncpus 0) else view (kernel st1) a)"
    using Cons.IH by blast
  with one show ?case by (auto simp: fun_eq_iff)
qed

text \<open>What blocking never touches.\<close>

lemma block_offender_frame:
  assumes "block_offender env ncpus tm ip st = Some st'"
  shows "list_policy st' = list_policy st" "policy_len st' = policy_len st"
    "packets_queue st' = packets_queue st" "time_start st' = time_start st"
    "time_end st' = time_end st" "prev_time st' = prev_time st" "pin_dir st' = pin_dir st"
  using assms
  by (auto simp: block_offender_def read_time_def split: prod.splits Option.bind_splits
      dest: policy_change_frame)

lemma offender_loop_frame:
  assumes "offender_loop env ncpus tm pol p js st = Some st'"
  shows "list_policy st' = list_policy st" "policy_len st' = policy_len st"
    "packets_queue st' = packets_queue st" "time_start st' = time_start st"
    "time_end st' = time_end st" "prev_time st' = prev_time st" "pin_dir st' = pin_dir st"
  using assms
  by (induction js arbitrary: st)
     (auto split: Option.bind_splits if_splits dest: block_offender_frame)

lemma policies_loop_frame:
  assumes "policies_loop env ncpus tm pols ps st = Some st'"
  shows "list_policy st' = list_policy st" "policy_len st' = policy_len st"
    "packets_queue st' = packets_queue st" "time_start st' = time_start st"
    "time_end st' = time_end st" "prev_time st' = prev_time st" "pin_dir st' = pin_dir st"
  using assms
  by (induction env ncpus tm pols ps st rule: policies_loop.induct)
     (auto split: Option.bind_splits dest: offender_loop_frame)

lemma detect_attackers_frame:
  assumes "detect_attackers env ncpus tm junk st = Some (r, st')"
  shows "list_policy st' = list_policy st" "policy_len st' = policy_len st"
    "packets_queue st' = packets_queue st" "time_start st' = time_start st"
    "time_end st' = time_end st" "prev_time st' = prev_time st" "pin_dir st' = pin_dir st"
  using assms
  by (auto simp: detect_attackers_def Let_def split: Option.bind_splits dest: policies_loop_frame)

text \<open>Any number of policies: the blocking half faults on no table and keeps the lock table's size.\<close>

lemma block_offender_total:
  assumes "table_sized (count_down st)"
  shows "\<exists>st'. block_offender env ncpus tm ip st = Some st' \<and> table_sized (count_down st')"
proof -
  obtain r st1 where ch: "policy_change_black_list env ncpus ip BLOCK (st\<lparr>time_calls := time_calls st + 1\<rparr>) = (r, st1)"
    by fastforce
  then have "count_down st1 = count_down st" using policy_change_frame [OF ch] by simp
  with ch free_slot_loop_sized [OF assms, of ip "ucast (tm (time_calls st))"] show ?thesis
    by (auto simp: block_offender_def read_time_def)
qed

lemma offender_loop_total:
  assumes "psi_ok p" "\<forall>j\<in>set js. j < psi_slots" "table_sized (count_down st)"
  shows "\<exists>st'. offender_loop env ncpus tm pol p js st = Some st' \<and> table_sized (count_down st')"
  using assms
proof (induction js arbitrary: st)
  case (Cons j js)
  obtain st1 where "block_offender env ncpus tm (ip_addr p ! j) st = Some st1" "table_sized (count_down st1)"
    using block_offender_total [OF Cons.prems(3)] by blast
  with Cons.IH [of st] Cons.IH [of st1] Cons.prems show ?case
    by (auto simp: fault psi_ok_def psi_sized_def)
qed simp

lemma policies_loop_total:
  assumes "\<forall>p\<in>set ps. psi_ok p" "table_sized (count_down st)"
  shows "\<exists>st'. policies_loop env ncpus tm pols ps st = Some st' \<and> table_sized (count_down st')"
  using assms
proof (induction env ncpus tm pols ps st rule: policies_loop.induct)
  case (1 env ncpus tm pol pols p ps st)
  then obtain st1 where st1: "offender_loop env ncpus tm pol p [0..<unat (num_ip p)] st = Some st1"
      "table_sized (count_down st1)"
    using offender_loop_total [of p "[0..<unat (num_ip p)]" st env ncpus tm pol] by (auto simp: psi_ok_def)
  with "1.IH" [OF st1(1)] "1.prems" show ?case by simp
qed auto

lemma detect_attackers_total:
  assumes "\<forall>i. psi_sized (junk i)" "table_sized (count_down st)"
    "(\<Sum>pkt\<leftarrow>packets_queue st. matches (take (policy_len st) (list_policy st)) pkt) \<le> psi_slots"
  shows "\<exists>st'. detect_attackers env ncpus tm junk st = Some (0, st') \<and> table_sized (count_down st')"
proof -
  obtain psi n where "count_packets (take (policy_len st) (list_policy st)) (packets_queue st)
      (map junk [0..<policy_len st]) = Some (psi, n)" "\<forall>p\<in>set psi. psi_ok p"
    using count_packets_ok [OF _ assms(3), of "map junk [0..<policy_len st]"] assms(1) by auto
  with policies_loop_total [of psi st env ncpus tm "take (policy_len st) (list_policy st)"] assms(2)
  show ?thesis by (auto simp: detect_attackers_def)
qed

section \<open>Properties\<close>

text \<open>A concrete kernel for the witnesses: its state is the content of the black list.\<close>

definition demo_env :: "(u32 \<Rightarrow> u32 list option) bpf_env" where
  "demo_env = \<lparr>bpf_obj_get = (\<lambda>path k. (3, k)),
     bpf_obj_get_info_by_fd = (\<lambda>fd i k. (0, \<lparr>map_type = 5, key_size = 4, value_size = 4, max_entries = 10000\<rparr>, k)),
     bpf_map_update_elem = (\<lambda>fd a v k. (0, k(a := Some v))),
     bpf_map_delete_elem = (\<lambda>fd a k. (if k a = None then -2 else 0, k(a := None))),
     bpf_set_link_xdp_fd = (\<lambda>i fd fl k. (0, k)),
     bpf_get_link_xdp_id = (\<lambda>i fl k. (0, 0, k))\<rparr>"

definition demo_pkt :: "u32 \<Rightarrow> u32 \<Rightarrow> pkt_meta" where
  "demo_pkt s d = pkt_meta_zero\<lparr>src := s, dst := d\<rparr>"

definition demo_poller :: "policy list \<Rightarrow> pkt_meta list \<Rightarrow> (u32 \<Rightarrow> u32 list option) poller" where
  "demo_poller pols queue = \<lparr>pin_dir = ''/sys/fs/bpf/eth0'',
     info = \<lparr>map_type = 0, key_size = 0, value_size = 0, max_entries = 0\<rparr>,
     map_expect = \<lparr>map_type = 0, key_size = 4, value_size = 4, max_entries = 0\<rparr>,
     list_policy = pols, policy_len = length pols, packets_queue = queue,
     time_start = 100, time_end = 101, prev_time = 100,
     count_down = (replicate 100 0, replicate 100 0), kernel = (\<lambda>_. None), time_calls = 0\<rparr>"

definition demo_psi :: policy_stats_ip where
  "demo_psi = \<lparr>ip_addr = replicate 100 0, ip_count = replicate 100 0, num_ip = 0\<rparr>"

lemma demo_kernel: "black_list_kernel demo_env path id"
  by (simp add: black_list_kernel_def demo_env_def)

lemma demo_ready: "ready (demo_poller pols queue)" "table_sized (count_down (demo_poller pols queue))"
  "psi_sized demo_psi"
  by (simp_all add: ready_def demo_poller_def PATH_MAX_def table_sized_def IP_DYNAMIC_def
      psi_sized_def demo_psi_def psi_slots_def)

text \<open>C3. Detection with one policy blocks exactly the offenders: after \<open>detect_attackers\<close> on a
queue with packets of at most 100 sources to the protected address, an address is in the kernel's
black list if and only if it was there before or sent more packets to that address than the
threshold (compared as unsigned 32-bit numbers).\<close>

theorem detection_blocks_exactly_offenders:
  assumes "black_list_kernel env (black_list_path st) view" "ready st" "table_sized (count_down st)"
    "psi_sized (junk 0)" "policy_len st = 1" "list_policy st = pol # rest"
    "card (set (sources_to (policy_ip pol) (packets_queue st))) \<le> 100"
  shows "\<exists>st'. detect_attackers env ncpus tm junk st = Some (0, st') \<and>
    (\<forall>a. view (kernel st') a =
      (if of_nat (count_list (sources_to (policy_ip pol) (packets_queue st)) a) > (word_of_int (threshold pol) :: u32)
       then Some (replicate ncpus 0) else view (kernel st) a))"
proof -
  let ?ss = "sources_to (policy_ip pol) (packets_queue st)"
  obtain st' where st': "block_all env ncpus tm (offenders pol (packets_queue st)) st = Some st'"
      "view (kernel st') = (\<lambda>a. if a \<in> set (offenders pol (packets_queue st))
         then Some (replicate ncpus 0) else view (kernel st) a)"
    using block_all_effect [OF assms(1-3)] by blast
  have "a \<in> set (offenders pol (packets_queue st)) \<longleftrightarrow>
      of_nat (count_list ?ss a) > (word_of_int (threshold pol) :: u32)" for a
  proof (cases "a \<in> set ?ss")
    case False
    then have "count_list ?ss a = 0" by (simp add: count_list_0_iff)
    with False show ?thesis by (simp add: set_offenders)
  qed (simp add: set_offenders offends_def INTERVAL_def)
  with st' show ?thesis
    using detect_attackers_single [of st pol junk env ncpus tm] assms(4-7)
    by (auto simp: psi_slots_def)
qed

lemma detection_blocks_exactly_offenders_witness:
  "\<exists>st'. detect_attackers demo_env 4 (\<lambda>n. 101) (\<lambda>i. demo_psi)
      (demo_poller [\<lparr>policy_id = 1, policy_ip = 9, threshold = 2\<rparr>]
        [demo_pkt 5 9, demo_pkt 6 9, demo_pkt 5 9, demo_pkt 7 8, demo_pkt 5 9]) = Some (0, st') \<and>
    kernel st' 5 = Some [0, 0, 0, 0] \<and> kernel st' 6 = None \<and> kernel st' 7 = None"
proof -
  let ?pol = "\<lparr>policy_id = 1, policy_ip = 9, threshold = 2\<rparr>"
  let ?st = "demo_poller [?pol] [demo_pkt 5 9, demo_pkt 6 9, demo_pkt 5 9, demo_pkt 7 8, demo_pkt 5 9]"
  have f: "policy_len ?st = 1" "list_policy ?st = [?pol]" "kernel ?st a = None"
    "sources_to 9 (packets_queue ?st) = [5, 6, 5, 5]" for a
    by (simp_all add: demo_poller_def sources_to_def demo_pkt_def)
  have four: "replicate 4 (0 :: u32) = [0, 0, 0, 0]" by (simp add: numeral_eq_Suc)
  have card: "card (set (sources_to (policy_ip ?pol) (packets_queue ?st))) \<le> 100" by (simp add: f card_insert_if)
  obtain st' where "detect_attackers demo_env 4 (\<lambda>n. 101) (\<lambda>i. demo_psi) ?st = Some (0, st')"
      and eff: "\<And>a. kernel st' a = (if of_nat (count_list [5, 6, 5, 5] a) > (2 :: u32) then Some [0, 0, 0, 0] else None)"
    using detection_blocks_exactly_offenders [OF demo_kernel demo_ready f(1,2) card, of 4 "\<lambda>n. 101"]
    by (auto simp: f four)
  with eff [of 5] eff [of 6] eff [of 7] show ?thesis by simp
qed

text \<open>C12. More than 100 sources of one protected address in one interval write outside the
counting table: the detection faults on every distributed attack.\<close>

theorem many_sources_overflow:
  assumes "psi_sized (junk 0)" "policy_len st = 1" "list_policy st = pol # rest"
    "card (set (sources_to (policy_ip pol) (packets_queue st))) > 100"
  shows "detect_attackers env ncpus tm junk st = None"
  using detect_attackers_overflow [of st pol junk env ncpus tm] assms by (simp add: psi_slots_def)

lemma demo_sources_101: "card (set (map (\<lambda>i. of_nat i :: u32) [0..<101])) > 100"
proof -
  have "inj_on (\<lambda>i. of_nat i :: u32) (set [0..<101])"
  proof (rule inj_onI)
    fix i j :: nat
    assume "i \<in> set [0..<101]" "j \<in> set [0..<101]" "(of_nat i :: u32) = of_nat j"
    then have "unat (of_nat i :: u32) = unat (of_nat j :: u32)" "i < 2 ^ 32" "j < 2 ^ 32" by simp_all
    then show "i = j" by (simp only: unat_of_nat_u32)
  qed
  then show ?thesis by (simp add: card_image del: upt.simps)
qed

lemma many_sources_overflow_witness:
  "detect_attackers demo_env 4 (\<lambda>n. 101) (\<lambda>i. demo_psi)
     (demo_poller [\<lparr>policy_id = 1, policy_ip = 9, threshold = 1000\<rparr>]
       (map (\<lambda>i. demo_pkt (of_nat i) 9) [0..<101])) = None"
proof -
  have ss: "sources_to 9 (map (\<lambda>i. demo_pkt (of_nat i) 9) [0..<101]) = map (\<lambda>i. of_nat i) [0..<101]"
    by (simp add: sources_to_def demo_pkt_def comp_def)
  show ?thesis
    using demo_sources_101 demo_ready(3)
    by (intro many_sources_overflow [where pol = "\<lparr>policy_id = 1, policy_ip = 9, threshold = 1000\<rparr>" and rest = "[]"])
       (simp_all only: demo_poller_def ss list.size, simp_all add: ss del: set_map upt.simps)
qed

text \<open>C13. With two policies the shared counter leaves gaps in the tables, and what the stack held
there decides: for every address there is a stack content with which two harmless packets make the
detection block exactly that address, although it sent nothing.\<close>

theorem stray_block:
  assumes "list_policy st = p1 # p2 # rest" "policy_len st = 2" "policy_ip p1 \<noteq> policy_ip p2"
    "threshold p1 = 100" "threshold p2 = 100"
    "packets_queue st = [k1, k2]" "dst k1 = policy_ip p1" "dst k2 = policy_ip p2"
  shows "\<exists>junk. (\<forall>i. psi_sized (junk i)) \<and>
    detect_attackers env ncpus tm junk st = map_option (Pair 0) (block_offender env ncpus tm x st)"
proof -
  define bad where "bad = \<lparr>ip_addr = x # replicate 99 0, ip_count = 101 # replicate 99 (0 :: u32), num_ip = 0\<rparr>"
  have sized: "psi_sized bad" by (simp add: bad_def psi_sized_def psi_slots_def)
  have len: "length (ip_addr bad) = 100" "length (ip_count bad) = 100"
    using sized by (simp_all add: psi_sized_def psi_slots_def)
  have two: "[0..<2] = [0, 1 :: nat]" by (simp add: upt_rec)
  let ?q1 = "bad\<lparr>ip_addr := (ip_addr bad)[0 := src k1], ip_count := (ip_count bad)[0 := 1], num_ip := 1\<rparr>"
  let ?q2 = "bad\<lparr>ip_addr := (ip_addr bad)[1 := src k2], ip_count := (ip_count bad)[1 := 1], num_ip := 2\<rparr>"
  have "count_packets [p1, p2] [k1, k2] [bad, bad] = Some ([?q1, ?q2], 2)"
    using assms(3,7,8) len by (simp add: count_packets_def policy_step_def fault bad_def)
  moreover have "offender_loop env ncpus tm p1 ?q1 [0..<1] s = Some s" for s
    using assms(4) len by (simp add: fault offends_def INTERVAL_def bad_def)
  moreover have "offender_loop env ncpus tm p2 ?q2 [0..<2] s = block_offender env ncpus tm x s" for s
    using assms(5) len
    by (cases "block_offender env ncpus tm x s") (simp_all add: two fault offends_def INTERVAL_def bad_def)
  ultimately have "detect_attackers env ncpus tm (\<lambda>_. bad) st
      = map_option (Pair 0) (block_offender env ncpus tm x st)"
    using assms(1,2,6)
    by (cases "block_offender env ncpus tm x st")
       (simp_all add: detect_attackers_def two)
  with sized show ?thesis by (intro exI [of _ "\<lambda>_. bad"]) simp
qed

lemma stray_block_witness:
  "\<exists>junk. (\<forall>i. psi_sized (junk i)) \<and> (\<exists>st'. detect_attackers demo_env 4 (\<lambda>n. 101) junk
      (demo_poller [\<lparr>policy_id = 1, policy_ip = 8, threshold = 100\<rparr>, \<lparr>policy_id = 2, policy_ip = 9, threshold = 100\<rparr>]
        [demo_pkt 5 8, demo_pkt 6 9]) = Some (0, st') \<and> kernel st' 77 = Some [0, 0, 0, 0])"
proof -
  let ?p1 = "\<lparr>policy_id = 1, policy_ip = 8, threshold = 100\<rparr>"
  let ?p2 = "\<lparr>policy_id = 2, policy_ip = 9, threshold = 100\<rparr>"
  let ?st = "demo_poller [?p1, ?p2] [demo_pkt 5 8, demo_pkt 6 9]"
  obtain st' where "block_offender demo_env 4 (\<lambda>n. 101) 77 ?st = Some st'" "kernel st' 77 = Some [0, 0, 0, 0]"
    using block_offender_effect [OF demo_kernel demo_ready(1,2), of 4 "\<lambda>n. 101" 77]
    by (fastforce simp: numeral_eq_Suc)
  then show ?thesis
    using stray_block [of ?st ?p1 ?p2 "[]" "demo_pkt 5 8" "demo_pkt 6 9" demo_env 4 "\<lambda>n. 101" 77]
    by (auto simp: demo_poller_def demo_pkt_def)
qed

text \<open>C10. A lock is recorded only while the table has a free slot: a blocked address (other than
0.0.0.0) enters the kernel's black list in any case, and the locks gain it with the time of the
block if some slot is free; with all 100 slots taken the locks do not change, so the address is
never released.\<close>

theorem block_records_lock:
  assumes "black_list_kernel env (black_list_path st) view" "ready st" "table_sized (count_down st)"
    "ip \<noteq> 0"
  shows "\<exists>st'. block_offender env ncpus tm ip st = Some st' \<and>
    view (kernel st') ip = Some (replicate ncpus 0) \<and>
    set (locks (count_down st')) =
      (if 0 \<in> set (fst (count_down st)) then insert (ip, ucast (tm (time_calls st))) (set (locks (count_down st)))
       else set (locks (count_down st)))"
  using block_offender_effect [OF assms(1-3), of ncpus tm ip] assms(4) by auto

lemma block_records_lock_witness:
  "\<exists>st'. block_offender demo_env 4 (\<lambda>n. 101) 77 (demo_poller [] []) = Some st' \<and>
    kernel st' 77 = Some [0, 0, 0, 0] \<and> set (locks (count_down st')) = {(77, 101)}"
proof -
  have "locks (count_down (demo_poller [] [])) = []" "0 \<in> set (fst (count_down (demo_poller [] [])))"
    by (simp_all add: demo_poller_def locks_def zip_replicate)
  moreover have "replicate 4 (0 :: u32) = [0, 0, 0, 0]" by (simp add: numeral_eq_Suc)
  ultimately show ?thesis
    using block_records_lock [where st = "demo_poller [] []" and ip = 77 and ncpus = 4 and tm = "\<lambda>n. 101",
        OF demo_kernel demo_ready(1,2)]
    by simp
qed

end
