(* ===== verification/Text.thy ===== *)
theory Text
  imports Prelude "HOL-Library.Char_ord"
begin

text \<open>
  The parts of the C library that the user-space programs use on text: decimal numbers, the
  conversions \<open>%d\<close>, \<open>%u\<close> and \<open>%s\<close> of the scanf family, \<open>strtok_r\<close>, \<open>strncpy\<close>, and the two
  conversions of IPv4 addresses. A C string is the list of its characters before the NUL; an open
  text file is the list of the characters not yet read.
\<close>

section \<open>Characters and decimal numbers\<close>

definition c_isspace :: "char \<Rightarrow> bool" where
  "c_isspace c \<longleftrightarrow> c = CHR '' '' \<or> c = CHR 0x09 \<or> c = CHR 0x0A \<or> c = CHR 0x0B \<or> c = CHR 0x0C \<or> c = CHR 0x0D"

definition c_isdigit :: "char \<Rightarrow> bool" where
  "c_isdigit c \<longleftrightarrow> 48 \<le> (of_char c :: nat) \<and> (of_char c :: nat) \<le> 57"

definition digit_val :: "char \<Rightarrow> nat" where
  "digit_val c = of_char c - 48"

definition digit_char :: "nat \<Rightarrow> char" where
  "digit_char n = char_of (48 + n)"

definition dec_val :: "string \<Rightarrow> nat" where
  "dec_val ds = foldl (\<lambda>a c. 10 * a + digit_val c) 0 ds"

fun show_nat :: "nat \<Rightarrow> string" where
  "show_nat n = (if n < 10 then [digit_char n] else show_nat (n div 10) @ [digit_char (n mod 10)])"

declare show_nat.simps [simp del]

definition show_int :: "int \<Rightarrow> string" where
  "show_int i = (if i < 0 then CHR ''-'' # show_nat (nat (- i)) else show_nat (nat i))"

lemma digit_char [simp]:
  "n < 10 \<Longrightarrow> c_isdigit (digit_char n)" "n < 10 \<Longrightarrow> digit_val (digit_char n) = n"
  by (simp_all add: c_isdigit_def digit_char_def digit_val_def of_char_of take_bit_eq_mod)

lemma digit_not_space: "c_isdigit c \<Longrightarrow> \<not> c_isspace c"
  by (auto simp: c_isdigit_def c_isspace_def)

lemma show_nat_digits: "\<forall>c\<in>set (show_nat n). c_isdigit c"
  by (induction n rule: show_nat.induct) (subst show_nat.simps, auto)

lemma show_nat_ne [simp]: "show_nat n \<noteq> []"
  by (subst show_nat.simps) simp

lemma dec_val_show [simp]: "dec_val (show_nat n) = n"
proof (induction n rule: show_nat.induct)
  case (1 n)
  then show ?case by (subst show_nat.simps) (auto simp: dec_val_def)
qed

lemma show_nat_hd_digit: "c_isdigit (hd (show_nat n))"
  using show_nat_digits [of n] by (simp add: hd_in_set)

lemma length_show_nat: "n < 10 ^ Suc k \<Longrightarrow> length (show_nat n) \<le> Suc k"
proof (induction k arbitrary: n)
  case 0
  then show ?case by (subst show_nat.simps) simp
next
  case (Suc k)
  then have "length (show_nat (n div 10)) \<le> Suc k" by (intro Suc.IH) (simp add: less_mult_imp_div_less)
  then show ?case by (subst show_nat.simps) simp
qed

section \<open>The scanf conversions\<close>

datatype 'a scan = Scan_eof | Scan_fail string | Scan_ok 'a string

text \<open>
  \<open>%d\<close>: white space, an optional sign, decimal digits. \<open>strtol\<close> saturates at the range of a
  \<open>long\<close>, and the assignment to an \<open>int\<close> keeps the low 32 bits.
\<close>

definition strtol_int :: "int \<Rightarrow> int" where
  "strtol_int v = sint (word_of_int (max (- (2 ^ 63)) (min (2 ^ 63 - 1) v)) :: u32)"

definition scan_sign :: "string \<Rightarrow> int \<times> string" where
  "scan_sign s = (case s of
     c # r \<Rightarrow> if c = CHR ''-'' then (-1, r) else if c = CHR ''+'' then (1, r) else (1, s)
   | [] \<Rightarrow> (1, []))"

definition scan_int :: "string \<Rightarrow> int scan" where
  "scan_int s = (
     let s = dropWhile c_isspace s in
     if s = [] then Scan_eof
     else let (sgn, r) = scan_sign s; ds = takeWhile c_isdigit r in
       if ds = [] then Scan_fail r
       else Scan_ok (strtol_int (sgn * int (dec_val ds))) (dropWhile c_isdigit r))"

text \<open>\<open>%u\<close> converts like \<open>strtoul\<close>: a value above the range of an \<open>unsigned long\<close> gives its maximum.\<close>

definition scan_uint :: "string \<Rightarrow> u32 scan" where
  "scan_uint s = (
     let s = dropWhile c_isspace s in
     if s = [] then Scan_eof
     else let (sgn, r) = scan_sign s; ds = takeWhile c_isdigit r in
       if ds = [] then Scan_fail r
       else Scan_ok (if int (dec_val ds) < 2 ^ 64 then word_of_int (sgn * int (dec_val ds)) else -1)
              (dropWhile c_isdigit r))"

text \<open>\<open>%s\<close>: white space, then the characters up to the next white space.\<close>

definition scan_token :: "string \<Rightarrow> string scan" where
  "scan_token s = (
     let s = dropWhile c_isspace s in
     if s = [] then Scan_eof
     else Scan_ok (takeWhile (\<lambda>c. \<not> c_isspace c) s) (dropWhile (\<lambda>c. \<not> c_isspace c) s))"

lemma dropWhile_all_then: "\<forall>c\<in>set xs. P c \<Longrightarrow> y = [] \<or> \<not> P (hd y) \<Longrightarrow> dropWhile P (xs @ y) = y"
  by (induction xs) (auto simp: dropWhile_eq_self_iff)

lemma takeWhile_all_then: "\<forall>c\<in>set xs. P c \<Longrightarrow> y = [] \<or> \<not> P (hd y) \<Longrightarrow> takeWhile P (xs @ y) = xs"
  by (induction xs) (auto simp: takeWhile_eq_Nil_iff)

lemma span_none: "r = [] \<or> \<not> P (hd r) \<Longrightarrow> takeWhile P r = [] \<and> dropWhile P r = r"
  by (cases r) auto

lemma strtol_int_small: "- (2 ^ 31) \<le> i \<Longrightarrow> i < 2 ^ 31 \<Longrightarrow> strtol_int i = i"
  using sint_u32_small [of i] sint_u32_neg [of i] by (cases "i < 0") (simp_all add: strtol_int_def)

lemma show_nat_no_sign: "hd (show_nat n) \<noteq> CHR ''-'' \<and> hd (show_nat n) \<noteq> CHR ''+''"
  using show_nat_hd_digit [of n] by (auto simp: c_isdigit_def)

lemma dropWhile_space_show [simp]: "dropWhile c_isspace (show_nat n @ r) = show_nat n @ r"
  using digit_not_space [OF show_nat_hd_digit [of n]] by (cases "show_nat n") auto

lemma scan_sign_show: "scan_sign (show_nat n @ r) = (1, show_nat n @ r)"
  using show_nat_no_sign [of n] by (cases "show_nat n") (auto simp: scan_sign_def)

text \<open>Scanning undoes printing.\<close>

lemma scan_int_show:
  assumes "- (2 ^ 31) \<le> i" "i < 2 ^ 31" "\<forall>c\<in>set ws. c_isspace c" "r = [] \<or> \<not> c_isdigit (hd r)"
  shows "scan_int (ws @ show_int i @ r) = Scan_ok i r"
proof (cases "i < 0")
  case True
  then have "dropWhile c_isspace (ws @ show_int i @ r) = show_int i @ r"
    using assms(3) by (intro dropWhile_all_then) (auto simp: show_int_def c_isspace_def)
  then show ?thesis
    using True assms(1,2) span_none [of r c_isdigit] assms(4) show_nat_digits [of "nat (- i)"]
    by (simp add: scan_int_def show_int_def scan_sign_def strtol_int_small)
next
  case False
  then have "dropWhile c_isspace (ws @ show_int i @ r) = show_int i @ r"
    using assms(3) digit_not_space [OF show_nat_hd_digit [of "nat i"]]
    by (intro dropWhile_all_then) (auto simp: show_int_def)
  then show ?thesis
    using False assms(2) span_none [of r c_isdigit] assms(4) show_nat_digits [of "nat i"]
    by (simp add: scan_int_def show_int_def scan_sign_show strtol_int_small)
qed

lemma scan_uint_show:
  assumes "r = [] \<or> \<not> c_isdigit (hd r)" "\<forall>c\<in>set ws. c_isspace c"
  shows "scan_uint (ws @ show_nat (unat a) @ r) = Scan_ok a r"
proof -
  have "dropWhile c_isspace (ws @ show_nat (unat a) @ r) = show_nat (unat a) @ r"
    using assms(2) digit_not_space [OF show_nat_hd_digit [of "unat a"]] by (intro dropWhile_all_then) auto
  moreover have "uint a < 2 ^ 64" using uint_lt2p [of a] by simp
  ultimately show ?thesis
    using span_none [of r c_isdigit] assms(1) show_nat_digits [of "unat a"]
    by (simp add: scan_uint_def scan_sign_show Let_def)
qed

lemma scan_token_at:
  assumes "\<forall>c\<in>set ws. c_isspace c" "tok \<noteq> []" "\<forall>c\<in>set tok. \<not> c_isspace c" "r = [] \<or> c_isspace (hd r)"
  shows "scan_token (ws @ tok @ r) = Scan_ok tok r"
proof -
  have "dropWhile c_isspace (ws @ tok @ r) = tok @ r"
    using assms(1-3) by (intro dropWhile_all_then) (auto simp: hd_append)
  moreover have "takeWhile (\<lambda>c. \<not> c_isspace c) (tok @ r) = tok" "dropWhile (\<lambda>c. \<not> c_isspace c) (tok @ r) = r"
    using assms(3,4) by (intro takeWhile_all_then dropWhile_all_then; auto)+
  ultimately show ?thesis using assms(2) by (simp add: scan_token_def)
qed

section \<open>Copies\<close>

text \<open>
  \<open>strncpy(dest, src, n)\<close>: the first \<open>n\<close> characters of the source, filled up with NUL. The copy
  is terminated only if the source is shorter than \<open>n\<close>; reading it as a string otherwise runs over
  the end of the array (\<^term>\<open>None\<close>).
\<close>

definition strncpy :: "string \<Rightarrow> nat \<Rightarrow> string" where
  "strncpy src n = take n (src @ replicate n (CHR 0x00))"

definition c_string :: "string \<Rightarrow> string option" where
  "c_string arr = (if CHR 0x00 \<in> set arr then Some (takeWhile (\<lambda>c. c \<noteq> CHR 0x00) arr) else None)"

lemma length_strncpy [simp]: "length (strncpy src n) = n"
  by (simp add: strncpy_def)

lemma c_string_strncpy:
  assumes "CHR 0x00 \<notin> set src"
  shows "c_string (strncpy src n) = (if length src < n then Some src else None)"
proof (cases "length src < n")
  case True
  then have e: "strncpy src n = src @ replicate (n - length src) (CHR 0x00)" by (simp add: strncpy_def)
  have "takeWhile (\<lambda>c. c \<noteq> CHR 0x00) (src @ replicate (n - length src) (CHR 0x00)) = src"
    using assms True by (intro takeWhile_all_then) auto
  with True show ?thesis by (simp add: c_string_def e)
next
  case False
  then have "strncpy src n = take n src" by (simp add: strncpy_def)
  with False assms show ?thesis by (auto simp: c_string_def dest: in_set_takeD)
qed

section \<open>Tokens\<close>

text \<open>
  \<open>strtok_r\<close> with a one-character set of delimiters: skip delimiters, cut the token at the next
  one. The result is the token (\<^term>\<open>None\<close> is NULL) and the text behind the delimiter
  that ended it, where the next call goes on.
\<close>

definition strtok_r :: "char \<Rightarrow> string \<Rightarrow> string option \<times> string" where
  "strtok_r d s = (
     let s = dropWhile (\<lambda>c. c = d) s in
     if s = [] then (None, [])
     else (Some (takeWhile (\<lambda>c. c \<noteq> d) s), drop 1 (dropWhile (\<lambda>c. c \<noteq> d) s)))"

lemma strtok_r_at:
  assumes "tok \<noteq> []" "d \<notin> set tok"
  shows "strtok_r d (tok @ d # r) = (Some tok, r)"
proof -
  have "dropWhile (\<lambda>c. c = d) (tok @ d # r) = tok @ d # r"
    using assms by (cases tok) auto
  moreover have "takeWhile (\<lambda>c. c \<noteq> d) (tok @ d # r) = tok" "dropWhile (\<lambda>c. c \<noteq> d) (tok @ d # r) = d # r"
    using assms(2) by (intro takeWhile_all_then dropWhile_all_then; auto)+
  ultimately show ?thesis by (simp add: strtok_r_def)
qed

lemma strtok_r_length: "snd (strtok_r d s) = [] \<or> length (snd (strtok_r d s)) < length s"
proof -
  have "length (dropWhile (\<lambda>c. c \<noteq> d) (dropWhile (\<lambda>c. c = d) s)) \<le> length s"
    using length_dropWhile_le le_trans by blast
  then show ?thesis by (auto simp: strtok_r_def Let_def) 
qed

section \<open>IPv4 addresses\<close>

text \<open>
  \<open>inet_pton(AF_INET, ...)\<close>: the value of the current octet, whether it has a digit, and the octets
  before it. Four octets of at most 255 without leading zeros.
\<close>

fun inet_pton_loop :: "string \<Rightarrow> nat \<Rightarrow> bool \<Rightarrow> nat list \<Rightarrow> nat list option" where
  "inet_pton_loop [] cur saw done = (if saw \<and> length done = 3 then Some (done @ [cur]) else None)"
| "inet_pton_loop (c # cs) cur saw done =
     (if c_isdigit c then
        (if saw \<and> cur = 0 \<or> 255 < cur * 10 + digit_val c then None
         else inet_pton_loop cs (cur * 10 + digit_val c) True done)
      else if c = CHR ''.'' \<and> saw then
        (if length done = 3 then None else inet_pton_loop cs 0 False (done @ [cur]))
      else None)"

text \<open>The address in network order is loaded as a little-endian word.\<close>

fun addr_of :: "nat list \<Rightarrow> u32" where
  "addr_of [a, b, c, d] = of_nat (a + 256 * b + 65536 * c + 16777216 * d)"
| "addr_of _ = 0"

definition inet_pton :: "string \<Rightarrow> u32 option" where
  "inet_pton s = map_option addr_of (inet_pton_loop s 0 False [])"

definition octet :: "nat \<Rightarrow> u32 \<Rightarrow> nat" where
  "octet i a = unat a div 256 ^ i mod 256"

definition inet_ntop :: "u32 \<Rightarrow> string" where
  "inet_ntop a = show_nat (octet 0 a) @ ''.'' @ show_nat (octet 1 a) @ ''.'' @
     show_nat (octet 2 a) @ ''.'' @ show_nat (octet 3 a)"

lemma show_nat_two:
  "10 \<le> k \<Longrightarrow> k < 100 \<Longrightarrow> show_nat k = [digit_char (k div 10), digit_char (k mod 10)]"
  by (subst show_nat.simps) (simp, subst show_nat.simps, simp)

lemma inet_pton_octet:
  assumes "n < 256"
  shows "inet_pton_loop (show_nat n @ r) 0 False ds = inet_pton_loop r n True ds"
proof -
  consider "n < 10" | "10 \<le> n" "n < 100" | "100 \<le> n" using assms by linarith
  then show ?thesis
  proof cases
    case 1
    then show ?thesis by (subst show_nat.simps) simp
  next
    case 2
    then have "show_nat n = [digit_char (n div 10), digit_char (n mod 10)]" by (rule show_nat_two)
    moreover have "0 < n div 10" "n div 10 < 256" "n div 10 < 10" using 2 by simp_all
    ultimately show ?thesis using assms by (simp del: div_greater_zero_iff)
  next
    case 3
    then have "show_nat (n div 10) = [digit_char (n div 10 div 10), digit_char (n div 10 mod 10)]"
      using assms by (intro show_nat_two) linarith+
    then have e: "show_nat n = [digit_char (n div 10 div 10), digit_char (n div 10 mod 10), digit_char (n mod 10)]"
      using 3 by (subst show_nat.simps) simp
    obtain x y z where "x = n div 10 div 10" "y = n div 10 mod 10" "z = n mod 10" by blast
    then have "show_nat n = [digit_char x, digit_char y, digit_char z]" "0 < x" "x < 10" "y < 10" "z < 10"
      "(x * 10 + y) * 10 + z = n"
      using e 3 assms by simp_all
    with assms show ?thesis by auto
  qed
qed

lemma octet_less: "octet i a < 256"
  by (simp add: octet_def)

lemma not_digit_dot [simp]: "\<not> c_isdigit (CHR ''.'')"
  by (simp add: c_isdigit_def)

lemma addr_of_octets: "addr_of [octet 0 a, octet 1 a, octet 2 a, octet 3 a] = a"
proof -
  have "n mod 256 + 256 * (n div 256 mod 256) + 65536 * (n div 65536 mod 256) + 16777216 * (n div 16777216 mod 256) = n"
    if "n < 2 ^ 32" for n :: nat
  proof -
    define q1 where "q1 = n div 256"
    define q2 where "q2 = q1 div 256"
    define q3 where "q3 = q2 div 256"
    have q: "n div 65536 = q2" "n div 16777216 = q3"
      by (simp_all add: q3_def q2_def q1_def div_mult2_eq [symmetric])
    have "q3 < 256" using that by (simp add: q3_def q2_def q1_def div_mult2_eq [symmetric] less_mult_imp_div_less)
    moreover have "n = 256 * q1 + n mod 256" "q1 = 256 * q2 + q1 mod 256" "q2 = 256 * q3 + q2 mod 256"
      by (simp_all add: q3_def q2_def q1_def)
    ultimately show ?thesis unfolding q q1_def [symmetric] by simp
  qed
  from this [of "unat a"] show ?thesis
    using unsigned_less [of a, where 'a = nat] by (simp add: octet_def del: of_nat_add of_nat_mult)
qed

lemma inet_pton_ntop: "inet_pton (inet_ntop a) = Some a"
  by (simp add: inet_pton_def inet_ntop_def inet_pton_octet octet_less addr_of_octets
      inet_pton_octet [where r = "[]", simplified] del: addr_of.simps One_nat_def)

lemma inet_ntop_chars: "\<forall>c\<in>set (inet_ntop a). c_isdigit c \<or> c = CHR ''.''"
  using show_nat_digits by (fastforce simp: inet_ntop_def)

lemma inet_ntop_no_space: "\<forall>c\<in>set (inet_ntop a). \<not> c_isspace c"
proof
  fix c
  assume "c \<in> set (inet_ntop a)"
  then consider "c_isdigit c" | "c = CHR ''.''" using inet_ntop_chars by blast
  then show "\<not> c_isspace c" by cases (simp_all add: digit_not_space, simp add: c_isspace_def)
qed

lemma inet_ntop_ne [simp]: "inet_ntop a \<noteq> []"
  by (simp add: inet_ntop_def)

lemma inet_ntop_start: "\<not> c_isspace (hd (inet_ntop a))"
  using inet_ntop_no_space [of a] by (simp add: hd_in_set)

end
