(* ===== verification/Policy_Load.thy ===== *)
theory Policy_Load
  imports Policy_Block Text
begin

text \<open>
  main/start_policy.c, \<open>load_policy\<close>: reading the policy file with
  \<open>fscanf(fp, "%d %s %d\n", &id, ip, &threshold)\<close> into the ten slots of \<open>list_policy\<close>. The file is
  an argument: its content, or \<^term>\<open>None\<close> when \<open>fopen\<close> fails. The locals \<open>id\<close>, \<open>ip\<close> and
  \<open>threshold\<close> keep their values from one call of \<open>fscanf\<close> to the next; their first values are
  arbitrary. A write outside \<open>ip[20]\<close> or \<open>list_policy\<close> is a fault.
\<close>

section \<open>The loader\<close>

record policy_vars =
  v_id :: int
  v_ip :: string
  v_threshold :: int

definition EOF :: int where "EOF = -1"

text \<open>
  The result of \<open>fscanf\<close>: the number of conversions stored, or EOF when the input ends before the
  first one; then the rest of the file and the variables.
\<close>

definition fscanf_policy :: "string \<Rightarrow> policy_vars \<Rightarrow> (int \<times> string \<times> policy_vars) option" where
  "fscanf_policy s v =
     (case scan_int s of
        Scan_eof \<Rightarrow> Some (EOF, [], v)
      | Scan_fail r \<Rightarrow> Some (0, r, v)
      | Scan_ok i r \<Rightarrow>
          let v = v\<lparr>v_id := i\<rparr> in
          (case scan_token r of
             Scan_eof \<Rightarrow> Some (1, [], v)
           | Scan_fail r \<Rightarrow> Some (1, r, v)
           | Scan_ok tok r \<Rightarrow>
               if 20 \<le> length tok then None
               else let v = v\<lparr>v_ip := tok\<rparr> in
               (case scan_int r of
                  Scan_eof \<Rightarrow> Some (2, [], v)
                | Scan_fail r \<Rightarrow> Some (2, r, v)
                | Scan_ok t r \<Rightarrow> Some (3, dropWhile c_isspace r, v\<lparr>v_threshold := t\<rparr>))))"

text \<open>
  Storing the variables in the next slot. The result of \<open>inet_pton\<close> is not looked at (the test that
  follows it in the code is on the result of the first \<open>fscanf\<close>, known to be positive), so a text
  that is no address leaves the address of the slot as it was.
\<close>

definition store_policy :: "policy_vars \<Rightarrow> 'k poller \<Rightarrow> 'k poller option" where
  "store_policy v st = do {
     p \<leftarrow> arr_get (list_policy st) (policy_len st);
     let p = p\<lparr>policy_id := v_id v\<rparr>;
     let p = (case inet_pton (v_ip v) of None \<Rightarrow> p | Some a \<Rightarrow> p\<lparr>policy_ip := a\<rparr>);
     let p = p\<lparr>threshold := v_threshold v\<rparr>;
     ps \<leftarrow> arr_set (list_policy st) (policy_len st) p;
     Some (st\<lparr>list_policy := ps, policy_len := policy_len st + 1\<rparr>)
   }"

lemma store_policy_Some:
  "store_policy v st = Some st' \<Longrightarrow> policy_len st < length (list_policy st) \<and>
     policy_len st' = policy_len st + 1 \<and> length (list_policy st') = length (list_policy st)"
  by (auto simp: store_policy_def Let_def split: Option.bind_splits dest!: arr_SomeD)

text \<open>
  The loop ends at EOF only. A line that \<open>fscanf\<close> cannot convert is not EOF and is not consumed, so
  it is the array bound that makes the recursion well-founded.
\<close>

function load_loop :: "string \<Rightarrow> policy_vars \<Rightarrow> 'k poller \<Rightarrow> 'k poller option" where
  "load_loop s v st = do {
     (ret, s, v) \<leftarrow> fscanf_policy s v;
     if ret = EOF then Some st
     else do {
       st \<leftarrow> store_policy v st;
       load_loop s v st
     }
   }"
  by pat_completeness auto

termination
  by (relation "measure (\<lambda>(s, v, st). length (list_policy st) - policy_len st)")
     (auto dest: store_policy_Some)

declare load_loop.simps [simp del]

definition load_policy :: "string option \<Rightarrow> policy_vars \<Rightarrow> 'k poller \<Rightarrow> (int \<times> 'k poller) option" where
  "load_policy file v st = (
     let st = st\<lparr>policy_len := 0\<rparr> in
     case file of
       None \<Rightarrow> Some (1, st)
     | Some s \<Rightarrow> do {
         (err, s, v) \<leftarrow> fscanf_policy s v;
         if err > 0 then do {
           st \<leftarrow> store_policy v st;
           st \<leftarrow> load_loop s v st;
           Some (0, st)
         } else Some (0, st)
       })"

section \<open>Files\<close>

text \<open>The line that the loader is meant for.\<close>

definition policy_line :: "policy \<Rightarrow> string" where
  "policy_line p = show_int (policy_id p) @ '' '' @ inet_ntop (policy_ip p) @ '' '' @
     show_int (threshold p) @ [CHR 0x0A]"

definition int32 :: "int \<Rightarrow> bool" where
  "int32 i \<longleftrightarrow> - (2 ^ 31) \<le> i \<and> i < 2 ^ 31"

definition policy_ints :: "policy \<Rightarrow> bool" where
  "policy_ints p \<longleftrightarrow> int32 (policy_id p) \<and> int32 (threshold p)"

definition vars_of :: "policy \<Rightarrow> policy_vars" where
  "vars_of p = \<lparr>v_id = policy_id p, v_ip = inet_ntop (policy_ip p), v_threshold = threshold p\<rparr>"

lemma show_nat_byte: "n < 256 \<Longrightarrow> length (show_nat n) \<le> 3"
  by (subst show_nat.simps, subst show_nat.simps, subst show_nat.simps) auto

lemma inet_ntop_length: "length (inet_ntop a) < 20"
  using show_nat_byte [OF octet_less [of 0 a]] show_nat_byte [OF octet_less [of 1 a]]
    show_nat_byte [OF octet_less [of 2 a]] show_nat_byte [OF octet_less [of 3 a]]
  by (simp add: inet_ntop_def)

lemma fscanf_line:
  assumes "policy_ints p"
  shows "fscanf_policy (policy_line p @ rest) v = Some (3, dropWhile c_isspace rest, vars_of p)"
proof -
  have nl: "c_isspace (CHR 0x0A)" "c_isspace (CHR '' '')" "\<not> c_isdigit (CHR 0x0A)" "\<not> c_isdigit (CHR '' '')"
    by (simp_all add: c_isspace_def c_isdigit_def)
  have "scan_int (policy_line p @ rest)
      = Scan_ok (policy_id p) ('' '' @ inet_ntop (policy_ip p) @ '' '' @ show_int (threshold p) @ CHR 0x0A # rest)"
    using scan_int_show [of "policy_id p" "[]"] assms nl
    by (simp add: policy_line_def policy_ints_def int32_def)
  moreover have "scan_token ('' '' @ inet_ntop (policy_ip p) @ '' '' @ show_int (threshold p) @ CHR 0x0A # rest)
      = Scan_ok (inet_ntop (policy_ip p)) ('' '' @ show_int (threshold p) @ CHR 0x0A # rest)"
    using inet_ntop_no_space [of "policy_ip p"] nl by (intro scan_token_at) simp_all
  moreover have "scan_int ('' '' @ show_int (threshold p) @ CHR 0x0A # rest)
      = Scan_ok (threshold p) (CHR 0x0A # rest)"
    using assms nl by (intro scan_int_show) (auto simp: policy_ints_def int32_def)
  ultimately show ?thesis
    using inet_ntop_length [of "policy_ip p"] nl by (simp add: fscanf_policy_def vars_of_def)
qed

lemma store_line:
  assumes "policy_len st < length (list_policy st)"
  shows "store_policy (vars_of p) st = Some (st\<lparr>list_policy := (list_policy st)[policy_len st := p],
    policy_len := policy_len st + 1\<rparr>)"
  using assms by (cases p; cases "list_policy st ! policy_len st")
    (simp add: store_policy_def vars_of_def fault inet_pton_ntop)

lemma store_full: "length (list_policy st) \<le> policy_len st \<Longrightarrow> store_policy v st = None"
  by (simp add: store_policy_def arr_out)

text \<open>Lines that follow each other; what comes behind them does not begin with white space.\<close>

lemma line_start: "\<not> c_isspace (hd (policy_line p @ r))"
  using show_nat_hd_digit [of "nat (policy_id p)"] digit_not_space
  by (auto simp: policy_line_def show_int_def hd_append c_isspace_def c_isdigit_def)

lemma drop_lines:
  "tail = [] \<or> \<not> c_isspace (hd tail) \<Longrightarrow>
   dropWhile c_isspace (concat (map policy_line ps) @ tail) = concat (map policy_line ps) @ tail"
  using line_start by (cases ps) (auto simp: dropWhile_eq_self_iff)

lemma load_loop_lines:
  assumes "\<forall>p\<in>set ps. policy_ints p" "tail = [] \<or> \<not> c_isspace (hd tail)"
    "policy_len st + length ps \<le> length (list_policy st)"
  shows "\<exists>v' st'. load_loop (concat (map policy_line ps) @ tail) v st = load_loop tail v' st' \<and>
    policy_len st' = policy_len st + length ps \<and>
    list_policy st' = take (policy_len st) (list_policy st) @ ps @ drop (policy_len st + length ps) (list_policy st)"
  using assms
proof (induction ps arbitrary: v st)
  case (Cons p ps)
  let ?st = "st\<lparr>list_policy := (list_policy st)[policy_len st := p], policy_len := policy_len st + 1\<rparr>"
  have "load_loop (concat (map policy_line (p # ps)) @ tail) v st
      = load_loop (concat (map policy_line ps) @ tail) (vars_of p) ?st"
    using Cons.prems by (subst load_loop.simps) (simp add: fscanf_line drop_lines store_line EOF_def)
  moreover obtain v' st' where "load_loop (concat (map policy_line ps) @ tail) (vars_of p) ?st = load_loop tail v' st'"
      "policy_len st' = policy_len st + 1 + length ps"
      "list_policy st' = take (policy_len st + 1) ((list_policy st)[policy_len st := p]) @ ps @
         drop (policy_len st + 1 + length ps) ((list_policy st)[policy_len st := p])"
    using Cons.IH [of ?st "vars_of p"] Cons.prems by auto
  moreover have "take (policy_len st + 1) ((list_policy st)[policy_len st := p]) = take (policy_len st) (list_policy st) @ [p]"
    using Cons.prems by (simp add: take_Suc_conv_app_nth)
  ultimately show ?case using Cons.prems by (intro exI) (auto simp: drop_update_cancel)
qed auto

lemma load_loop_eof: "load_loop [] v st = Some st"
  by (subst load_loop.simps) (simp add: fscanf_policy_def scan_int_def)

lemma load_loop_too_many:
  assumes "\<forall>p\<in>set ps. policy_ints p" "length (list_policy st) < policy_len st + length ps" "policy_len st \<le> length (list_policy st)"
    "tail = [] \<or> \<not> c_isspace (hd tail)"
  shows "load_loop (concat (map policy_line ps) @ tail) v st = None"
  using assms
proof (induction ps arbitrary: v st)
  case (Cons p ps)
  show ?case
  proof (cases "policy_len st < length (list_policy st)")
    case True
    then show ?thesis
      using Cons by (subst load_loop.simps) (simp add: fscanf_line drop_lines store_line EOF_def)
  next
    case False
    then show ?thesis
      using Cons by (subst load_loop.simps) (simp add: fscanf_line store_full EOF_def)
  qed
qed simp

text \<open>A character that starts no number stops every conversion and is never consumed.\<close>

lemma fscanf_stuck:
  assumes "\<not> c_isspace c" "\<not> c_isdigit c" "c \<noteq> CHR ''-''" "c \<noteq> CHR ''+''"
  shows "fscanf_policy (c # r) v = Some (0, c # r, v)"
  using assms by (simp add: fscanf_policy_def scan_int_def scan_sign_def)

lemma load_loop_stuck:
  assumes "\<not> c_isspace c" "\<not> c_isdigit c" "c \<noteq> CHR ''-''" "c \<noteq> CHR ''+''"
  shows "load_loop (c # r) v st = None"
proof (induction "length (list_policy st) - policy_len st" arbitrary: st rule: less_induct)
  case less
  show ?case
  proof (cases "store_policy v st")
    case None
    then show ?thesis by (subst load_loop.simps) (simp add: fscanf_stuck [OF assms] EOF_def)
  next
    case (Some st')
    then have "load_loop (c # r) v st' = None"
      using store_policy_Some [OF Some] by (intro less) linarith
    with Some show ?thesis by (subst load_loop.simps) (simp add: fscanf_stuck [OF assms] EOF_def)
  qed
qed

text \<open>The whole file after its first line.\<close>

lemma load_policy_first:
  assumes "policy_ints p" "0 < length (list_policy st)" "tail = [] \<or> \<not> c_isspace (hd tail)"
  shows "load_policy (Some (concat (map policy_line (p # ps)) @ tail)) v st
    = map_option (Pair 0) (load_loop (concat (map policy_line ps) @ tail) (vars_of p)
        (st\<lparr>list_policy := (list_policy st)[0 := p], policy_len := 1\<rparr>))"
proof -
  have "store_policy (vars_of p) (st\<lparr>policy_len := 0\<rparr>)
      = Some (st\<lparr>list_policy := (list_policy st)[0 := p], policy_len := 1\<rparr>)"
    using store_line [of "st\<lparr>policy_len := 0\<rparr>" p] assms(2) by simp
  then show ?thesis
    using assms
    by (cases "load_loop (concat (map policy_line ps) @ tail) (vars_of p)
          (st\<lparr>list_policy := (list_policy st)[0 := p], policy_len := 1\<rparr>)")
       (simp_all add: load_policy_def fscanf_line drop_lines)
qed

lemma load_policy_lines:
  assumes "\<forall>p\<in>set ps. policy_ints p" "ps \<noteq> []" "length ps \<le> 10" "length (list_policy st) = 10"
  shows "\<exists>st'. load_policy (Some (concat (map policy_line ps))) v st = Some (0, st') \<and>
    policy_len st' = length ps \<and> take (policy_len st') (list_policy st') = ps"
proof -
  obtain p qs where ps: "ps = p # qs" using assms(2) by (cases ps) auto
  let ?st = "st\<lparr>list_policy := (list_policy st)[0 := p], policy_len := 1\<rparr>"
  obtain v' st' where "load_loop (concat (map policy_line qs) @ []) (vars_of p) ?st = load_loop [] v' st'"
      "policy_len st' = 1 + length qs"
      "list_policy st' = take 1 ((list_policy st)[0 := p]) @ qs @ drop (1 + length qs) ((list_policy st)[0 := p])"
    using load_loop_lines [of qs "[]" ?st "vars_of p"] assms by (auto simp: ps)
  then show ?thesis
    using load_policy_first [of p st "[]" qs v] assms
    by (cases "list_policy st") (auto simp: ps load_loop_eof)
qed

text \<open>Loading changes the table of the policies and nothing else.\<close>

definition policies_only :: "'k poller \<Rightarrow> 'k poller \<Rightarrow> bool" where
  "policies_only st st' \<longleftrightarrow> st'\<lparr>list_policy := [], policy_len := 0\<rparr> = st\<lparr>list_policy := [], policy_len := 0\<rparr>"

lemma store_policy_only: "store_policy v st = Some st' \<Longrightarrow> policies_only st st'"
  by (auto simp: store_policy_def policies_only_def Let_def split: Option.bind_splits)

lemma policies_only_refl: "policies_only st st"
  by (simp add: policies_only_def)

lemma policies_only_trans: "policies_only a b \<Longrightarrow> policies_only b c \<Longrightarrow> policies_only a c"
  by (auto simp: policies_only_def)

lemma load_loop_only: "load_loop s v st = Some st' \<Longrightarrow> policies_only st st'"
proof (induction s v st rule: load_loop.induct)
  case (1 s v st)
  obtain ret s1 v1 where f: "fscanf_policy s v = Some (ret, s1, v1)"
    using "1.prems" by (subst (asm) load_loop.simps) (auto split: Option.bind_splits)
  show ?case
  proof (cases "ret = EOF")
    case True
    then show ?thesis using "1.prems" f by (subst (asm) load_loop.simps) (simp add: policies_only_refl)
  next
    case False
    then obtain st1 where st1: "store_policy v1 st = Some st1" "load_loop s1 v1 st1 = Some st'"
      using "1.prems" f by (subst (asm) load_loop.simps) (auto split: Option.bind_splits)
    have "policies_only st1 st'" by (rule "1.IH" [OF f refl refl False st1])
    then show ?thesis by (rule policies_only_trans [OF store_policy_only [OF st1(1)]])
  qed
qed

lemma load_policy_only:
  assumes "load_policy f v st = Some (r, st')"
  shows "policies_only st st'"
proof -
  have start: "policies_only st (st\<lparr>policy_len := 0\<rparr>)" by (simp add: policies_only_def)
  have "policies_only (st\<lparr>policy_len := 0\<rparr>) st'"
    using assms
    by (auto simp: load_policy_def policies_only_refl Let_def split: option.splits Option.bind_splits if_splits
        intro: policies_only_trans [OF store_policy_only load_loop_only])
  then show ?thesis by (rule policies_only_trans [OF start])
qed

section \<open>Properties\<close>

definition demo_policies :: "policy list" where
  "demo_policies = [\<lparr>policy_id = 1, policy_ip = 0x0100000A, threshold = 100\<rparr>,
     \<lparr>policy_id = 2, policy_ip = 0x0200000A, threshold = -1\<rparr>]"

definition zero_policy :: policy where
  "zero_policy = \<lparr>policy_id = 0, policy_ip = 0, threshold = 0\<rparr>"

text \<open>C28. Loading undoes writing: a policy file with one to ten lines is loaded completely, each
policy with the identifier, the address and the threshold its line shows, in the order of the file.\<close>

theorem load_policy_roundtrip:
  assumes "\<forall>p\<in>set ps. policy_ints p" "ps \<noteq> []" "length ps \<le> 10" "length (list_policy st) = 10"
  shows "\<exists>st'. load_policy (Some (concat (map policy_line ps))) v st = Some (0, st') \<and>
    policy_len st' = length ps \<and> take (policy_len st') (list_policy st') = ps"
  by (rule load_policy_lines [OF assms])

lemma load_policy_roundtrip_witness:
  "\<exists>st'. load_policy (Some (concat (map policy_line demo_policies)))
      \<lparr>v_id = 0, v_ip = [], v_threshold = 0\<rparr> (demo_poller (replicate 10 zero_policy) []) = Some (0, st') \<and>
    take (policy_len st') (list_policy st') = demo_policies"
proof -
  have "\<forall>p\<in>set demo_policies. policy_ints p" "demo_policies \<noteq> []" "length demo_policies \<le> 10"
    "length (list_policy (demo_poller (replicate 10 zero_policy) [])) = 10"
    by (simp_all add: demo_policies_def policy_ints_def int32_def demo_poller_def)
  from load_policy_roundtrip [OF this] show ?thesis by blast
qed

text \<open>A policy file with more than ten lines is written outside \<open>list_policy\<close>.\<close>

theorem load_policy_overflow:
  assumes "\<forall>p\<in>set ps. policy_ints p" "10 < length ps" "length (list_policy st) = 10"
  shows "load_policy (Some (concat (map policy_line ps))) v st = None"
proof -
  obtain p qs where ps: "ps = p # qs" using assms(2) by (cases ps) auto
  show ?thesis
    using load_policy_first [of p st "[]" qs v] assms
      load_loop_too_many [of qs "st\<lparr>list_policy := (list_policy st)[0 := p], policy_len := 1\<rparr>" "[]" "vars_of p"]
    by (simp add: ps)
qed

lemma load_policy_overflow_witness:
  "load_policy (Some (concat (map policy_line (replicate 11 zero_policy))))
     \<lparr>v_id = 0, v_ip = [], v_threshold = 0\<rparr> (demo_poller (replicate 10 zero_policy) []) = None"
proof -
  have "\<forall>p\<in>set (replicate 11 zero_policy). policy_ints p" "10 < length (replicate 11 zero_policy)"
    "length (list_policy (demo_poller (replicate 10 zero_policy) [])) = 10"
    by (simp_all add: zero_policy_def policy_ints_def int32_def demo_poller_def)
  from load_policy_overflow [OF this] show ?thesis .
qed

text \<open>A line behind the first one that starts with a character no number starts with (a comment,
for example) makes the loader store its variables again and again until it writes outside
\<open>list_policy\<close>: the loop ends at the end of the file only, and such a line is never consumed.\<close>

theorem malformed_line_overflows:
  assumes "\<forall>p\<in>set ps. policy_ints p" "ps \<noteq> []" "length ps \<le> 10" "length (list_policy st) = 10"
    "\<not> c_isspace c" "\<not> c_isdigit c" "c \<noteq> CHR ''-''" "c \<noteq> CHR ''+''"
  shows "load_policy (Some (concat (map policy_line ps) @ c # rest)) v st = None"
proof -
  obtain p qs where ps: "ps = p # qs" using assms(2) by (cases ps) auto
  show ?thesis
    using load_policy_first [of p st "c # rest" qs v] assms load_loop_stuck [OF assms(5-8), of rest]
      load_loop_lines [of qs "c # rest" "st\<lparr>list_policy := (list_policy st)[0 := p], policy_len := 1\<rparr>" "vars_of p"]
    by (auto simp: ps)
qed

lemma malformed_line_overflows_witness:
  "load_policy (Some (concat (map policy_line demo_policies) @ ''# comment''))
     \<lparr>v_id = 0, v_ip = [], v_threshold = 0\<rparr> (demo_poller (replicate 10 zero_policy) []) = None"
proof -
  have "\<forall>p\<in>set demo_policies. policy_ints p" "demo_policies \<noteq> []" "length demo_policies \<le> 10"
    "length (list_policy (demo_poller (replicate 10 zero_policy) [])) = 10"
    "\<not> c_isspace (CHR ''#'')" "\<not> c_isdigit (CHR ''#'')" "CHR ''#'' \<noteq> CHR ''-''" "CHR ''#'' \<noteq> CHR ''+''"
    by (simp_all add: demo_policies_def policy_ints_def int32_def demo_poller_def c_isspace_def c_isdigit_def)
  from malformed_line_overflows [OF this] show ?thesis .
qed

end
