(* ===== verification/Common_Params.thy ===== *)
theory Common_Params
  imports Bpf_User Text
begin

text \<open>
  common/common_params.c and the record \<open>config\<close> of common/common_defines.h: the option tables,
  the help text and the command line.

  \<open>getopt_long\<close> is the C library's: \<open>parse_cmdline_args\<close> takes the sequence of its results, each with
  its \<open>optarg\<close>. \<open>if_nametoindex\<close> (0 for an unknown name) and the success of \<open>malloc\<close> are
  arguments too. Messages on stderr are not modelled; the help text on stdout is.
\<close>

section \<open>The configuration\<close>

definition IF_NAMESIZE :: nat where "IF_NAMESIZE = 16"

text \<open>The pointers \<open>ifname\<close> and \<open>redirect_ifname\<close> are NULL or point to the buffer behind them.\<close>

record config =
  xdp_flags :: u32
  ifindex :: int
  ifname :: bool
  ifname_buf :: string
  redirect_ifindex :: int
  redirect_ifname :: bool
  redirect_ifname_buf :: string
  do_unload :: bool
  cfg_reuse_maps :: bool
  cfg_pin_dir :: string
  filename :: string
  progsec :: string
  src_mac :: string
  dest_mac :: string
  xsk_bind_flags :: u16
  xsk_if_queue :: int
  xsk_poll_mode :: bool

text \<open>The initialisers of the programs set \<open>ifindex\<close> to -1 and leave the rest zero.\<close>

definition zeros :: "nat \<Rightarrow> string" where
  "zeros n = replicate n (CHR 0x00)"

definition config_init :: config where
  "config_init = \<lparr>xdp_flags = 0, ifindex = -1, ifname = False, ifname_buf = zeros IF_NAMESIZE,
     redirect_ifindex = 0, redirect_ifname = False, redirect_ifname_buf = zeros IF_NAMESIZE,
     do_unload = False, cfg_reuse_maps = False, cfg_pin_dir = zeros 512, filename = zeros 512,
     progsec = zeros 32, src_mac = zeros 18, dest_mac = zeros 18, xsk_bind_flags = 0,
     xsk_if_queue = 0, xsk_poll_mode = False\<rparr>"

text \<open>The sizes of the character arrays, which every operation keeps.\<close>

definition config_sized :: "config \<Rightarrow> bool" where
  "config_sized c \<longleftrightarrow> length (ifname_buf c) = IF_NAMESIZE \<and> length (redirect_ifname_buf c) = IF_NAMESIZE \<and>
     length (cfg_pin_dir c) = 512 \<and> length (filename c) = 512 \<and> length (progsec c) = 32 \<and>
     length (src_mac c) = 18 \<and> length (dest_mac c) = 18"

definition XDP_COPY :: u16 where "XDP_COPY = 2"
definition XDP_ZEROCOPY :: u16 where "XDP_ZEROCOPY = 4"

section \<open>Option tables\<close>

text \<open>An entry whose name is NULL ends the table.\<close>

record option_entry =
  opt_name :: "string option"
  has_arg :: bool
  opt_val :: nat

record option_wrapper =
  opt_entry :: option_entry
  help_text :: string
  metavar :: "string option"
  required :: bool

definition BUFSIZE :: nat where "BUFSIZE = 30"

text \<open>
  Two calls of \<open>snprintf\<close> build the left column. The second one gets the size \<open>BUFSIZE-pos\<close>, which
  wraps around to a huge value when the first text was longer than the buffer: then the write
  is outside it.
\<close>

definition option_column :: "string \<Rightarrow> string option \<Rightarrow> string option" where
  "option_column name mv =
     (let (pos, buf) = snprintf BUFSIZE ('' --'' @ name) in
      case mv of
        None \<Rightarrow> Some buf
      | Some v \<Rightarrow>
          if pos > int BUFSIZE then None
          else if pos = int BUFSIZE then Some buf
          else Some (buf @ snd (snprintf (BUFSIZE - nat pos) ('' '' @ v))))"

definition pad :: "nat \<Rightarrow> string \<Rightarrow> string" where
  "pad n s = s @ replicate (n - length s) (CHR '' '')"

fun print_option_list :: "option_wrapper list \<Rightarrow> bool \<Rightarrow> string option" where
  "print_option_list [] req = None"
| "print_option_list (w # ws) req =
     (case opt_name (opt_entry w) of
        None \<Rightarrow> Some []
      | Some name \<Rightarrow>
          if required w \<noteq> req then print_option_list ws req
          else do {
            let lead = (if opt_val (opt_entry w) > 64 then '' -'' @ [char_of (opt_val (opt_entry w))] @ '','' else ''    '');
            buf \<leftarrow> option_column name (metavar w);
            rest \<leftarrow> print_option_list ws req;
            Some (lead @ pad 22 buf @ ''  '' @ help_text w @ [CHR 0x0A] @ rest)
          })"

definition usage :: "string \<Rightarrow> string \<Rightarrow> option_wrapper list \<Rightarrow> bool \<Rightarrow> string option" where
  "usage prog doc ws full =
     (let out = ''Usage: '' @ prog @ '' [options]'' @ [CHR 0x0A] in
      if \<not> full then Some (out @ ''Use --help (or -h) to see full option list.'' @ [CHR 0x0A])
      else do {
        req \<leftarrow> print_option_list ws True;
        other \<leftarrow> print_option_list ws False;
        Some (out @ [CHR 0x0A] @ ''DOCUMENTATION:'' @ [CHR 0x0A] @ '' '' @ doc @ [CHR 0x0A] @
          ''Required options:'' @ [CHR 0x0A] @ req @ [CHR 0x0A] @ ''Other options:'' @ [CHR 0x0A] @ other @ [CHR 0x0A])
      })"

text \<open>The number of entries before the end of the table; a table without an end is read beyond its end.\<close>

fun count_options :: "option_wrapper list \<Rightarrow> nat option" where
  "count_options [] = None"
| "count_options (w # ws) = (if opt_name (opt_entry w) = None then Some 0 else map_option Suc (count_options ws))"

text \<open>The \<open>option\<close> structs of the entries before the end, or -1 when \<open>malloc\<close> fails.\<close>

definition option_wrappers_to_options ::
    "bool \<Rightarrow> option_wrapper list \<Rightarrow> (int \<times> option_entry list) option" where
  "option_wrappers_to_options malloc_ok wrapper = do {
     num \<leftarrow> count_options wrapper;
     if \<not> malloc_ok then Some (-1, [])
     else Some (0, map opt_entry (take num wrapper))
   }"

section \<open>The command line\<close>

text \<open>\<open>atoi\<close> of an argument, 0 when there is no number.\<close>

definition atoi :: "string \<Rightarrow> int" where
  "atoi s = (case scan_int s of Scan_ok i _ \<Rightarrow> i | _ \<Rightarrow> 0)"

text \<open>What one option does: go on with a new configuration, or leave through the help text (\<open>full_help\<close>).\<close>

datatype opt_step = Next config bool | Help bool

definition dev_option :: "(string \<Rightarrow> int) \<Rightarrow> string \<Rightarrow> config \<Rightarrow> config option" where
  "dev_option if_nametoindex arg cfg =
     (if length arg \<ge> IF_NAMESIZE then None
      else let cfg = cfg\<lparr>ifname := True, ifname_buf := strncpy arg IF_NAMESIZE, ifindex := if_nametoindex arg\<rparr> in
        if ifindex cfg = 0 then None else Some cfg)"

definition redirect_dev_option :: "(string \<Rightarrow> int) \<Rightarrow> string \<Rightarrow> config \<Rightarrow> config option" where
  "redirect_dev_option if_nametoindex arg cfg =
     (if length arg \<ge> IF_NAMESIZE then None
      else let cfg = cfg\<lparr>redirect_ifname := True, redirect_ifname_buf := strncpy arg IF_NAMESIZE,
             redirect_ifindex := if_nametoindex arg\<rparr> in
        if redirect_ifindex cfg = 0 then None else Some cfg)"

text \<open>The switch. \<open>verbose\<close> is the global variable of that name.\<close>

definition option_step :: "(string \<Rightarrow> int) \<Rightarrow> nat \<Rightarrow> string \<Rightarrow> config \<Rightarrow> bool \<Rightarrow> opt_step" where
  "option_step if_nametoindex opt arg cfg verbose =
     (if opt = of_char CHR ''d'' then
        (case dev_option if_nametoindex arg cfg of None \<Rightarrow> Help False | Some cfg \<Rightarrow> Next cfg verbose)
      else if opt = of_char CHR ''r'' then
        (case redirect_dev_option if_nametoindex arg cfg of None \<Rightarrow> Help False | Some cfg \<Rightarrow> Next cfg verbose)
      else if opt = of_char CHR ''A'' then
        Next (cfg\<lparr>xdp_flags := xdp_flags cfg AND NOT XDP_FLAGS_MODES\<rparr>) verbose
      else if opt = of_char CHR ''S'' then
        Next (cfg\<lparr>xdp_flags := (xdp_flags cfg AND NOT XDP_FLAGS_MODES) OR XDP_FLAGS_SKB_MODE,
                  xsk_bind_flags := (xsk_bind_flags cfg AND XDP_ZEROCOPY) OR XDP_COPY\<rparr>) verbose
      else if opt = of_char CHR ''N'' then
        Next (cfg\<lparr>xdp_flags := (xdp_flags cfg AND NOT XDP_FLAGS_MODES) OR XDP_FLAGS_DRV_MODE\<rparr>) verbose
      else if opt = 3 then
        Next (cfg\<lparr>xdp_flags := (xdp_flags cfg AND NOT XDP_FLAGS_MODES) OR XDP_FLAGS_HW_MODE\<rparr>) verbose
      else if opt = of_char CHR ''F'' then
        Next (cfg\<lparr>xdp_flags := xdp_flags cfg AND NOT XDP_FLAGS_UPDATE_IF_NOEXIST\<rparr>) verbose
      else if opt = of_char CHR ''M'' then Next (cfg\<lparr>cfg_reuse_maps := True\<rparr>) verbose
      else if opt = of_char CHR ''U'' then Next (cfg\<lparr>do_unload := True\<rparr>) verbose
      else if opt = of_char CHR ''p'' then Next (cfg\<lparr>xsk_poll_mode := True\<rparr>) verbose
      else if opt = of_char CHR ''q'' then Next cfg False
      else if opt = of_char CHR ''Q'' then Next (cfg\<lparr>xsk_if_queue := atoi arg\<rparr>) verbose
      else if opt = 1 then Next (cfg\<lparr>filename := strncpy arg 512\<rparr>) verbose
      else if opt = 2 then Next (cfg\<lparr>progsec := strncpy arg 32\<rparr>) verbose
      else if opt = of_char CHR ''L'' then Next (cfg\<lparr>src_mac := strncpy arg 18\<rparr>) verbose
      else if opt = of_char CHR ''R'' then Next (cfg\<lparr>dest_mac := strncpy arg 18\<rparr>) verbose
      else if opt = of_char CHR ''c'' then
        Next (cfg\<lparr>xsk_bind_flags := (xsk_bind_flags cfg AND XDP_ZEROCOPY) OR XDP_COPY\<rparr>) verbose
      else if opt = of_char CHR ''z'' then
        Next (cfg\<lparr>xsk_bind_flags := (xsk_bind_flags cfg AND XDP_COPY) OR XDP_ZEROCOPY\<rparr>) verbose
      else if opt = of_char CHR ''h'' then Help True
      else Help False)"

text \<open>The loop: \<open>Inl\<close> is the exit with status \<open>EXIT_FAIL_OPTION\<close>, with the \<open>full_help\<close> of the help text.\<close>

fun parse_options ::
    "(string \<Rightarrow> int) \<Rightarrow> (nat \<times> string) list \<Rightarrow> config \<Rightarrow> bool \<Rightarrow> bool + config \<times> bool" where
  "parse_options nti [] cfg verbose = Inr (cfg, verbose)"
| "parse_options nti ((opt, arg) # opts) cfg verbose =
     (case option_step nti opt arg cfg verbose of
        Help full \<Rightarrow> Inl full
      | Next cfg verbose \<Rightarrow> parse_options nti opts cfg verbose)"

datatype cmdline = Exit int string | Parsed config bool

definition parse_cmdline_args ::
    "bool \<Rightarrow> (string \<Rightarrow> int) \<Rightarrow> string \<Rightarrow> (nat \<times> string) list \<Rightarrow> option_wrapper list \<Rightarrow> string \<Rightarrow> config \<Rightarrow>
     bool \<Rightarrow> cmdline option" where
  "parse_cmdline_args malloc_ok nti prog opts wrappers doc cfg verbose = do {
     (r, long_options) \<leftarrow> option_wrappers_to_options malloc_ok wrappers;
     if r \<noteq> 0 then Some (Exit EXIT_FAIL_OPTION [])
     else case parse_options nti opts cfg verbose of
       Inl full \<Rightarrow> do {
         out \<leftarrow> usage prog doc wrappers full;
         Some (Exit EXIT_FAIL_OPTION out)
       }
     | Inr (cfg, verbose) \<Rightarrow> Some (Parsed cfg verbose)
   }"

section \<open>Lemmas\<close>

lemma of_char_letters [simp]:
  "(of_char CHR ''d'' :: nat) = 100" "(of_char CHR ''r'' :: nat) = 114" "(of_char CHR ''A'' :: nat) = 65"
  "(of_char CHR ''S'' :: nat) = 83" "(of_char CHR ''N'' :: nat) = 78" "(of_char CHR ''F'' :: nat) = 70"
  "(of_char CHR ''M'' :: nat) = 77" "(of_char CHR ''U'' :: nat) = 85" "(of_char CHR ''p'' :: nat) = 112"
  "(of_char CHR ''q'' :: nat) = 113" "(of_char CHR ''Q'' :: nat) = 81" "(of_char CHR ''L'' :: nat) = 76"
  "(of_char CHR ''R'' :: nat) = 82" "(of_char CHR ''c'' :: nat) = 99" "(of_char CHR ''z'' :: nat) = 122"
  "(of_char CHR ''h'' :: nat) = 104"
  by simp_all

text \<open>Rule for invariants of the loop.\<close>

lemma parse_options_invariant:
  assumes "parse_options nti opts cfg verbose = Inr (cfg', verbose')" "P cfg"
    "\<And>opt arg c v c' v'. (opt, arg) \<in> set opts \<Longrightarrow> P c \<Longrightarrow> option_step nti opt arg c v = Next c' v' \<Longrightarrow> P c'"
  shows "P cfg'"
  using assms
proof (induction nti opts cfg verbose rule: parse_options.induct)
  case (2 nti opt arg opts cfg verbose)
  show ?case
  proof (cases "option_step nti opt arg cfg verbose")
    case (Next c v)
    moreover have "P c" using "2.prems"(2,3) Next by (metis list.set_intros(1))
    moreover have "P c'" if "(opt', arg') \<in> set opts" "P c1" "option_step nti opt' arg' c1 v1 = Next c' v'"
      for opt' arg' c1 v1 c' v' using that "2.prems"(3) by (metis list.set_intros(2))
    ultimately show ?thesis using "2.IH" [OF Next] "2.prems"(1) by simp
  next
    case (Help full)
    with "2.prems"(1) show ?thesis by simp
  qed
qed simp

lemma option_step_sized:
  "option_step nti opt arg c v = Next c' v' \<Longrightarrow> config_sized c \<Longrightarrow> config_sized c'"
  by (auto simp: option_step_def dev_option_def redirect_dev_option_def config_sized_def Let_def
      split: if_splits option.splits)

text \<open>At most one of the mode flags.\<close>

definition one_mode :: "u32 \<Rightarrow> bool" where
  "one_mode flags \<longleftrightarrow> flags AND XDP_FLAGS_MODES \<in> {0, XDP_FLAGS_SKB_MODE, XDP_FLAGS_DRV_MODE, XDP_FLAGS_HW_MODE}"

lemma clear_modes [simp]: "(x AND NOT XDP_FLAGS_MODES) AND XDP_FLAGS_MODES = 0"
  by (simp add: and.assoc)

lemma set_mode:
  assumes "f \<in> {XDP_FLAGS_SKB_MODE, XDP_FLAGS_DRV_MODE, XDP_FLAGS_HW_MODE}"
  shows "((x AND NOT XDP_FLAGS_MODES) OR f) AND XDP_FLAGS_MODES = f"
proof -
  have "f AND XDP_FLAGS_MODES = f" using assms by (auto simp: xdp_flags_defs)
  then show ?thesis by (simp add: bit.conj_disj_distrib2 clear_modes)
qed

lemma noexist_keeps_modes: "(x AND NOT XDP_FLAGS_UPDATE_IF_NOEXIST) AND XDP_FLAGS_MODES = x AND XDP_FLAGS_MODES"
proof -
  have "NOT XDP_FLAGS_UPDATE_IF_NOEXIST AND XDP_FLAGS_MODES = XDP_FLAGS_MODES"
    by (simp add: xdp_flags_defs)
  then show ?thesis by (simp only: and.assoc)
qed

lemma option_step_mode:
  assumes "option_step nti opt arg c v = Next c' v'" "one_mode (xdp_flags c)"
  shows "one_mode (xdp_flags c')"
  using assms
  by (auto simp: option_step_def dev_option_def redirect_dev_option_def one_mode_def Let_def clear_modes
      set_mode noexist_keeps_modes split: if_splits option.splits)

text \<open>The interface of the configuration is the one its name names.\<close>

definition dev_ok :: "(string \<Rightarrow> int) \<Rightarrow> config \<Rightarrow> bool" where
  "dev_ok nti c \<longleftrightarrow> (ifname c \<longrightarrow> ifindex c \<noteq> 0 \<and>
     (\<exists>name. c_string (ifname_buf c) = Some name \<and> length name < IF_NAMESIZE \<and> ifindex c = nti name))"

lemma option_step_dev:
  assumes "option_step nti opt arg c v = Next c' v'" "dev_ok nti c" "CHR 0x00 \<notin> set arg"
  shows "dev_ok nti c'"
  using assms
  by (auto simp: option_step_def dev_option_def redirect_dev_option_def dev_ok_def Let_def c_string_strncpy
      split: if_splits option.splits)

lemma option_step_ifname:
  "option_step nti opt arg c v = Next c' v' \<Longrightarrow> ifname c' = (ifname c \<or> opt = 100) \<and>
     (opt \<noteq> 100 \<longrightarrow> ifindex c' = ifindex c)"
  by (auto simp: option_step_def dev_option_def redirect_dev_option_def Let_def
      split: if_splits option.splits)

text \<open>Help text: a table with an end and names of at most 27 characters.\<close>

definition table_ok :: "option_wrapper list \<Rightarrow> bool" where
  "table_ok ws \<longleftrightarrow> (\<exists>w\<in>set ws. opt_name (opt_entry w) = None) \<and>
     (\<forall>w\<in>set ws. case opt_name (opt_entry w) of None \<Rightarrow> True | Some n \<Rightarrow> length n \<le> 26)"

lemma option_column_ok: "length n \<le> 26 \<Longrightarrow> option_column n mv \<noteq> None"
  by (auto simp: option_column_def snprintf_def BUFSIZE_def split: option.split)

lemma print_option_list_ok:
  assumes "\<exists>w\<in>set ws. opt_name (opt_entry w) = None"
    "\<forall>w\<in>set ws. case opt_name (opt_entry w) of None \<Rightarrow> True | Some n \<Rightarrow> length n \<le> 26"
  shows "\<exists>out. print_option_list ws req = Some out"
  using assms
proof (induction ws)
  case (Cons w ws)
  show ?case
  proof (cases "opt_name (opt_entry w)")
    case None
    then show ?thesis by simp
  next
    case (Some n)
    moreover obtain out where "print_option_list ws req = Some out"
      using Cons Some by auto
    moreover have "option_column n (metavar w) \<noteq> None"
      using Cons.prems(2) Some by (intro option_column_ok) auto
    ultimately show ?thesis by auto
  qed
qed simp

lemma count_options_Some:
  "\<exists>w\<in>set ws. opt_name (opt_entry w) = None \<Longrightarrow> \<exists>n. count_options ws = Some n \<and> n < length ws \<and>
     (\<forall>w\<in>set (take n ws). opt_name (opt_entry w) \<noteq> None) \<and> opt_name (opt_entry (ws ! n)) = None"
proof (induction ws)
  case (Cons w ws)
  show ?case
  proof (cases "opt_name (opt_entry w) = None")
    case False
    with Cons obtain n where "count_options ws = Some n" "n < length ws"
        "\<forall>w\<in>set (take n ws). opt_name (opt_entry w) \<noteq> None" "opt_name (opt_entry (ws ! n)) = None"
      by auto
    with False show ?thesis by (intro exI [of _ "Suc n"]) auto
  qed auto
qed simp

lemma cmdline_parsed:
  "parse_cmdline_args m nti prog opts ws doc cfg v = Some (Parsed cfg' v') \<Longrightarrow> parse_options nti opts cfg v = Inr (cfg', v')"
  by (auto simp: parse_cmdline_args_def split: Option.bind_splits if_splits sum.splits)

lemma parse_options_ifname:
  "parse_options nti opts c v = Inr (c', v') \<Longrightarrow> ifname c' = (ifname c \<or> 100 \<in> fst ` set opts) \<and>
     (100 \<notin> fst ` set opts \<longrightarrow> ifindex c' = ifindex c)"
  by (induction nti opts c v rule: parse_options.induct)
     (auto split: opt_step.splits dest: option_step_ifname)

section \<open>Properties\<close>

definition demo_wrappers :: "option_wrapper list" where
  "demo_wrappers =
    [\<lparr>opt_entry = \<lparr>opt_name = Some ''help'', has_arg = False, opt_val = 104\<rparr>, help_text = ''Show help'', metavar = None, required = False\<rparr>,
     \<lparr>opt_entry = \<lparr>opt_name = Some ''dev'', has_arg = True, opt_val = 100\<rparr>, help_text = ''Operate on device <ifname>'',
       metavar = Some ''<ifname>'', required = True\<rparr>,
     \<lparr>opt_entry = \<lparr>opt_name = None, has_arg = False, opt_val = 0\<rparr>, help_text = [], metavar = None, required = False\<rparr>]"

text \<open>C29. What a parsed command line guarantees: whatever the options and their order, the arrays of
the configuration keep their sizes, at most one XDP mode flag is set, and either no \<open>--dev\<close> was
given and \<open>ifindex\<close> is still -1, or \<open>ifname_buf\<close> holds a terminated name and \<open>ifindex\<close> is the
non-zero index of the interface of that name.\<close>

theorem cmdline_config_valid:
  assumes "parse_cmdline_args malloc_ok nti prog opts ws doc cfg verbose = Some (Parsed cfg' verbose')"
    "config_sized cfg" "one_mode (xdp_flags cfg)" "\<not> ifname cfg" "ifindex cfg = -1"
    "\<forall>(opt, arg)\<in>set opts. CHR 0x00 \<notin> set arg"
  shows "config_sized cfg' \<and> one_mode (xdp_flags cfg') \<and>
    (if of_char (CHR ''d'') \<in> fst ` set opts
     then ifindex cfg' \<noteq> 0 \<and> (\<exists>name. c_string (ifname_buf cfg') = Some name \<and> length name < 16 \<and> ifindex cfg' = nti name)
     else ifindex cfg' = -1)"
proof -
  note run = cmdline_parsed [OF assms(1)]
  have "config_sized cfg'"
    by (rule parse_options_invariant [OF run, where P = config_sized]) (use assms(2) option_step_sized in auto)
  moreover have "one_mode (xdp_flags cfg')"
    by (rule parse_options_invariant [OF run, where P = "\<lambda>c. one_mode (xdp_flags c)"])
      (use assms(3) option_step_mode in auto)
  moreover have "dev_ok nti cfg'"
    by (rule parse_options_invariant [OF run, where P = "dev_ok nti"])
       (use assms(4,6) option_step_dev in \<open>auto simp: dev_ok_def\<close>)
  ultimately show ?thesis
    using parse_options_ifname [OF run] assms(4,5) by (auto simp: dev_ok_def IF_NAMESIZE_def)
qed

lemma cmdline_config_valid_witness:
  "\<exists>cfg'. parse_cmdline_args True (\<lambda>n. 7) ''prog'' [(83, []), (100, ''eth0''), (78, [])] demo_wrappers ''doc'' config_init True
      = Some (Parsed cfg' True) \<and> one_mode (xdp_flags cfg') \<and> ifindex cfg' = 7"
proof -
  obtain cfg' where run: "parse_cmdline_args True (\<lambda>n. 7) ''prog'' [(83, []), (100, ''eth0''), (78, [])] demo_wrappers
      ''doc'' config_init True = Some (Parsed cfg' True)"
    by (simp add: parse_cmdline_args_def option_wrappers_to_options_def demo_wrappers_def option_step_def
        dev_option_def IF_NAMESIZE_def Let_def)
  have "config_sized config_init" "one_mode (xdp_flags config_init)" "\<not> ifname config_init" "ifindex config_init = -1"
    by (simp_all add: config_init_def config_sized_def zeros_def one_mode_def)
  from cmdline_config_valid [OF run this] run show ?thesis by auto
qed

text \<open>The table handed to \<open>getopt_long\<close> has no end: of a table with an end,
\<open>option_wrappers_to_options\<close> copies the entries before it and not the entry that marks it, so every
entry of the copy has a name.\<close>

theorem copied_options_unterminated:
  assumes "\<exists>w\<in>set wrapper. opt_name (opt_entry w) = None"
  shows "\<exists>options. option_wrappers_to_options True wrapper = Some (0, options) \<and>
    length options < length wrapper \<and> (\<forall>i<length options. options ! i = opt_entry (wrapper ! i)) \<and>
    (\<forall>e\<in>set options. opt_name e \<noteq> None)"
proof -
  obtain n where "count_options wrapper = Some n" "n < length wrapper"
      "\<forall>w\<in>set (take n wrapper). opt_name (opt_entry w) \<noteq> None"
    using count_options_Some [OF assms] by blast
  then show ?thesis by (auto simp: option_wrappers_to_options_def)
qed

lemma copied_options_unterminated_witness:
  "\<exists>options. option_wrappers_to_options True demo_wrappers = Some (0, options) \<and> (\<forall>e\<in>set options. opt_name e \<noteq> None)"
proof -
  have "\<exists>w\<in>set demo_wrappers. opt_name (opt_entry w) = None" by (simp add: demo_wrappers_def)
  from copied_options_unterminated [OF this] show ?thesis by blast
qed

text \<open>The help text is safe: for every table with an end whose names have at most 26 characters,
no write of \<open>usage\<close> leaves the column buffer and the table is not read beyond its end.\<close>

theorem help_text_total:
  assumes "table_ok wrappers"
  shows "\<exists>out. usage prog doc wrappers full = Some out"
proof -
  from assms obtain a b where "print_option_list wrappers True = Some a" "print_option_list wrappers False = Some b"
    using print_option_list_ok [of wrappers] unfolding table_ok_def by blast
  then show ?thesis by (simp add: usage_def Let_def)
qed

lemma help_text_total_witness: "\<exists>out. usage ''xdp_loader'' ''doc'' demo_wrappers True = Some out"
  using help_text_total [of demo_wrappers] by (simp add: table_ok_def demo_wrappers_def)

text \<open>The bind flags contradict each other after \<open>-c -z\<close>: the masks are not complemented, so
clearing the zero-copy flag clears every other flag instead, and copy mode and zero-copy mode end up both set.\<close>

theorem copy_then_zerocopy_sets_both:
  "\<exists>cfg'. parse_options nti [(of_char CHR ''c'', a), (of_char CHR ''z'', b)] cfg verbose = Inr (cfg', verbose) \<and>
     xsk_bind_flags cfg' = XDP_COPY OR XDP_ZEROCOPY"
proof -
  have "((xsk_bind_flags cfg AND XDP_ZEROCOPY) OR XDP_COPY) AND XDP_COPY = XDP_COPY"
    by (simp add: XDP_COPY_def XDP_ZEROCOPY_def bit.conj_disj_distrib2 and.assoc)
  then show ?thesis by (simp add: option_step_def)
qed

end
