(* ===== verification/Update_List.thy ===== *)
theory Update_List
  imports Common_Params Policy_Load
begin

text \<open>
  main/update_list.c, which fills one of the two address lists from a file, and
  \<open>bpf_num_possible_cpus\<close> of headers/bpf_util.h. Files are arguments: the function \<open>files\<close> gives the
  content behind a path, \<^term>\<open>None\<close> when it cannot be opened; \<open>stdin\<close> is the text typed in.
\<close>

section \<open>Number of possible CPUs (headers/bpf_util.h)\<close>

text \<open>\<open>fgets(buff, 128, fp)\<close>: at most 127 characters, up to and including the first newline.\<close>

definition fgets :: "nat \<Rightarrow> string \<Rightarrow> string option" where
  "fgets n s = (if s = [] then None
     else Some (take (n - 1) (takeWhile (\<lambda>c. c \<noteq> CHR 0x0A) s @ take 1 (dropWhile (\<lambda>c. c \<noteq> CHR 0x0A) s))))"

text \<open>\<open>sscanf(buff, "%u-%u", &start, &end)\<close>: the count and the two variables.\<close>

definition sscanf_range :: "string \<Rightarrow> u32 \<times> u32 \<Rightarrow> int \<times> u32 \<times> u32" where
  "sscanf_range s = (\<lambda>(start, end).
     (case scan_uint s of
        Scan_eof \<Rightarrow> (-1, start, end)
      | Scan_fail _ \<Rightarrow> (0, start, end)
      | Scan_ok a r \<Rightarrow>
          if take 1 r = ''-'' then
            (case scan_uint (drop 1 r) of
               Scan_ok b _ \<Rightarrow> (2, a, b)
             | _ \<Rightarrow> (1, a, end))
          else (1, a, end)))"

text \<open>\<open>Inl\<close> is \<open>exit\<close>; \<open>uninit\<close> is what the uninitialised variables \<open>start\<close> and \<open>end\<close> hold.\<close>

definition bpf_num_possible_cpus :: "string option \<Rightarrow> u32 \<times> u32 \<Rightarrow> int + u32" where
  "bpf_num_possible_cpus fp uninit =
     (case fp of
        None \<Rightarrow> Inl 1
      | Some s \<Rightarrow>
          (case fgets 128 s of
             None \<Rightarrow> Inr 0
           | Some buff \<Rightarrow>
               let (n, start, end) = sscanf_range buff uninit in
               if n = 0 then Inl 1
               else let end = (if n = 1 then start else end) in
                 Inr (if start = 0 then end + 1 else 0)))"

section \<open>The list update\<close>

text \<open>The function returns 1 both for a text that is no address and for an entry stored, 0 for an entry refused.\<close>

definition update_list :: "'k bpf_env \<Rightarrow> nat \<Rightarrow> int \<Rightarrow> string \<Rightarrow> 'k \<Rightarrow> int \<times> 'k" where
  "update_list env nr_cpus map_fd ip_string k =
     (let values = replicate nr_cpus 0 in
      case inet_pton ip_string of
        None \<Rightarrow> (1, k)
      | Some key \<Rightarrow>
          let (res, k) = bpf_map_update_elem env map_fd key values k in
          if res = 0 then (1, k) else (0, k))"

definition fscanf_word :: "string \<Rightarrow> string \<Rightarrow> (int \<times> string \<times> string) option" where
  "fscanf_word s ip =
     (case scan_token s of
        Scan_ok tok r \<Rightarrow> if 20 \<le> length tok then None else Some (1, dropWhile c_isspace r, tok)
      | Scan_fail r \<Rightarrow> Some (0, r, ip)
      | Scan_eof \<Rightarrow> Some (-1, [], ip))"

lemma scan_token_shorter: "scan_token s = Scan_ok tok r \<Longrightarrow> length r < length s"
proof -
  assume *: "scan_token s = Scan_ok tok r"
  let ?t = "dropWhile c_isspace s"
  have "?t \<noteq> []" using * by (auto simp: scan_token_def Let_def split: if_splits)
  moreover have "\<not> c_isspace (hd ?t)" using hd_dropWhile [OF \<open>?t \<noteq> []\<close>] .
  moreover have "r = dropWhile (\<lambda>c. \<not> c_isspace c) ?t"
    using * by (auto simp: scan_token_def Let_def split: if_splits)
  ultimately have "length r < length ?t"
    by (cases ?t) (auto simp: le_imp_less_Suc length_dropWhile_le)
  then show ?thesis using length_dropWhile_le le_trans less_le_trans by blast
qed

lemma scan_token_no_fail [simp]: "scan_token s \<noteq> Scan_fail r"
  by (auto simp: scan_token_def Let_def)

lemma fscanf_word_shorter:
  "fscanf_word s ip = Some (ret, s', ip') \<Longrightarrow> ret \<noteq> -1 \<Longrightarrow> length s' < length s"
  using length_dropWhile_le le_less_trans
  by (fastforce simp: fscanf_word_def split: scan.splits if_splits dest: scan_token_shorter)

function user_map_loop ::
    "'k bpf_env \<Rightarrow> nat \<Rightarrow> int \<Rightarrow> string \<Rightarrow> string \<Rightarrow> 'k \<Rightarrow> 'k option" where
  "user_map_loop env nr_cpus fd s ip k = do {
     (ret, s, ip) \<leftarrow> fscanf_word s ip;
     if ret = -1 then Some k
     else let (_, k) = update_list env nr_cpus fd ip k in user_map_loop env nr_cpus fd s ip k
   }"
  by pat_completeness auto

termination
  by (relation "measure (\<lambda>(env, nr_cpus, fd, s, ip, k). length s)") (auto dest: fscanf_word_shorter)

declare user_map_loop.simps [simp del]

definition load_user_map ::
    "'k bpf_env \<Rightarrow> nat \<Rightarrow> int \<Rightarrow> string option \<Rightarrow> string \<Rightarrow> 'k \<Rightarrow> (int \<times> 'k) option" where
  "load_user_map env nr_cpus fd fp ip k =
     (case fp of
        None \<Rightarrow> Some (1, k)
      | Some s \<Rightarrow> do {
          (err, s, ip) \<leftarrow> fscanf_word s ip;
          if err > 0 then do {
            let (_, k) = update_list env nr_cpus fd ip k;
            k \<leftarrow> user_map_loop env nr_cpus fd s ip k;
            Some (0, k)
          } else Some (0, k)
        })"

section \<open>The program\<close>

definition update_options :: "option_wrapper list" where
  "update_options =
    [\<lparr>opt_entry = \<lparr>opt_name = Some ''help'', has_arg = False, opt_val = 104\<rparr>, help_text = ''Show help'', metavar = None, required = False\<rparr>,
     \<lparr>opt_entry = \<lparr>opt_name = Some ''dev'', has_arg = True, opt_val = 100\<rparr>, help_text = ''Operate on device <ifname>'',
       metavar = Some ''<ifname>'', required = True\<rparr>,
     \<lparr>opt_entry = \<lparr>opt_name = None, has_arg = False, opt_val = 0\<rparr>, help_text = [], metavar = None, required = False\<rparr>]"

definition pin_basedir :: string where "pin_basedir = ''/sys/fs/bpf''"

text \<open>
  \<open>scanf("%[^\n]", file_name)\<close> into an array of 100 characters; without a character before the
  newline nothing is stored.
\<close>

definition scanf_line :: "string \<Rightarrow> string \<Rightarrow> string option" where
  "scanf_line stdin file_name =
     (let l = takeWhile (\<lambda>c. c \<noteq> CHR 0x0A) stdin in
      if l = [] then Some file_name else if 100 \<le> length l then None else Some l)"

text \<open>The part of \<open>main\<close> behind the command line; \<open>uninit\<close> are the uninitialised \<open>file_name\<close> and \<open>ip\<close>.\<close>

definition update_list_main ::
    "'k bpf_env \<Rightarrow> nat \<Rightarrow> (string \<Rightarrow> string option) \<Rightarrow> string \<Rightarrow> string \<times> string \<Rightarrow> config \<Rightarrow> 'k \<Rightarrow> (int \<times> 'k) option"
  where
  "update_list_main env nr_cpus files stdin uninit cfg k =
     (if ifindex cfg = -1 then Some (EXIT_FAIL_OPTION, k)
      else do {
        name \<leftarrow> c_string (ifname_buf cfg);
        let (len, pin_dir) = snprintf PATH_MAX (pin_basedir @ ''/'' @ name);
        if len < 0 then Some (EXIT_FAIL_OPTION, k)
        else do {
          file_name \<leftarrow> scanf_line stdin (fst uninit);
          let path = (if file_name = ''white_list'' then Some ''list/whitelist''
                      else if file_name = ''black_list'' then Some ''list/blacklist'' else None);
          case path of
            None \<Rightarrow> Some (-1, k)
          | Some file_path \<Rightarrow>
              let (fd, i, k) = open_bpf_map_file env pin_dir file_name
                    (Some \<lparr>map_type = 0, key_size = 0, value_size = 0, max_entries = 0\<rparr>) k in
              if fd < 0 then Some (EXIT_FAIL_BPF, k)
              else let err = check_map_fd_info (the i) \<lparr>map_type = 0, key_size = 4, value_size = 4, max_entries = 10000\<rparr> in
              if err \<noteq> 0 then Some (err, k)
              else do {
                (_, k) \<leftarrow> load_user_map env nr_cpus fd (files file_path) (snd uninit) k;
                Some (EXIT_OK, k)
              }
        }
      })"

section \<open>Lemmas\<close>

text \<open>What the program relies on of an open map: through the descriptor an entry can be set.\<close>

definition map_fd_law :: "'k bpf_env \<Rightarrow> int \<Rightarrow> ('k \<Rightarrow> u32 \<Rightarrow> u32 list option) \<Rightarrow> bool" where
  "map_fd_law env fd view \<longleftrightarrow>
     (\<forall>a v k. \<exists>k'. bpf_map_update_elem env fd a v k = (0, k') \<and> view k' = (view k)(a := Some v))"

definition address_lines :: "u32 list \<Rightarrow> string" where
  "address_lines as = concat (map (\<lambda>a. inet_ntop a @ [CHR 0x0A]) as)"

lemma update_list_address:
  assumes "map_fd_law env fd view"
  shows "\<exists>k'. update_list env n fd (inet_ntop a) k = (1, k') \<and> view k' = (view k)(a := Some (replicate n 0))"
proof -
  obtain k' where "bpf_map_update_elem env fd a (replicate n 0) k = (0, k')"
      "view k' = (view k)(a := Some (replicate n 0))"
    using assms unfolding map_fd_law_def by blast
  then show ?thesis by (simp add: update_list_def inet_pton_ntop)
qed

lemma address_lines_simps:
  "address_lines [] = []" "address_lines (a # as) = inet_ntop a @ CHR 0x0A # address_lines as"
  by (simp_all add: address_lines_def)

lemma address_lines_start: "dropWhile c_isspace (address_lines as) = address_lines as"
  using inet_ntop_start by (cases as) (auto simp: address_lines_simps dropWhile_eq_self_iff hd_append)

lemma fscanf_address: "fscanf_word (address_lines (a # as)) ip = Some (1, address_lines as, inet_ntop a)"
proof -
  have nl: "c_isspace (CHR 0x0A)" by (simp add: c_isspace_def)
  then have "scan_token ([] @ inet_ntop a @ CHR 0x0A # address_lines as)
      = Scan_ok (inet_ntop a) (CHR 0x0A # address_lines as)"
    using inet_ntop_no_space [of a] by (intro scan_token_at) simp_all
  then show ?thesis
    using inet_ntop_length [of a] nl by (simp add: fscanf_word_def address_lines_start address_lines_simps)
qed

lemma user_map_loop_lines:
  assumes "map_fd_law env fd view"
  shows "\<exists>k'. user_map_loop env n fd (address_lines as) ip k = Some k' \<and>
    view k' = (\<lambda>a. if a \<in> set as then Some (replicate n 0) else view k a)"
proof (induction as arbitrary: ip k)
  case Nil
  then show ?case
    by (subst user_map_loop.simps) (simp add: address_lines_def fscanf_word_def scan_token_def)
next
  case (Cons a as)
  obtain k1 where k1: "update_list env n fd (inet_ntop a) k = (1, k1)" "view k1 = (view k)(a := Some (replicate n 0))"
    using update_list_address [OF assms] by blast
  obtain k2 where "user_map_loop env n fd (address_lines as) (inet_ntop a) k1 = Some k2"
      "view k2 = (\<lambda>a. if a \<in> set as then Some (replicate n 0) else view k1 a)"
    using Cons by blast
  with k1 show ?case by (subst user_map_loop.simps) (auto simp: fscanf_address)
qed

lemma load_user_map_lines:
  assumes "map_fd_law env fd view"
  shows "\<exists>k'. load_user_map env n fd (Some (address_lines as)) ip k = Some (0, k') \<and>
    view k' = (\<lambda>a. if a \<in> set as then Some (replicate n 0) else view k a)"
proof (cases as)
  case Nil
  then show ?thesis by (simp add: load_user_map_def address_lines_def fscanf_word_def scan_token_def)
next
  case (Cons a bs)
  obtain k1 where k1: "update_list env n fd (inet_ntop a) k = (1, k1)" "view k1 = (view k)(a := Some (replicate n 0))"
    using update_list_address [OF assms] by blast
  obtain k2 where "user_map_loop env n fd (address_lines bs) (inet_ntop a) k1 = Some k2"
      "view k2 = (\<lambda>a. if a \<in> set bs then Some (replicate n 0) else view k1 a)"
    using user_map_loop_lines [OF assms] by blast
  with k1 Cons show ?thesis by (auto simp: load_user_map_def fscanf_address)
qed

section \<open>Properties\<close>

lemma demo_map_fd: "map_fd_law demo_env fd id"
  by (simp add: map_fd_law_def demo_env_def)



text \<open>The program refuses every other name: unless the typed name is \<open>white_list\<close> or
\<open>black_list\<close> it exits with -1 and makes no call to the kernel; a name of 100 or more characters
is written outside its array.\<close>

theorem update_list_name_check:
  assumes "ifindex cfg \<noteq> -1" "c_string (ifname_buf cfg) = Some name" "length name < IF_NAMESIZE"
    "takeWhile (\<lambda>c. c \<noteq> CHR 0x0A) stdin = l" "l \<noteq> []" "l \<noteq> ''white_list''" "l \<noteq> ''black_list''"
  shows "update_list_main env n files stdin uninit cfg k = (if length l < 100 then Some (-1, k) else None)"
  using assms snprintf_fits [of "pin_basedir @ ''/'' @ name" PATH_MAX]
  by (auto simp: update_list_main_def scanf_line_def Let_def pin_basedir_def PATH_MAX_def IF_NAMESIZE_def)

lemma update_list_name_check_witness:
  "update_list_main demo_env 2 (\<lambda>_. None) (''grey_list'' @ [CHR 0x0A]) ([], [])
     (config_init\<lparr>ifindex := 7, ifname_buf := strncpy ''eth0'' 16\<rparr>) (\<lambda>_. None) = Some (-1, \<lambda>_. None)"
proof -
  let ?cfg = "config_init\<lparr>ifindex := 7, ifname_buf := strncpy ''eth0'' 16\<rparr>"
  have "ifindex ?cfg \<noteq> -1" "c_string (ifname_buf ?cfg) = Some ''eth0''" "length ''eth0'' < IF_NAMESIZE"
    "takeWhile (\<lambda>c. c \<noteq> CHR 0x0A) (''grey_list'' @ [CHR 0x0A]) = ''grey_list''"
    by (simp_all add: c_string_strncpy IF_NAMESIZE_def)
  from update_list_name_check [OF this] show ?thesis by simp
qed

text \<open>The number of possible CPUs is the length of a range that starts at 0, read from its
decimal text; any range that starts elsewhere counts as 0 CPUs.\<close>

theorem possible_cpus_range:
  fixes a b :: u32
  assumes "unat a < 2 ^ 31" "unat b < 2 ^ 31"
  shows "bpf_num_possible_cpus (Some (show_nat (unat a) @ ''-'' @ show_nat (unat b) @ [CHR 0x0A])) uninit
    = Inr (if a = 0 then b + 1 else 0)"
proof -
  let ?l = "show_nat (unat a) @ ''-'' @ show_nat (unat b)"
  have len: "length (show_nat n) \<le> 10" if "n < 2 ^ 31" for n
    using length_show_nat [of n 9] that by simp
  have nl: "\<forall>c\<in>set ?l. c \<noteq> CHR 0x0A"
    using show_nat_digits [of "unat a"] show_nat_digits [of "unat b"] by (auto simp: c_isdigit_def)
  have "takeWhile (\<lambda>c. c \<noteq> CHR 0x0A) (?l @ [CHR 0x0A]) = ?l" "dropWhile (\<lambda>c. c \<noteq> CHR 0x0A) (?l @ [CHR 0x0A]) = [CHR 0x0A]"
    using nl by (intro takeWhile_all_then dropWhile_all_then; auto)+
  moreover have "length (?l @ [CHR 0x0A]) \<le> 127" using len [OF assms(1)] len [OF assms(2)] by simp
  ultimately have line: "fgets 128 (?l @ [CHR 0x0A]) = Some (?l @ [CHR 0x0A])"
    by (simp add: fgets_def)
  have "scan_uint ([] @ show_nat (unat a) @ CHR ''-'' # show_nat (unat b) @ [CHR 0x0A])
      = Scan_ok a (CHR ''-'' # show_nat (unat b) @ [CHR 0x0A])"
    by (rule scan_uint_show) (simp_all add: c_isdigit_def)
  moreover have "scan_uint ([] @ show_nat (unat b) @ [CHR 0x0A]) = Scan_ok b [CHR 0x0A]"
    by (rule scan_uint_show) (simp_all add: c_isdigit_def)
  ultimately have "sscanf_range (?l @ [CHR 0x0A]) uninit = (2, a, b)"
    by (cases uninit) (simp add: sscanf_range_def)
  with line show ?thesis by (simp add: bpf_num_possible_cpus_def)
qed

lemma possible_cpus_range_witness:
  "bpf_num_possible_cpus (Some (show_nat 0 @ ''-'' @ show_nat 3 @ [CHR 0x0A])) (7, 7) = Inr 4"
  using possible_cpus_range [of 0 3 "(7, 7)"] by simp

end
