(* ===== verification/Poller.thy ===== *)
theory Poller
  imports Policy_Block
begin

text \<open>
  main/start_policy.c: the endless loop of \<open>event_poller\<close>. One iteration is \<open>poll_tick\<close> (the
  clock, the detection, the sweep of the lock table) followed by \<open>drain\<close> (the samples of
  every ready CPU buffer, handed to \<open>event_received\<close> and \<open>policy_stats\<close>). What \<open>poll\<close> reports
  and what the buffers hold in an iteration is its input.
\<close>

section \<open>Samples\<close>

definition LIBBPF_PERF_EVENT_ERROR :: int where "LIBBPF_PERF_EVENT_ERROR = -1"
definition LIBBPF_PERF_EVENT_CONT :: int where "LIBBPF_PERF_EVENT_CONT = -2"
definition PERF_RECORD_SAMPLE :: u32 where "PERF_RECORD_SAMPLE = 9"

record perf_event_sample =
  header_type :: u32
  meta :: pkt_meta

definition queue_slots :: nat where "queue_slots = 3000000"

text \<open>\<open>packets_queue\<close> is the part of the C array below \<open>packets_queue_len\<close>.\<close>

definition policy_stats :: "perf_event_sample \<Rightarrow> 'k poller \<Rightarrow> (int \<times> 'k poller) option" where
  "policy_stats sample st =
     (if length (packets_queue st) < queue_slots
      then Some (LIBBPF_PERF_EVENT_CONT, st\<lparr>packets_queue := packets_queue st @ [meta sample]\<rparr>)
      else None)"

definition event_received :: "perf_event_sample \<Rightarrow> 'k poller \<Rightarrow> (int \<times> 'k poller) option" where
  "event_received event st =
     (if header_type event = PERF_RECORD_SAMPLE then policy_stats event st
      else Some (LIBBPF_PERF_EVENT_CONT, st))"

text \<open>
  Reading one buffer (\<open>bpf_perf_event_read_simple\<close> of libbpf/src/libbpf.c) hands every record to
  the callback until the buffer is empty or the callback does not answer \<open>CONT\<close>; the result is the
  last answer, or \<open>CONT\<close> when the buffer held nothing. Perf_Ring shows that the reader does this over
  the bytes of the ring.
\<close>

fun read_simple :: "perf_event_sample list \<Rightarrow> int \<Rightarrow> 'k poller \<Rightarrow> (int \<times> 'k poller) option" where
  "read_simple [] ret st = Some (ret, st)"
| "read_simple (e # es) ret st = do {
     (ret, st) \<leftarrow> event_received e st;
     if ret \<noteq> LIBBPF_PERF_EVENT_CONT then Some (ret, st) else read_simple es ret st
   }"

text \<open>The loop over the CPUs; \<^term>\<open>None\<close> is a buffer without events, and a result other than \<open>CONT\<close> ends it.\<close>

fun drain :: "perf_event_sample list option list \<Rightarrow> 'k poller \<Rightarrow> 'k poller option" where
  "drain [] st = Some st"
| "drain (None # bufs) st = drain bufs st"
| "drain (Some es # bufs) st = do {
     (res, st) \<leftarrow> read_simple es LIBBPF_PERF_EVENT_CONT st;
     if res \<noteq> LIBBPF_PERF_EVENT_CONT then Some st else drain bufs st
   }"

section \<open>The clock, the detection and the sweep\<close>

definition lock_expired :: "u64 \<Rightarrow> u32 \<Rightarrow> bool" where
  "lock_expired now t \<longleftrightarrow> \<not> (now - ucast t < LOCK_TIME)"

fun sweep_loop :: "'k bpf_env \<Rightarrow> nat \<Rightarrow> u64 \<Rightarrow> nat list \<Rightarrow> 'k poller \<Rightarrow> 'k poller option" where
  "sweep_loop env ncpus now [] st = Some st"
| "sweep_loop env ncpus now (i # is) st = do {
     a \<leftarrow> arr_get (fst (count_down st)) i;
     st \<leftarrow> (if a \<noteq> 0 then do {
         t \<leftarrow> arr_get (snd (count_down st)) i;
         if \<not> lock_expired now t then Some st
         else do {
           let (_, st) = policy_change_black_list env ncpus a UNBLOCK st;
           ips \<leftarrow> arr_set (fst (count_down st)) i 0;
           Some (st\<lparr>count_down := (ips, snd (count_down st))\<rparr>)
         }
       } else Some st);
     sweep_loop env ncpus now is st
   }"

definition poll_detect ::
    "'k bpf_env \<Rightarrow> nat \<Rightarrow> (nat \<Rightarrow> u64) \<Rightarrow> (nat \<Rightarrow> policy_stats_ip) \<Rightarrow> 'k poller \<Rightarrow> 'k poller option" where
  "poll_detect env ncpus tm junk st =
     (if time_end st - time_start st = of_nat INTERVAL then do {
        (_, st) \<leftarrow> detect_attackers env ncpus tm junk st;
        Some (st\<lparr>time_start := time_end st, packets_queue := []\<rparr>)
      } else Some st)"

definition poll_sweep :: "'k bpf_env \<Rightarrow> nat \<Rightarrow> u64 \<Rightarrow> 'k poller \<Rightarrow> 'k poller option" where
  "poll_sweep env ncpus now st =
     (if time_end st - prev_time st = 1 then do {
        st \<leftarrow> sweep_loop env ncpus now [0..<IP_DYNAMIC] st;
        Some (st\<lparr>prev_time := time_end st\<rparr>)
      } else Some st)"

definition poll_clock :: "(nat \<Rightarrow> u64) \<Rightarrow> 'k poller \<Rightarrow> u64 \<times> 'k poller" where
  "poll_clock tm st =
     (let (now, st) = read_time tm st;
          st = (if time_start st = 0 \<or> prev_time st = 0
                then st\<lparr>time_start := now, prev_time := now\<rparr> else st)
      in (now, st\<lparr>time_end := now\<rparr>))"

record poll_input =
  stack :: "nat \<Rightarrow> policy_stats_ip"
  buffers :: "perf_event_sample list option list"

definition poll_step ::
    "'k bpf_env \<Rightarrow> nat \<Rightarrow> (nat \<Rightarrow> u64) \<Rightarrow> poll_input \<Rightarrow> 'k poller \<Rightarrow> 'k poller option" where
  "poll_step env ncpus tm inp st = do {
     let (now, st) = poll_clock tm st;
     st \<leftarrow> poll_detect env ncpus tm (stack inp) st;
     st \<leftarrow> poll_sweep env ncpus now st;
     drain (buffers inp) st
   }"

text \<open>The loop, for as many iterations as there are inputs.\<close>

fun event_poller ::
    "'k bpf_env \<Rightarrow> nat \<Rightarrow> (nat \<Rightarrow> u64) \<Rightarrow> poll_input list \<Rightarrow> 'k poller \<Rightarrow> 'k poller option" where
  "event_poller env ncpus tm [] st = Some st"
| "event_poller env ncpus tm (inp # inps) st = do {
     st \<leftarrow> poll_step env ncpus tm inp st;
     event_poller env ncpus tm inps st
   }"

section \<open>Draining\<close>

text \<open>Draining only appends to the queue.\<close>

lemma event_received_cases:
  "event_received e st = Some (r, st') \<Longrightarrow>
   r = LIBBPF_PERF_EVENT_CONT \<and> (\<exists>new. st' = st\<lparr>packets_queue := packets_queue st @ new\<rparr> \<and> length new \<le> 1)"
  by (auto simp: event_received_def policy_stats_def split: if_splits intro: exI [of _ "[]"])

lemma read_simple_appends:
  "read_simple es r st = Some (r', st') \<Longrightarrow>
   (\<exists>new. st' = st\<lparr>packets_queue := packets_queue st @ new\<rparr> \<and> length new \<le> length es)"
proof (induction es arbitrary: r st)
  case Nil
  then show ?case by (auto intro!: exI [of _ "[]"])
next
  case (Cons e es)
  then obtain st1 where one: "event_received e st = Some (LIBBPF_PERF_EVENT_CONT, st1)"
      and rest: "read_simple es LIBBPF_PERF_EVENT_CONT st1 = Some (r', st')"
    by (auto split: Option.bind_splits if_splits dest: event_received_cases)
  obtain new1 where "st1 = st\<lparr>packets_queue := packets_queue st @ new1\<rparr>" "length new1 \<le> 1"
    using event_received_cases [OF one] by blast
  moreover obtain new2 where "st' = st1\<lparr>packets_queue := packets_queue st1 @ new2\<rparr>" "length new2 \<le> length es"
    using Cons.IH [OF rest] by blast
  ultimately show ?case by (auto intro!: exI [of _ "new1 @ new2"])
qed

lemma drain_appends:
  "drain bufs st = Some st' \<Longrightarrow> \<exists>new. st' = st\<lparr>packets_queue := packets_queue st @ new\<rparr>"
proof (induction bufs st rule: drain.induct)
  case (1 st)
  then show ?case by (auto intro!: exI [of _ "[]"])
next
  case (3 es bufs st)
  from "3.prems" obtain res st1 where run: "read_simple es LIBBPF_PERF_EVENT_CONT st = Some (res, st1)"
      and rest: "(if res \<noteq> LIBBPF_PERF_EVENT_CONT then Some st1 else drain bufs st1) = Some st'"
    by (auto split: Option.bind_splits)
  obtain new1 where st1: "st1 = st\<lparr>packets_queue := packets_queue st @ new1\<rparr>"
    using read_simple_appends [OF run] by blast
  show ?case
  proof (cases "res = LIBBPF_PERF_EVENT_CONT")
    case True
    with rest "3.IH" [OF run refl] obtain new2 where "st' = st1\<lparr>packets_queue := packets_queue st1 @ new2\<rparr>"
      by auto
    with st1 show ?thesis by (auto intro!: exI [of _ "new1 @ new2"])
  next
    case False
    with rest st1 show ?thesis by auto
  qed
qed simp

fun event_count :: "perf_event_sample list option list \<Rightarrow> nat" where
  "event_count [] = 0"
| "event_count (None # bufs) = event_count bufs"
| "event_count (Some es # bufs) = length es + event_count bufs"

lemma event_received_total:
  assumes "length (packets_queue st) < queue_slots"
  shows "\<exists>st'. event_received e st = Some (LIBBPF_PERF_EVENT_CONT, st') \<and>
    length (packets_queue st') \<le> length (packets_queue st) + 1"
  using assms by (auto simp: event_received_def policy_stats_def)

lemma read_simple_total:
  assumes "length (packets_queue st) + length es \<le> queue_slots"
  shows "\<exists>r' st'. read_simple es r st = Some (r', st') \<and>
    length (packets_queue st') \<le> length (packets_queue st) + length es"
  using assms
proof (induction es arbitrary: r st)
  case (Cons e es)
  then obtain st1 where "event_received e st = Some (LIBBPF_PERF_EVENT_CONT, st1)"
      "length (packets_queue st1) \<le> length (packets_queue st) + 1"
    using event_received_total [of st e] by auto
  with Cons.IH [of st1 LIBBPF_PERF_EVENT_CONT] Cons.prems show ?case by auto
qed simp

lemma drain_total:
  assumes "length (packets_queue st) + event_count bufs \<le> queue_slots"
  shows "\<exists>st'. drain bufs st = Some st'"
  using assms
proof (induction bufs st rule: drain.induct)
  case (3 es bufs st)
  then obtain r' st1 where run: "read_simple es LIBBPF_PERF_EVENT_CONT st = Some (r', st1)"
      "length (packets_queue st1) \<le> length (packets_queue st) + length es"
    using read_simple_total [of st es LIBBPF_PERF_EVENT_CONT] by auto
  with "3.IH" [OF run(1) refl] "3.prems" show ?case by auto
qed auto

section \<open>The sweep\<close>

text \<open>One slot of the table after the sweep.\<close>

definition swept_slot :: "u64 \<Rightarrow> u32 \<Rightarrow> u32 \<Rightarrow> u32" where
  "swept_slot now a t = (if a \<noteq> 0 \<and> lock_expired now t then 0 else a)"

lemma sweep_loop_table:
  assumes "table_sized (count_down st)" "\<forall>i\<in>set js. i < IP_DYNAMIC"
  shows "\<exists>st'. sweep_loop env ncpus now js st = Some st' \<and> table_sized (count_down st') \<and>
    snd (count_down st') = snd (count_down st) \<and>
    (\<forall>i<IP_DYNAMIC. fst (count_down st') ! i =
       (if i \<in> set js then swept_slot now (fst (count_down st) ! i) (snd (count_down st) ! i)
        else fst (count_down st) ! i)) \<and>
    list_policy st' = list_policy st \<and> policy_len st' = policy_len st \<and>
    packets_queue st' = packets_queue st \<and> time_start st' = time_start st \<and>
    time_end st' = time_end st \<and> prev_time st' = prev_time st \<and> time_calls st' = time_calls st"
  using assms
proof (induction js arbitrary: st)
  case Nil
  then show ?case by simp
next
  case (Cons j js)
  have j: "j < length (fst (count_down st))" "j < length (snd (count_down st))" "j < IP_DYNAMIC"
    using Cons.prems by (simp_all add: table_sized_def)
  show ?case
  proof (cases "fst (count_down st) ! j \<noteq> 0 \<and> lock_expired now (snd (count_down st) ! j)")
    case False
    then have "sweep_loop env ncpus now (j # js) st = sweep_loop env ncpus now js st"
      using j by (auto simp: fault)
    moreover have "swept_slot now (fst (count_down st) ! j) (snd (count_down st) ! j) = fst (count_down st) ! j"
      using False by (auto simp: swept_slot_def)
    ultimately show ?thesis using Cons.IH [of st] Cons.prems by auto
  next
    case True
    obtain r st1 where ch: "policy_change_black_list env ncpus (fst (count_down st) ! j) UNBLOCK st = (r, st1)"
      by fastforce
    note frame = policy_change_frame [OF ch]
    let ?st2 = "st1\<lparr>count_down := ((fst (count_down st))[j := 0], snd (count_down st))\<rparr>"
    have run: "sweep_loop env ncpus now (j # js) st = sweep_loop env ncpus now js ?st2"
      using True j ch frame by (simp add: fault)
    have "table_sized (count_down ?st2)" using Cons.prems by (simp add: table_sized_def)
    from Cons.IH [OF this] Cons.prems obtain st' where
      st': "sweep_loop env ncpus now js ?st2 = Some st'" "table_sized (count_down st')"
        "snd (count_down st') = snd (count_down st)"
        "\<forall>i<IP_DYNAMIC. fst (count_down st') ! i =
           (if i \<in> set js then swept_slot now ((fst (count_down st))[j := 0] ! i) (snd (count_down st) ! i)
            else (fst (count_down st))[j := 0] ! i)"
      and same: "list_policy st' = list_policy st1" "policy_len st' = policy_len st1"
        "packets_queue st' = packets_queue st1" "time_start st' = time_start st1"
        "time_end st' = time_end st1" "prev_time st' = prev_time st1" "time_calls st' = time_calls st1"
      by auto
    have "fst (count_down st') ! i =
       (if i \<in> set (j # js) then swept_slot now (fst (count_down st) ! i) (snd (count_down st) ! i)
        else fst (count_down st) ! i)" if "i < IP_DYNAMIC" for i
      using st'(4) that True j by (cases "i = j") (auto simp: swept_slot_def)
    with run st'(1-3) same frame show ?thesis by simp
  qed
qed

text \<open>After a sweep of the whole table exactly the locks that have not expired are left.\<close>

lemma locks_after_sweep:
  assumes "table_sized (ips, ts)" "table_sized (ips', ts)"
    "\<forall>i<IP_DYNAMIC. ips' ! i = swept_slot now (ips ! i) (ts ! i)"
  shows "locks (ips', ts) = filter (\<lambda>(a, t). \<not> lock_expired now t) (locks (ips, ts))"
proof -
  have "ips' = map (\<lambda>(a, t). swept_slot now a t) (zip ips ts)"
    using assms by (intro nth_equalityI) (auto simp: table_sized_def)
  moreover have "filter (\<lambda>(a, t). a \<noteq> 0) (zip (map (\<lambda>(a, t). swept_slot now a t) (zip xs ys)) ys)
      = filter (\<lambda>(a, t). \<not> lock_expired now t) (filter (\<lambda>(a, t). a \<noteq> 0) (zip xs ys))"
    if "length xs = length ys" for xs ys
    using that by (induction xs ys rule: list_induct2) (auto simp: swept_slot_def)
  ultimately show ?thesis using assms(1) by (simp add: locks_def table_sized_def)
qed

text \<open>The kernel's list after a sweep: the addresses of the expired locks are gone.\<close>

lemma sweep_loop_view:
  assumes "black_list_kernel env (black_list_path st) view" "ready st"
    "table_sized (count_down st)" "\<forall>i\<in>set js. i < IP_DYNAMIC" "distinct js"
    "sweep_loop env ncpus now js st = Some st'"
  shows "ready st' \<and> pin_dir st' = pin_dir st \<and> view (kernel st') = (\<lambda>a.
    if \<exists>i\<in>set js. fst (count_down st) ! i = a \<and> a \<noteq> 0 \<and> lock_expired now (snd (count_down st) ! i)
    then None else view (kernel st) a)"
  using assms
proof (induction js arbitrary: st)
  case Nil
  then show ?case by simp
next
  case (Cons j js)
  have j: "j < length (fst (count_down st))" "j < length (snd (count_down st))"
    using Cons.prems(3,4) by (simp_all add: table_sized_def)
  show ?case
  proof (cases "fst (count_down st) ! j \<noteq> 0 \<and> lock_expired now (snd (count_down st) ! j)")
    case False
    then have "sweep_loop env ncpus now js st = Some st'"
      using j Cons.prems(6) by (auto simp: fault split: if_splits)
    with Cons.IH [of st] Cons.prems False show ?thesis by (auto simp: fun_eq_iff)
  next
    case True
    obtain st1 where ch: "policy_change_black_list env ncpus (fst (count_down st) ! j) UNBLOCK st = (0, st1)"
        "ready st1" "view (kernel st1) = (view (kernel st))(fst (count_down st) ! j := None)"
      using policy_change_effect(2) [OF Cons.prems(1,2)] by blast
    note frame = policy_change_frame [OF ch(1)]
    let ?st2 = "st1\<lparr>count_down := ((fst (count_down st))[j := 0], snd (count_down st))\<rparr>"
    have run: "sweep_loop env ncpus now js ?st2 = Some st'"
      using True j ch(1) frame Cons.prems(6) by (simp add: fault)
    have "ready st' \<and> pin_dir st' = pin_dir ?st2 \<and> view (kernel st') = (\<lambda>a.
        if \<exists>i\<in>set js. fst (count_down ?st2) ! i = a \<and> a \<noteq> 0 \<and> lock_expired now (snd (count_down ?st2) ! i)
        then None else view (kernel ?st2) a)"
      using Cons.prems ch frame by (intro Cons.IH [OF _ _ _ _ _ run])
         (simp_all add: ready_def black_list_path_def table_sized_def)
    moreover have "(fst (count_down st))[j := 0] ! i = fst (count_down st) ! i" if "i \<in> set js" for i
      using that Cons.prems(5) by (metis distinct.simps(2) nth_list_update_neq)
    ultimately show ?thesis
      using True ch(3) frame by (auto simp: fun_eq_iff)
  qed
qed

section \<open>One iteration\<close>

text \<open>
  An iteration does not fault when the tables have their sizes, the queue matches the policies
  at most 100 times and the new samples fit behind the queue.
\<close>

lemma poll_clock_frame:
  assumes "poll_clock tm st = (now, st')"
  shows "now = tm (time_calls st)" "time_end st' = now" "count_down st' = count_down st"
    "packets_queue st' = packets_queue st" "list_policy st' = list_policy st"
    "policy_len st' = policy_len st" "kernel st' = kernel st" "pin_dir st' = pin_dir st"
    "map_expect st' = map_expect st" "time_calls st' = time_calls st + 1"
    "time_start st \<noteq> 0 \<Longrightarrow> prev_time st \<noteq> 0 \<Longrightarrow> time_start st' = time_start st \<and> prev_time st' = prev_time st"
  using assms by (auto simp: poll_clock_def read_time_def Let_def)

lemma poll_step_total:
  assumes "\<forall>i. psi_sized (stack inp i)" "table_sized (count_down st)"
    "(\<Sum>pkt\<leftarrow>packets_queue st. matches (take (policy_len st) (list_policy st)) pkt) \<le> psi_slots"
    "length (packets_queue st) + event_count (buffers inp) \<le> queue_slots"
  shows "\<exists>st'. poll_step env ncpus tm inp st = Some st' \<and> table_sized (count_down st')"
proof -
  obtain now st1 where clock: "poll_clock tm st = (now, st1)" by fastforce
  note f1 = poll_clock_frame [OF clock]
  obtain st2 where st2: "poll_detect env ncpus tm (stack inp) st1 = Some st2"
      "table_sized (count_down st2)" "length (packets_queue st2) \<le> length (packets_queue st)"
  proof -
    obtain sd where d: "detect_attackers env ncpus tm (stack inp) st1 = Some (0, sd)"
        "table_sized (count_down sd)"
      using detect_attackers_total [of "stack inp" st1 env ncpus tm] assms(1-3) f1 by auto
    then show thesis
      using assms(2) f1 by (intro that [of "if time_end st1 - time_start st1 = of_nat INTERVAL
          then sd\<lparr>time_start := time_end sd, packets_queue := []\<rparr> else st1"])
        (auto simp: poll_detect_def)
  qed
  obtain st3 where st3: "sweep_loop env ncpus now [0..<IP_DYNAMIC] st2 = Some st3"
      "table_sized (count_down st3)" "packets_queue st3 = packets_queue st2"
    using sweep_loop_table [OF st2(2), of "[0..<IP_DYNAMIC]" env ncpus now] by auto
  obtain st4 where st4: "poll_sweep env ncpus now st2 = Some st4" "table_sized (count_down st4)"
      "packets_queue st4 = packets_queue st2"
    using st3 st2(2)
    by (cases "time_end st2 - prev_time st2 = 1") (auto simp: poll_sweep_def)
  have "length (packets_queue st4) + event_count (buffers inp) \<le> queue_slots"
    using st2(3) st4(3) assms(4) by simp
  from drain_total [OF this] obtain st5 where st5: "drain (buffers inp) st4 = Some st5" by blast
  then have "count_down st5 = count_down st4" using drain_appends [OF st5] by auto
  with clock st2(1) st4 st5 show ?thesis by (simp add: poll_step_def)
qed

text \<open>
  When the clock is neither one second after \<open>time_start\<close> nor one second after \<open>prev_time\<close>, an
  iteration only drains the buffers.
\<close>

lemma poll_step_idle:
  assumes "time_start st \<noteq> 0" "prev_time st \<noteq> 0"
    "tm (time_calls st) - time_start st \<noteq> 1" "tm (time_calls st) - prev_time st \<noteq> 1"
  shows "poll_step env ncpus tm inp st =
    drain (buffers inp) (st\<lparr>time_calls := time_calls st + 1, time_end := tm (time_calls st)\<rparr>)"
  using assms
  by (simp add: poll_step_def poll_clock_def read_time_def poll_detect_def poll_sweep_def INTERVAL_def)

lemma event_poller_idle:
  assumes "time_start st \<noteq> 0" "prev_time st \<noteq> 0"
    "\<forall>n\<ge>time_calls st. tm n - time_start st \<noteq> 1 \<and> tm n - prev_time st \<noteq> 1"
    "event_poller env ncpus tm inps st = Some st'"
  shows "time_start st' = time_start st \<and> prev_time st' = prev_time st \<and> kernel st' = kernel st \<and>
    count_down st' = count_down st \<and> (\<exists>new. packets_queue st' = packets_queue st @ new)"
  using assms
proof (induction inps arbitrary: st)
  case (Cons inp inps)
  from Cons.prems(4) obtain st1 where step: "poll_step env ncpus tm inp st = Some st1"
      and rest: "event_poller env ncpus tm inps st1 = Some st'"
    by (auto split: Option.bind_splits)
  have "drain (buffers inp) (st\<lparr>time_calls := time_calls st + 1, time_end := tm (time_calls st)\<rparr>) = Some st1"
    using step poll_step_idle [OF Cons.prems(1,2), of tm env ncpus inp] Cons.prems(3) by simp
  from drain_appends [OF this] obtain new where
    st1: "st1 = st\<lparr>time_calls := time_calls st + 1, time_end := tm (time_calls st),
      packets_queue := packets_queue st @ new\<rparr>" by auto
  have "time_start st' = time_start st1 \<and> prev_time st' = prev_time st1 \<and> kernel st' = kernel st1 \<and>
    count_down st' = count_down st1 \<and> (\<exists>new. packets_queue st' = packets_queue st1 @ new)"
    using Cons.prems(1-3) rest by (intro Cons.IH) (auto simp: st1)
  then show ?case by (auto simp: st1)
qed auto

text \<open>Two seconds late is late: the difference is then never 1.\<close>

lemma late_clock:
  assumes "unat (t :: u64) + 2 \<le> unat n"
  shows "n - t \<noteq> 1"
proof
  assume "n - t = 1"
  then have n: "n = t + 1" by (simp add: algebra_simps)
  have "unat n \<le> unat t + 1" unfolding n by (simp add: unat_word_ariths)
  with assms show False by linarith
qed

text \<open>What the sweep does to the locks and to the kernel's black list.\<close>

lemma poll_sweep_effect:
  assumes "black_list_kernel env (black_list_path st) view" "ready st" "table_sized (count_down st)"
    "time_end st - prev_time st = 1"
  shows "\<exists>st'. poll_sweep env ncpus now st = Some st' \<and> prev_time st' = time_end st \<and>
    locks (count_down st') = filter (\<lambda>(a, t). now - ucast t < LOCK_TIME) (locks (count_down st)) \<and>
    view (kernel st') = (\<lambda>a. if \<exists>t. (a, t) \<in> set (locks (count_down st)) \<and> \<not> now - ucast t < LOCK_TIME
       then None else view (kernel st) a)"
proof -
  obtain ips ts where cd: "count_down st = (ips, ts)" by (cases "count_down st")
  obtain st1 where sw: "sweep_loop env ncpus now [0..<IP_DYNAMIC] st = Some st1"
      "table_sized (count_down st1)" "snd (count_down st1) = ts" "time_end st1 = time_end st"
      "\<forall>i<IP_DYNAMIC. fst (count_down st1) ! i = swept_slot now (ips ! i) (ts ! i)"
    using sweep_loop_table [OF assms(3), of "[0..<IP_DYNAMIC]" env ncpus now] by (auto simp: cd)
  have "locks (count_down st1) = filter (\<lambda>(a, t). \<not> lock_expired now t) (locks (ips, ts))"
    using locks_after_sweep [of ips ts "fst (count_down st1)" now] sw assms(3)
    by (metis cd prod.collapse)
  moreover have "view (kernel st1) = (\<lambda>a. if \<exists>i<IP_DYNAMIC. ips ! i = a \<and> a \<noteq> 0 \<and> lock_expired now (ts ! i)
      then None else view (kernel st) a)"
    using sweep_loop_view [OF assms(1-3) _ _ sw(1)] by (simp add: cd Bex_def)
  moreover have "(\<exists>t. (a, t) \<in> set (locks (ips, ts)) \<and> lock_expired now t) \<longleftrightarrow>
      (\<exists>i<IP_DYNAMIC. ips ! i = a \<and> a \<noteq> 0 \<and> lock_expired now (ts ! i))" for a
    using set_locks [of ips ts] assms(3) by (auto simp: cd)
  ultimately show ?thesis
    using sw assms(4) by (simp add: poll_sweep_def cd lock_expired_def)
qed

section \<open>Properties\<close>



text \<open>C4. The sweep releases exactly the expired locks: of the lock table only the locks younger
than five seconds are left, and from the kernel's black list exactly the addresses of the expired
locks are gone.\<close>

theorem sweep_releases_expired:
  assumes "black_list_kernel env (black_list_path st) view" "ready st" "table_sized (count_down st)"
    "time_end st - prev_time st = 1"
  shows "\<exists>st'. poll_sweep env ncpus now st = Some st' \<and> prev_time st' = time_end st \<and>
    locks (count_down st') = filter (\<lambda>(a, t). now - ucast t < LOCK_TIME) (locks (count_down st)) \<and>
    view (kernel st') = (\<lambda>a. if \<exists>t. (a, t) \<in> set (locks (count_down st)) \<and> \<not> now - ucast t < LOCK_TIME
       then None else view (kernel st) a)"
  by (rule poll_sweep_effect [OF assms])

text \<open>A table with a lock of 5 seconds age and one of 2 seconds age.\<close>

definition demo_locked :: "(u32 \<Rightarrow> u32 list option) poller" where
  "demo_locked = (demo_poller [] [])\<lparr>count_down := (77 # 88 # replicate 98 0, 96 # 99 # replicate 98 0),
     kernel := [77 \<mapsto> [0], 88 \<mapsto> [0]]\<rparr>"

lemma demo_locked: "ready demo_locked" "table_sized (count_down demo_locked)"
  "locks (count_down demo_locked) = [(77, 96), (88, 99)]" "kernel demo_locked = [77 \<mapsto> [0], 88 \<mapsto> [0]]"
  "time_end demo_locked = 101" "prev_time demo_locked = 100"
  using demo_ready(1) by (simp_all add: demo_locked_def ready_def demo_poller_def table_sized_def IP_DYNAMIC_def
      locks_def zip_replicate)

lemma sweep_releases_expired_witness:
  "\<exists>st'. poll_sweep demo_env 4 101 demo_locked = Some st' \<and> locks (count_down st') = [(88, 99)] \<and>
    kernel st' 77 = None \<and> kernel st' 88 = Some [0]"
proof -
  obtain st' where "poll_sweep demo_env 4 101 demo_locked = Some st'" "locks (count_down st') = [(88, 99)]"
      and eff: "\<And>a. kernel st' a = (if \<exists>t. (a, t) \<in> {(77, 96), (88, 99)} \<and> \<not> 101 - ucast (t :: u32) < LOCK_TIME
         then None else kernel demo_locked a)"
    using sweep_releases_expired [OF demo_kernel demo_locked(1,2), of 4 101]
    by (auto simp: demo_locked LOCK_TIME_def)
  with eff [of 77] eff [of 88] show ?thesis by (auto simp: demo_locked LOCK_TIME_def)
qed

text \<open>C11. A missed second stops the program for good: once the clock is two or more seconds past
both \<open>time_start\<close> and \<open>prev_time\<close> and does not go back, no later iteration detects, blocks
or releases anything. The kernel state, the locks and the two times never change again, and the
queue only grows.\<close>

theorem missed_tick_stops_poller:
  assumes "time_start st \<noteq> 0" "prev_time st \<noteq> 0"
    "\<forall>n\<ge>time_calls st. unat (time_start st) + 2 \<le> unat (tm n) \<and> unat (prev_time st) + 2 \<le> unat (tm n)"
    "event_poller env ncpus tm inps st = Some st'"
  shows "kernel st' = kernel st \<and> count_down st' = count_down st \<and> time_start st' = time_start st \<and>
    prev_time st' = prev_time st \<and> (\<exists>new. packets_queue st' = packets_queue st @ new)"
  using event_poller_idle [OF assms(1,2) _ assms(4)] assms(3) by (auto simp: late_clock)

lemma missed_tick_stops_poller_witness:
  "\<exists>st'. event_poller demo_env 4 (\<lambda>n. 103)
      [\<lparr>stack = (\<lambda>i. demo_psi), buffers = []\<rparr>, \<lparr>stack = (\<lambda>i. demo_psi), buffers = []\<rparr>] demo_locked = Some st' \<and>
    kernel st' 77 = Some [0]"
proof -
  let ?in = "\<lparr>stack = (\<lambda>i. demo_psi), buffers = []\<rparr>"
  have start: "time_start demo_locked = 100" "prev_time demo_locked = 100"
    by (simp_all add: demo_locked_def demo_poller_def)
  then obtain st' where run: "event_poller demo_env 4 (\<lambda>n. 103) [?in, ?in] demo_locked = Some st'"
    by (simp add: poll_step_idle)
  have "kernel st' = kernel demo_locked"
    using missed_tick_stops_poller [OF _ _ _ run] start by simp
  with run show ?thesis by (simp add: demo_locked)
qed

end
