(* ===== verification/Policy_Main.thy ===== *)
theory Policy_Main
  imports Policy_Load Common_Params Update_List Poller
begin

text \<open>
  main/start_policy.c: \<open>setup_perf_poller\<close> and \<open>main\<close>. The calls that open the rings are the fields of
  \<open>perf_env\<close>; an address that \<open>mmap\<close> returns is a number, \<^term>\<open>None\<close> is \<open>MAP_FAILED\<close>. What is
  printed is left out. \<^term>\<open>None\<close> is a write outside an array.
\<close>

section \<open>The rings\<close>

definition MAX_CPU :: nat where "MAX_CPU = 128"
definition PAGE_CNT :: nat where "PAGE_CNT = 8"

record 'k perf_env =
  getpagesize :: nat
  sys_perf_event_open :: "nat \<Rightarrow> 'k \<Rightarrow> int \<times> 'k"
  perf_ioctl_enable :: "int \<Rightarrow> 'k \<Rightarrow> 'k"
  perf_mmap :: "nat \<Rightarrow> int \<Rightarrow> 'k \<Rightarrow> nat option \<times> 'k"

record rings =
  sys_fds :: "int list"
  mem_buf :: "nat option list"

text \<open>The assertion that the map entry was stored ends the program when it does not hold.\<close>

datatype 'a poller_setup = Ready 'a | Failed 'a | Aborted 'a

fun setup_loop ::
    "'k bpf_env \<Rightarrow> 'k perf_env \<Rightarrow> int \<Rightarrow> nat \<Rightarrow> nat list \<Rightarrow> rings \<Rightarrow> 'k \<Rightarrow> (rings \<times> 'k) poller_setup option" where
  "setup_loop env penv perf_map_fd mmap_size [] r k = Some (Ready (r, k))"
| "setup_loop env penv perf_map_fd mmap_size (n # ns) r k =
     (let (pmu, k) = sys_perf_event_open penv n k in
      if pmu < 0 then Some (Failed (r, k))
      else let k = perf_ioctl_enable penv pmu k; (buf, k) = perf_mmap penv mmap_size pmu k in do {
        bufs \<leftarrow> arr_set (mem_buf r) n buf;
        let r = r\<lparr>mem_buf := bufs\<rparr>;
        if buf = None then Some (Failed (r, k))
        else let (err, k) = bpf_map_update_elem env perf_map_fd (of_nat n) [word_of_int pmu] k in
        if err \<noteq> 0 then Some (Aborted (r, k))
        else do {
          fds \<leftarrow> arr_set (sys_fds r) n pmu;
          setup_loop env penv perf_map_fd mmap_size ns (r\<lparr>sys_fds := fds\<rparr>) k
        }
      })"

definition setup_perf_poller ::
    "'k bpf_env \<Rightarrow> 'k perf_env \<Rightarrow> int \<Rightarrow> nat \<Rightarrow> rings \<Rightarrow> 'k \<Rightarrow> (rings \<times> 'k) poller_setup option" where
  "setup_perf_poller env penv perf_map_fd cpu_total r k =
     setup_loop env penv perf_map_fd (getpagesize penv * (PAGE_CNT + 1)) [0..<cpu_total] r k"

section \<open>The program\<close>

definition policy_options :: "option_wrapper list" where
  "policy_options =
    [\<lparr>opt_entry = \<lparr>opt_name = Some ''help'', has_arg = False, opt_val = 104\<rparr>, help_text = ''Show help'', metavar = None, required = False\<rparr>,
     \<lparr>opt_entry = \<lparr>opt_name = Some ''dev'', has_arg = True, opt_val = 100\<rparr>, help_text = ''Operate on device <ifname>'',
       metavar = Some ''<ifname>'', required = True\<rparr>,
     \<lparr>opt_entry = \<lparr>opt_name = Some ''quiet'', has_arg = False, opt_val = 113\<rparr>, help_text = ''Quiet mode (no output)'',
       metavar = None, required = False\<rparr>,
     \<lparr>opt_entry = \<lparr>opt_name = None, has_arg = False, opt_val = 0\<rparr>, help_text = [], metavar = None, required = False\<rparr>]"

text \<open>The program ends with a code, by the failed assertion, or is in its endless loop.\<close>

datatype 'k daemon = Exited int "'k poller" | Abort "'k poller" | Polling rings "'k poller"

definition start_policy_init :: "'k \<Rightarrow> 'k poller" where
  "start_policy_init k = \<lparr>pin_dir = [], info = \<lparr>map_type = 0, key_size = 0, value_size = 0, max_entries = 0\<rparr>,
     map_expect = \<lparr>map_type = 0, key_size = 0, value_size = 0, max_entries = 0\<rparr>,
     list_policy = replicate 10 zero_policy, policy_len = 0, packets_queue = [], time_start = 0, time_end = 0, prev_time = 0,
     count_down = (replicate IP_DYNAMIC 0, replicate IP_DYNAMIC 0), kernel = k, time_calls = 0\<rparr>"

text \<open>
  \<open>cfg\<close> is the parsed command line, \<open>policies\<close> the policy file, \<open>vars\<close> the uninitialised variables of
  \<open>load_policy\<close>, \<open>fds\<close> the uninitialised array \<open>sys_fds\<close>; the inputs are those of the iterations so far.
\<close>

definition start_policy_main ::
    "'k bpf_env \<Rightarrow> 'k perf_env \<Rightarrow> nat \<Rightarrow> nat \<Rightarrow> string option \<Rightarrow> policy_vars \<Rightarrow> int list \<Rightarrow> (nat \<Rightarrow> u64) \<Rightarrow> poll_input list
      \<Rightarrow> config \<Rightarrow> 'k \<Rightarrow> 'k daemon option" where
  "start_policy_main env penv ncpus n_cpus policies vars fds tm inps cfg k = (
     let st = start_policy_init k in
     if ifindex cfg = -1 then Some (Exited EXIT_FAIL_OPTION st)
     else do {
       name \<leftarrow> c_string (ifname_buf cfg);
       let (len, dir) = snprintf PATH_MAX (pin_basedir @ ''/'' @ name);
       let st = st\<lparr>pin_dir := dir\<rparr>;
       if len < 0 then Some (Exited EXIT_FAIL_OPTION st)
       else let (perf_map_fd, i, k) = open_bpf_map_file env (pin_dir st) ''perf_map'' (Some (info st)) (kernel st);
                st = st\<lparr>info := the i, kernel := k\<rparr> in
       if perf_map_fd < 0 then Some (Exited EXIT_FAIL_BPF st)
       else let st = st\<lparr>map_expect := (map_expect st)\<lparr>key_size := 4, value_size := 4\<rparr>\<rparr>;
                err = check_map_fd_info (info st) (map_expect st) in
       if err \<noteq> 0 then Some (Exited err st)
       else do {
         (err, st) \<leftarrow> load_policy policies vars st;
         if err \<noteq> 0 then Some (Exited err st)
         else do {
           res \<leftarrow> setup_perf_poller env penv perf_map_fd n_cpus \<lparr>sys_fds = fds, mem_buf = replicate MAX_CPU None\<rparr> (kernel st);
           case res of
             Failed (r, k) \<Rightarrow> Some (Exited (-1) (st\<lparr>kernel := k\<rparr>))
           | Aborted (r, k) \<Rightarrow> Some (Abort (st\<lparr>kernel := k\<rparr>))
           | Ready (r, k) \<Rightarrow> do {
               st \<leftarrow> event_poller env ncpus tm inps (st\<lparr>kernel := k\<rparr>);
               Some (Polling r st)
             }
         }
       }
     })"

section \<open>Opening the rings\<close>

text \<open>A system that opens a ring for every CPU and stores its descriptor in the map.\<close>

definition rings_open :: "'k bpf_env \<Rightarrow> 'k perf_env \<Rightarrow> int \<Rightarrow> bool" where
  "rings_open env penv map_fd \<longleftrightarrow> (\<forall>n k. 0 \<le> fst (sys_perf_event_open penv n k)) \<and> (\<forall>s fd k. fst (perf_mmap penv s fd k) \<noteq> None) \<and>
     (\<forall>a v k. fst (bpf_map_update_elem env map_fd a v k) = 0)"

lemma setup_loop_ready:
  assumes "rings_open env penv map_fd"
  shows "\<forall>n\<in>set ns. n < length (sys_fds r) \<and> n < length (mem_buf r) \<Longrightarrow>
    \<exists>r' k'. setup_loop env penv map_fd sz ns r k = Some (Ready (r', k')) \<and> length (sys_fds r') = length (sys_fds r) \<and>
      length (mem_buf r') = length (mem_buf r) \<and>
      (\<forall>n. (n \<in> set ns \<or> (0 \<le> sys_fds r ! n \<and> mem_buf r ! n \<noteq> None)) \<longrightarrow> 0 \<le> sys_fds r' ! n \<and> mem_buf r' ! n \<noteq> None)"
proof (induction ns arbitrary: r k)
  case (Cons n ns)
  obtain pmu k1 where o: "sys_perf_event_open penv n k = (pmu, k1)" "0 \<le> pmu"
    using assms by (metis prod.collapse rings_open_def)
  obtain a k2 where m: "perf_mmap penv sz pmu (perf_ioctl_enable penv pmu k1) = (Some a, k2)"
    using assms unfolding rings_open_def by (metis option.exhaust prod.collapse)
  obtain k3 where u: "bpf_map_update_elem env map_fd (of_nat n) [word_of_int pmu] k2 = (0, k3)"
    using assms unfolding rings_open_def by (metis prod.collapse)
  let ?r = "r\<lparr>mem_buf := (mem_buf r)[n := Some a], sys_fds := (sys_fds r)[n := pmu]\<rparr>"
  have n: "n < length (sys_fds r)" "n < length (mem_buf r)" using Cons.prems by auto
  obtain r' k' where IH: "setup_loop env penv map_fd sz ns ?r k3 = Some (Ready (r', k'))" "length (sys_fds r') = length (sys_fds ?r)"
      "length (mem_buf r') = length (mem_buf ?r)"
      "\<forall>i. (i \<in> set ns \<or> (0 \<le> sys_fds ?r ! i \<and> mem_buf ?r ! i \<noteq> None)) \<longrightarrow> 0 \<le> sys_fds r' ! i \<and> mem_buf r' ! i \<noteq> None"
    using Cons.IH [of ?r k3] Cons.prems by auto
  have "setup_loop env penv map_fd sz (n # ns) r k = Some (Ready (r', k'))"
    using n IH(1) o m u by (simp add: fault)
  moreover have "0 \<le> sys_fds r' ! i \<and> mem_buf r' ! i \<noteq> None"
    if "i \<in> set (n # ns) \<or> (0 \<le> sys_fds r ! i \<and> mem_buf r ! i \<noteq> None)" for i
    using IH(4) [rule_format, of i] that n o(2) by (cases "i = n") auto
  ultimately show ?case using IH(2,3) by auto
qed simp

lemma setup_loop_overflow:
  assumes "rings_open env penv map_fd"
  shows "\<exists>n\<in>set ns. length (mem_buf r) \<le> n \<Longrightarrow> setup_loop env penv map_fd sz ns r k = None"
proof (induction ns arbitrary: r k)
  case (Cons n ns)
  obtain pmu k1 where o: "sys_perf_event_open penv n k = (pmu, k1)" "0 \<le> pmu"
    using assms by (metis prod.collapse rings_open_def)
  obtain a k2 where m: "perf_mmap penv sz pmu (perf_ioctl_enable penv pmu k1) = (Some a, k2)"
    using assms unfolding rings_open_def by (metis option.exhaust prod.collapse)
  obtain k3 where u: "bpf_map_update_elem env map_fd (of_nat n) [word_of_int pmu] k2 = (0, k3)"
    using assms unfolding rings_open_def by (metis prod.collapse)
  show ?case
  proof (cases "length (mem_buf r) \<le> n")
    case True
    then show ?thesis using o m by (simp add: arr_set_def)
  next
    case False
    then have "setup_loop env penv map_fd sz ns (r\<lparr>mem_buf := (mem_buf r)[n := Some a], sys_fds := fds\<rparr>) k3 = None" for fds
      using Cons.prems by (intro Cons.IH) auto
    then show ?thesis using False o m u by (auto simp: arr_set_def)
  qed
qed simp

section \<open>The start of the daemon\<close>

lemma policies_onlyD:
  assumes "policies_only st (st' :: 'k poller)"
  shows "pin_dir st' = pin_dir st" "info st' = info st" "map_expect st' = map_expect st" "packets_queue st' = packets_queue st"
    "time_start st' = time_start st" "prev_time st' = prev_time st" "count_down st' = count_down st" "kernel st' = kernel st"
    "time_calls st' = time_calls st"
  using assms by (cases st; cases st'; simp add: policies_only_def)+

text \<open>What the loop starts from: the policies, no sample, no lock and a clock that has not been read.\<close>

definition daemon_fresh :: "string \<Rightarrow> policy list \<Rightarrow> 'k poller \<Rightarrow> bool" where
  "daemon_fresh dir ps st \<longleftrightarrow> pin_dir st = dir \<and> take (policy_len st) (list_policy st) = ps \<and> packets_queue st = [] \<and>
     locks (count_down st) = [] \<and> table_sized (count_down st) \<and> time_start st = 0 \<and> prev_time st = 0 \<and> time_calls st = 0 \<and>
     key_size (map_expect st) = 4 \<and> value_size (map_expect st) = 4"


definition demo_perf :: "'k perf_env" where
  "demo_perf = \<lparr>getpagesize = 4096, sys_perf_event_open = (\<lambda>n k. (int n + 3, k)), perf_ioctl_enable = (\<lambda>fd k. k),
     perf_mmap = (\<lambda>s fd k. (Some 4096, k))\<rparr>"


end
