(* ===== verification/Xdp_Loader.thy ===== *)
theory Xdp_Loader
  imports Update_List
begin

text \<open>
  main/xdp_loader.c, the loading functions of common/common_user_bpf_xdp.c and
  common/common_libbpf.c. The calls into libbpf's object layer (opening and loading an ELF object,
  pinning and reusing maps) are the fields of \<open>obj_env\<close>; an object is the list of its programs and
  of its maps with the attributes the callers set and read. What is printed is not modelled.
\<close>

section \<open>Objects\<close>

record bpf_program =
  title :: string
  prog_fd :: int
  prog_type :: u32
  prog_ifindex :: int
  attach_type :: u32

record bpf_map =
  map_name :: string
  map_fd :: int
  map_ifindex :: int
  offload_neutral :: bool

record bpf_object =
  progs :: "bpf_program list"
  obj_maps :: "bpf_map list"

record 'k obj_env =
  base :: "'k bpf_env"
  bpf_prog_load_xattr :: "string \<Rightarrow> int \<Rightarrow> 'k \<Rightarrow> int \<times> bpf_object \<times> 'k"
  bpf_object_open :: "string \<Rightarrow> u32 \<Rightarrow> 'k \<Rightarrow> bpf_object option \<times> 'k"
  bpf_object_load :: "bpf_object \<Rightarrow> 'k \<Rightarrow> int \<times> bpf_object \<times> 'k"
  bpf_map_reuse_fd :: "bpf_map \<Rightarrow> int \<Rightarrow> 'k \<Rightarrow> int \<times> bpf_map \<times> 'k"
  bpf_map_pin :: "bpf_map \<Rightarrow> string \<Rightarrow> 'k \<Rightarrow> int \<times> 'k"
  bpf_object_pin_maps :: "bpf_object \<Rightarrow> string \<Rightarrow> 'k \<Rightarrow> int \<times> 'k"
  bpf_object_unpin_maps :: "bpf_object \<Rightarrow> string \<Rightarrow> 'k \<Rightarrow> int \<times> 'k"
  file_exists :: "string \<Rightarrow> 'k \<Rightarrow> bool"

definition BPF_PROG_TYPE_XDP :: u32 where "BPF_PROG_TYPE_XDP = 6"

section \<open>common/common_user_bpf_xdp.c\<close>

definition load_bpf_object_file :: "'k obj_env \<Rightarrow> string \<Rightarrow> int \<Rightarrow> 'k \<Rightarrow> bpf_object option \<times> 'k" where
  "load_bpf_object_file env fname ifidx k =
     (let (err, obj, k) = bpf_prog_load_xattr env fname ifidx k in
      if err \<noteq> 0 then (None, k) else (Some obj, k))"

definition open_bpf_object :: "'k obj_env \<Rightarrow> string \<Rightarrow> int \<Rightarrow> 'k \<Rightarrow> bpf_object option \<times> 'k" where
  "open_bpf_object env file ifidx k =
     (case bpf_object_open env file BPF_PROG_TYPE_XDP k of
        (None, k) \<Rightarrow> (None, k)
      | (Some obj, k) \<Rightarrow>
          let obj = obj\<lparr>progs := map (\<lambda>p. p\<lparr>prog_type := BPF_PROG_TYPE_XDP, prog_ifindex := ifidx\<rparr>) (progs obj)\<rparr>;
              obj = obj\<lparr>obj_maps := map (\<lambda>m. if \<not> offload_neutral m then m\<lparr>map_ifindex := ifidx\<rparr> else m) (obj_maps obj)\<rparr>
          in if progs obj = [] then (None, k) else (Some obj, k))"

text \<open>The loop over the maps: the error code, and the maps with those before the error changed.\<close>

fun reuse_maps_loop :: "'k obj_env \<Rightarrow> string \<Rightarrow> bpf_map list \<Rightarrow> 'k \<Rightarrow> int \<times> bpf_map list \<times> 'k" where
  "reuse_maps_loop env path [] k = (0, [], k)"
| "reuse_maps_loop env path (m # ms) k =
     (let (len, buf) = snprintf PATH_MAX (path @ ''/'' @ map_name m) in
      if len < 0 then (- EINVAL, m # ms, k)
      else if len \<ge> int PATH_MAX then (- ENAMETOOLONG, m # ms, k)
      else let (pinned_map_fd, k) = bpf_obj_get (base env) buf k in
      if pinned_map_fd < 0 then (pinned_map_fd, m # ms, k)
      else let (err, m, k) = bpf_map_reuse_fd env m pinned_map_fd k in
      if err \<noteq> 0 then (err, m # ms, k)
      else let (err, ms, k) = reuse_maps_loop env path ms k in (err, m # ms, k))"

definition reuse_maps ::
    "'k obj_env \<Rightarrow> bpf_object option \<Rightarrow> string option \<Rightarrow> 'k \<Rightarrow> int \<times> bpf_object option \<times> 'k" where
  "reuse_maps env obj path k =
     (case obj of
        None \<Rightarrow> (- ENOENT, None, k)
      | Some ob \<Rightarrow>
          (case path of
             None \<Rightarrow> (- EINVAL, obj, k)
           | Some path \<Rightarrow>
               let (err, ms, k) = reuse_maps_loop env path (obj_maps ob) k in (err, Some (ob\<lparr>obj_maps := ms\<rparr>), k)))"

definition load_bpf_object_file_reuse_maps ::
    "'k obj_env \<Rightarrow> string \<Rightarrow> int \<Rightarrow> string \<Rightarrow> 'k \<Rightarrow> bpf_object option \<times> 'k" where
  "load_bpf_object_file_reuse_maps env file ifidx pdir k =
     (let (obj, k) = open_bpf_object env file ifidx k in
      if obj = None then (None, k)
      else let (err, obj, k) = reuse_maps env obj (Some pdir) k in
      if err \<noteq> 0 then (None, k)
      else let (err, obj, k) = bpf_object_load env (the obj) k in
      if err \<noteq> 0 then (None, k) else (Some obj, k))"

text \<open>The program of the section named in the configuration, or the first one; NULL is the inner \<^term>\<open>None\<close>.\<close>

definition select_program :: "config \<Rightarrow> bpf_object \<Rightarrow> bpf_program option option" where
  "select_program cfg obj =
     (if progsec cfg ! 0 \<noteq> CHR 0x00 then do {
        sec \<leftarrow> c_string (progsec cfg);
        Some (find (\<lambda>p. title p = sec) (progs obj))
      } else Some (if progs obj = [] then None else Some (hd (progs obj))))"

definition load_object :: "'k obj_env \<Rightarrow> config \<Rightarrow> 'k \<Rightarrow> (bpf_object option \<times> 'k) option" where
  "load_object env cfg k = do {
     let offload_ifindex = (if xdp_flags cfg AND XDP_FLAGS_HW_MODE \<noteq> 0 then ifindex cfg else 0);
     fname \<leftarrow> c_string (filename cfg);
     if cfg_reuse_maps cfg then do {
       pdir \<leftarrow> c_string (cfg_pin_dir cfg);
       Some (load_bpf_object_file_reuse_maps env fname offload_ifindex pdir k)
     } else Some (load_bpf_object_file env fname offload_ifindex k)
   }"

text \<open>\<open>Inl\<close> is \<open>exit\<close>; reading an array without terminator is a fault.\<close>

definition load_bpf_and_xdp_attach ::
    "'k obj_env \<Rightarrow> config \<Rightarrow> 'k \<Rightarrow> ((int + bpf_object \<times> config) \<times> 'k) option" where
  "load_bpf_and_xdp_attach env cfg k = do {
     (obj, k) \<leftarrow> load_object env cfg k;
     case obj of
       None \<Rightarrow> Some (Inl EXIT_FAIL_BPF, k)
     | Some obj \<Rightarrow> do {
         prog \<leftarrow> select_program cfg obj;
         case prog of
           None \<Rightarrow> Some (Inl EXIT_FAIL_BPF, k)
         | Some prog \<Rightarrow>
             let cfg = cfg\<lparr>progsec := strncpy (title prog) 32\<rparr>; fd = prog_fd prog in
             if fd \<le> 0 then Some (Inl EXIT_FAIL_BPF, k)
             else let (err, k) = xdp_link_attach (base env) (ifindex cfg) (xdp_flags cfg) fd k in
             if err \<noteq> 0 then Some (Inl err, k) else Some (Inr (obj, cfg), k)
       }
   }"

lemma select_program_Some:
  "select_program cfg obj = Some (Some prog) \<Longrightarrow> prog \<in> set (progs obj) \<and>
     (if progsec cfg ! 0 = CHR 0x00 then prog = hd (progs obj) else c_string (progsec cfg) = Some (title prog))"
  by (auto simp: select_program_def find_Some_iff split: if_splits Option.bind_splits)

section \<open>common/common_libbpf.c\<close>

text \<open>
  Here \<open>MAX_ERRNO\<close> pointers are errors: \<open>IS_ERR_VALUE\<close> of an address.
\<close>

definition MAX_ERRNO :: u64 where "MAX_ERRNO = 4095"

definition IS_ERR_OR_NULL :: "u64 \<Rightarrow> bool" where
  "IS_ERR_OR_NULL ptr \<longleftrightarrow> ptr = 0 \<or> - MAX_ERRNO \<le> ptr"

record pinned_map =
  pm_name :: string
  pm_filename :: string
  pm_map_fd :: int

record load_attr_maps =
  attr_file :: "string option"
  attr_prog_type :: u32
  attr_expected_attach_type :: u32
  attr_ifindex :: int
  attr_pinned_maps :: "pinned_map list"

text \<open>
  One map against the pinned maps, before the load: a matching file that can be opened replaces the
  map. \<open>name\<close> is the pointer \<open>mapname\<close>; a successful \<open>bpf_map__reuse_fd\<close> frees the text it points
  to, after which it dangles (\<^term>\<open>None\<close>) and the next comparison is a fault.
\<close>

fun reuse_pins ::
    "'k obj_env \<Rightarrow> string option \<Rightarrow> bpf_map \<Rightarrow> pinned_map list \<Rightarrow> 'k \<Rightarrow> (bpf_map \<times> pinned_map list \<times> 'k) option" where
  "reuse_pins env name m [] k = Some (m, [], k)"
| "reuse_pins env name m (p # ps) k = do {
     mapname \<leftarrow> name;
     if mapname \<noteq> pm_name p then do {
       (m, ps, k) \<leftarrow> reuse_pins env name m ps k;
       Some (m, p # ps, k)
     } else
       let (fd, k) = bpf_obj_get (base env) (pm_filename p) k in
       if fd > 0 then do {
         let (err, m, k) = bpf_map_reuse_fd env m fd k;
         (m, ps, k) \<leftarrow> reuse_pins env (if err = 0 then None else name) m ps k;
         Some (m, p\<lparr>pm_map_fd := fd\<rparr> # ps, k)
       } else do {
         (m, ps, k) \<leftarrow> reuse_pins env name m ps k;
         Some (m, p # ps, k)
       }
   }"

fun reuse_all ::
    "'k obj_env \<Rightarrow> int \<Rightarrow> bpf_map list \<Rightarrow> pinned_map list \<Rightarrow> 'k \<Rightarrow> (bpf_map list \<times> pinned_map list \<times> 'k) option" where
  "reuse_all env ifidx [] ps k = Some ([], ps, k)"
| "reuse_all env ifidx (m # ms) ps k = do {
     let m = (if \<not> offload_neutral m then m\<lparr>map_ifindex := ifidx\<rparr> else m);
     (m, ps, k) \<leftarrow> reuse_pins env (Some (map_name m)) m ps k;
     (ms, ps, k) \<leftarrow> reuse_all env ifidx ms ps k;
     Some (m # ms, ps, k)
   }"

text \<open>One map against the pinned maps, after the load: the ones without a descriptor are pinned.\<close>

fun pin_new :: "'k obj_env \<Rightarrow> bpf_map \<Rightarrow> pinned_map list \<Rightarrow> 'k \<Rightarrow> pinned_map list \<times> 'k" where
  "pin_new env m [] k = ([], k)"
| "pin_new env m (p # ps) k =
     (if map_name m \<noteq> pm_name p \<or> pm_map_fd p \<noteq> -1 then
        let (ps, k) = pin_new env m ps k in (p # ps, k)
      else let (err, k) = bpf_map_pin env m (pm_filename p) k;
               p = (if err \<noteq> 0 then p else p\<lparr>pm_map_fd := map_fd m\<rparr>);
               (ps, k) = pin_new env m ps k
        in (p # ps, k))"

fun pin_all :: "'k obj_env \<Rightarrow> bpf_map list \<Rightarrow> pinned_map list \<Rightarrow> 'k \<Rightarrow> pinned_map list \<times> 'k" where
  "pin_all env [] ps k = (ps, k)"
| "pin_all env (m # ms) ps k = (let (ps, k) = pin_new env m ps k in pin_all env ms ps k)"

text \<open>
  The attributes are read by the initialiser of \<open>open_attr\<close> before the test for NULL, so a NULL
  pointer is a fault. The result: the code, the attributes with the descriptors stored in the
  pinned maps, and the object and the descriptor of its first program on success.
\<close>

definition bpf_prog_load_xattr_maps ::
    "'k obj_env \<Rightarrow> load_attr_maps option \<Rightarrow> 'k \<Rightarrow> (int \<times> load_attr_maps \<times> (bpf_object \<times> int) option \<times> 'k) option" where
  "bpf_prog_load_xattr_maps env attr k = do {
     attr \<leftarrow> attr;
     case attr_file attr of
       None \<Rightarrow> Some (- EINVAL, attr, None, k)
     | Some file \<Rightarrow>
         (case bpf_object_open env file (attr_prog_type attr) k of
            (None, k) \<Rightarrow> Some (- ENOENT, attr, None, k)
          | (Some obj, k) \<Rightarrow>
              let obj = obj\<lparr>progs := map (\<lambda>p. p\<lparr>prog_ifindex := attr_ifindex attr, prog_type := attr_prog_type attr,
                    attach_type := attr_expected_attach_type attr\<rparr>) (progs obj)\<rparr>;
                  pins = map (\<lambda>p. p\<lparr>pm_map_fd := -1\<rparr>) (attr_pinned_maps attr)
              in do {
              (ms, pins, k) \<leftarrow> reuse_all env (attr_ifindex attr) (obj_maps obj) pins k;
              let obj = obj\<lparr>obj_maps := ms\<rparr>;
              if progs obj = [] then Some (- ENOENT, attr\<lparr>attr_pinned_maps := pins\<rparr>, None, k)
              else let (err, obj, k) = bpf_object_load env obj k in
              if err \<noteq> 0 then Some (- EINVAL, attr\<lparr>attr_pinned_maps := pins\<rparr>, None, k)
              else let (pins, k) = pin_all env (obj_maps obj) pins k in
                Some (0, attr\<lparr>attr_pinned_maps := pins\<rparr>, Some (obj, prog_fd (hd (progs obj))), k)
              })
   }"

section \<open>main/xdp_loader.c\<close>

definition loader_options :: "option_wrapper list" where
  "loader_options =
    [\<lparr>opt_entry = \<lparr>opt_name = Some ''help'', has_arg = False, opt_val = 104\<rparr>, help_text = ''Show help'', metavar = None, required = False\<rparr>,
     \<lparr>opt_entry = \<lparr>opt_name = Some ''dev'', has_arg = True, opt_val = 100\<rparr>, help_text = ''Operate on device <ifname>'',
       metavar = Some ''<ifname>'', required = True\<rparr>,
     \<lparr>opt_entry = \<lparr>opt_name = Some ''skb-mode'', has_arg = False, opt_val = 83\<rparr>,
       help_text = ''Install XDP program in SKB (AKA generic) mode'', metavar = None, required = False\<rparr>,
     \<lparr>opt_entry = \<lparr>opt_name = Some ''native-mode'', has_arg = False, opt_val = 78\<rparr>,
       help_text = ''Install XDP program in native mode'', metavar = None, required = False\<rparr>,
     \<lparr>opt_entry = \<lparr>opt_name = Some ''auto-mode'', has_arg = False, opt_val = 65\<rparr>,
       help_text = ''Auto-detect SKB or native mode'', metavar = None, required = False\<rparr>,
     \<lparr>opt_entry = \<lparr>opt_name = Some ''force'', has_arg = False, opt_val = 70\<rparr>,
       help_text = ''Force install, replacing existing program on interface'', metavar = None, required = False\<rparr>,
     \<lparr>opt_entry = \<lparr>opt_name = Some ''unload'', has_arg = False, opt_val = 85\<rparr>,
       help_text = ''Unload XDP program instead of loading'', metavar = None, required = False\<rparr>,
     \<lparr>opt_entry = \<lparr>opt_name = Some ''quiet'', has_arg = False, opt_val = 113\<rparr>,
       help_text = ''Quiet mode (no output)'', metavar = None, required = False\<rparr>,
     \<lparr>opt_entry = \<lparr>opt_name = Some ''filename'', has_arg = True, opt_val = 1\<rparr>,
       help_text = ''Load program from <file>'', metavar = Some ''<file>'', required = False\<rparr>,
     \<lparr>opt_entry = \<lparr>opt_name = Some ''progsec'', has_arg = True, opt_val = 2\<rparr>,
       help_text = ''Load program in <section> of the ELF file'', metavar = Some ''<section>'', required = False\<rparr>,
     \<lparr>opt_entry = \<lparr>opt_name = None, has_arg = False, opt_val = 0\<rparr>, help_text = [], metavar = None, required = False\<rparr>]"

definition loader_config :: config where
  "loader_config = config_init\<lparr>xdp_flags := XDP_FLAGS_UPDATE_IF_NOEXIST OR XDP_FLAGS_DRV_MODE,
     filename := strncpy ''xdp_prog_kern.o'' 512\<rparr>"

definition pin_maps_in_bpf_object :: "'k obj_env \<Rightarrow> bpf_object \<Rightarrow> string \<Rightarrow> 'k \<Rightarrow> int \<times> 'k" where
  "pin_maps_in_bpf_object env obj subdir k =
     (let (len, pin_dir) = snprintf PATH_MAX (pin_basedir @ ''/'' @ subdir) in
      if len < 0 then (EXIT_FAIL_OPTION, k)
      else let (len, map_filename) = snprintf PATH_MAX (pin_basedir @ ''/'' @ subdir @ ''/'' @ ''xdp_stats_map'') in
      if len < 0 then (EXIT_FAIL_OPTION, k)
      else let (err, k) = (if file_exists env map_filename k then bpf_object_unpin_maps env obj pin_dir k else (0, k)) in
      if err \<noteq> 0 then (EXIT_FAIL_BPF, k)
      else let (err, k) = bpf_object_pin_maps env obj pin_dir k in
      if err \<noteq> 0 then (EXIT_FAIL_BPF, k) else (0, k))"

text \<open>\<open>main\<close> behind the command line.\<close>

definition loader_main :: "'k obj_env \<Rightarrow> config \<Rightarrow> 'k \<Rightarrow> (int \<times> 'k) option" where
  "loader_main env cfg k =
     (if ifindex cfg = -1 then Some (EXIT_FAIL_OPTION, k)
      else if do_unload cfg then Some (xdp_link_detach (base env) (ifindex cfg) (xdp_flags cfg) 0 k)
      else do {
        (r, k) \<leftarrow> load_bpf_and_xdp_attach env cfg k;
        case r of
          Inl e \<Rightarrow> Some (e, k)
        | Inr (obj, cfg) \<Rightarrow> do {
            name \<leftarrow> c_string (ifname_buf cfg);
            let (err, k) = pin_maps_in_bpf_object env obj name k;
            if err \<noteq> 0 then Some (err, k) else Some (EXIT_OK, k)
          }
      })"

section \<open>Lemmas\<close>

text \<open>
  What the attach function relies on: the interface holds at most one program, with the mode it was
  attached in; a second program in another mode is refused with \<open>-EEXIST\<close>, in the same mode it
  replaces the first unless the flags forbid it; descriptor -1 removes the program of the given mode.
\<close>

definition set_answer :: "'k bpf_env \<Rightarrow> int \<Rightarrow> ('k \<Rightarrow> (u32 \<times> int) option) \<Rightarrow> 'k \<Rightarrow> int \<Rightarrow> u32 \<Rightarrow> bool" where
  "set_answer env dev attached k fd flags \<longleftrightarrow> (case attached k of
     None \<Rightarrow> (\<exists>k'. bpf_set_link_xdp_fd env dev fd flags k = (0, k') \<and> attached k' = Some (flags AND XDP_FLAGS_MODES, fd))
   | Some (m', fd') \<Rightarrow>
       if m' \<noteq> flags AND XDP_FLAGS_MODES then bpf_set_link_xdp_fd env dev fd flags k = (- EEXIST, k)
       else if flags AND XDP_FLAGS_UPDATE_IF_NOEXIST \<noteq> 0 then bpf_set_link_xdp_fd env dev fd flags k = (- EBUSY, k)
       else \<exists>k'. bpf_set_link_xdp_fd env dev fd flags k = (0, k') \<and> attached k' = Some (flags AND XDP_FLAGS_MODES, fd))"

definition remove_answer :: "'k bpf_env \<Rightarrow> int \<Rightarrow> ('k \<Rightarrow> (u32 \<times> int) option) \<Rightarrow> 'k \<Rightarrow> u32 \<Rightarrow> bool" where
  "remove_answer env dev attached k flags \<longleftrightarrow>
     (\<exists>k'. bpf_set_link_xdp_fd env dev (-1) flags k = (0, k') \<and>
        attached k' = (case attached k of None \<Rightarrow> None
          | Some (m', fd') \<Rightarrow> if m' = flags AND XDP_FLAGS_MODES then None else attached k))"

definition link_law :: "'k bpf_env \<Rightarrow> int \<Rightarrow> ('k \<Rightarrow> (u32 \<times> int) option) \<Rightarrow> bool" where
  "link_law env dev attached \<longleftrightarrow>
     (\<forall>k fd flags. (0 \<le> fd \<longrightarrow> set_answer env dev attached k fd flags) \<and> remove_answer env dev attached k flags)"

definition simple_mode :: "u32 \<Rightarrow> bool" where
  "simple_mode m \<longleftrightarrow> m = XDP_FLAGS_SKB_MODE \<or> m = XDP_FLAGS_DRV_MODE"

definition other_mode :: "u32 \<Rightarrow> u32" where
  "other_mode m = (if m = XDP_FLAGS_SKB_MODE then XDP_FLAGS_DRV_MODE else XDP_FLAGS_SKB_MODE)"

lemma simple_modes:
  "simple_mode m \<Longrightarrow> m AND XDP_FLAGS_MODES = m" "simple_mode m \<Longrightarrow> simple_mode (other_mode m)"
  "simple_mode m \<Longrightarrow> m AND XDP_FLAGS_UPDATE_IF_NOEXIST = 0"
  "simple_mode m \<Longrightarrow> simple_mode m' \<Longrightarrow> m' \<noteq> m \<Longrightarrow> m' = other_mode m"
  by (auto simp: simple_mode_def other_mode_def xdp_flags_defs)

lemma link_law_answers:
  "link_law env dev attached \<Longrightarrow> 0 \<le> fd \<Longrightarrow> set_answer env dev attached k fd flags"
  "link_law env dev attached \<Longrightarrow> remove_answer env dev attached k flags"
  unfolding link_law_def by blast+

lemma link_set_free:
  assumes "link_law env dev attached" "0 \<le> fd" "attached k = None"
  shows "\<exists>k'. bpf_set_link_xdp_fd env dev fd flags k = (0, k') \<and> attached k' = Some (flags AND XDP_FLAGS_MODES, fd)"
  using link_law_answers(1) [OF assms(1,2), of k flags] assms(3) by (simp add: set_answer_def)

lemma link_set_taken:
  assumes "link_law env dev attached" "0 \<le> fd" "attached k = Some (m', fd')" "m' \<noteq> flags AND XDP_FLAGS_MODES"
  shows "bpf_set_link_xdp_fd env dev fd flags k = (- EEXIST, k)"
  using link_law_answers(1) [OF assms(1,2), of k flags] assms(3,4) by (simp add: set_answer_def)

lemma link_set_same:
  assumes "link_law env dev attached" "0 \<le> fd" "attached k = Some (flags AND XDP_FLAGS_MODES, fd')"
  shows "if flags AND XDP_FLAGS_UPDATE_IF_NOEXIST \<noteq> 0 then bpf_set_link_xdp_fd env dev fd flags k = (- EBUSY, k)
    else \<exists>k'. bpf_set_link_xdp_fd env dev fd flags k = (0, k') \<and> attached k' = Some (flags AND XDP_FLAGS_MODES, fd)"
  using link_law_answers(1) [OF assms(1,2), of k flags] assms(3) by (simp add: set_answer_def)

lemma link_remove:
  assumes "link_law env dev attached" "attached k = Some (flags AND XDP_FLAGS_MODES, fd')"
  shows "\<exists>k'. bpf_set_link_xdp_fd env dev (-1) flags k = (0, k') \<and> attached k' = None"
  using link_law_answers(2) [OF assms(1), of k flags] assms(2) by (simp add: remove_answer_def)

text \<open>Without the flag that forbids it, attaching replaces whatever is attached.\<close>

lemma attach_force:
  assumes "link_law env dev attached" "0 \<le> fd" "simple_mode mode"
    "\<forall>m' fd'. attached k = Some (m', fd') \<longrightarrow> simple_mode m'"
  shows "\<exists>k'. xdp_link_attach env dev mode fd k = (EXIT_OK, k') \<and> attached k' = Some (mode, fd)"
proof -
  have mode: "mode AND XDP_FLAGS_MODES = mode" "mode AND XDP_FLAGS_UPDATE_IF_NOEXIST = 0"
    using simple_modes assms(3) by blast+
  consider "attached k = None" | fd' where "attached k = Some (mode, fd')"
    | m' fd' where "attached k = Some (m', fd')" "m' \<noteq> mode" by fastforce
  then show ?thesis
  proof cases
    case 1
    then show ?thesis
      using link_set_free [OF assms(1,2) 1, of mode] mode by (auto simp: xdp_link_attach_def EEXIST_def)
  next
    case (2 fd')
    then show ?thesis
      using link_set_same [OF assms(1,2), of k mode fd'] mode by (auto simp: xdp_link_attach_def EEXIST_def)
  next
    case (3 m' fd')
    have m': "m' = other_mode mode" using simple_modes(4) assms(3,4) 3 by blast
    have opposite: "(mode AND NOT XDP_FLAGS_MODES) OR (if mode AND XDP_FLAGS_SKB_MODE \<noteq> 0 then XDP_FLAGS_DRV_MODE else XDP_FLAGS_SKB_MODE)
        = other_mode mode"
      using assms(3) by (auto simp: simple_mode_def other_mode_def xdp_flags_defs)
    have "attached k = Some (other_mode mode AND XDP_FLAGS_MODES, fd')"
      using 3 m' simple_modes(1,2) assms(3) by simp
    then obtain k1 where k1: "bpf_set_link_xdp_fd env dev (-1) (other_mode mode) k = (0, k1)" "attached k1 = None"
      using link_remove [OF assms(1)] by blast
    obtain k2 where k2: "bpf_set_link_xdp_fd env dev fd mode k1 = (0, k2)" "attached k2 = Some (mode, fd)"
      using link_set_free [OF assms(1,2) k1(2), of mode] mode by auto
    have "bpf_set_link_xdp_fd env dev fd mode k = (- EEXIST, k)"
      using link_set_taken [OF assms(1,2) 3(1), of mode] 3(2) mode by simp
    then show ?thesis
      using k1 k2 opposite mode by (simp add: xdp_link_attach_def Let_def)
  qed
qed

lemma and_or_noexist:
  assumes "simple_mode mode"
  shows "(mode OR XDP_FLAGS_UPDATE_IF_NOEXIST) AND XDP_FLAGS_MODES = mode"
    "(mode OR XDP_FLAGS_UPDATE_IF_NOEXIST) AND XDP_FLAGS_UPDATE_IF_NOEXIST \<noteq> 0"
  using assms by (auto simp: simple_mode_def xdp_flags_defs)

text \<open>With it, an attached program stays.\<close>

lemma attach_noexist:
  assumes "link_law env dev attached" "0 \<le> fd" "simple_mode mode" "attached k = Some (m', fd')"
  shows "xdp_link_attach env dev (mode OR XDP_FLAGS_UPDATE_IF_NOEXIST) fd k = (EXIT_FAIL_XDP, k)"
proof (cases "m' = mode")
  case True
  then show ?thesis
    using link_set_same [OF assms(1,2), of k "mode OR XDP_FLAGS_UPDATE_IF_NOEXIST" fd'] assms(4) and_or_noexist [OF assms(3)]
    by (simp add: xdp_link_attach_def EBUSY_def EEXIST_def)
next
  case False
  then show ?thesis
    using link_set_taken [OF assms(1,2,4), of "mode OR XDP_FLAGS_UPDATE_IF_NOEXIST"] and_or_noexist [OF assms(3)]
    by (simp add: xdp_link_attach_def EEXIST_def)
qed

section \<open>Properties\<close>

text \<open>A concrete interface for the witnesses: its state is the attached program.\<close>

definition demo_link_env :: "(u32 \<times> int) option bpf_env" where
  "demo_link_env = \<lparr>bpf_obj_get = (\<lambda>path k. (3, k)),
     bpf_obj_get_info_by_fd = (\<lambda>fd i k. (0, i, k)),
     bpf_map_update_elem = (\<lambda>fd a v k. (0, k)),
     bpf_map_delete_elem = (\<lambda>fd a k. (0, k)),
     bpf_set_link_xdp_fd = (\<lambda>dev fd flags k.
       let m = flags AND XDP_FLAGS_MODES in
       if fd = -1 then (0, case k of None \<Rightarrow> None | Some (m', fd') \<Rightarrow> if m' = m then None else k)
       else case k of
         None \<Rightarrow> (0, Some (m, fd))
       | Some (m', fd') \<Rightarrow>
           if m' \<noteq> m then (- EEXIST, k)
           else if flags AND XDP_FLAGS_UPDATE_IF_NOEXIST \<noteq> 0 then (- EBUSY, k) else (0, Some (m, fd))),
     bpf_get_link_xdp_id = (\<lambda>dev flags k. (0, case k of None \<Rightarrow> 0 | Some _ \<Rightarrow> 42, k))\<rparr>"

lemma demo_link: "link_law demo_link_env dev id"
  by (auto simp: link_law_def set_answer_def remove_answer_def demo_link_env_def Let_def split: option.split)

definition demo_obj_env :: "(u32 \<times> int) option obj_env" where
  "demo_obj_env = \<lparr>base = demo_link_env,
     bpf_prog_load_xattr = (\<lambda>file ifidx k. (0, \<lparr>progs = [\<lparr>title = ''xdp_pass'', prog_fd = 5, prog_type = 6, prog_ifindex = 0, attach_type = 0\<rparr>,
       \<lparr>title = ''xdp_packet_parser'', prog_fd = 6, prog_type = 6, prog_ifindex = 0, attach_type = 0\<rparr>], obj_maps = []\<rparr>, k)),
     bpf_object_open = (\<lambda>file ty k. (Some \<lparr>progs = [\<lparr>title = ''xdp_pass'', prog_fd = 5, prog_type = 6, prog_ifindex = 0, attach_type = 0\<rparr>],
       obj_maps = [\<lparr>map_name = ''m'', map_fd = -1, map_ifindex = 0, offload_neutral = False\<rparr>]\<rparr>, k)),
     bpf_object_load = (\<lambda>obj k. (0, obj, k)),
     bpf_map_reuse_fd = (\<lambda>m fd k. (0, m\<lparr>map_fd := fd\<rparr>, k)),
     bpf_map_pin = (\<lambda>m path k. (0, k)),
     bpf_object_pin_maps = (\<lambda>obj path k. (0, k)),
     bpf_object_unpin_maps = (\<lambda>obj path k. (0, k)),
     file_exists = (\<lambda>path k. False)\<rparr>"

text \<open>C26. Attaching in generic or native mode: without the flag \<open>UPDATE_IF_NOEXIST\<close> the program
replaces whatever is attached, also a program of the opposite mode, which is first removed; with the
flag an attached program stays and the call fails.\<close>

theorem attach_replaces_or_keeps:
  assumes "link_law env dev attached" "0 \<le> fd" "simple_mode mode"
    "\<forall>m' fd'. attached k = Some (m', fd') \<longrightarrow> simple_mode m'"
  shows "(\<exists>k'. xdp_link_attach env dev mode fd k = (EXIT_OK, k') \<and> attached k' = Some (mode, fd)) \<and>
    (attached k \<noteq> None \<longrightarrow>
       xdp_link_attach env dev (mode OR XDP_FLAGS_UPDATE_IF_NOEXIST) fd k = (EXIT_FAIL_XDP, k))"
  using attach_force [OF assms] attach_noexist [OF assms(1-3)] by fastforce

lemma attach_replaces_or_keeps_witness:
  "(\<exists>k'. xdp_link_attach demo_link_env 7 XDP_FLAGS_DRV_MODE 5 (Some (XDP_FLAGS_SKB_MODE, 4)) = (EXIT_OK, k') \<and>
     k' = Some (XDP_FLAGS_DRV_MODE, 5))"
  using attach_replaces_or_keeps [OF demo_link, of 5 XDP_FLAGS_DRV_MODE "Some (XDP_FLAGS_SKB_MODE, 4)" 7]
  by (simp add: simple_mode_def)

text \<open>What the loader attaches: when loading succeeds, the attached program belongs to the loaded
object, has a positive descriptor and was attached with the configured flags; it is the first program
of the requested section if one was given and the first program otherwise; and the section recorded in
the configuration is its title, cut off at 32 characters.\<close>

theorem loader_attaches_selected:
  assumes "load_bpf_and_xdp_attach env cfg k = Some (Inr (obj, cfg'), k')"
  shows "\<exists>prog k1. prog \<in> set (progs obj) \<and> 0 < prog_fd prog \<and>
    xdp_link_attach (base env) (ifindex cfg) (xdp_flags cfg) (prog_fd prog) k1 = (EXIT_OK, k') \<and>
    cfg' = cfg\<lparr>progsec := strncpy (title prog) 32\<rparr> \<and>
    (if progsec cfg ! 0 = CHR 0x00 then prog = hd (progs obj)
     else c_string (progsec cfg) = Some (title prog))"
proof -
  from assms obtain k1 where "load_object env cfg k = Some (Some obj, k1)"
      and "\<exists>prog. select_program cfg obj = Some (Some prog) \<and> 0 < prog_fd prog \<and>
        xdp_link_attach (base env) (ifindex cfg) (xdp_flags cfg) (prog_fd prog) k1 = (EXIT_OK, k') \<and>
        cfg' = cfg\<lparr>progsec := strncpy (title prog) 32\<rparr>"
    by (auto simp: load_bpf_and_xdp_attach_def Let_def EXIT_OK_def
        split: Option.bind_splits if_splits option.splits prod.splits)
  then show ?thesis using select_program_Some by blast
qed

lemma loader_attaches_selected_witness:
  "\<exists>obj cfg' k'. load_bpf_and_xdp_attach demo_obj_env
      (loader_config\<lparr>ifindex := 7, progsec := strncpy ''xdp_packet_parser'' 32\<rparr>) None = Some (Inr (obj, cfg'), k') \<and>
    (\<exists>prog\<in>set (progs obj). title prog = ''xdp_packet_parser'')"
proof -
  let ?cfg = "loader_config\<lparr>ifindex := 7, progsec := strncpy ''xdp_packet_parser'' 32\<rparr>"
  have sec: "c_string (strncpy ''xdp_packet_parser'' 32) = Some ''xdp_packet_parser''"
    "c_string (strncpy ''xdp_prog_kern.o'' 512) = Some ''xdp_prog_kern.o''"
    by (subst c_string_strncpy; simp)+
  have first: "strncpy ''xdp_packet_parser'' 32 ! 0 = CHR ''x''" by (simp add: strncpy_def)
  have "\<exists>obj cfg' k'. load_bpf_and_xdp_attach demo_obj_env ?cfg None = Some (Inr (obj, cfg'), k')"
    by (simp add: load_bpf_and_xdp_attach_def load_object_def select_program_def loader_config_def
        config_init_def sec first load_bpf_object_file_def demo_obj_env_def demo_link_env_def
        xdp_link_attach_def xdp_flags_defs EEXIST_def EXIT_OK_def)
  then obtain obj cfg' k' where r: "load_bpf_and_xdp_attach demo_obj_env ?cfg None = Some (Inr (obj, cfg'), k')"
    by blast
  obtain prog where "prog \<in> set (progs obj)" "c_string (progsec ?cfg) = Some (title prog)"
    using loader_attaches_selected [OF r] first by auto
  with r sec show ?thesis by auto
qed

text \<open>Replacing a map by a pinned one while other pinned maps follow reads freed memory:
\<open>bpf_map__reuse_fd\<close> frees the name that the loop goes on comparing with.\<close>

theorem reuse_reads_freed_name:
  assumes "attr_file attr = Some fname" "bpf_object_open env fname (attr_prog_type attr) k = (Some obj, kopen)"
    "obj_maps obj = m # ms" "attr_pinned_maps attr = p # q # ps" "pm_name p = map_name m"
    "bpf_obj_get (base env) (pm_filename p) kopen = (fd, kget)" "0 < fd"
    "\<And>m' fd k. fst (bpf_map_reuse_fd env m' fd k) = 0"
  shows "bpf_prog_load_xattr_maps env (Some attr) k = None"
proof -
  have "reuse_pins env (Some (map_name m)) m' (p' # q' # ps') kopen = None"
    if "pm_name p' = pm_name p" "pm_filename p' = pm_filename p" for m' p' q' ps'
  proof -
    obtain e m2 k3 where r: "bpf_map_reuse_fd env m' fd kget = (e, m2, k3)" by (cases "bpf_map_reuse_fd env m' fd kget")
    then have "e = 0" using assms(8) [of m' fd kget] by simp
    with that assms(5-7) r show ?thesis by simp
  qed
  then show ?thesis
    using assms(1-5)
    by (cases "offload_neutral m") (simp_all add: bpf_prog_load_xattr_maps_def Let_def del: reuse_pins.simps)
qed

lemma reuse_reads_freed_name_witness:
  "bpf_prog_load_xattr_maps demo_obj_env (Some \<lparr>attr_file = Some ''f'', attr_prog_type = 6, attr_expected_attach_type = 0,
     attr_ifindex = 0, attr_pinned_maps = [\<lparr>pm_name = ''m'', pm_filename = ''/p'', pm_map_fd = 0\<rparr>,
       \<lparr>pm_name = ''n'', pm_filename = ''/q'', pm_map_fd = 0\<rparr>]\<rparr>) None = None"
  by (rule reuse_reads_freed_name [where env = demo_obj_env and fname = "''f''" and kopen = None
        and m = "\<lparr>map_name = ''m'', map_fd = -1, map_ifindex = 0, offload_neutral = False\<rparr>"
        and p = "\<lparr>pm_name = ''m'', pm_filename = ''/p'', pm_map_fd = 0\<rparr>" and q = "\<lparr>pm_name = ''n'', pm_filename = ''/q'', pm_map_fd = 0\<rparr>" and ps = "[]"
        and obj = "\<lparr>progs = [\<lparr>title = ''xdp_pass'', prog_fd = 5, prog_type = 6, prog_ifindex = 0, attach_type = 0\<rparr>],
          obj_maps = [\<lparr>map_name = ''m'', map_fd = -1, map_ifindex = 0, offload_neutral = False\<rparr>]\<rparr>"
        and fd = 3 and kget = None])
     (simp_all add: demo_obj_env_def demo_link_env_def)

end
