(* ===== verification/Trace_Read.thy ===== *)
theory Trace_Read
  imports Text Xdp_Kernel
begin

text \<open>
  main/trace_read.c: reading the kernel's trace pipe, where the log lines of the XDP program
  appear, and printing the interesting parts of each line. Printed text is the result; a NULL
  pointer handed to a string function and a write outside \<open>action[6]\<close> are faults.
\<close>

section \<open>The reader\<close>

definition print_ip_addr :: "string \<Rightarrow> string option \<Rightarrow> string option" where
  "print_ip_addr key value = do {
     v \<leftarrow> value;
     case scan_uint v of
       Scan_ok addr _ \<Rightarrow> Some (key @ '': '' @ inet_ntop addr @ '' '')
     | _ \<Rightarrow> Some []
   }"

text \<open>
  \<open>strncmp(tok, key, n) == 0\<close> for a token that is not NULL. The code compares 5 characters of
  \<open>action:\<close> and 6 of \<open>reason:\<close>.
\<close>

definition tok_is :: "string option \<Rightarrow> string \<Rightarrow> nat \<Rightarrow> bool option" where
  "tok_is tok key n = map_option (\<lambda>t. take n t = take n key) tok"

text \<open>The four tests of one round; the state is the output so far, \<open>action\<close>, \<open>tok\<close> and \<open>saveptr\<close>.\<close>

definition read_action :: "string \<times> string \<times> string option \<times> string \<Rightarrow> (string \<times> string \<times> string option \<times> string) option" where
  "read_action = (\<lambda>(out, action, tok, save). do {
     b \<leftarrow> tok_is tok ''action:'' 5;
     if b then do {
       let (tok, save) = strtok_r (CHR '','') save;
       t \<leftarrow> tok;
       case scan_token t of
         Scan_ok w _ \<Rightarrow> if 6 \<le> length w then None
           else Some (out @ ''action: '' @ w @ '' '', w, tok, save)
       | Scan_eof \<Rightarrow> Some (out @ ''action: '' @ action @ '' '', action, tok, save)
       | Scan_fail _ \<Rightarrow> Some (out, action, tok, save)
     } else Some (out, action, tok, save)
   })"

definition read_ip :: "string \<Rightarrow> string \<times> string \<times> string option \<times> string \<Rightarrow> (string \<times> string \<times> string option \<times> string) option" where
  "read_ip key = (\<lambda>(out, action, tok, save). do {
     b \<leftarrow> tok_is tok (key @ '':'') 4;
     if b then do {
       let (tok, save) = strtok_r (CHR '' '') save;
       p \<leftarrow> print_ip_addr key tok;
       Some (out @ p, action, tok, save)
     } else Some (out, action, tok, save)
   })"

definition read_reason :: "string \<times> string \<times> string option \<times> string \<Rightarrow> (string \<times> string \<times> string option \<times> string) option" where
  "read_reason = (\<lambda>(out, action, tok, save). do {
     b \<leftarrow> tok_is tok ''reason:'' 6;
     Some (if b then out @ ''reason: '' @ save @ '' '' else out, action, tok, save)
   })"

definition token_step :: "string \<Rightarrow> string \<Rightarrow> string \<Rightarrow> (string \<times> string \<times> string option \<times> string) option" where
  "token_step action t save = do {
     s \<leftarrow> read_action ([], action, Some t, save);
     s \<leftarrow> read_ip ''src'' s;
     s \<leftarrow> read_ip ''dst'' s;
     read_reason s
   }"

lemma strtok_r_shorter: "strtok_r d s = (Some t, s') \<Longrightarrow> length s' < length s"
proof -
  assume *: "strtok_r d s = (Some t, s')"
  let ?t = "dropWhile (\<lambda>c. c = d) s"
  have "?t \<noteq> []" "s' = drop 1 (dropWhile (\<lambda>c. c \<noteq> d) ?t)"
    using * by (auto simp: strtok_r_def Let_def split: if_splits)
  moreover have "hd ?t \<noteq> d" using hd_dropWhile [OF \<open>?t \<noteq> []\<close>] .
  ultimately have "length s' < length ?t"
    by (cases ?t) (auto simp: less_Suc_eq_le intro: le_trans [OF diff_le_self length_dropWhile_le])
  then show ?thesis using length_dropWhile_le less_le_trans by blast
qed

lemma strtok_r_le: "strtok_r d s = (tok, s') \<Longrightarrow> length s' \<le> length s"
  using strtok_r_length [of d s] by auto

lemma token_step_save:
  "token_step action t save = Some (out, a', tok, save') \<Longrightarrow> length save' \<le> length save"
  by (auto simp: token_step_def read_action_def read_ip_def read_reason_def tok_is_def Let_def
      split: Option.bind_splits if_splits prod.splits scan.splits dest!: strtok_r_le)

text \<open>The loop over the tokens of a line; it returns what is printed and the final \<open>action\<close>.\<close>

function token_loop :: "string \<Rightarrow> string \<Rightarrow> string \<Rightarrow> (string \<times> string) option" where
  "token_loop action t save = do {
     (out, action, tok, save) \<leftarrow> token_step action t save;
     case strtok_r (CHR '' '') save of
       (None, _) \<Rightarrow> Some (out, action)
     | (Some t, save) \<Rightarrow> do {
         (rest, action) \<leftarrow> token_loop action t save;
         Some (out @ rest, action)
       }
   }"
  by pat_completeness auto

termination
  by (relation "measure (\<lambda>(action, t, save). length save)")
     (auto dest!: token_step_save strtok_r_shorter [OF sym])

declare token_loop.simps [simp del]

text \<open>One line of \<open>getline\<close>, and the whole pipe as the list of its lines.\<close>

definition trace_line :: "string \<Rightarrow> string \<Rightarrow> (string \<times> string) option" where
  "trace_line action line =
     (case strtok_r (CHR '' '') line of
        (None, _) \<Rightarrow> Some ([CHR 0x0A], action)
      | (Some t, save) \<Rightarrow> do {
          (out, action) \<leftarrow> token_loop action t save;
          Some (out @ [CHR 0x0A], action)
        })"

fun trace_lines :: "string \<Rightarrow> string list \<Rightarrow> string option" where
  "trace_lines action [] = Some []"
| "trace_lines action (l # ls) = do {
     (out, action) \<leftarrow> trace_line action l;
     rest \<leftarrow> trace_lines action ls;
     Some (out @ rest)
   }"

text \<open>\<open>EXIT_FAILURE\<close> when the pipe cannot be opened; \<open>action\<close> is not initialised.\<close>

definition trace_main :: "string \<Rightarrow> string list option \<Rightarrow> (int \<times> string) option" where
  "trace_main action stream =
     (case stream of
        None \<Rightarrow> Some (1, [])
      | Some ls \<Rightarrow> do { out \<leftarrow> trace_lines action ls; Some (0, out) })"

section \<open>Log lines\<close>

text \<open>A word has no space in it; an inert word is one no test of the reader matches.\<close>

definition word_ok :: "string \<Rightarrow> bool" where
  "word_ok w \<longleftrightarrow> w \<noteq> [] \<and> CHR '' '' \<notin> set w"

definition inert :: "string \<Rightarrow> bool" where
  "inert w \<longleftrightarrow> take 5 w \<noteq> ''actio'' \<and> take 4 w \<noteq> ''src:'' \<and> take 4 w \<noteq> ''dst:'' \<and> take 6 w \<noteq> ''reason''"

text \<open>Words, each followed by a space.\<close>

definition spaced :: "string list \<Rightarrow> string" where
  "spaced ws = concat (map (\<lambda>w. w @ '' '') ws)"

lemma spaced_simps: "spaced [] = []" "spaced (w # ws) = w @ CHR '' '' # spaced ws"
  by (simp_all add: spaced_def)

lemma strtok_word: "word_ok w \<Longrightarrow> strtok_r (CHR '' '') (w @ CHR '' '' # r) = (Some w, r)"
  by (intro strtok_r_at) (auto simp: word_ok_def)

lemma strtok_last: "word_ok w \<Longrightarrow> strtok_r (CHR '' '') w = (Some w, [])"
proof -
  assume w: "word_ok w"
  have "dropWhile (\<lambda>c. c = CHR '' '') w = w" using w by (cases w) (auto simp: word_ok_def)
  moreover have "takeWhile (\<lambda>c. c \<noteq> CHR '' '') w = w" "dropWhile (\<lambda>c. c \<noteq> CHR '' '') w = []"
    using w by (auto simp: word_ok_def takeWhile_eq_all_conv)
  ultimately have "strtok_r (CHR '' '') w = (if w = [] then (None, []) else (Some w, drop 1 []))"
    by (simp only: strtok_r_def Let_def)
  then show ?thesis using w by (simp add: word_ok_def)
qed

lemma token_step_inert: "inert t \<Longrightarrow> token_step a t save = Some ([], a, Some t, save)"
  by (simp add: token_step_def read_action_def read_ip_def read_reason_def tok_is_def inert_def)

lemma token_loop_words:
  assumes "inert t" "\<forall>w\<in>set pre. word_ok w \<and> inert w" "strtok_r (CHR '' '') tail = (Some t', save')"
  shows "token_loop a t (spaced pre @ tail) = token_loop a t' save'"
  using assms(1,2)
proof (induction pre arbitrary: t)
  case Nil
  then show ?case
    using assms(3)
    by (subst token_loop.simps) (cases "token_loop a t' save'"; simp add: token_step_inert spaced_simps)
next
  case (Cons w pre)
  then have "token_loop a w (spaced pre @ tail) = token_loop a t' save'" by simp
  then show ?case
    using Cons.prems strtok_word [of w "spaced pre @ tail"]
    by (subst token_loop.simps) (cases "token_loop a t' save'"; simp add: token_step_inert spaced_simps)
qed

lemma token_loop_rest:
  assumes "inert t" "\<forall>w\<in>set ws. word_ok w \<and> inert w" "word_ok w" "inert w"
  shows "token_loop a t (spaced ws @ w) = Some ([], a)"
proof -
  have "token_loop a w [] = Some ([], a)"
    using assms(4) by (subst token_loop.simps) (simp add: token_step_inert strtok_r_def)
  then show ?thesis using token_loop_words [OF assms(1,2) strtok_last [OF assms(3)]] by simp
qed

lemma trace_line_words:
  assumes "\<forall>w\<in>set pre. word_ok w \<and> inert w" "strtok_r (CHR '' '') tail = (Some t, save)"
  shows "trace_line a (spaced pre @ tail) = do { (out, a) \<leftarrow> token_loop a t save; Some (out @ [CHR 0x0A], a) }"
proof (cases pre)
  case Nil
  then show ?thesis using assms(2) by (simp add: trace_line_def spaced_simps)
next
  case (Cons w ws)
  then have "token_loop a w (spaced ws @ tail) = token_loop a t save"
    using assms by (intro token_loop_words) auto
  then show ?thesis
    using Cons assms(1) strtok_word [of w "spaced ws @ tail"] by (simp add: trace_line_def spaced_simps)
qed

text \<open>The three parts of a log line that the reader knows.\<close>

lemma action_part:
  assumes "word_ok act" "inert act" "length act < 6" "\<forall>c\<in>set act. \<not> c_isspace c \<and> c \<noteq> CHR '',''"
  shows "token_step a ''action:'' (act @ CHR '','' # r) = Some (''action: '' @ act @ '' '', act, Some act, r)"
proof -
  have "strtok_r (CHR '','') (act @ CHR '','' # r) = (Some act, r)"
    using assms by (intro strtok_r_at) (auto simp: word_ok_def)
  moreover have "scan_token ([] @ act @ []) = Scan_ok act []"
    using assms by (intro scan_token_at) (auto simp: word_ok_def)
  ultimately show ?thesis
    using assms(2,3) by (simp add: token_step_def read_action_def read_ip_def read_reason_def tok_is_def inert_def)
qed

lemma digits_word:
  "word_ok (show_nat n @ '','')" "inert (show_nat n @ '','')"
proof -
  have d: "c_isdigit (hd (show_nat n))" by (rule show_nat_hd_digit)
  obtain c cs where e: "show_nat n = c # cs" by (cases "show_nat n") auto
  show "word_ok (show_nat n @ '','')"
    using show_nat_digits [of n] by (auto simp: word_ok_def c_isdigit_def)
  show "inert (show_nat n @ '','')"
    using d e by (auto simp: inert_def c_isdigit_def)
qed

lemma ip_part:
  assumes "key = ''src'' \<or> key = ''dst''"
  shows "token_step a (key @ '':'') (show_nat (unat v) @ CHR '','' # CHR '' '' # r)
    = Some (key @ '': '' @ inet_ntop v @ '' '', a, Some (show_nat (unat v) @ '',''), r)"
proof -
  have "strtok_r (CHR '' '') (show_nat (unat v) @ CHR '','' # CHR '' '' # r) = (Some (show_nat (unat v) @ '',''), r)"
    using strtok_word [OF digits_word(1) [of "unat v"], of r] by simp
  moreover have "scan_uint ([] @ show_nat (unat v) @ '','') = Scan_ok v '',''"
    by (rule scan_uint_show) (simp_all add: c_isdigit_def)
  ultimately show ?thesis
    using assms digits_word(2) [of "unat v"]
    by (auto simp: token_step_def read_action_def read_ip_def read_reason_def tok_is_def inert_def print_ip_addr_def)
qed

text \<open>A whole log line behind the words the kernel puts in front of it.\<close>

lemma trace_line_message:
  assumes hpre: "\<forall>w\<in>set pre. word_ok w \<and> inert w"
    and hact: "word_ok act" "inert act" "length act < 6" "\<forall>c\<in>set act. \<not> c_isspace c \<and> c \<noteq> CHR '',''"
    and htag: "word_ok tag" "take 6 tag = ''reason''"
    and hrest: "\<forall>w\<in>set ws. word_ok w \<and> inert w" "word_ok w" "inert w"
  shows "trace_line a (spaced pre @ ''action: '' @ act @ '', src: '' @ show_nat (unat s) @ '', dst: '' @
      show_nat (unat d) @ '', '' @ tag @ '' '' @ spaced ws @ w)
    = Some (''action: '' @ act @ '' src: '' @ inet_ntop s @ '' dst: '' @ inet_ntop d @ '' reason: '' @
        spaced ws @ w @ '' '' @ [CHR 0x0A], act)"
proof -
  let ?dst = "show_nat (unat d) @ CHR '','' # CHR '' '' # tag @ CHR '' '' # spaced ws @ w"
  let ?src = "show_nat (unat s) @ CHR '','' # CHR '' '' # ''dst:'' @ CHR '' '' # ?dst"
  have reason: "token_step act tag (spaced ws @ w) = Some (''reason: '' @ spaced ws @ w @ '' '', act, Some tag, spaced ws @ w)"
  proof -
    have "take 5 tag = take 5 (take 6 tag)" "take 4 tag = take 4 (take 6 tag)" by simp_all
    then show ?thesis
      using htag(2) by (simp add: token_step_def read_action_def read_ip_def read_reason_def tok_is_def del: take_take)
  qed
  have r: "token_loop act tag (spaced ws @ w) = Some (''reason: '' @ spaced ws @ w @ '' '', act)"
  proof (cases ws)
    case Nil
    then show ?thesis
      using reason hrest strtok_last [OF hrest(2)] token_loop_rest [of w "[]" w act]
      by (subst token_loop.simps)
         (simp add: spaced_simps, subst token_loop.simps, simp add: token_step_inert strtok_r_def)
  next
    case (Cons u us)
    then show ?thesis
      using reason hrest strtok_word [of u "spaced us @ w"] token_loop_rest [of u us w act]
      by (subst token_loop.simps) (simp add: spaced_simps)
  qed
  have dst: "token_loop act ''dst:'' ?dst = Some (''dst: '' @ inet_ntop d @ '' reason: '' @ spaced ws @ w @ '' '', act)"
    using ip_part [of "''dst''" act d "tag @ CHR '' '' # spaced ws @ w"] r strtok_word [OF htag(1), of "spaced ws @ w"]
    by (subst token_loop.simps) simp
  have "strtok_r (CHR '' '') (''dst:'' @ CHR '' '' # ?dst) = (Some ''dst:'', ?dst)"
    by (intro strtok_word) (simp add: word_ok_def)
  with dst have src: "token_loop act ''src:'' ?src
      = Some (''src: '' @ inet_ntop s @ '' dst: '' @ inet_ntop d @ '' reason: '' @ spaced ws @ w @ '' '', act)"
    using ip_part [of "''src''" act s "''dst:'' @ CHR '' '' # ?dst"]
    by (subst token_loop.simps) simp
  have "strtok_r (CHR '' '') (CHR '' '' # ''src:'' @ CHR '' '' # ?src) = strtok_r (CHR '' '') (''src:'' @ CHR '' '' # ?src)"
    by (simp add: strtok_r_def)
  also have "\<dots> = (Some ''src:'', ?src)" by (intro strtok_word) (simp add: word_ok_def)
  finally have "token_loop a ''action:'' (act @ CHR '','' # CHR '' '' # ''src:'' @ CHR '' '' # ?src)
      = Some (''action: '' @ act @ '' src: '' @ inet_ntop s @ '' dst: '' @ inet_ntop d @ '' reason: '' @
          spaced ws @ w @ '' '', act)"
    using src action_part [OF hact, of a "CHR '' '' # ''src:'' @ CHR '' '' # ?src"]
    by (subst token_loop.simps) simp
  then have run: "token_loop a ''action:'' (act @ CHR '','' # CHR '' '' # ''src:'' @ CHR '' '' # ?src)
      = Some (''action: '' @ act @ '' src: '' @ inet_ntop s @ '' dst: '' @ inet_ntop d @ '' reason: '' @
          spaced ws @ w @ '' '', act)" .
  have tok: "strtok_r (CHR '' '') (''action:'' @ CHR '' '' # act @ CHR '','' # CHR '' '' # ''src:'' @ CHR '' '' # ?src)
      = (Some ''action:'', act @ CHR '','' # CHR '' '' # ''src:'' @ CHR '' '' # ?src)"
    by (intro strtok_word) (simp add: word_ok_def)
  show ?thesis using trace_line_words [OF hpre tok, of a] run by simp
qed

section \<open>Properties\<close>

text \<open>What \<open>bpf_trace_printk\<close> makes of a format with \<open>%u\<close> and its arguments.\<close>

fun render :: "string \<Rightarrow> u32 list \<Rightarrow> string" where
  "render [] as = []"
| "render [c] as = [c]"
| "render (c # c' # f) as =
     (if c = CHR ''%'' \<and> c' = CHR ''u'' \<and> as \<noteq> [] then show_nat (unat (hd as)) @ render f (tl as)
      else c # render (c' # f) as)"

text \<open>The formats of the XDP program: the verdict, the key of the reason and the reason.\<close>

definition xdp_formats :: "(string \<times> string \<times> string) list" where
  "xdp_formats = [(''PASS'', ''reason_1:'', ''IP in WHITE LIST''), (''DROP'', ''reason_1:'', ''IP in BLACK LIST''),
     (''DROP'', ''reason_id:'', ''Fragmented ICMP Packet''), (''DROP'', ''reason_id:'', ''Large ICMP Packet''),
     (''DROP'', ''reason_id:'', ''Fragmented TCP Packet'')]"

definition xdp_format :: "string \<times> string \<times> string \<Rightarrow> string" where
  "xdp_format = (\<lambda>(verdict, key, reason).
     ''action: '' @ verdict @ '', src: %u, dst: %u, '' @ key @ '' '' @ reason @ [CHR 0x0A])"



text \<open>The reader's tests compare too few characters: every token that starts with \<open>actio\<close> counts
as the action key, so a line that ends with such a word makes the reader hand a NULL pointer to \<open>sscanf\<close>.\<close>

theorem action_prefix_faults:
  assumes "\<forall>w\<in>set pre. word_ok w \<and> inert w" "word_ok w" "take 5 w = ''actio''"
  shows "trace_line a (spaced pre @ w) = None"
proof -
  have "token_step a w [] = None"
    using assms(3) by (simp add: token_step_def read_action_def tok_is_def strtok_r_def)
  then have "token_loop a w [] = None" by (subst token_loop.simps) simp
  then show ?thesis by (simp add: trace_line_words [OF assms(1) strtok_last [OF assms(2)]])
qed

lemma action_prefix_faults_witness: "trace_line [] ''eth0 actions'' = None"
  using action_prefix_faults [of "[''eth0'']" "''actions''" "[]"]
  by (simp add: word_ok_def inert_def spaced_def)

end
