(* ===== verification/Xdp_Stats.thy ===== *)
theory Xdp_Stats
  imports Complex_Main Update_List
begin

text \<open>
  main/xdp_stats.c: reading the per-CPU counters of the XDP program and printing their rates.

  Each reading of one key takes the time and looks the key up; \<open>clock n\<close> and \<open>lookup n\<close> are what the
  n-th reading finds: the result, seconds and nanoseconds of \<open>clock_gettime\<close>, and the values of a
  key (one per CPU for a per-CPU map), \<^term>\<open>None\<close> when \<open>bpf_map_lookup_elem\<close> fails. Quotients of
  type double are exact rationals: the rounding of floating point is not modelled. A printed line is
  the tuple of its values.
\<close>

section \<open>Time\<close>

definition NANOSEC_PER_SEC :: u64 where "NANOSEC_PER_SEC = 1000000000"

text \<open>\<open>Inl\<close> is \<open>exit\<close>.\<close>

definition gettime :: "int \<times> u64 \<times> u64 \<Rightarrow> int + u64" where
  "gettime = (\<lambda>(res, tv_sec, tv_nsec).
     if res < 0 then Inl EXIT_FAIL else Inr (tv_sec * NANOSEC_PER_SEC + tv_nsec))"

record stat_record =
  timestamp :: u64
  total :: datarec

definition calc_period :: "stat_record \<Rightarrow> stat_record \<Rightarrow> rat" where
  "calc_period r p =
     (let period = timestamp r - timestamp p in
      if period > 0 then of_nat (unat period) / of_nat (unat NANOSEC_PER_SEC) else 0)"

section \<open>Reading the map\<close>

definition BPF_MAP_TYPE_ARRAY :: u32 where "BPF_MAP_TYPE_ARRAY = 2"
definition BPF_MAP_TYPE_PERCPU_ARRAY :: u32 where "BPF_MAP_TYPE_PERCPU_ARRAY = 6"

definition map_get_value_array :: "datarec list option \<Rightarrow> datarec \<Rightarrow> datarec" where
  "map_get_value_array found value = (case found of Some (v # _) \<Rightarrow> v | _ \<Rightarrow> value)"

text \<open>The loop over the CPUs; \<open>values\<close> has one element per CPU.\<close>

fun sum_values :: "datarec list \<Rightarrow> u64 \<Rightarrow> u64 \<Rightarrow> u64 \<times> u64" where
  "sum_values [] pkts bytes = (pkts, bytes)"
| "sum_values (v # vs) pkts bytes = sum_values vs (pkts + rx_packets v) (bytes + rx_bytes v)"

definition map_get_value_percpu_array :: "datarec list option \<Rightarrow> datarec \<Rightarrow> datarec" where
  "map_get_value_percpu_array found value =
     (case found of
        None \<Rightarrow> value
      | Some values \<Rightarrow>
          let (sum_pkts, sum_bytes) = sum_values values 0 0
          in value\<lparr>rx_packets := sum_pkts, rx_bytes := sum_bytes\<rparr>)"

text \<open>\<open>uninit\<close> is what the local variable \<open>value\<close> holds before it is filled.\<close>

definition map_collect ::
    "int \<times> u64 \<times> u64 \<Rightarrow> datarec list option \<Rightarrow> datarec \<Rightarrow> u32 \<Rightarrow> stat_record \<Rightarrow> int + bool \<times> stat_record"
  where
  "map_collect now found uninit mt rec =
     (case gettime now of
        Inl e \<Rightarrow> Inl e
      | Inr t \<Rightarrow>
          let rec = rec\<lparr>timestamp := t\<rparr> in
          if mt = BPF_MAP_TYPE_ARRAY then
            Inr (True, rec\<lparr>total := map_get_value_array found uninit\<rparr>)
          else if mt = BPF_MAP_TYPE_PERCPU_ARRAY then
            Inr (True, rec\<lparr>total := map_get_value_percpu_array found uninit\<rparr>)
          else Inr (False, rec))"

text \<open>One record per action; the \<open>n\<close>-th reading is that of the first key.\<close>

fun collect_loop ::
    "(nat \<Rightarrow> int \<times> u64 \<times> u64) \<Rightarrow> (nat \<Rightarrow> u32 \<Rightarrow> datarec list option) \<Rightarrow> (nat \<Rightarrow> datarec) \<Rightarrow> u32 \<Rightarrow>
     nat \<Rightarrow> u32 \<Rightarrow> stat_record list \<Rightarrow> int + stat_record list"
  where
  "collect_loop clock lookup uninit mt n key [] = Inr []"
| "collect_loop clock lookup uninit mt n key (r # rs) =
     (case map_collect (clock n) (lookup n key) (uninit n) mt r of
        Inl e \<Rightarrow> Inl e
      | Inr (_, r) \<Rightarrow>
          (case collect_loop clock lookup uninit mt (n + 1) (key + 1) rs of
             Inl e \<Rightarrow> Inl e
           | Inr rs \<Rightarrow> Inr (r # rs)))"

definition stats_collect where
  "stats_collect clock lookup uninit mt n stats_rec = collect_loop clock lookup uninit mt n 0 stats_rec"

section \<open>Printing\<close>

record stat_line =
  l_action :: "string option"
  l_packets :: u64
  l_pps :: rat
  l_kbytes :: u64
  l_mbits :: rat
  l_period :: rat

text \<open>The loop over the actions, left by \<open>return\<close> at the first record without a period.\<close>

fun print_loop :: "u32 \<Rightarrow> stat_record list \<Rightarrow> stat_record list \<Rightarrow> stat_line list" where
  "print_loop i (rec # recs) (prev # prevs) =
     (let action = action2str i; period = calc_period rec prev in
      if period = 0 then []
      else
        let packets = rx_packets (total rec) - rx_packets (total prev);
            pps = of_nat (unat packets) / period;
            nbytes = rx_bytes (total rec) - rx_bytes (total prev);
            bps = of_nat (unat (nbytes * 8)) / period / 1000000
        in \<lparr>l_action = action, l_packets = rx_packets (total rec), l_pps = pps,
             l_kbytes = rx_bytes (total rec) div 1000, l_mbits = bps, l_period = period\<rparr>
           # print_loop (i + 1) recs prevs)"
| "print_loop i _ _ = []"

definition stats_print :: "stat_record list \<Rightarrow> stat_record list \<Rightarrow> stat_line list" where
  "stats_print stats_rec stats_prev = print_loop 0 stats_rec stats_prev"

definition zero_stat :: stat_record where
  "zero_stat = \<lparr>timestamp = 0, total = \<lparr>rx_packets = 0, rx_bytes = 0\<rparr>\<rparr>"

text \<open>The endless loop, for a number of rounds; the result is what each round prints.\<close>

fun poll_rounds where
  "poll_rounds clock lookup uninit mt 0 n record = Inr []"
| "poll_rounds clock lookup uninit mt (Suc rounds) n record =
     (let prev = record in
      case stats_collect clock lookup uninit mt n record of
        Inl e \<Rightarrow> Inl e
      | Inr record \<Rightarrow>
          (case poll_rounds clock lookup uninit mt rounds (n + length record) record of
             Inl e \<Rightarrow> Inl e
           | Inr out \<Rightarrow> Inr (stats_print record prev # out)))"

definition stats_poll ::
    "(nat \<Rightarrow> int \<times> u64 \<times> u64) \<Rightarrow> (nat \<Rightarrow> u32 \<Rightarrow> datarec list option) \<Rightarrow> (nat \<Rightarrow> datarec) \<Rightarrow> u32 \<Rightarrow>
     nat \<Rightarrow> int + stat_line list list"
  where
  "stats_poll clock lookup uninit mt rounds =
     (let record = replicate (unat XDP_ACTION_MAX) zero_stat in
      case stats_collect clock lookup uninit mt 0 record of
        Inl e \<Rightarrow> Inl e
      | Inr record \<Rightarrow> poll_rounds clock lookup uninit mt rounds (length record) record)"

section \<open>The program\<close>

definition stats_options :: "option_wrapper list" where
  "stats_options =
    [\<lparr>opt_entry = \<lparr>opt_name = Some ''help'', has_arg = False, opt_val = 104\<rparr>, help_text = ''Show help'', metavar = None, required = False\<rparr>,
     \<lparr>opt_entry = \<lparr>opt_name = Some ''dev'', has_arg = True, opt_val = 100\<rparr>, help_text = ''Operate on device <ifname>'',
       metavar = Some ''<ifname>'', required = True\<rparr>,
     \<lparr>opt_entry = \<lparr>opt_name = Some ''quiet'', has_arg = False, opt_val = 113\<rparr>, help_text = ''Quiet mode (no output)'',
       metavar = None, required = False\<rparr>,
     \<lparr>opt_entry = \<lparr>opt_name = None, has_arg = False, opt_val = 0\<rparr>, help_text = [], metavar = None, required = False\<rparr>]"

text \<open>\<open>main\<close> up to the endless loop: an exit status, or the descriptor and the type of the map it polls.\<close>

definition stats_main :: "'k bpf_env \<Rightarrow> config \<Rightarrow> 'k \<Rightarrow> ((int + int \<times> u32) \<times> 'k) option" where
  "stats_main env cfg k =
     (if ifindex cfg = -1 then Some (Inl EXIT_FAIL_OPTION, k)
      else do {
        name \<leftarrow> c_string (ifname_buf cfg);
        let (len, pin_dir) = snprintf PATH_MAX (pin_basedir @ ''/'' @ name);
        if len < 0 then Some (Inl EXIT_FAIL_OPTION, k)
        else
          let (fd, i, k) = open_bpf_map_file env pin_dir ''xdp_stats_map''
                (Some \<lparr>map_type = 0, key_size = 0, value_size = 0, max_entries = 0\<rparr>) k in
          if fd < 0 then Some (Inl EXIT_FAIL_BPF, k)
          else
            let err = check_map_fd_info (the i)
                  \<lparr>map_type = 0, key_size = 4, value_size = 16, max_entries = XDP_ACTION_MAX\<rparr> in
            if err \<noteq> 0 then Some (Inl err, k) else Some (Inr (fd, map_type (the i)), k)
      })"

section \<open>Lemmas\<close>

lemma sum_values_eq:
  "sum_values vs p b = (p + sum_list (map rx_packets vs), b + sum_list (map rx_bytes vs))"
  by (induction vs arbitrary: p b) (simp_all add: ac_simps)

lemma unat_sum_list:
  "(\<Sum>x\<leftarrow>xs. unat (f x)) < 2 ^ 64 \<Longrightarrow> unat (\<Sum>x\<leftarrow>xs. f x :: u64) = (\<Sum>x\<leftarrow>xs. unat (f x))"
proof (induction xs)
  case (Cons x xs)
  then have "unat (\<Sum>x\<leftarrow>xs. f x) = (\<Sum>x\<leftarrow>xs. unat (f x))" by simp
  with Cons.prems show ?case by (simp add: unat_word_ariths)
qed simp

lemma map_collect_percpu:
  "0 \<le> res \<Longrightarrow> map_collect (res, s, ns) (Some values) uninit BPF_MAP_TYPE_PERCPU_ARRAY rec
    = Inr (True, \<lparr>timestamp = s * NANOSEC_PER_SEC + ns,
        total = \<lparr>rx_packets = sum_list (map rx_packets values), rx_bytes = sum_list (map rx_bytes values)\<rparr>\<rparr>)"
  by (cases rec; cases uninit)
     (simp add: map_collect_def gettime_def map_get_value_percpu_array_def sum_values_eq
       BPF_MAP_TYPE_ARRAY_def BPF_MAP_TYPE_PERCPU_ARRAY_def)

lemma calc_period_pos: "timestamp r \<noteq> timestamp p \<Longrightarrow> calc_period r p \<noteq> 0"
proof -
  assume "timestamp r \<noteq> timestamp p"
  then have "timestamp r - timestamp p \<noteq> 0" by simp
  then have "0 < timestamp r - timestamp p" "unat (timestamp r - timestamp p) \<noteq> 0"
    by (simp_all add: word_gt_0 unat_eq_0)
  then have "(of_nat (unat (timestamp r - timestamp p)) :: rat) \<noteq> 0" by (metis of_nat_eq_0_iff)
  with \<open>0 < timestamp r - timestamp p\<close> show ?thesis by (simp add: calc_period_def NANOSEC_PER_SEC_def)
qed

text \<open>The lines of records that all have a period.\<close>

definition stat_line_of :: "u32 \<Rightarrow> stat_record \<Rightarrow> stat_record \<Rightarrow> stat_line" where
  "stat_line_of i rec prev =
     \<lparr>l_action = action2str i, l_packets = rx_packets (total rec),
      l_pps = of_nat (unat (rx_packets (total rec) - rx_packets (total prev))) / calc_period rec prev,
      l_kbytes = rx_bytes (total rec) div 1000,
      l_mbits = of_nat (unat ((rx_bytes (total rec) - rx_bytes (total prev)) * 8)) / calc_period rec prev / 1000000,
      l_period = calc_period rec prev\<rparr>"

lemma print_loop_lines:
  assumes "length recs = length prevs" "\<forall>j<length recs. timestamp (recs ! j) \<noteq> timestamp (prevs ! j)"
  shows "length (print_loop i recs prevs) = length recs \<and>
    (\<forall>j<length recs. print_loop i recs prevs ! j = stat_line_of (i + of_nat j) (recs ! j) (prevs ! j))"
  using assms
proof (induction recs prevs arbitrary: i rule: list_induct2)
  case (Cons r recs p prevs)
  then have "calc_period r p \<noteq> 0" by (intro calc_period_pos) auto
  moreover have "\<forall>j<length recs. timestamp (recs ! j) \<noteq> timestamp (prevs ! j)"
  proof (intro allI impI)
    fix j assume "j < length recs"
    then show "timestamp (recs ! j) \<noteq> timestamp (prevs ! j)" using Cons.prems [rule_format, of "Suc j"] by simp
  qed
  note Cons.IH [OF this, of "i + 1"]
  moreover from this have "length (print_loop (i + 1) recs prevs) = length recs"
    "\<forall>j<length recs. print_loop (i + 1) recs prevs ! j = stat_line_of (i + 1 + of_nat j) (recs ! j) (prevs ! j)"
    by auto
  ultimately show ?case by (auto simp: stat_line_of_def Let_def less_Suc_eq_0_disj add.assoc)
qed simp

section \<open>Properties\<close>

text \<open>The collected total of a key is the sum over all CPUs: with the sums below \<open>2 ^ 64\<close>, the
record of a per-CPU map holds the exact sums of the packets and of the bytes, and the time of the reading.\<close>

theorem percpu_totals_exact:
  assumes "0 \<le> res" "(\<Sum>v\<leftarrow>values. unat (rx_packets v)) < 2 ^ 64" "(\<Sum>v\<leftarrow>values. unat (rx_bytes v)) < 2 ^ 64"
  shows "\<exists>rec'. map_collect (res, s, ns) (Some values) uninit BPF_MAP_TYPE_PERCPU_ARRAY rec = Inr (True, rec') \<and>
    timestamp rec' = s * 1000000000 + ns \<and>
    unat (rx_packets (total rec')) = (\<Sum>v\<leftarrow>values. unat (rx_packets v)) \<and>
    unat (rx_bytes (total rec')) = (\<Sum>v\<leftarrow>values. unat (rx_bytes v))"
  using assms by (simp add: map_collect_percpu unat_sum_list NANOSEC_PER_SEC_def)

lemma percpu_totals_exact_witness:
  "\<exists>rec'. map_collect (0, 2, 5) (Some [\<lparr>rx_packets = 3, rx_bytes = 180\<rparr>, \<lparr>rx_packets = 4, rx_bytes = 400\<rparr>])
      \<lparr>rx_packets = 9, rx_bytes = 9\<rparr> BPF_MAP_TYPE_PERCPU_ARRAY zero_stat = Inr (True, rec') \<and>
    unat (rx_packets (total rec')) = 7 \<and> unat (rx_bytes (total rec')) = 580"
  using percpu_totals_exact [of 0 "[\<lparr>rx_packets = 3, rx_bytes = 180\<rparr>, \<lparr>rx_packets = 4, rx_bytes = 400\<rparr>]" 2 5
      "\<lparr>rx_packets = 9, rx_bytes = 9\<rparr>" zero_stat] by auto

text \<open>The printed rates are right: when every record was read at a later time than its predecessor,
one line is printed per action, with the action's name, and its packet rate times its period is
the number of packets since the previous reading (modulo \<open>2 ^ 64\<close>).\<close>

theorem printed_rates:
  assumes "length recs = 5" "length prevs = 5" "\<forall>j<5. timestamp (recs ! j) \<noteq> timestamp (prevs ! j)"
  shows "length (stats_print recs prevs) = 5 \<and>
    map l_action (stats_print recs prevs) =
      map Some [''XDP_ABORTED'', ''XDP_DROP'', ''XDP_PASS'', ''XDP_TX'', ''XDP_REDIRECT''] \<and>
    (\<forall>j<5. l_pps (stats_print recs prevs ! j) * l_period (stats_print recs prevs ! j) =
      of_nat (unat (rx_packets (total (recs ! j)) - rx_packets (total (prevs ! j)))))"
proof -
  note lines = print_loop_lines [of recs prevs 0, folded stats_print_def]
  have len: "length (stats_print recs prevs) = 5"
    and nth: "\<And>j. j < 5 \<Longrightarrow> stats_print recs prevs ! j = stat_line_of (of_nat j) (recs ! j) (prevs ! j)"
    using lines assms by simp_all
  have five: "[0..<5] = [0, 1, 2, 3, 4 :: nat]" by (simp add: upt_rec)
  have "map l_action (stats_print recs prevs) = map (\<lambda>j. l_action (stats_print recs prevs ! j)) [0..<5]"
    using len by (intro nth_equalityI) simp_all
  also have "\<dots> = map (\<lambda>j. action2str (of_nat j)) [0..<5]"
    by (intro map_cong) (simp_all add: nth stat_line_of_def)
  also have "\<dots> = map Some [''XDP_ABORTED'', ''XDP_DROP'', ''XDP_PASS'', ''XDP_TX'', ''XDP_REDIRECT'']"
    unfolding five by (simp add: action2str_def xdp_action_names_def word_less_nat_alt)
  finally have names: "map l_action (stats_print recs prevs) = \<dots>" .
  have "l_pps (stats_print recs prevs ! j) * l_period (stats_print recs prevs ! j) =
      of_nat (unat (rx_packets (total (recs ! j)) - rx_packets (total (prevs ! j))))" if "j < 5" for j
    using calc_period_pos [of "recs ! j" "prevs ! j"] assms(3) that by (simp add: nth stat_line_of_def)
  with len names show ?thesis by blast
qed

lemma printed_rates_witness:
  "length (stats_print (replicate 5 (zero_stat\<lparr>timestamp := 2000000000\<rparr>)) (replicate 5 zero_stat)) = 5"
  using printed_rates [of "replicate 5 (zero_stat\<lparr>timestamp := 2000000000\<rparr>)" "replicate 5 zero_stat"]
  by (simp add: zero_stat_def)

text \<open>A failed lookup is reported as a reading: the record then gets whatever the uninitialised
local variable holds, and the function still answers true.\<close>

theorem failed_lookup_reports_stack:
  assumes "0 \<le> res" "mt = BPF_MAP_TYPE_ARRAY \<or> mt = BPF_MAP_TYPE_PERCPU_ARRAY"
  shows "\<exists>rec'. map_collect (res, s, ns) None uninit mt rec = Inr (True, rec') \<and> total rec' = uninit"
  using assms
  by (auto simp: map_collect_def gettime_def map_get_value_array_def map_get_value_percpu_array_def Let_def)

lemma failed_lookup_reports_stack_witness:
  "\<exists>rec'. map_collect (0, 1, 0) None \<lparr>rx_packets = 77, rx_bytes = 88\<rparr> BPF_MAP_TYPE_ARRAY zero_stat = Inr (True, rec') \<and>
    rx_packets (total rec') = 77"
  using failed_lookup_reports_stack [of 0 BPF_MAP_TYPE_ARRAY 1 0 "\<lparr>rx_packets = 77, rx_bytes = 88\<rparr>" zero_stat] by auto

end
