(* ===== verification/Hashmap.thy ===== *)
theory Hashmap
  imports Prelude
begin

text \<open>
  libbpf/src/hashmap.c and hashmap.h: the chained hash map of libbpf, with the hash functions
  libbpf uses it with (btf.c, btf_dump.c). A chain is the list of its entries; the array of
  chains is behind a pointer, which may be NULL or point to freed memory. Every access through a
  freed pointer is a fault (\<^term>\<open>None\<close>). Whether an allocation succeeds is an argument.
\<close>

section \<open>State\<close>

datatype 'a ptr = Null | Freed | Live 'a

record ('k, 'v, 'c) hashmap =
  hash_fn :: "'k \<Rightarrow> 'c \<Rightarrow> u64"
  equal_fn :: "'k \<Rightarrow> 'k \<Rightarrow> 'c \<Rightarrow> bool"
  map_ctx :: 'c
  buckets :: "('k \<times> 'v) list list ptr"
  cap :: nat
  cap_bits :: nat
  sz :: nat

datatype strategy = HASHMAP_ADD | HASHMAP_SET | HASHMAP_UPDATE | HASHMAP_APPEND

definition HASHMAP_MIN_CAP_BITS :: nat where "HASHMAP_MIN_CAP_BITS = 2"

text \<open>
  The shift by \<open>64 - bits\<close> is defined for 1 to 64 bits only; an empty map has 0, and what the
  machine then computes is the argument \<open>shift64\<close>.
\<close>

definition hash_bits :: "(u64 \<Rightarrow> u64) \<Rightarrow> u64 \<Rightarrow> nat \<Rightarrow> u64" where
  "hash_bits shift64 h bits =
     (let x = h * 11400714819323198485 in
      if 1 \<le> bits \<and> bits \<le> 64 then drop_bit (64 - bits) x else shift64 x)"

definition key_bucket :: "(u64 \<Rightarrow> u64) \<Rightarrow> ('k, 'v, 'c) hashmap \<Rightarrow> 'k \<Rightarrow> nat \<Rightarrow> nat" where
  "key_bucket shift64 m k bits = unat (hash_bits shift64 (hash_fn m k (map_ctx m)) bits)"

section \<open>Operations\<close>

definition hashmap__init ::
    "('k \<Rightarrow> 'c \<Rightarrow> u64) \<Rightarrow> ('k \<Rightarrow> 'k \<Rightarrow> 'c \<Rightarrow> bool) \<Rightarrow> 'c \<Rightarrow> ('k, 'v, 'c) hashmap" where
  "hashmap__init h e c = \<lparr>hash_fn = h, equal_fn = e, map_ctx = c, buckets = Null, cap = 0, cap_bits = 0, sz = 0\<rparr>"

definition hashmap__new ::
    "bool \<Rightarrow> ('k \<Rightarrow> 'c \<Rightarrow> u64) \<Rightarrow> ('k \<Rightarrow> 'k \<Rightarrow> 'c \<Rightarrow> bool) \<Rightarrow> 'c \<Rightarrow> int + ('k, 'v, 'c) hashmap" where
  "hashmap__new malloc_ok h e c = (if \<not> malloc_ok then Inl (- ENOMEM) else Inr (hashmap__init h e c))"

text \<open>\<open>free\<close> of a pointer that was freed before is a fault; \<open>free(NULL)\<close> does nothing.\<close>

definition free_ptr :: "'a ptr \<Rightarrow> 'a ptr option" where
  "free_ptr p = (case p of Null \<Rightarrow> Some Null | Freed \<Rightarrow> None | Live _ \<Rightarrow> Some Freed)"

definition hashmap__clear :: "('k, 'v, 'c) hashmap \<Rightarrow> ('k, 'v, 'c) hashmap option" where
  "hashmap__clear m = do {
     p \<leftarrow> free_ptr (buckets m);
     Some (m\<lparr>buckets := p, cap := 0, cap_bits := 0, sz := 0\<rparr>)
   }"

definition hashmap__free :: "('k, 'v, 'c) hashmap option \<Rightarrow> unit option" where
  "hashmap__free hm =
     (case hm of None \<Rightarrow> Some () | Some m \<Rightarrow> do { m \<leftarrow> hashmap__clear m; Some () })"

definition hashmap__size :: "('k, 'v, 'c) hashmap \<Rightarrow> nat" where
  "hashmap__size m = sz m"

definition hashmap__capacity :: "('k, 'v, 'c) hashmap \<Rightarrow> nat" where
  "hashmap__capacity m = cap m"

text \<open>Sizes are \<open>size_t\<close>: arithmetic on them wraps at \<open>2 ^ 64\<close>.\<close>

definition hashmap_needs_to_grow :: "('k, 'v, 'c) hashmap \<Rightarrow> bool" where
  "hashmap_needs_to_grow m \<longleftrightarrow> cap m = 0 \<or> (sz m + 1) mod 2 ^ 64 * 4 mod 2 ^ 64 div 3 > cap m"

definition hashmap_add_entry :: "('k \<times> 'v) list list \<Rightarrow> nat \<Rightarrow> 'k \<times> 'v \<Rightarrow> ('k \<times> 'v) list list" where
  "hashmap_add_entry bs h e = bs[h := e # bs ! h]"

definition hashmap_del_entry :: "('k \<times> 'v) list list \<Rightarrow> nat \<Rightarrow> nat \<Rightarrow> ('k \<times> 'v) list list" where
  "hashmap_del_entry bs h i = bs[h := take i (bs ! h) @ drop (Suc i) (bs ! h)]"

text \<open>The entries in the order of \<open>hashmap__for_each_entry\<close>; an empty map is not dereferenced.\<close>

definition hashmap__for_each_entry :: "('k, 'v, 'c) hashmap \<Rightarrow> ('k \<times> 'v) list option" where
  "hashmap__for_each_entry m =
     (if cap m = 0 then Some []
      else case buckets m of
        Live bs \<Rightarrow> if cap m \<le> length bs then Some (concat (take (cap m) bs)) else None
      | _ \<Rightarrow> None)"

definition hashmap__for_each_key_entry ::
    "(u64 \<Rightarrow> u64) \<Rightarrow> ('k, 'v, 'c) hashmap \<Rightarrow> 'k \<Rightarrow> ('k \<times> 'v) list option" where
  "hashmap__for_each_key_entry shift64 m k =
     (let b = key_bucket shift64 m k (cap_bits m) in
      case buckets m of
        Null \<Rightarrow> Some []
      | Freed \<Rightarrow> None
      | Live bs \<Rightarrow> if b < length bs then Some (filter (\<lambda>e. equal_fn m (fst e) k (map_ctx m)) (bs ! b)) else None)"

fun rehash :: "('k \<Rightarrow> nat) \<Rightarrow> ('k \<times> 'v) list \<Rightarrow> ('k \<times> 'v) list list \<Rightarrow> ('k \<times> 'v) list list" where
  "rehash h [] bs = bs"
| "rehash h (e # es) bs = rehash h es (hashmap_add_entry bs (h (fst e)) e)"

text \<open>\<open>calloc n\<close> says whether memory for \<open>n\<close> pointers is available; a size over \<open>2 ^ 64\<close> bytes never is.\<close>

definition hashmap_grow ::
    "(u64 \<Rightarrow> u64) \<Rightarrow> (nat \<Rightarrow> bool) \<Rightarrow> ('k, 'v, 'c) hashmap \<Rightarrow> (int \<times> ('k, 'v, 'c) hashmap) option" where
  "hashmap_grow shift64 calloc m =
     (let new_cap_bits = max (cap_bits m + 1) HASHMAP_MIN_CAP_BITS;
          new_cap = 2 ^ new_cap_bits
      in if new_cap * 8 \<ge> 2 ^ 64 \<or> \<not> calloc new_cap then Some (- ENOMEM, m)
      else do {
        es \<leftarrow> hashmap__for_each_entry m;
        let bs = rehash (\<lambda>k. key_bucket shift64 m k new_cap_bits) es (replicate new_cap []);
        _ \<leftarrow> free_ptr (buckets m);
        Some (0, m\<lparr>cap := new_cap, cap_bits := new_cap_bits, buckets := Live bs\<rparr>)
      })"

text \<open>The position of the first entry with an equal key in chain \<open>hash\<close>.\<close>

definition hashmap_find_entry :: "('k, 'v, 'c) hashmap \<Rightarrow> 'k \<Rightarrow> nat \<Rightarrow> (nat \<times> 'k \<times> 'v) option option" where
  "hashmap_find_entry m key hash =
     (case buckets m of
        Null \<Rightarrow> Some None
      | Freed \<Rightarrow> None
      | Live bs \<Rightarrow>
          if hash < length bs then
            Some (find (\<lambda>(i, e). equal_fn m (fst e) key (map_ctx m)) (enumerate 0 (bs ! hash)))
          else None)"

text \<open>Storing through the entry that was found.\<close>

definition set_entry :: "('k, 'v, 'c) hashmap \<Rightarrow> nat \<Rightarrow> nat \<Rightarrow> 'k \<times> 'v \<Rightarrow> ('k, 'v, 'c) hashmap" where
  "set_entry m h i e =
     m\<lparr>buckets := (case buckets m of Live bs \<Rightarrow> Live (bs[h := (bs ! h)[i := e]]) | p \<Rightarrow> p)\<rparr>"

text \<open>The tail of the insertion, from the test for growth on. The result: the code and the map.\<close>

definition insert_new ::
    "(u64 \<Rightarrow> u64) \<Rightarrow> (nat \<Rightarrow> bool) \<Rightarrow> bool \<Rightarrow> ('k, 'v, 'c) hashmap \<Rightarrow> 'k \<Rightarrow> 'v \<Rightarrow> (int \<times> ('k, 'v, 'c) hashmap) option" where
  "insert_new shift64 calloc malloc_ok m key value = do {
     (err, m) \<leftarrow> (if hashmap_needs_to_grow m then hashmap_grow shift64 calloc m else Some (0, m));
     if err \<noteq> 0 then Some (err, m)
     else if \<not> malloc_ok then Some (- ENOMEM, m)
     else let h = key_bucket shift64 m key (cap_bits m) in
       case buckets m of
         Live bs \<Rightarrow>
           if h < length bs then
             Some (0, m\<lparr>buckets := Live (hashmap_add_entry bs h (key, value)), sz := (sz m + 1) mod 2 ^ 64\<rparr>)
           else None
       | _ \<Rightarrow> None
   }"

text \<open>The result: the code, what is stored in \<open>*old_key\<close> and \<open>*old_value\<close>, and the map.\<close>

definition hashmap__insert ::
    "(u64 \<Rightarrow> u64) \<Rightarrow> (nat \<Rightarrow> bool) \<Rightarrow> bool \<Rightarrow> ('k, 'v, 'c) hashmap \<Rightarrow> 'k \<Rightarrow> 'v \<Rightarrow> strategy
      \<Rightarrow> (int \<times> ('k \<times> 'v) option \<times> ('k, 'v, 'c) hashmap) option" where
  "hashmap__insert shift64 calloc malloc_ok m key value strategy = do {
     let h = key_bucket shift64 m key (cap_bits m);
     entry \<leftarrow> (if strategy \<noteq> HASHMAP_APPEND then hashmap_find_entry m key h else Some None);
     case entry of
       Some (i, old) \<Rightarrow>
         if strategy = HASHMAP_SET \<or> strategy = HASHMAP_UPDATE
         then Some (0, Some old, set_entry m h i (key, value))
         else Some (- EEXIST, Some old, m)
     | None \<Rightarrow>
         if strategy = HASHMAP_UPDATE then Some (- ENOENT, None, m)
         else do {
           (ret, m) \<leftarrow> insert_new shift64 calloc malloc_ok m key value;
           Some (ret, None, m)
         }
   }"

definition hashmap__find :: "(u64 \<Rightarrow> u64) \<Rightarrow> ('k, 'v, 'c) hashmap \<Rightarrow> 'k \<Rightarrow> 'v option option" where
  "hashmap__find shift64 m key = do {
     entry \<leftarrow> hashmap_find_entry m key (key_bucket shift64 m key (cap_bits m));
     Some (map_option (\<lambda>(i, k, v). v) entry)
   }"

definition hashmap__delete ::
    "(u64 \<Rightarrow> u64) \<Rightarrow> ('k, 'v, 'c) hashmap \<Rightarrow> 'k \<Rightarrow> (bool \<times> ('k \<times> 'v) option \<times> ('k, 'v, 'c) hashmap) option" where
  "hashmap__delete shift64 m key = do {
     let h = key_bucket shift64 m key (cap_bits m);
     entry \<leftarrow> hashmap_find_entry m key h;
     case entry of
       None \<Rightarrow> Some (False, None, m)
     | Some (i, old) \<Rightarrow>
         Some (True, Some old,
           m\<lparr>buckets := (case buckets m of Live bs \<Rightarrow> Live (hashmap_del_entry bs h i) | p \<Rightarrow> p),
             sz := (sz m + 2 ^ 64 - 1) mod 2 ^ 64\<rparr>)
   }"

definition hashmap__add where
  "hashmap__add shift64 calloc malloc_ok m key value =
     hashmap__insert shift64 calloc malloc_ok m key value HASHMAP_ADD"

definition hashmap__set where
  "hashmap__set shift64 calloc malloc_ok m key value =
     hashmap__insert shift64 calloc malloc_ok m key value HASHMAP_SET"

definition hashmap__update where
  "hashmap__update shift64 calloc malloc_ok m key value =
     hashmap__insert shift64 calloc malloc_ok m key value HASHMAP_UPDATE"

definition hashmap__append where
  "hashmap__append shift64 calloc malloc_ok m key value =
     hashmap__insert shift64 calloc malloc_ok m key value HASHMAP_APPEND"

section \<open>The hash functions of libbpf\<close>

fun str_hash_loop :: "string \<Rightarrow> u64 \<Rightarrow> u64" where
  "str_hash_loop [] h = h"
| "str_hash_loop (c # s) h = str_hash_loop s (h * 31 + scast (of_char c :: 8 word))"

definition str_hash_fn :: "string \<Rightarrow> unit \<Rightarrow> u64" where
  "str_hash_fn s ctx = str_hash_loop s 0"

definition str_equal_fn :: "string \<Rightarrow> string \<Rightarrow> unit \<Rightarrow> bool" where
  "str_equal_fn a b ctx \<longleftrightarrow> a = b"

definition btf_dedup_identity_hash_fn :: "u64 \<Rightarrow> unit \<Rightarrow> u64" where
  "btf_dedup_identity_hash_fn key ctx = key"

definition btf_dedup_collision_hash_fn :: "u64 \<Rightarrow> unit \<Rightarrow> u64" where
  "btf_dedup_collision_hash_fn key ctx = 0"

definition btf_dedup_equal_fn :: "u64 \<Rightarrow> u64 \<Rightarrow> unit \<Rightarrow> bool" where
  "btf_dedup_equal_fn a b ctx \<longleftrightarrow> a = b"

section \<open>What a map promises\<close>

lemma filter_concat_at:
  "i < length bs \<Longrightarrow> (\<And>j. j < length bs \<Longrightarrow> j \<noteq> i \<Longrightarrow> filter P (bs ! j) = []) \<Longrightarrow>
     filter P (concat bs) = filter P (bs ! i)"
proof (induction bs arbitrary: i)
  case (Cons c cs)
  show ?case
  proof (cases i)
    case 0
    have "filter P (cs ! j) = []" if "j < length cs" for j
      using Cons.prems(2) [of "Suc j"] that 0 by simp
    then have "filter P (concat cs) = []" by (auto simp: filter_concat in_set_conv_nth)
    with 0 show ?thesis by simp
  next
    case (Suc n)
    then have "filter P c = []" using Cons.prems(2) [of 0] by simp
    moreover have "filter P (concat cs) = filter P (cs ! n)"
      by (rule Cons.IH) (use Suc Cons.prems(1) Cons.prems(2) [of "Suc _"] in auto)
    ultimately show ?thesis using Suc by simp
  qed
qed simp

text \<open>
  The contract of the functions a user supplies: equality is an equivalence and equal keys have
  equal hashes.
\<close>

locale key_hash =
  fixes hash :: "'k \<Rightarrow> u64" and eq :: "'k \<Rightarrow> 'k \<Rightarrow> bool"
  assumes eq_refl: "eq a a"
    and eq_sym: "eq a b \<Longrightarrow> eq b a"
    and eq_trans: "eq a b \<Longrightarrow> eq b c \<Longrightarrow> eq a c"
    and hash_eq: "eq a b \<Longrightarrow> hash a = hash b"
begin

lemma eq_cong: "eq a b \<Longrightarrow> eq c a = eq c b"
  using eq_sym eq_trans by blast

lemma eq_cong_left: "eq a b \<Longrightarrow> eq a c = eq b c"
  using eq_sym eq_trans by blast

text \<open>Entries of keys equal to one key are all in the chain of its hash.\<close>

lemma filter_in_chain:
  assumes "\<forall>i<length bs. \<forall>e\<in>set (bs ! i). idx (hash (fst e)) = i" "idx (hash k) < length bs"
  shows "filter (\<lambda>e. eq (fst e) k) (concat bs) = filter (\<lambda>e. eq (fst e) k) (bs ! idx (hash k))"
proof -
  let ?i = "idx (hash k)" and ?P = "\<lambda>e. eq (fst e) k"
  have other: "filter ?P (bs ! j) = []" if "j < length bs" "j \<noteq> ?i" for j
    using assms(1) that hash_eq by (fastforce simp: filter_empty_conv)
  show ?thesis by (rule filter_concat_at [OF assms(2)]) (use other in blast)
qed

end

interpretation str_keys: key_hash "\<lambda>s. str_hash_fn s ()" "\<lambda>a b. str_equal_fn a b ()"
  by unfold_locales (auto simp: str_equal_fn_def)

interpretation btf_keys: key_hash "\<lambda>k. btf_dedup_identity_hash_fn k ()" "\<lambda>a b. btf_dedup_equal_fn a b ()"
  by unfold_locales (auto simp: btf_dedup_equal_fn_def)

interpretation btf_collision_keys: key_hash "\<lambda>k. btf_dedup_collision_hash_fn k ()" "\<lambda>a b. btf_dedup_equal_fn a b ()"
  by unfold_locales (auto simp: btf_dedup_equal_fn_def btf_dedup_collision_hash_fn_def)

text \<open>A map stands for the values of every key, the most recently inserted first while nothing grows.\<close>

definition keys_eq :: "('k, 'v, 'c) hashmap \<Rightarrow> 'k \<Rightarrow> 'k \<Rightarrow> bool" where
  "keys_eq m a b \<longleftrightarrow> equal_fn m a b (map_ctx m)"

definition hm_view :: "('k, 'v, 'c) hashmap \<Rightarrow> 'k \<Rightarrow> 'v list" where
  "hm_view m k =
     (case buckets m of Live bs \<Rightarrow> map snd (filter (\<lambda>e. keys_eq m (fst e) k) (concat bs)) | _ \<Rightarrow> [])"

definition chains_ok :: "('k, 'v, 'c) hashmap \<Rightarrow> ('k \<times> 'v) list list \<Rightarrow> bool" where
  "chains_ok m bs \<longleftrightarrow>
     2 \<le> cap_bits m \<and> cap_bits m \<le> 60 \<and> cap m = 2 ^ cap_bits m \<and> length bs = cap m \<and>
     sz m = length (concat bs) \<and> sz m * 4 div 3 \<le> cap m \<and>
     (\<forall>i<length bs. \<forall>e\<in>set (bs ! i). key_bucket id m (fst e) (cap_bits m) = i)"

definition hm_ok :: "('k, 'v, 'c) hashmap \<Rightarrow> bool" where
  "hm_ok m \<longleftrightarrow> key_hash (\<lambda>k. hash_fn m k (map_ctx m)) (keys_eq m) \<and>
     (case buckets m of
        Null \<Rightarrow> cap m = 0 \<and> cap_bits m = 0 \<and> sz m = 0
      | Freed \<Rightarrow> False
      | Live bs \<Rightarrow> chains_ok m bs)"

section \<open>Lists of chains\<close>

lemma find_enumerate_None: "find (\<lambda>(i, e). P e) (enumerate n xs) = None \<longleftrightarrow> filter P xs = []"
  by (induction xs arbitrary: n) auto

lemma find_enumerate_Some:
  "find (\<lambda>(i, e). P e) (enumerate n xs) = Some (j, e) \<Longrightarrow>
     \<exists>a b. xs = a @ e # b \<and> j = n + length a \<and> P e \<and> filter P a = []"
proof (induction xs arbitrary: n)
  case (Cons x xs)
  show ?case
  proof (cases "P x")
    case True
    with Cons.prems have "x # xs = [] @ e # xs \<and> j = n + length ([] :: 'a list) \<and> P e \<and> filter P [] = []" by auto
    then show ?thesis by blast
  next
    case False
    with Cons.prems Cons.IH [of "Suc n"] obtain a b where
      "xs = a @ e # b" "j = Suc n + length a" "P e" "filter P a = []" by auto
    with False have "x # xs = (x # a) @ e # b \<and> j = n + length (x # a) \<and> P e \<and> filter P (x # a) = []" by auto
    then show ?thesis by blast
  qed
qed simp

lemma length_concat_update:
  "h < length bs \<Longrightarrow> length (concat (bs[h := c])) + length (bs ! h) = length (concat bs) + length c"
  by (induction bs arbitrary: h) (auto split: nat.splits)

lemma length_add_entry [simp]: "length (hashmap_add_entry bs h e) = length bs"
  by (simp add: hashmap_add_entry_def)

lemma length_concat_add_entry:
  "h < length bs \<Longrightarrow> length (concat (hashmap_add_entry bs h e)) = Suc (length (concat bs))"
  using length_concat_update [of h bs "e # bs ! h"] by (simp add: hashmap_add_entry_def)

lemma length_rehash [simp]: "length (rehash h es bs) = length bs"
  by (induction es arbitrary: bs) auto

lemma length_concat_rehash:
  "\<forall>e\<in>set es. h (fst e) < length bs \<Longrightarrow> length (concat (rehash h es bs)) = length es + length (concat bs)"
  by (induction es arbitrary: bs) (auto simp: length_concat_add_entry)

lemma rehash_nth:
  "\<forall>e\<in>set es. h (fst e) < length bs \<Longrightarrow> i < length bs \<Longrightarrow>
     rehash h es bs ! i = rev (filter (\<lambda>e. h (fst e) = i) es) @ bs ! i"
  by (induction es arbitrary: bs) (auto simp: hashmap_add_entry_def nth_list_update)

section \<open>Buckets and views\<close>

lemma key_bucket_less: "1 \<le> bits \<Longrightarrow> bits \<le> 64 \<Longrightarrow> key_bucket sh m k bits < 2 ^ bits"
proof -
  assume b: "1 \<le> bits" "bits \<le> 64"
  let ?x = "hash_fn m k (map_ctx m) * 11400714819323198485"
  have "unat ?x < 2 ^ 64" using unsigned_less [of ?x] by simp
  also have "(2::nat) ^ 64 = 2 ^ (64 - bits) * 2 ^ bits" using b by (simp flip: power_add)
  finally have "unat ?x div 2 ^ (64 - bits) < 2 ^ bits" by (simp add: less_mult_imp_div_less mult.commute)
  then have "unat (drop_bit (64 - bits) ?x) < 2 ^ bits" by (simp add: unat_drop_bit_eq drop_bit_eq_div[where 'a = nat])
  then show ?thesis using b by (simp add: key_bucket_def hash_bits_def)
qed

lemma key_bucket_shift: "1 \<le> bits \<Longrightarrow> bits \<le> 64 \<Longrightarrow> key_bucket sh m k bits = key_bucket id m k bits"
  by (simp add: key_bucket_def hash_bits_def)

lemma key_bucket_cong:
  "hash_fn m' = hash_fn m \<Longrightarrow> map_ctx m' = map_ctx m \<Longrightarrow> key_bucket sh m' = key_bucket sh m"
  by (simp add: key_bucket_def fun_eq_iff)

lemma chains_bucket:
  assumes "chains_ok m bs"
  shows "key_bucket sh m k (cap_bits m) = key_bucket id m k (cap_bits m)"
    "key_bucket id m k (cap_bits m) < length bs"
  using assms key_bucket_less [of "cap_bits m" id m k] key_bucket_shift [of "cap_bits m" sh m k]
  by (auto simp: chains_ok_def)

lemma hm_okD: "hm_ok m \<Longrightarrow> key_hash (\<lambda>k. hash_fn m k (map_ctx m)) (keys_eq m)"
  by (simp add: hm_ok_def)

lemma hm_ok_cases [consumes 1, case_names empty live]:
  assumes "hm_ok m"
  obtains "buckets m = Null" "cap m = 0" "cap_bits m = 0" "sz m = 0" "hm_view m = (\<lambda>k. [])"
    | bs where "buckets m = Live bs" "chains_ok m bs"
        "\<And>k. hm_view m k = map snd (filter (\<lambda>e. keys_eq m (fst e) k) (bs ! key_bucket id m k (cap_bits m)))"
proof (cases "buckets m")
  case Null
  then show ?thesis using assms that(1) by (auto simp: hm_ok_def hm_view_def fun_eq_iff)
next
  case Freed
  then show ?thesis using assms by (simp add: hm_ok_def)
next
  case (Live bs)
  then have ok: "chains_ok m bs" using assms by (simp add: hm_ok_def)
  have "filter (\<lambda>e. keys_eq m (fst e) k) (concat bs) = filter (\<lambda>e. keys_eq m (fst e) k) (bs ! key_bucket id m k (cap_bits m))" for k
    using key_hash.filter_in_chain [OF hm_okD [OF assms], where bs = bs and k = k
        and idx = "\<lambda>h. unat (hash_bits id h (cap_bits m))"] ok chains_bucket(2) [OF ok, of k]
    by (simp add: chains_ok_def key_bucket_def)
  then show ?thesis using that(2) [OF Live ok] Live by (simp add: hm_view_def)
qed

lemma hm_view_bucket:
  assumes "hm_ok m" "buckets m = Live bs"
  shows "hm_view m k = map snd (filter (\<lambda>e. keys_eq m (fst e) k) (bs ! key_bucket id m k (cap_bits m)))"
  using assms(1)
proof (cases rule: hm_ok_cases)
  case (live cs)
  show ?thesis using live(3) [of k] live(1) assms(2) by simp
qed (simp add: assms(2))

text \<open>What a lookup finds: a position in the chain of the key, whose value heads the view.\<close>

lemma find_entry_live:
  fixes m :: "('k, 'v, 'c) hashmap" and key :: 'k
  assumes "hm_ok m" "buckets m = Live bs"
  defines "h \<equiv> key_bucket id m key (cap_bits m)"
  shows "(hm_view m key = [] \<and> hashmap_find_entry m key h = Some None) \<or>
    (\<exists>a k v b. bs ! h = a @ (k, v) # b \<and> keys_eq m k key \<and> (\<forall>e\<in>set a. \<not> keys_eq m (fst e) key) \<and>
       hm_view m key = v # map snd (filter (\<lambda>e. keys_eq m (fst e) key) b) \<and>
       hashmap_find_entry m key h = Some (Some (length a, k, v)))"
  using assms(1)
proof (cases rule: hm_ok_cases)
  case (live cs)
  let ?P = "\<lambda>e. equal_fn m (fst e) key (map_ctx m)"
  have cs: "cs = bs" using live(1) assms(2) by simp
  have f: "hashmap_find_entry m key h = Some (find (\<lambda>(i, e). ?P e) (enumerate 0 (bs ! h)))"
    using chains_bucket(2) [OF live(2), of key] assms(2) cs by (simp add: hashmap_find_entry_def h_def)
  show ?thesis
  proof (cases "find (\<lambda>(i, e). ?P e) (enumerate 0 (bs ! h))")
    case None
    then have "filter ?P (bs ! h) = []" by (simp only: find_enumerate_None)
    then show ?thesis using f None live(3) [of key] cs by (simp add: keys_eq_def h_def)
  next
    case (Some r)
    obtain j k v where r: "r = (j, k, v)" by (cases r)
    have "\<exists>a b. bs ! h = a @ (k, v) # b \<and> j = 0 + length a \<and> ?P (k, v) \<and> filter ?P a = []"
      by (rule find_enumerate_Some) (simp only: Some r)
    then obtain a b where ab: "bs ! h = a @ (k, v) # b" "j = length a" "?P (k, v)" "filter ?P a = []"
      by auto
    have "hm_view m key = map snd (filter ?P (bs ! h))"
      using live(3) [of key] cs by (simp add: keys_eq_def h_def)
    then have "hm_view m key = v # map snd (filter ?P b)" using ab by simp
    moreover have "hashmap_find_entry m key h = Some (Some (length a, k, v))"
      using f Some r ab(2) by simp
    moreover have "\<forall>e\<in>set a. \<not> ?P e" using ab(4) by (simp add: filter_empty_conv)
    ultimately show ?thesis using ab(1,3) unfolding keys_eq_def by fastforce
  qed
qed (use assms(2) in simp)

text \<open>Replacing one chain keeps a map well-formed, and changes the view of the keys of that chain only.\<close>

lemma replace_chain:
  assumes "hm_ok m" "buckets m = Live bs"
    and m': "m' = m\<lparr>buckets := Live (bs[h := c]), sz := n\<rparr>" and h: "h < length bs"
    and c: "\<forall>e\<in>set c. key_bucket id m (fst e) (cap_bits m) = h"
    and n: "n + length (bs ! h) = sz m + length c" "n * 4 div 3 \<le> cap m"
  shows "hm_ok m'" "keys_eq m' = keys_eq m"
    "hm_view m' k = (if key_bucket id m k (cap_bits m) = h then map snd (filter (\<lambda>e. keys_eq m (fst e) k) c) else hm_view m k)"
proof -
  show eq: "keys_eq m' = keys_eq m" by (simp add: m' keys_eq_def fun_eq_iff)
  have b: "buckets m' = Live (bs[h := c])" by (simp add: m')
  have kb: "key_bucket id m' = key_bucket id m" "cap_bits m' = cap_bits m"
    by (simp_all add: m' key_bucket_def fun_eq_iff)
  have ok: "chains_ok m bs" using assms(1,2) by (simp add: hm_ok_def)
  have "length (concat (bs[h := c])) = n"
    using length_concat_update [OF h, of c] n(1) ok by (simp add: chains_ok_def)
  then have "chains_ok m' (bs[h := c])"
    using ok n(2) c h by (auto simp: chains_ok_def m' kb nth_list_update key_bucket_def)
  then show ok': "hm_ok m'" using assms(1) b by (simp add: hm_ok_def eq) (simp add: m')
  from ok' show "hm_view m' k = (if key_bucket id m k (cap_bits m) = h then map snd (filter (\<lambda>e. keys_eq m (fst e) k) c) else hm_view m k)"
  proof (cases rule: hm_ok_cases)
    case (live cs)
    with assms(1) show ?thesis
      by (cases rule: hm_ok_cases) (use h b assms(2) in \<open>auto simp: kb eq nth_list_update\<close>)
  qed (simp add: b)
qed

section \<open>Growing\<close>

text \<open>Growing reverses every chain, so the values of a key come in the opposite order.\<close>

definition grow_fails :: "(nat \<Rightarrow> bool) \<Rightarrow> ('k, 'v, 'c) hashmap \<Rightarrow> bool" where
  "grow_fails calloc m \<longleftrightarrow>
     2 ^ max (cap_bits m + 1) HASHMAP_MIN_CAP_BITS * 8 \<ge> (2::nat) ^ 64 \<or> \<not> calloc (2 ^ max (cap_bits m + 1) HASHMAP_MIN_CAP_BITS)"

lemma hm_ok_sizes:
  assumes "hm_ok m"
  shows "sz m * 4 div 3 \<le> cap m \<and> sz m < 2 ^ 61 \<and> (cap m = 0 \<or> 4 \<le> cap m)"
  using assms
proof (cases rule: hm_ok_cases)
  case (live bs)
  have "(2::nat) ^ cap_bits m \<le> 2 ^ 60" "(2::nat) ^ 2 \<le> 2 ^ cap_bits m"
    using live(2) by (auto simp only: chains_ok_def intro!: power_increasing)
  then show ?thesis using live(2) by (auto simp: chains_ok_def)
qed simp

lemma needs_to_grow_iff: "hm_ok m \<Longrightarrow> hashmap_needs_to_grow m \<longleftrightarrow> cap m = 0 \<or> (sz m + 1) * 4 div 3 > cap m"
  using hm_ok_sizes [of m] by (simp add: hashmap_needs_to_grow_def)

lemma rehash_chains:
  fixes es :: "('k \<times> 'v) list"
  assumes "\<And>k. h k < n"
  defines "bs \<equiv> rehash h es (replicate n [])"
  shows "length bs = n" "length (concat bs) = length es" "\<forall>i<n. bs ! i = rev (filter (\<lambda>e. h (fst e) = i) es)"
proof -
  have "concat (replicate n []) = []" by (induction n) auto
  then show "length bs = n" "length (concat bs) = length es" "\<forall>i<n. bs ! i = rev (filter (\<lambda>e. h (fst e) = i) es)"
    using assms(1) by (simp_all add: bs_def length_concat_rehash rehash_nth)
qed

lemma hashmap_grow_effect:
  assumes "hm_ok m" "\<not> grow_fails calloc m"
  shows "\<exists>m' bs. hashmap_grow sh calloc m = Some (0, m') \<and> hm_ok m' \<and> buckets m' = Live bs \<and>
    keys_eq m' = keys_eq m \<and> sz m' = sz m \<and> (sz m + 1) * 4 div 3 \<le> cap m' \<and> hm_view m' = (\<lambda>k. rev (hm_view m k))"
proof -
  define b where "b = max (cap_bits m + 1) HASHMAP_MIN_CAP_BITS"
  define es where "es = (case buckets m of Live bs \<Rightarrow> concat bs | _ \<Rightarrow> [])"
  define bs where "bs = rehash (\<lambda>k. key_bucket sh m k b) es (replicate (2 ^ b) [])"
  define m' where "m' = m\<lparr>cap := 2 ^ b, cap_bits := b, buckets := Live bs\<rparr>"
  have m': "cap m' = 2 ^ b" "cap_bits m' = b" "buckets m' = Live bs" "sz m' = sz m" "keys_eq m' = keys_eq m"
    by (simp_all add: m'_def keys_eq_def fun_eq_iff)
  have "(2::nat) ^ b * 8 < 2 ^ 64" using assms(2) by (simp add: grow_fails_def b_def)
  then have "(2::nat) ^ (b + 3) < 2 ^ 64" by (simp add: power_add)
  then have "b + 3 < 64" by (rule power_less_imp_less_exp [rotated]) simp
  then have b: "2 \<le> b" "b \<le> 60" by (auto simp: b_def HASHMAP_MIN_CAP_BITS_def)
  have ents: "hashmap__for_each_entry m = Some es \<and> free_ptr (buckets m) \<noteq> None \<and> length es = sz m \<and>
      2 * cap m \<le> 2 ^ b \<and> cap m + 2 \<le> 2 ^ b"
    using assms(1)
  proof (cases rule: hm_ok_cases)
    case empty
    then show ?thesis using power_increasing [OF b(1), of "2::nat"]
      by (simp add: hashmap__for_each_entry_def es_def free_ptr_def)
  next
    case (live cs)
    then have "b = cap_bits m + 1" by (simp add: b_def HASHMAP_MIN_CAP_BITS_def chains_ok_def)
    with live hm_ok_sizes [OF assms(1)] show ?thesis
      by (auto simp: hashmap__for_each_entry_def es_def chains_ok_def free_ptr_def)
  qed
  have grow: "hashmap_grow sh calloc m = Some (0, m')"
    using assms(2) ents by (auto simp: hashmap_grow_def grow_fails_def bs_def b_def Let_def m'_def)
  have less: "key_bucket sh m k b < 2 ^ b" for k using key_bucket_less [of b sh m k] b by simp
  have id: "key_bucket sh m k b = key_bucket id m' k b" for k
    using key_bucket_shift [of b sh m k] b by (simp add: key_bucket_def m'_def)
  note chains = rehash_chains [of "\<lambda>k. key_bucket sh m k b" "2 ^ b" es, OF less, folded bs_def]
  have "(sz m + 1) * 4 div 3 \<le> sz m * 4 div 3 + 2" by presburger
  then have sz: "(sz m + 1) * 4 div 3 \<le> 2 ^ b" using ents hm_ok_sizes [OF assms(1)] by linarith
  have ok: "chains_ok m' bs"
    unfolding chains_ok_def m' id [symmetric] using b chains ents sz by auto
  have hm: "hm_ok m'"
    using ok hm_okD [OF assms(1)] by (simp add: hm_ok_def m') (simp add: m'_def)
  have "hm_view m' k = rev (hm_view m k)" for k
  proof -
    let ?P = "\<lambda>e. keys_eq m (fst e) k"
    have same: "key_bucket sh m (fst e) b = key_bucket sh m k b" if "?P e" for e
      using key_hash.hash_eq [OF hm_okD [OF assms(1)] that] by (simp add: key_bucket_def)
    have "filter ?P (filter (\<lambda>e. key_bucket sh m (fst e) b = key_bucket sh m k b) es) = filter ?P es"
      unfolding filter_filter by (rule filter_cong) (use same in auto)
    moreover have "hm_view m' k = map snd (filter ?P (bs ! key_bucket sh m k b))"
      using hm_view_bucket [OF hm m'(3), of k] by (simp only: m' id)
    moreover have "map snd (filter ?P es) = hm_view m k"
      by (simp add: es_def hm_view_def split: ptr.splits)
    moreover have "bs ! key_bucket sh m k b = rev (filter (\<lambda>e. key_bucket sh m (fst e) b = key_bucket sh m k b) es)"
      using chains(3) less by blast
    ultimately show ?thesis by (simp only: rev_filter [symmetric] rev_map [symmetric])
  qed
  then show ?thesis using grow hm m' sz by (intro exI [of _ m'] exI [of _ bs]) (simp add: m'_def fun_eq_iff)
qed

section \<open>The operations refine their specification\<close>

text \<open>
  What \<open>hashmap__insert\<close> does to the values of every key: \<open>grows\<close> and \<open>fails\<close> say whether the
  map grows and whether memory for that is available, \<open>malloc_ok\<close> whether a new entry is.
\<close>

definition insert_spec ::
    "('k \<Rightarrow> 'k \<Rightarrow> bool) \<Rightarrow> bool \<Rightarrow> bool \<Rightarrow> bool \<Rightarrow> 'k \<Rightarrow> 'v \<Rightarrow> strategy \<Rightarrow> ('k \<Rightarrow> 'v list) \<Rightarrow> int \<times> 'v option \<times> ('k \<Rightarrow> 'v list)" where
  "insert_spec eq grows fails malloc_ok k v strategy view =
     (if strategy \<noteq> HASHMAP_APPEND \<and> view k \<noteq> [] then
        (if strategy = HASHMAP_ADD then (- EEXIST, Some (hd (view k)), view)
         else (0, Some (hd (view k)), \<lambda>k'. if eq k k' then v # tl (view k') else view k'))
      else if strategy = HASHMAP_UPDATE then (- ENOENT, None, view)
      else if grows \<and> fails then (- ENOMEM, None, view)
      else let view = (if grows then (\<lambda>k'. rev (view k')) else view) in
        if \<not> malloc_ok then (- ENOMEM, None, view)
        else (0, None, \<lambda>k'. if eq k k' then v # view k' else view k'))"

lemma insert_new_effect:
  fixes m :: "('k, 'v, 'c) hashmap" and k :: 'k and v :: 'v
  assumes "hm_ok m" "(sz m + 1) * 4 div 3 \<le> cap m" "buckets m = Live bs"
    and h_def: "h = key_bucket sh m k (cap_bits m)"
    and m'_def: "m' = m\<lparr>buckets := Live (hashmap_add_entry bs h (k, v)), sz := (sz m + 1) mod 2 ^ 64\<rparr>"
  shows "h < length bs" "hm_ok m'" "hm_view m' = (\<lambda>k'. if keys_eq m k k' then v # hm_view m k' else hm_view m k')"
proof -
  have ok: "chains_ok m bs" using assms(1,3) by (simp add: hm_ok_def)
  have h: "h = key_bucket id m k (cap_bits m)" unfolding h_def by (rule chains_bucket(1) [OF ok])
  show less: "h < length bs" using chains_bucket(2) [OF ok, of k] by (simp add: h)
  have m': "m' = m\<lparr>buckets := Live (bs[h := (k, v) # bs ! h]), sz := sz m + 1\<rparr>"
    using hm_ok_sizes [OF assms(1)] by (simp add: m'_def hashmap_add_entry_def)
  have c: "\<forall>e\<in>set ((k, v) # bs ! h). key_bucket id m (fst e) (cap_bits m) = h"
  proof -
    have "\<forall>e\<in>set (bs ! h). key_bucket id m (fst e) (cap_bits m) = h" using ok less by (simp add: chains_ok_def)
    then show ?thesis by (simp flip: h)
  qed
  note r = replace_chain [OF assms(1,3) m' less c]
  show "hm_ok m'" by (rule r(1)) (use assms(2) in auto)
  show "hm_view m' = (\<lambda>k'. if keys_eq m k k' then v # hm_view m k' else hm_view m k')"
  proof
    fix k'
    have same: "key_bucket id m k' (cap_bits m) = h" if "keys_eq m k k'"
      using key_hash.hash_eq [OF hm_okD [OF assms(1)] that] by (simp add: h key_bucket_def)
    have "hm_view m' k' = (if key_bucket id m k' (cap_bits m) = h
        then map snd (filter (\<lambda>e. keys_eq m (fst e) k') ((k, v) # bs ! h)) else hm_view m k')"
      by (rule r(3)) (use assms(2) in auto)
    moreover note hm_view_bucket [OF assms(1,3), of k']
    ultimately show "hm_view m' k' = (if keys_eq m k k' then v # hm_view m k' else hm_view m k')"
      using same by (cases "keys_eq m k k'") simp_all
  qed
qed

text \<open>Changing the entry that a lookup found: replacing it, or removing it.\<close>

lemma found_entry_effect:
  fixes m :: "('k, 'v, 'c) hashmap" and key :: 'k
  assumes "hm_ok m" "buckets m = Live bs"
    and h_def: "h = key_bucket id m key (cap_bits m)"
    and chain: "bs ! h = a @ (k, v) # b" "keys_eq m k key" "\<forall>e\<in>set a. \<not> keys_eq m (fst e) key"
    and new: "new = [] \<or> (\<exists>v'. new = [(key, v')])"
    and m': "m' = m\<lparr>buckets := Live (bs[h := a @ new @ b]), sz := sz m + length new - 1\<rparr>"
  shows "hm_ok m'" "hm_view m' = (\<lambda>k'. if keys_eq m key k' then map snd new @ tl (hm_view m k') else hm_view m k')"
proof -
  have ok: "chains_ok m bs" using assms(1,2) by (simp add: hm_ok_def)
  have less: "h < length bs" using chains_bucket(2) [OF ok, of key] by (simp add: h_def)
  have c: "\<forall>e\<in>set (a @ new @ b). key_bucket id m (fst e) (cap_bits m) = h"
  proof -
    have "\<forall>e\<in>set (bs ! h). key_bucket id m (fst e) (cap_bits m) = h" using ok less by (simp add: chains_ok_def)
    then show ?thesis using new unfolding chain(1) by (auto simp: h_def)
  qed
  have "sz m = length (concat bs)" using ok by (simp add: chains_ok_def)
  then have pos: "0 < sz m" using length_concat_update [OF less, of "[]"] arg_cong [OF chain(1), of length]
    by (simp only: list.size length_append)
  have n: "sz m + length new - 1 + length (bs ! h) = sz m + length (a @ new @ b)"
    "(sz m + length new - 1) * 4 div 3 \<le> cap m"
    using pos chain(1) new hm_ok_sizes [OF assms(1)] by auto
  note r = replace_chain [OF assms(1,2) m' less c n]
  show "hm_ok m'" by (rule r(1))
  note key = key_hash.eq_cong [OF hm_okD [OF assms(1)]] key_hash.eq_cong_left [OF hm_okD [OF assms(1)]]
  show "hm_view m' = (\<lambda>k'. if keys_eq m key k' then map snd new @ tl (hm_view m k') else hm_view m k')"
  proof
    fix k'
    have same: "key_bucket id m k' (cap_bits m) = h" if "keys_eq m key k'"
      using key_hash.hash_eq [OF hm_okD [OF assms(1)] that] by (simp add: h_def key_bucket_def)
    note hm_view_bucket [OF assms(1,2), of k']
    moreover have "keys_eq m k k' = keys_eq m key k'" using key(2) [OF chain(2)] by simp
    moreover have "filter (\<lambda>e. keys_eq m (fst e) k') a = []" if "keys_eq m key k'"
      using chain(3) key(1) [OF that] by (auto simp: filter_empty_conv)
    ultimately show "hm_view m' k' = (if keys_eq m key k' then map snd new @ tl (hm_view m k') else hm_view m k')"
      using same chain(1) new by (auto simp: r(3))
  qed
qed

lemma insert_new_refines:
  assumes "hm_ok m"
  shows "\<exists>ret m'. insert_new shift64 calloc malloc_ok m k v = Some (ret, m') \<and> hm_ok m' \<and> keys_eq m' = keys_eq m \<and>
    (ret, None, hm_view m') = insert_spec (keys_eq m) (hashmap_needs_to_grow m) (grow_fails calloc m) malloc_ok k v
      HASHMAP_APPEND (hm_view m)"
proof -
  have add: "\<exists>m2. insert_new shift64 calloc malloc_ok m k v = Some (if malloc_ok then 0 else - ENOMEM, m2) \<and> hm_ok m2 \<and>
      keys_eq m2 = keys_eq m \<and>
      hm_view m2 = (if malloc_ok then (\<lambda>k'. if keys_eq m k k' then v # view k' else view k') else view)"
    if r: "(if hashmap_needs_to_grow m then hashmap_grow shift64 calloc m else Some (0, m)) = Some (0, m1)"
      and m1: "hm_ok m1" "(sz m1 + 1) * 4 div 3 \<le> cap m1" "buckets m1 = Live bs" "keys_eq m1 = keys_eq m" "hm_view m1 = view"
    for m1 bs view
    using insert_new_effect(1) [OF m1(1-3) refl refl, of shift64 k]
      insert_new_effect(2,3) [OF m1(1-3) refl refl, of shift64 k v] m1 r
    by (auto simp: insert_new_def Let_def keys_eq_def fun_eq_iff)
  show ?thesis
  proof (cases "hashmap_needs_to_grow m")
    case True
    show ?thesis
    proof (cases "grow_fails calloc m")
      case fails: True
      then have "hashmap_grow shift64 calloc m = Some (- ENOMEM, m)"
        by (auto simp: hashmap_grow_def grow_fails_def Let_def)
      with True fails assms show ?thesis by (simp add: insert_new_def insert_spec_def ENOMEM_def)
    next
      case False
      obtain m1 bs where "hashmap_grow shift64 calloc m = Some (0, m1)" "hm_ok m1" "buckets m1 = Live bs"
        "keys_eq m1 = keys_eq m" "sz m1 = sz m" "(sz m + 1) * 4 div 3 \<le> cap m1"
        "hm_view m1 = (\<lambda>k. rev (hm_view m k))"
        using hashmap_grow_effect [OF assms False, of shift64] by blast
      with True False add [of m1 bs "\<lambda>k. rev (hm_view m k)"] show ?thesis
        by (auto simp: insert_spec_def Let_def)
    qed
  next
    case False
    then have full: "cap m \<noteq> 0" "(sz m + 1) * 4 div 3 \<le> cap m" using needs_to_grow_iff [OF assms] by auto
    from assms obtain bs where "buckets m = Live bs" by (cases rule: hm_ok_cases) (use full in auto)
    with False full assms add [of m bs "hm_view m"] show ?thesis by (auto simp: insert_spec_def Let_def)
  qed
qed

lemma insert_absent:
  assumes "hm_ok m" "strategy = HASHMAP_APPEND \<or>
      hm_view m k = [] \<and> hashmap_find_entry m k (key_bucket shift64 m k (cap_bits m)) = Some None"
  shows "\<exists>ret old m'. hashmap__insert shift64 calloc malloc_ok m k v strategy = Some (ret, old, m') \<and> hm_ok m' \<and>
    keys_eq m' = keys_eq m \<and>
    (ret, map_option snd old, hm_view m') =
      insert_spec (keys_eq m) (hashmap_needs_to_grow m) (grow_fails calloc m) malloc_ok k v strategy (hm_view m)"
proof (cases "strategy = HASHMAP_UPDATE")
  case True
  then show ?thesis using assms by (auto simp: hashmap__insert_def insert_spec_def Let_def)
next
  case False
  then have "insert_spec (keys_eq m) (hashmap_needs_to_grow m) (grow_fails calloc m) malloc_ok k v strategy (hm_view m) =
      insert_spec (keys_eq m) (hashmap_needs_to_grow m) (grow_fails calloc m) malloc_ok k v HASHMAP_APPEND (hm_view m)"
    using assms(2) by (auto simp: insert_spec_def)
  moreover obtain ret m' where "insert_new shift64 calloc malloc_ok m k v = Some (ret, m')" "hm_ok m'" "keys_eq m' = keys_eq m"
    "(ret, None, hm_view m') = insert_spec (keys_eq m) (hashmap_needs_to_grow m) (grow_fails calloc m) malloc_ok k v
      HASHMAP_APPEND (hm_view m)"
    using insert_new_refines [OF assms(1)] by blast
  moreover from this have "hashmap__insert shift64 calloc malloc_ok m k v strategy = Some (ret, None, m')"
    using False assms(2) by (auto simp: hashmap__insert_def Let_def)
  ultimately show ?thesis by (intro exI [of _ ret] exI [of _ None] exI [of _ m']) simp
qed

lemma insert_refines:
  assumes "hm_ok m"
  shows "\<exists>ret old m'. hashmap__insert shift64 calloc malloc_ok m k v strategy = Some (ret, old, m') \<and> hm_ok m' \<and>
    keys_eq m' = keys_eq m \<and>
    (ret, map_option snd old, hm_view m') =
      insert_spec (keys_eq m) (hashmap_needs_to_grow m) (grow_fails calloc m) malloc_ok k v strategy (hm_view m)"
  using assms
proof (cases rule: hm_ok_cases)
  case empty
  then show ?thesis using assms by (intro insert_absent) (simp_all add: hashmap_find_entry_def)
next
  case (live bs)
  let ?h = "key_bucket id m k (cap_bits m)"
  have h: "key_bucket shift64 m k (cap_bits m) = ?h" by (rule chains_bucket(1) [OF live(2)])
  from find_entry_live [OF assms live(1), of k] show ?thesis
  proof (elim disjE exE conjE)
    assume "hm_view m k = []" "hashmap_find_entry m k ?h = Some None"
    then show ?thesis using assms by (intro insert_absent) (simp_all add: h)
  next
    fix a k0 v0 b
    assume f: "bs ! ?h = a @ (k0, v0) # b" "keys_eq m k0 k" "\<forall>e\<in>set a. \<not> keys_eq m (fst e) k"
      "hm_view m k = v0 # map snd (filter (\<lambda>e. keys_eq m (fst e) k) b)"
      "hashmap_find_entry m k ?h = Some (Some (length a, k0, v0))"
    let ?m = "set_entry m ?h (length a) (k, v)"
    have set: "?m = m\<lparr>buckets := Live (bs[?h := a @ [(k, v)] @ b]), sz := sz m + length [(k, v)] - 1\<rparr>"
      using live(1) f(1) by (simp add: set_entry_def list_update_append)
    have "hm_ok ?m" "hm_view ?m = (\<lambda>k'. if keys_eq m k k' then map snd [(k, v)] @ tl (hm_view m k') else hm_view m k')"
      by (rule found_entry_effect [OF assms live(1) refl f(1-3) _ set]; simp)+
    moreover have "keys_eq ?m = keys_eq m" by (simp add: set_entry_def keys_eq_def fun_eq_iff)
    ultimately show ?thesis using insert_absent [OF assms, of strategy] f(4,5) assms
      by (cases strategy) (auto simp: hashmap__insert_def insert_spec_def Let_def h)
  qed
qed

lemma find_delete_refine:
  assumes "hm_ok m"
  shows "hashmap__find shift64 m k = Some (if hm_view m k = [] then None else Some (hd (hm_view m k))) \<and>
    (\<exists>old m'. hashmap__delete shift64 m k = Some (hm_view m k \<noteq> [], old, m') \<and> hm_ok m' \<and>
       map_option snd old = (if hm_view m k = [] then None else Some (hd (hm_view m k))) \<and>
       hm_view m' = (\<lambda>k'. if keys_eq m k k' then tl (hm_view m k') else hm_view m k'))"
  using assms
proof (cases rule: hm_ok_cases)
  case empty
  then show ?thesis using assms
    by (simp add: hashmap__find_def hashmap__delete_def hashmap_find_entry_def Let_def fun_eq_iff)
next
  case (live bs)
  let ?h = "key_bucket id m k (cap_bits m)"
  have h: "key_bucket shift64 m k (cap_bits m) = ?h" by (rule chains_bucket(1) [OF live(2)])
  have none: "hm_view m k' = []" if "hm_view m k = []" "keys_eq m k k'" for k'
    using that live(1) key_hash.eq_cong [OF hm_okD [OF assms] that(2)] by (simp add: hm_view_def)
  from find_entry_live [OF assms live(1), of k] show ?thesis
  proof (elim disjE exE conjE)
    assume "hm_view m k = []" "hashmap_find_entry m k ?h = Some None"
    then show ?thesis using assms none
      by (auto simp: hashmap__find_def hashmap__delete_def Let_def h fun_eq_iff)
  next
    fix a k0 v0 b
    assume f: "bs ! ?h = a @ (k0, v0) # b" "keys_eq m k0 k" "\<forall>e\<in>set a. \<not> keys_eq m (fst e) k"
      "hm_view m k = v0 # map snd (filter (\<lambda>e. keys_eq m (fst e) k) b)"
      "hashmap_find_entry m k ?h = Some (Some (length a, k0, v0))"
    let ?m = "m\<lparr>buckets := Live (hashmap_del_entry bs ?h (length a)), sz := (sz m + 2 ^ 64 - 1) mod 2 ^ 64\<rparr>"
    have "0 < length (concat bs)"
      using length_concat_update [OF chains_bucket(2) [OF live(2), of k], of "[]"] arg_cong [OF f(1), of length]
      by (simp only: list.size length_append)
    then have pos: "0 < sz m" using live(2) by (simp add: chains_ok_def)
    then have "sz m + 2 ^ 64 - 1 = 2 ^ 64 + (sz m - 1)" by simp
    then have "(sz m + 2 ^ 64 - 1) mod 2 ^ 64 = sz m - 1"
      using hm_ok_sizes [OF assms] by (simp only: mod_add_self1) simp
    then have m: "?m = m\<lparr>buckets := Live (bs[?h := a @ [] @ b]), sz := sz m + length ([] :: ('a \<times> 'b) list) - 1\<rparr>"
      using f(1) by (simp add: hashmap_del_entry_def)
    have "hm_ok ?m" "hm_view ?m = (\<lambda>k'. if keys_eq m k k' then map snd ([] :: ('a \<times> 'b) list) @ tl (hm_view m k') else hm_view m k')"
      by (rule found_entry_effect [OF assms live(1) refl f(1-3) _ m]; simp)+
    then show ?thesis using f(4,5) live(1)
      by (simp add: hashmap__find_def hashmap__delete_def Let_def h cong: if_cong)
  qed
qed

text \<open>Sizes: an insertion adds at most one entry, and a small map can always grow.\<close>

lemma insert_size:
  assumes "hashmap__insert shift64 calloc malloc_ok m k v strategy = Some (ret, old, m')"
  shows "sz m' \<le> sz m + 1"
proof -
  have grow: "sz m2 = sz m" if "hashmap_grow shift64 calloc m = Some (e, m2)" for e m2
    using that by (auto simp: hashmap_grow_def Let_def split: if_splits Option.bind_splits)
  have "sz m2 \<le> sz m + 1" if "insert_new shift64 calloc malloc_ok m k v = Some (e, m2)" for e m2
    using that grow
    by (fastforce simp: insert_new_def Let_def mod_le_divisor intro: order_trans [OF mod_less_eq_dividend]
        split: if_splits Option.bind_splits ptr.splits)
  then show ?thesis using assms
    by (auto simp: hashmap__insert_def Let_def set_entry_def split: if_splits Option.bind_splits option.splits)
qed

lemma small_map_grows:
  assumes "hm_ok m" "hashmap_needs_to_grow m" "sz m < 2 ^ 50"
  shows "\<not> grow_fails (\<lambda>n. True) m"
proof
  assume "grow_fails (\<lambda>n. True) m"
  then have "(2::nat) ^ 61 \<le> 2 ^ max (cap_bits m + 1) HASHMAP_MIN_CAP_BITS" by (simp add: grow_fails_def)
  then have "61 \<le> max (cap_bits m + 1) HASHMAP_MIN_CAP_BITS" by (simp only: power_increasing_iff)
  then have c: "60 \<le> cap_bits m" by (simp add: HASHMAP_MIN_CAP_BITS_def)
  from assms(1) have "cap m = 2 ^ cap_bits m" by (cases rule: hm_ok_cases) (use c in \<open>auto simp: chains_ok_def\<close>)
  with c have "(2::nat) ^ 60 \<le> cap m" by (simp only: power_increasing_iff)
  with assms needs_to_grow_iff [OF assms(1)] show False by auto
qed

section \<open>The properties\<close>

text \<open>A map with no entries, for the witnesses, and one with three appended values.\<close>

definition empty_map :: "(string, nat, unit) hashmap" where
  "empty_map = hashmap__init str_hash_fn str_equal_fn ()"

lemma empty_map_ok: "hm_ok empty_map" "hm_view empty_map = (\<lambda>k. [])"
  using str_keys.key_hash_axioms
  by (simp_all add: empty_map_def hm_ok_def hashmap__init_def keys_eq_def [abs_def] hm_view_def [abs_def])

text \<open>C16. Insertion refines a multimap: whatever the strategy and whichever allocation fails, the
code, the old value and the new values of every key are those of the specification, and the map stays
well-formed. Neither the shift by 64 bits nor a wrap-around of a size is ever seen.\<close>

theorem hashmap_insert_refines:
  assumes "hm_ok m"
  shows "\<exists>ret old m'. hashmap__insert shift64 calloc malloc_ok m k v strategy = Some (ret, old, m') \<and> hm_ok m' \<and>
    keys_eq m' = keys_eq m \<and>
    (ret, map_option snd old, hm_view m') =
      insert_spec (keys_eq m) (hashmap_needs_to_grow m) (grow_fails calloc m) malloc_ok k v strategy (hm_view m)"
  by (rule insert_refines [OF assms])

lemma hashmap_insert_refines_witness:
  "\<exists>ret old m'. hashmap__insert id (\<lambda>n. True) True empty_map ''eth0'' 7 HASHMAP_SET = Some (ret, old, m') \<and> hm_ok m' \<and>
    ret = 0 \<and> old = None \<and> hm_view m' ''eth0'' = [7] \<and> hm_view m' ''lo'' = []"
proof -
  have eq: "keys_eq empty_map a b = (a = b)" for a b
    by (simp add: keys_eq_def empty_map_def hashmap__init_def str_equal_fn_def)
  have "hashmap_needs_to_grow empty_map" "\<not> grow_fails (\<lambda>n. True) empty_map"
    by (simp_all add: hashmap_needs_to_grow_def grow_fails_def empty_map_def hashmap__init_def HASHMAP_MIN_CAP_BITS_def)
  then have "insert_spec (keys_eq empty_map) (hashmap_needs_to_grow empty_map) (grow_fails (\<lambda>n. True) empty_map) True ''eth0''
      (7::nat) HASHMAP_SET (hm_view empty_map) = (0, None, \<lambda>k. if ''eth0'' = k then [7] else [])"
    by (auto simp: insert_spec_def empty_map_ok eq Let_def fun_eq_iff)
  then show ?thesis
    using hashmap_insert_refines [OF empty_map_ok(1), of id "\<lambda>n. True" True "''eth0''" 7 HASHMAP_SET] by auto
qed

text \<open>C17. Lookups and deletions refine the multimap: \<open>hashmap__find\<close> returns the first value of the
key, \<open>hashmap__delete\<close> returns and removes it and leaves every other key alone.\<close>

theorem hashmap_find_delete_refine:
  assumes "hm_ok m"
  shows "hashmap__find shift64 m k = Some (if hm_view m k = [] then None else Some (hd (hm_view m k))) \<and>
    (\<exists>old m'. hashmap__delete shift64 m k = Some (hm_view m k \<noteq> [], old, m') \<and> hm_ok m' \<and>
       map_option snd old = (if hm_view m k = [] then None else Some (hd (hm_view m k))) \<and>
       hm_view m' = (\<lambda>k'. if keys_eq m k k' then tl (hm_view m k') else hm_view m k'))"
  by (rule find_delete_refine [OF assms])

lemma hashmap_find_delete_refine_witness:
  "hashmap__find id empty_map ''eth0'' = Some None \<and> (\<exists>m'. hashmap__delete id empty_map ''eth0'' = Some (False, None, m'))"
  using hashmap_find_delete_refine [OF empty_map_ok(1), of id "''eth0''"] by (auto simp: empty_map_ok(2))

text \<open>Growing reverses the values of a key: after an insertion of another key that makes the map
grow, a lookup of a key with several values finds the last value of the old order, although the header
promises that it finds the last inserted one.\<close>

theorem growth_reverses_append_order:
  assumes "hm_ok m" "hashmap_needs_to_grow m" "\<not> grow_fails calloc m" "hm_view m k = vs" "vs \<noteq> []" "\<not> keys_eq m k' k"
  shows "\<exists>m'. hashmap__append shift64 calloc True m k' v = Some (0, None, m') \<and> hashmap__find shift64 m' k = Some (Some (last vs))"
proof -
  obtain ret old m' where r: "hashmap__insert shift64 calloc True m k' v HASHMAP_APPEND = Some (ret, old, m')" "hm_ok m'"
    "(ret, map_option snd old, hm_view m') =
      insert_spec (keys_eq m) (hashmap_needs_to_grow m) (grow_fails calloc m) True k' v HASHMAP_APPEND (hm_view m)"
    using insert_refines [OF assms(1)] by metis
  then have "ret = 0" "old = None" "hm_view m' k = rev vs"
    using assms(2-6) by (auto simp: insert_spec_def Let_def)
  with r(1) conjunct1 [OF find_delete_refine [OF r(2), of shift64 k]] assms(5) show ?thesis
    by (simp add: hashmap__append_def hd_rev)
qed

text \<open>Three values of one key fill a new map up to the point where the next insertion makes it grow.\<close>

definition full_map :: "(string, nat, unit) hashmap" where
  "full_map = (let h = key_bucket id empty_map ''a'' 2 in
     empty_map\<lparr>buckets := Live ((replicate 4 [])[h := [(''a'', 3), (''a'', 2), (''a'', 1)]]), cap := 4, cap_bits := 2, sz := 3\<rparr>)"

lemma full_map_ok: "hm_ok full_map" "hm_view full_map ''a'' = [3, 2, 1]"
proof -
  have c: "concat ((replicate 4 [])[h := es]) = es" if "h < 4" for h and es :: "(string \<times> nat) list"
  proof -
    have "h = 0 \<or> h = 1 \<or> h = 2 \<or> h = 3" using that by linarith
    then show ?thesis by (auto simp: numeral_eq_Suc)
  qed
  let ?h = "key_bucket id empty_map ''a'' 2"
  have h: "?h < 4" using key_bucket_less [of 2 id empty_map "''a''"] by simp
  have kb: "key_bucket id full_map = key_bucket id empty_map"
    by (rule key_bucket_cong) (simp_all add: full_map_def Let_def)
  have eq: "keys_eq full_map = keys_eq empty_map" by (simp add: full_map_def Let_def keys_eq_def fun_eq_iff)
  have "key_hash (\<lambda>k. hash_fn full_map k (map_ctx full_map)) (keys_eq full_map)"
    using hm_okD [OF empty_map_ok(1)] by (simp add: eq) (simp add: full_map_def Let_def)
  moreover have "chains_ok full_map ((replicate 4 [])[?h := [(''a'', 3), (''a'', 2), (''a'', 1)]])"
    unfolding chains_ok_def kb c [OF h] by (auto simp: full_map_def Let_def nth_list_update h)
  ultimately show "hm_ok full_map" by (simp add: hm_ok_def) (simp add: full_map_def Let_def)
  have b: "buckets full_map = Live ((replicate 4 [])[?h := [(''a'', 3), (''a'', 2), (''a'', 1)]])"
    by (simp add: full_map_def Let_def)
  show "hm_view full_map ''a'' = [3, 2, 1]"
    unfolding hm_view_def eq b ptr.case c [OF h]
    by (simp add: keys_eq_def empty_map_def hashmap__init_def str_equal_fn_def)
qed

lemma growth_reverses_append_order_witness:
  "\<exists>m'. hashmap__append id (\<lambda>n. True) True full_map ''b'' 9 = Some (0, None, m') \<and> hashmap__find id m' ''a'' = Some (Some 1)"
proof -
  have "hashmap_needs_to_grow full_map" "\<not> grow_fails (\<lambda>n. True) full_map" "\<not> keys_eq full_map ''b'' ''a''"
    by (simp_all add: hashmap_needs_to_grow_def grow_fails_def full_map_def Let_def HASHMAP_MIN_CAP_BITS_def
        keys_eq_def empty_map_def hashmap__init_def str_equal_fn_def)
  from growth_reverses_append_order [OF full_map_ok(1) this(1,2) full_map_ok(2) _ this(3), of id 9] show ?thesis by simp
qed

text \<open>A cleared map must not be used: \<open>hashmap__clear\<close> frees the array of a map that has one but
keeps the pointer, so every later lookup, insertion, deletion, clear or free is a fault.\<close>

theorem cleared_map_faults:
  assumes "hm_ok m" "hashmap__size m \<noteq> 0"
  shows "\<exists>m'. hashmap__clear m = Some m' \<and> hashmap__find shift64 m' k = None \<and>
    hashmap__insert shift64 calloc malloc_ok m' k v strategy \<in> {None, Some (- ENOMEM, None, m')} \<and>
    hashmap__delete shift64 m' k = None \<and> hashmap__free (Some m') = None"
  using assms(1)
proof (cases rule: hm_ok_cases)
  case (live bs)
  then show ?thesis
    by (auto simp: hashmap__clear_def free_ptr_def hashmap__find_def hashmap__insert_def hashmap__delete_def
        hashmap_find_entry_def hashmap__free_def Let_def insert_new_def hashmap_needs_to_grow_def
        hashmap_grow_def hashmap__for_each_entry_def)
qed (use assms(2) in \<open>simp add: hashmap__size_def\<close>)

lemma cleared_map_faults_witness:
  "\<exists>m'. hashmap__clear full_map = Some m' \<and> hashmap__find id m' ''a'' = None \<and> hashmap__free (Some m') = None"
  using cleared_map_faults [OF full_map_ok(1), of id "''a''" "\<lambda>n. True" True 1 HASHMAP_SET]
  by (auto simp: hashmap__size_def full_map_def Let_def)

section \<open>Evaluation\<close>

text \<open>Equations that compute on concrete maps: sizes are compared and wrapped as words, not as unary numbers.\<close>

lemma size_wrap: "n mod 2 ^ 64 = unat (of_nat n :: u64)"
  by (simp add: unat_of_nat)

lemma hashmap_needs_to_grow_code [code]:
  "hashmap_needs_to_grow m \<longleftrightarrow> cap m = 0 \<or> unat (of_nat (sz m + 1) * 4 :: u64) div 3 > cap m"
  by (simp only: hashmap_needs_to_grow_def unat_word_ariths unat_of_nat mod_mult_left_eq) simp

lemma hashmap_grow_code [code]:
  "hashmap_grow shift64 calloc m =
     (let new_cap_bits = max (cap_bits m + 1) HASHMAP_MIN_CAP_BITS;
          new_cap = 2 ^ new_cap_bits
      in if 61 \<le> new_cap_bits \<or> \<not> calloc new_cap then Some (- ENOMEM, m)
      else do {
        es \<leftarrow> hashmap__for_each_entry m;
        let bs = rehash (\<lambda>k. key_bucket shift64 m k new_cap_bits) es (replicate new_cap []);
        _ \<leftarrow> free_ptr (buckets m);
        Some (0, m\<lparr>cap := new_cap, cap_bits := new_cap_bits, buckets := Live bs\<rparr>)
      })"
proof -
  have "(2 :: nat) ^ n * 8 \<ge> 2 ^ 64 \<longleftrightarrow> 61 \<le> n" for n
    using power_increasing_iff [of "2 :: nat" 61 n] by simp
  then show ?thesis by (simp add: hashmap_grow_def Let_def)
qed

lemma insert_new_code [code]:
  "insert_new shift64 calloc malloc_ok m key value = do {
     (err, m) \<leftarrow> (if hashmap_needs_to_grow m then hashmap_grow shift64 calloc m else Some (0, m));
     if err \<noteq> 0 then Some (err, m)
     else if \<not> malloc_ok then Some (- ENOMEM, m)
     else let h = key_bucket shift64 m key (cap_bits m) in
       case buckets m of
         Live bs \<Rightarrow>
           if h < length bs then
             Some (0, m\<lparr>buckets := Live (hashmap_add_entry bs h (key, value)), sz := unat (of_nat (sz m + 1) :: u64)\<rparr>)
           else None
       | _ \<Rightarrow> None
   }"
  by (simp only: insert_new_def size_wrap)

end
