(* ===== verification/Btf_Names.thy ===== *)
theory Btf_Names
  imports Hashmap Text Bpf_User
begin

text \<open>
  The naming of types in libbpf/src/btf_dump.c, a client of the hash map: the first type of a name
  keeps it, a later one gets the number of its occurrence as a suffix. What of \<open>struct btf_dump\<close> the
  code uses is the record \<open>btf_dump\<close>; a type without a name (\<open>name_off\<close> is 0) has \<^term>\<open>None\<close>.
\<close>

record btf_dump =
  orig_names :: "string option list"
  name_resolved :: "bool list"
  cached_names :: "string option list"

text \<open>The value of a name in the map is its counter, a \<open>size_t\<close> stored in the pointer itself.\<close>

definition btf_dump_name_dups ::
    "(u64 \<Rightarrow> u64) \<Rightarrow> (nat \<Rightarrow> bool) \<Rightarrow> bool \<Rightarrow> (string, nat, unit) hashmap \<Rightarrow> string \<Rightarrow> (nat \<times> (string, nat, unit) hashmap) option" where
  "btf_dump_name_dups shift64 calloc malloc_ok name_map orig_name = do {
     found \<leftarrow> hashmap__find shift64 name_map orig_name;
     let dup_cnt = ((case found of None \<Rightarrow> 0 | Some n \<Rightarrow> n) + 1) mod 2 ^ 64;
     (err, old, name_map) \<leftarrow> hashmap__set shift64 calloc malloc_ok name_map orig_name dup_cnt;
     Some (dup_cnt, name_map)
   }"

text \<open>The result: the name, the cached names and flags, and the map.\<close>

definition btf_dump_resolve_name ::
    "(u64 \<Rightarrow> u64) \<Rightarrow> (nat \<Rightarrow> bool) \<Rightarrow> bool \<Rightarrow> bool \<Rightarrow> btf_dump \<Rightarrow> nat \<Rightarrow> (string, nat, unit) hashmap
      \<Rightarrow> (string \<times> btf_dump \<times> (string, nat, unit) hashmap) option" where
  "btf_dump_resolve_name shift64 calloc malloc_ok strdup_ok d i name_map =
     (if i \<ge> length (orig_names d) then None
      else case orig_names d ! i of
        None \<Rightarrow> Some ([], d, name_map)
      | Some orig_name \<Rightarrow>
          if i \<ge> length (name_resolved d) \<or> i \<ge> length (cached_names d) then None
          else let name = (\<lambda>d. case cached_names d ! i of None \<Rightarrow> orig_name | Some n \<Rightarrow> n) in
          if name_resolved d ! i then Some (name d, d, name_map)
          else do {
            (dup_cnt, name_map) \<leftarrow> btf_dump_name_dups shift64 calloc malloc_ok name_map orig_name;
            let d = (if dup_cnt > 1
              then let new_name = snd (snprintf 256 (orig_name @ ''___'' @ show_nat dup_cnt))
                in d\<lparr>cached_names := (cached_names d)[i := if strdup_ok then Some new_name else None]\<rparr>
              else d);
            let d = d\<lparr>name_resolved := (name_resolved d)[i := True]\<rparr>;
            Some (name d, d, name_map)
          })"

section \<open>Counting and naming\<close>

text \<open>A counter map: distinct entries, one counter for every name that occurred.\<close>

definition counts :: "(string, nat, unit) hashmap \<Rightarrow> (string \<Rightarrow> nat) \<Rightarrow> nat \<Rightarrow> bool" where
  "counts nm cnt N \<longleftrightarrow> hm_ok nm \<and> keys_eq nm = (=) \<and> sz nm \<le> N \<and>
     hm_view nm = (\<lambda>n. if cnt n = 0 then [] else [cnt n])"

lemma name_dups_effect:
  assumes "counts nm cnt N" "N < 2 ^ 50" "cnt n \<le> N"
  shows "\<exists>nm'. btf_dump_name_dups shift64 (\<lambda>n. True) True nm n = Some (cnt n + 1, nm') \<and>
    counts nm' (cnt(n := cnt n + 1)) (N + 1)"
proof -
  have ok: "hm_ok nm" and eq: "keys_eq nm = (=)" and view: "hm_view nm = (\<lambda>n. if cnt n = 0 then [] else [cnt n])"
    using assms(1) by (simp_all add: counts_def)
  obtain ret old nm' where i: "hashmap__insert shift64 (\<lambda>n. True) True nm n (cnt n + 1) HASHMAP_SET = Some (ret, old, nm')"
    "hm_ok nm'" "keys_eq nm' = keys_eq nm"
    "(ret, map_option snd old, hm_view nm') = insert_spec (keys_eq nm) (hashmap_needs_to_grow nm)
       (grow_fails (\<lambda>n. True) nm) True n (cnt n + 1) HASHMAP_SET (hm_view nm)"
    using insert_refines [OF ok] by metis
  have "hashmap_needs_to_grow nm \<longrightarrow> \<not> grow_fails (\<lambda>n. True) nm"
    using small_map_grows [OF ok] assms(1,2) by (auto simp: counts_def)
  then have "hm_view nm' = (\<lambda>k. if (cnt(n := cnt n + 1)) k = 0 then [] else [(cnt(n := cnt n + 1)) k])"
    using i(4) eq view by (auto simp: insert_spec_def Let_def fun_eq_iff split: if_splits)
  moreover have "sz nm' \<le> N + 1" using insert_size [OF i(1)] assms(1) by (simp add: counts_def)
  ultimately have "counts nm' (cnt(n := cnt n + 1)) (N + 1)"
    using i(2,3) eq unfolding counts_def by simp
  then show ?thesis
    using i(1) view assms(2,3) conjunct1 [OF find_delete_refine [OF ok, of shift64 n]]
    by (auto simp: btf_dump_name_dups_def hashmap__set_def Let_def)
qed

text \<open>The name of the type with \<open>c\<close> types of the same name before it.\<close>

definition name_of_count :: "string \<Rightarrow> nat \<Rightarrow> string" where
  "name_of_count n c = (if c = 0 then n else take 255 (n @ ''___'' @ show_nat (c + 1)))"

definition unresolved :: "btf_dump \<Rightarrow> nat \<Rightarrow> string \<Rightarrow> bool" where
  "unresolved d i n \<longleftrightarrow> i < length (orig_names d) \<and> orig_names d ! i = Some n \<and>
     i < length (name_resolved d) \<and> i < length (cached_names d) \<and> \<not> name_resolved d ! i \<and> cached_names d ! i = None"

lemma resolve_name_effect:
  assumes "unresolved d i n" "counts nm cnt N" "N < 2 ^ 50" "cnt n \<le> N"
  shows "\<exists>d' nm'. btf_dump_resolve_name shift64 (\<lambda>n. True) True True d i nm = Some (name_of_count n (cnt n), d', nm') \<and>
    counts nm' (cnt(n := cnt n + 1)) (N + 1) \<and> (\<forall>j m. j \<noteq> i \<longrightarrow> unresolved d j m \<longrightarrow> unresolved d' j m) \<and>
    btf_dump_resolve_name shift64 (\<lambda>n. True) True True d' i nm' = Some (name_of_count n (cnt n), d', nm')"
proof -
  obtain nm' where "btf_dump_name_dups shift64 (\<lambda>n. True) True nm n = Some (cnt n + 1, nm')"
    "counts nm' (cnt(n := cnt n + 1)) (N + 1)"
    using name_dups_effect [OF assms(2-4)] by blast
  then show ?thesis using assms(1)
    by (cases "cnt n = 0") (auto simp: btf_dump_resolve_name_def unresolved_def Let_def name_of_count_def snprintf_def)
qed

text \<open>Resolving types one after the other.\<close>

fun resolve_all ::
    "(u64 \<Rightarrow> u64) \<Rightarrow> btf_dump \<Rightarrow> (string, nat, unit) hashmap \<Rightarrow> nat list \<Rightarrow> string list option" where
  "resolve_all shift64 d nm [] = Some []"
| "resolve_all shift64 d nm (i # is) = do {
     (n, d, nm) \<leftarrow> btf_dump_resolve_name shift64 (\<lambda>n. True) True True d i nm;
     ns \<leftarrow> resolve_all shift64 d nm is;
     Some (n # ns)
   }"

fun numbered :: "(string \<Rightarrow> nat) \<Rightarrow> string list \<Rightarrow> string list" where
  "numbered cnt [] = []"
| "numbered cnt (n # ns) = name_of_count n (cnt n) # numbered (cnt(n := cnt n + 1)) ns"

lemma resolve_all_numbered:
  "list_all2 (unresolved d) is ns \<Longrightarrow> distinct is \<Longrightarrow> counts nm cnt N \<Longrightarrow> (\<And>n. cnt n \<le> N) \<Longrightarrow> N + length is < 2 ^ 50 \<Longrightarrow>
     resolve_all shift64 d nm is = Some (numbered cnt ns)"
proof (induction "is" arbitrary: d nm cnt N ns)
  case (Cons i "is")
  from Cons.prems(1) obtain n ms where ns: "ns = n # ms" "unresolved d i n" "list_all2 (unresolved d) is ms"
    by (auto simp: list_all2_Cons1)
  obtain d' nm' where r: "btf_dump_resolve_name shift64 (\<lambda>n. True) True True d i nm = Some (name_of_count n (cnt n), d', nm')"
    "counts nm' (cnt(n := cnt n + 1)) (N + 1)" "\<forall>j m. j \<noteq> i \<longrightarrow> unresolved d j m \<longrightarrow> unresolved d' j m"
    using resolve_name_effect [OF ns(2) Cons.prems(3), of shift64] Cons.prems(4,5) by auto
  have "list_all2 (unresolved d') is ms"
    using ns(3) r(3) Cons.prems(2) by (auto simp: list_all2_conv_all_nth) (metis nth_mem)
  then have "resolve_all shift64 d' nm' is = Some (numbered (cnt(n := cnt n + 1)) ms)"
    by (rule Cons.IH [OF _ _ r(2)]) (use Cons.prems(2,4,5) le_Suc_eq in auto)
  with r(1) show ?case by (simp add: ns(1))
qed simp

definition fresh_dump :: "string list \<Rightarrow> btf_dump" where
  "fresh_dump ns = \<lparr>orig_names = map Some ns, name_resolved = replicate (length ns) False,
     cached_names = replicate (length ns) None\<rparr>"

lemma numbered_nth:
  "j < length ns \<Longrightarrow> numbered cnt ns ! j = name_of_count (ns ! j) (cnt (ns ! j) + count_list (take j ns) (ns ! j))"
  by (induction ns arbitrary: cnt j) (auto simp: nth_Cons split: nat.splits)

text \<open>Types are numbered by name: from a fresh dump, the types of a list of named types get, in the
order they are resolved, their own name the first time it occurs and afterwards the name with the
number of its occurrence, cut off at 255 characters. The suffix is not checked against the other names.\<close>

theorem names_numbered:
  assumes "length ns < 2 ^ 50"
  shows "\<exists>names. resolve_all shift64 (fresh_dump ns) (hashmap__init str_hash_fn str_equal_fn ()) [0..<length ns] = Some names \<and>
    length names = length ns \<and>
    (\<forall>j<length ns. names ! j = name_of_count (ns ! j) (count_list (take j ns) (ns ! j)))"
proof -
  have "counts (hashmap__init str_hash_fn str_equal_fn ()) (\<lambda>n. 0) 0"
    using empty_map_ok by (simp add: counts_def empty_map_def hashmap__init_def keys_eq_def [abs_def] str_equal_fn_def fun_eq_iff)
  moreover have "list_all2 (unresolved (fresh_dump ns)) [0..<length ns] ns"
    by (simp add: list_all2_conv_all_nth unresolved_def fresh_dump_def)
  ultimately have "resolve_all shift64 (fresh_dump ns) (hashmap__init str_hash_fn str_equal_fn ()) [0..<length ns] =
      Some (numbered (\<lambda>n. 0) ns)"
    using resolve_all_numbered [where ns = ns and N = 0 and cnt = "\<lambda>n. 0"] assms by simp
  moreover have "length (numbered cnt ns) = length ns" for cnt by (induction ns arbitrary: cnt) auto
  ultimately show ?thesis by (simp add: numbered_nth)
qed

lemma names_numbered_witness:
  "\<exists>names. resolve_all id (fresh_dump [''a'', ''a'', ''a___2'']) (hashmap__init str_hash_fn str_equal_fn ()) [0..<3] = Some names \<and>
    names ! 1 = ''a___2'' \<and> names ! 2 = ''a___2''"
proof -
  have two: "show_nat 2 = ''2''" by (subst show_nat.simps) (simp add: digit_char_def char_of_def bit_numeral_rec bit_0)
  let ?L = "[''a'', ''a'', ''a___2'']"
  have "length ?L = 3" by simp
  from names_numbered [of ?L id, unfolded this]
  obtain names where r: "resolve_all id (fresh_dump ?L) (hashmap__init str_hash_fn str_equal_fn ()) [0..<3] = Some names"
    and n: "\<forall>j<3. names ! j = name_of_count (?L ! j) (count_list (take j ?L) (?L ! j))"
    by auto
  have "names ! 1 = ''a___2''" "names ! 2 = ''a___2''"
    using n [rule_format, of 1] n [rule_format, of 2] two two [folded Suc_1 [symmetric], unfolded numeral_2_eq_2]
    by (simp_all add: name_of_count_def take_Cons' nth_Cons')
  with r show ?thesis by blast
qed

end
