(* ===== verification/Nlattr.thy ===== *)
theory Nlattr
  imports Bytes
begin

text \<open>
  libbpf/src/nlattr.c and nlattr.h: the attributes of netlink messages, over the bytes of a buffer.
  A pointer to an attribute is its offset in the buffer; an access outside the buffer is a fault.
  The fields and macros are those of include/uapi/linux/netlink.h.
\<close>

section \<open>Attributes\<close>

definition sizeof_nlattr :: nat where "sizeof_nlattr = 4"
definition NLA_HDRLEN :: int where "NLA_HDRLEN = 4"
definition NLA_F_NESTED :: u16 where "NLA_F_NESTED = 0x8000"
definition NLA_TYPE_MASK :: u16 where "NLA_TYPE_MASK = 0x3FFF"

definition NLA_ALIGN :: "int \<Rightarrow> int" where
  "NLA_ALIGN len = (len + 4 - 1) AND NOT (4 - 1)"

definition nla_len :: "bytes \<Rightarrow> nat \<Rightarrow> u16 option" where
  [layout]: "nla_len m nla = load16 m nla"

definition nla_type_field :: "bytes \<Rightarrow> nat \<Rightarrow> u16 option" where
  [layout]: "nla_type_field m nla = load16 m (nla + 2)"

datatype nla_kind = LIBBPF_NLA_UNSPEC | LIBBPF_NLA_U8 | LIBBPF_NLA_U16 | LIBBPF_NLA_U32 | LIBBPF_NLA_U64 |
  LIBBPF_NLA_STRING | LIBBPF_NLA_FLAG | LIBBPF_NLA_MSECS | LIBBPF_NLA_NESTED | NLA_KIND_OTHER

record nla_policy =
  p_type :: nla_kind
  p_minlen :: u16
  p_maxlen :: u16

text \<open>The table names the first seven kinds up to \<open>LIBBPF_NLA_FLAG\<close>; C fills the others with 0.\<close>

fun nla_attr_minlen :: "nla_kind \<Rightarrow> u16" where
  "nla_attr_minlen LIBBPF_NLA_U8 = 1"
| "nla_attr_minlen LIBBPF_NLA_U16 = 2"
| "nla_attr_minlen LIBBPF_NLA_U32 = 4"
| "nla_attr_minlen LIBBPF_NLA_U64 = 8"
| "nla_attr_minlen LIBBPF_NLA_STRING = 1"
| "nla_attr_minlen _ = 0"

text \<open>The length of the attribute with its padding; the rest may become negative.\<close>

definition nla_next :: "bytes \<Rightarrow> nat \<Rightarrow> int \<Rightarrow> (nat \<times> int) option" where
  "nla_next m nla remaining = do {
     len \<leftarrow> nla_len m nla;
     let totlen = NLA_ALIGN (uint len);
     Some (nla + nat totlen, remaining - totlen)
   }"

text \<open>
  \<open>remaining >= sizeof(*nla)\<close> compares an \<open>int\<close> with a \<open>size_t\<close>: a negative \<open>remaining\<close> is a huge
  number there, and the attribute is read.
\<close>

definition nla_ok :: "bytes \<Rightarrow> nat \<Rightarrow> int \<Rightarrow> bool option" where
  "nla_ok m nla remaining =
     (if size_of_int remaining \<ge> of_nat sizeof_nlattr then do {
        len \<leftarrow> nla_len m nla;
        Some (len \<ge> of_nat sizeof_nlattr \<and> uint len \<le> remaining)
      } else Some False)"

definition nla_type :: "bytes \<Rightarrow> nat \<Rightarrow> int option" where
  "nla_type m nla = do { t \<leftarrow> nla_type_field m nla; Some (uint (t AND NLA_TYPE_MASK)) }"

definition libbpf_nla_data :: "nat \<Rightarrow> nat" where
  "libbpf_nla_data nla = nla + nat NLA_HDRLEN"

definition libbpf_nla_len :: "bytes \<Rightarrow> nat \<Rightarrow> int option" where
  "libbpf_nla_len m nla = do { len \<leftarrow> nla_len m nla; Some (uint len - NLA_HDRLEN) }"

definition libbpf_nla_getattr_u8 :: "bytes \<Rightarrow> nat \<Rightarrow> u8 option" where
  "libbpf_nla_getattr_u8 m nla = load8 m (libbpf_nla_data nla)"

definition libbpf_nla_getattr_u32 :: "bytes \<Rightarrow> nat \<Rightarrow> u32 option" where
  "libbpf_nla_getattr_u32 m nla = load32 m (libbpf_nla_data nla)"

text \<open>The text that starts at an address and ends before the first zero byte.\<close>

definition string_at :: "bytes \<Rightarrow> nat \<Rightarrow> string option" where
  "string_at m a =
     (let bs = takeWhile (\<lambda>b. b \<noteq> 0) (drop a m) in
      if a + length bs < length m then Some (map (\<lambda>b. char_of (unat b)) bs) else None)"

definition libbpf_nla_getattr_str :: "bytes \<Rightarrow> nat \<Rightarrow> string option" where
  "libbpf_nla_getattr_str m nla = string_at m (libbpf_nla_data nla)"

section \<open>Validation and parsing\<close>

text \<open>\<open>policy\<close> is the array of \<open>maxtype + 1\<close> entries.\<close>

definition validate_nla :: "bytes \<Rightarrow> nat \<Rightarrow> int \<Rightarrow> nla_policy list \<Rightarrow> int option" where
  "validate_nla m nla maxtype policy = do {
     type \<leftarrow> nla_type m nla;
     if type < 0 \<or> type > maxtype then Some 0
     else do {
       pt \<leftarrow> arr_get policy (nat type);
       if p_type pt = NLA_KIND_OTHER then Some 0
       else do {
         let minlen = (if p_minlen pt \<noteq> 0 then p_minlen pt
                       else if p_type pt \<noteq> LIBBPF_NLA_UNSPEC then nla_attr_minlen (p_type pt) else 0);
         len \<leftarrow> libbpf_nla_len m nla;
         if (word_of_int len :: u32) < ucast minlen then Some (-1)
         else if p_maxlen pt \<noteq> 0 \<and> len > uint (p_maxlen pt) then Some (-1)
         else if p_type pt = LIBBPF_NLA_STRING then
           (if int (libbpf_nla_data nla) + len - 1 < 0 then None
            else do {
              last \<leftarrow> load8 m (nat (int (libbpf_nla_data nla) + len - 1));
              Some (if last \<noteq> 0 then -1 else 0)
            })
         else Some 0
       }
     }
   }"

text \<open>One attribute: \<open>continue\<close> and the end of the body are \<open>Inr\<close>, \<open>goto errout\<close> is \<open>Inl\<close>.\<close>

definition nla_parse_step ::
    "bytes \<Rightarrow> int \<Rightarrow> nla_policy list option \<Rightarrow> nat \<Rightarrow> nat option list \<Rightarrow> (int + nat option list) option" where
  "nla_parse_step m maxtype policy nla tb = do {
     type \<leftarrow> nla_type m nla;
     if type > maxtype then Some (Inr tb)
     else do {
       err \<leftarrow> (case policy of None \<Rightarrow> Some 0 | Some p \<Rightarrow> validate_nla m nla maxtype p);
       if err < 0 then Some (Inl err)
       else do {
         old \<leftarrow> arr_get tb (nat type);
         tb \<leftarrow> arr_set tb (nat type) (Some nla);
         Some (Inr tb)
       }
     }
   }"

lemma nla_align_mod: "NLA_ALIGN len = (len + 3) - (len + 3) mod 4"
proof -
  have "x AND NOT (mask 2) = x - x mod 4" for x :: int
  proof -
    have "(x AND mask 2) AND (x AND NOT (mask 2)) = 0" "(x AND mask 2) OR (x AND NOT (mask 2)) = x"
      by (rule bit_eqI; auto simp: bit_simps)+
    then have "(x AND mask 2) + (x AND NOT (mask 2)) = x" by (simp only: disjunctive_add_eq_or)
    then show ?thesis by (simp add: take_bit_eq_mask [symmetric] take_bit_eq_mod)
  qed
  then show ?thesis by (simp add: NLA_ALIGN_def mask_eq_exp_minus_1 add.commute)
qed

lemma nla_align_range: "len \<le> NLA_ALIGN len" "NLA_ALIGN len < len + 4"
  using pos_mod_bound [of 4 "len + 3"] pos_mod_sign [of 4 "len + 3"] by (simp_all add: nla_align_mod)

lemma nla_ok_negative: "nla_ok m nla rem = Some True \<Longrightarrow> 4 \<le> rem"
proof -
  assume ok: "nla_ok m nla rem = Some True"
  then obtain len where len: "nla_len m nla = Some len" "len \<ge> of_nat sizeof_nlattr" "uint len \<le> rem"
    by (auto simp: nla_ok_def split: if_splits Option.bind_splits)
  then have "4 \<le> uint len" by (simp add: sizeof_nlattr_def word_le_def)
  with len(3) show ?thesis by simp
qed

text \<open>The loop over the stream: an attribute that is accepted has at least four bytes, so the rest decreases.\<close>

function nla_parse_loop ::
    "bytes \<Rightarrow> int \<Rightarrow> nla_policy list option \<Rightarrow> nat \<Rightarrow> int \<Rightarrow> nat option list \<Rightarrow> (int \<times> nat option list) option" where
  "nla_parse_loop m maxtype policy nla rem tb =
     (case nla_ok m nla rem of
        None \<Rightarrow> None
      | Some False \<Rightarrow> Some (0, tb)
      | Some True \<Rightarrow>
          (case nla_parse_step m maxtype policy nla tb of
             None \<Rightarrow> None
           | Some (Inl err) \<Rightarrow> Some (err, tb)
           | Some (Inr tb) \<Rightarrow>
               (case nla_next m nla rem of
                  None \<Rightarrow> None
                | Some (nla, rem) \<Rightarrow> nla_parse_loop m maxtype policy nla rem tb)))"
  by pat_completeness auto
termination
proof (relation "measure (\<lambda>(m, maxtype, policy, nla, rem, tb). nat rem)", goal_cases)
  case (2 m maxtype policy nla rem tb ok1 step tb' next_r nla' rem')
  then have "nla_ok m nla rem = Some True" by simp
  then obtain len where "nla_len m nla = Some len" "len \<ge> of_nat sizeof_nlattr"
    by (auto simp: nla_ok_def split: if_splits Option.bind_splits)
  moreover have "4 \<le> rem" using \<open>nla_ok m nla rem = Some True\<close> by (rule nla_ok_negative)
  moreover from calculation have "4 \<le> uint len" by (simp add: sizeof_nlattr_def word_le_def)
  ultimately have "rem' < rem" using 2 nla_align_range(1) [of "uint len"] by (auto simp: nla_next_def Let_def)
  then show ?case using \<open>4 \<le> rem\<close> by simp
qed simp

declare nla_parse_loop.simps [simp del]

definition libbpf_nla_parse ::
    "bytes \<Rightarrow> int \<Rightarrow> nat \<Rightarrow> int \<Rightarrow> nla_policy list option \<Rightarrow> (int \<times> nat option list) option" where
  "libbpf_nla_parse m maxtype head len policy =
     nla_parse_loop m maxtype policy head len (replicate (nat (maxtype + 1)) None)"

definition libbpf_nla_parse_nested ::
    "bytes \<Rightarrow> int \<Rightarrow> nat \<Rightarrow> nla_policy list option \<Rightarrow> (int \<times> nat option list) option" where
  "libbpf_nla_parse_nested m maxtype nla policy = do {
     len \<leftarrow> libbpf_nla_len m nla;
     libbpf_nla_parse m maxtype (libbpf_nla_data nla) len policy
   }"

section \<open>Error messages of the kernel\<close>

definition sizeof_nlmsghdr :: nat where "sizeof_nlmsghdr = 16"
definition NLMSG_HDRLEN :: int where "NLMSG_HDRLEN = 16"
definition NLM_F_CAPPED :: u16 where "NLM_F_CAPPED = 0x100"
definition NLM_F_ACK_TLVS :: u16 where "NLM_F_ACK_TLVS = 0x200"

definition nlmsg_len_field :: "bytes \<Rightarrow> nat \<Rightarrow> u32 option" where
  [layout]: "nlmsg_len_field m nh = load32 m nh"

definition nlmsg_type :: "bytes \<Rightarrow> nat \<Rightarrow> u16 option" where
  [layout]: "nlmsg_type m nh = load16 m (nh + 4)"

definition nlmsg_flags :: "bytes \<Rightarrow> nat \<Rightarrow> u16 option" where
  [layout]: "nlmsg_flags m nh = load16 m (nh + 6)"

definition nlmsg_seq :: "bytes \<Rightarrow> nat \<Rightarrow> u32 option" where
  [layout]: "nlmsg_seq m nh = load32 m (nh + 8)"

definition nlmsg_pid :: "bytes \<Rightarrow> nat \<Rightarrow> u32 option" where
  [layout]: "nlmsg_pid m nh = load32 m (nh + 12)"

definition NLMSG_DATA :: "nat \<Rightarrow> nat" where
  "NLMSG_DATA nh = nh + nat NLMSG_HDRLEN"

text \<open>The unsigned difference is converted to \<open>int\<close>.\<close>

definition nlmsg_len :: "bytes \<Rightarrow> nat \<Rightarrow> int option" where
  "nlmsg_len m nh = do { len \<leftarrow> nlmsg_len_field m nh; Some (sint (len - word_of_int NLMSG_HDRLEN)) }"

definition extack_policy :: "nla_policy list" where
  "extack_policy = [\<lparr>p_type = LIBBPF_NLA_UNSPEC, p_minlen = 0, p_maxlen = 0\<rparr>,
     \<lparr>p_type = LIBBPF_NLA_STRING, p_minlen = 0, p_maxlen = 0\<rparr>,
     \<lparr>p_type = LIBBPF_NLA_U32, p_minlen = 0, p_maxlen = 0\<rparr>,
     \<lparr>p_type = LIBBPF_NLA_UNSPEC, p_minlen = 0, p_maxlen = 0\<rparr>]"

text \<open>
  The result: the code and the kernel's messages that are printed; the C library prints a NULL text as
  \<open>(null)\<close>. The length of the attributes is that of the message less \<open>hlen\<close>, which does not count
  the message's own header.
\<close>

definition libbpf_nla_dump_errormsg :: "bytes \<Rightarrow> nat \<Rightarrow> (int \<times> string list) option" where
  "libbpf_nla_dump_errormsg m nlh = do {
     flags \<leftarrow> nlmsg_flags m nlh;
     if flags AND NLM_F_ACK_TLVS = 0 then Some (0, [])
     else do {
       let err = NLMSG_DATA nlh;
       inner \<leftarrow> (if flags AND NLM_F_CAPPED = 0 then nlmsg_len m (err + 4) else Some 0);
       let hlen = 20 + inner;
       len \<leftarrow> nlmsg_len_field m nlh;
       let alen = sint (len - word_of_int hlen);
       (if int err + hlen < 0 then None
        else do {
          (ret, tb) \<leftarrow> libbpf_nla_parse m 3 (nat (int err + hlen)) alen (Some extack_policy);
          if ret \<noteq> 0 then Some (0, [])
          else case tb ! 1 of
            None \<Rightarrow> Some (0, [''(null)''])
          | Some nla \<Rightarrow> do { msg \<leftarrow> libbpf_nla_getattr_str m nla; Some (0, [msg]) }
        })
     }
   }"

section \<open>Streams of attributes\<close>

text \<open>The wire format: length, type, payload, and zeros up to a multiple of four bytes.\<close>

type_synonym nla = "u16 \<times> bytes"

definition nla_bytes :: "nla \<Rightarrow> bytes" where
  "nla_bytes a = enc16 (of_nat (4 + length (snd a))) @ enc16 (fst a) @ snd a"

definition nla_pad :: "nla \<Rightarrow> bytes" where
  "nla_pad a = replicate (nat (NLA_ALIGN (int (4 + length (snd a))) - int (4 + length (snd a)))) 0"

definition nla_stream :: "nla list \<Rightarrow> bytes" where
  "nla_stream as = concat (map (\<lambda>a. nla_bytes a @ nla_pad a) as)"

definition nla_fits :: "nla \<Rightarrow> bool" where
  "nla_fits a \<longleftrightarrow> length (snd a) < 2 ^ 16 - 4"

lemma nla_stream_simps [simp]:
  "nla_stream [] = []" "nla_stream (a # as) = nla_bytes a @ nla_pad a @ nla_stream as"
  by (simp_all add: nla_stream_def)

lemma length_nla [simp]:
  "length (nla_bytes a) = 4 + length (snd a)"
  "length (nla_pad a) = nat (NLA_ALIGN (int (4 + length (snd a)))) - (4 + length (snd a))"
  using nla_align_range(1) [of "int (4 + length (snd a))"] by (simp_all add: nla_bytes_def nla_pad_def nat_diff_distrib)

lemma nla_fields:
  assumes "length pre = nla" "nla_fits a" "m = pre @ nla_bytes a @ post"
  shows "nla_len m nla = Some (of_nat (4 + length (snd a)))" "nla_type m nla = Some (uint (fst a AND NLA_TYPE_MASK))"
    "uint (of_nat (4 + length (snd a)) :: u16) = int (4 + length (snd a))"
    "take (length (snd a)) (drop (libbpf_nla_data nla) m) = snd a"
proof -
  show "nla_len m nla = Some (of_nat (4 + length (snd a)))"
    using load16_enc_at [OF assms(1), of "of_nat (4 + length (snd a))"] assms(3) by (simp add: layout nla_bytes_def)
  show "nla_type m nla = Some (uint (fst a AND NLA_TYPE_MASK))"
    using load16_enc_at [of "pre @ enc16 (of_nat (4 + length (snd a)))" "nla + 2" "fst a" "snd a @ post"] assms
    by (simp add: layout nla_type_def nla_bytes_def)
  show "uint (of_nat (4 + length (snd a)) :: u16) = int (4 + length (snd a))"
    using assms(2) by (simp add: nla_fits_def uint_nat unat_of_nat flip: of_nat_add)
  show "take (length (snd a)) (drop (libbpf_nla_data nla) m) = snd a"
    using assms(1,3) by (simp add: libbpf_nla_data_def NLA_HDRLEN_def nla_bytes_def)
qed

lemma size_of_int_ge_4: "0 \<le> r \<Longrightarrow> r < 2 ^ 31 \<Longrightarrow> size_of_int r \<ge> of_nat sizeof_nlattr \<longleftrightarrow> 4 \<le> r"
  using size_of_int_less_iff [of r 4] by (simp add: sizeof_nlattr_def not_less [symmetric])

lemma nla_ok_stream:
  assumes "length pre = nla" "nla_fits a" "m = pre @ nla_bytes a @ post" "int (4 + length (snd a)) \<le> rem" "rem < 2 ^ 31"
  shows "nla_ok m nla rem = Some True"
    "nla_next m nla rem = Some (nla + nat (NLA_ALIGN (int (4 + length (snd a)))), rem - NLA_ALIGN (int (4 + length (snd a))))"
  using nla_fields [OF assms(1-3)] size_of_int_ge_4 [of rem] assms(4,5)
  by (simp_all add: nla_ok_def nla_next_def sizeof_nlattr_def word_le_def Let_def del: of_nat_add of_nat_Suc)

text \<open>The table after some attributes: for each type the last of them, by its offset in the memory.\<close>

definition nla_key :: "nla \<Rightarrow> nat" where
  "nla_key a = unat (fst a AND NLA_TYPE_MASK)"

definition nla_last :: "nla list \<Rightarrow> nat \<Rightarrow> bytes option" where
  "nla_last as = map_of (rev (map (\<lambda>a. (nla_key a, snd a)) as))"

definition nla_at :: "bytes \<Rightarrow> nat \<Rightarrow> bytes \<Rightarrow> bool" where
  "nla_at m nla d \<longleftrightarrow> libbpf_nla_len m nla = Some (int (length d)) \<and> take (length d) (drop (libbpf_nla_data nla) m) = d"

definition tb_ok :: "bytes \<Rightarrow> nla list \<Rightarrow> nat option list \<Rightarrow> bool" where
  "tb_ok m as tb \<longleftrightarrow> (\<forall>t<length tb. case nla_last as t of None \<Rightarrow> tb ! t = None | Some d \<Rightarrow> \<exists>nla. tb ! t = Some nla \<and> nla_at m nla d)"

lemma nla_last_snoc: "nla_last (as @ [a]) t = (if t = nla_key a then Some (snd a) else nla_last as t)"
  by (simp add: nla_last_def)

lemma nla_parse_step_stream:
  assumes "length pre = nla" "nla_fits a" "m = pre @ nla_bytes a @ post" "tb_ok m as tb" "int (length tb) = maxtype + 1"
  shows "\<exists>tb'. nla_parse_step m maxtype None nla tb = Some (Inr tb') \<and> tb_ok m (as @ [a]) tb' \<and> length tb' = length tb"
proof -
  note f = nla_fields [OF assms(1-3)]
  have len: "libbpf_nla_len m nla = Some (int (length (snd a)))"
    using f(1,3) by (simp add: libbpf_nla_len_def NLA_HDRLEN_def)
  then have at: "nla_at m nla (snd a)" using f(4) by (simp add: nla_at_def)
  let ?tb = "if nla_key a < length tb then tb[nla_key a := Some nla] else tb"
  have "uint (fst a AND NLA_TYPE_MASK) = int (nla_key a)" by (simp add: nla_key_def)
  then have "nla_parse_step m maxtype None nla tb = Some (Inr ?tb)"
    using f(2) assms(5) by (auto simp: nla_parse_step_def fault)
  moreover have "tb_ok m (as @ [a]) ?tb"
    using assms(4) at by (auto simp: tb_ok_def nla_last_snoc nth_list_update split: option.splits)
  ultimately show ?thesis by auto
qed

lemma nla_parse_loop_stream:
  "\<forall>a\<in>set as. nla_fits a \<Longrightarrow> length pre = nla \<Longrightarrow> m = pre @ nla_stream as @ post \<Longrightarrow>
     rem = int (length (nla_stream as)) \<Longrightarrow> rem < 2 ^ 31 \<Longrightarrow> tb_ok m old tb \<Longrightarrow> int (length tb) = maxtype + 1 \<Longrightarrow>
     \<exists>tb'. nla_parse_loop m maxtype None nla rem tb = Some (0, tb') \<and> tb_ok m (old @ as) tb' \<and> length tb' = length tb"
proof (induction as arbitrary: pre nla rem tb old)
  case Nil
  then have "nla_ok m nla rem = Some False" by (simp add: nla_ok_def size_of_int_def sizeof_nlattr_def)
  then show ?case using Nil by (subst nla_parse_loop.simps) simp
next
  case (Cons a as)
  let ?n = "nat (NLA_ALIGN (int (4 + length (snd a))))"
  have n: "4 + length (snd a) \<le> ?n" using nla_align_range(1) [of "int (4 + length (snd a))"] by linarith
  have m: "m = pre @ nla_bytes a @ nla_pad a @ nla_stream as @ post" using Cons.prems(3) by simp
  have a: "nla_fits a" using Cons.prems(1) by simp
  have rem: "rem = int ?n + int (length (nla_stream as))" using Cons.prems(4) n by simp
  have ok: "nla_ok m nla rem = Some True"
    "nla_next m nla rem = Some (nla + ?n, rem - NLA_ALIGN (int (4 + length (snd a))))"
    by (rule nla_ok_stream [OF Cons.prems(2) a m]; use rem n Cons.prems(5) in linarith)+
  obtain tb' where tb': "nla_parse_step m maxtype None nla tb = Some (Inr tb')" "tb_ok m (old @ [a]) tb'" "length tb' = length tb"
    using nla_parse_step_stream [OF Cons.prems(2) a m Cons.prems(6,7)] by blast
  have align: "int ?n = NLA_ALIGN (int (4 + length (snd a)))" using nla_align_range(1) [of "int (4 + length (snd a))"] by simp
  have "\<exists>tb''. nla_parse_loop m maxtype None (nla + ?n) (int (length (nla_stream as))) tb' = Some (0, tb'') \<and>
      tb_ok m ((old @ [a]) @ as) tb'' \<and> length tb'' = length tb'"
  proof (rule Cons.IH [where pre = "pre @ nla_bytes a @ nla_pad a"])
    show "length (pre @ nla_bytes a @ nla_pad a) = nla + ?n" using Cons.prems(2) n by simp
    show "m = (pre @ nla_bytes a @ nla_pad a) @ nla_stream as @ post" using m by simp
    show "int (length (nla_stream as)) < 2 ^ 31" using rem Cons.prems(5) by linarith
    show "int (length tb') = maxtype + 1" using tb'(3) Cons.prems(7) by simp
  qed (use Cons.prems(1) tb'(2) in simp_all)
  moreover have "rem - NLA_ALIGN (int (4 + length (snd a))) = int (length (nla_stream as))" using rem align by linarith
  ultimately show ?case using ok tb' by (subst nla_parse_loop.simps) simp
qed

lemma nla_parse_stream:
  assumes "\<forall>a\<in>set as. nla_fits a" "length (nla_stream as) < 2 ^ 31" "0 \<le> maxtype"
    "m = pre @ nla_stream as @ post" "nla = length pre" "len = int (length (nla_stream as))"
  obtains tb where "libbpf_nla_parse m maxtype nla len None = Some (0, tb)" "tb_ok m as tb" "int (length tb) = maxtype + 1"
proof -
  let ?tb = "replicate (nat (maxtype + 1)) None :: nat option list"
  have "tb_ok m [] ?tb" by (simp add: tb_ok_def nla_last_def)
  from nla_parse_loop_stream [OF assms(1) refl assms(4) refl _ this, of maxtype] assms(2,3)
  show ?thesis using that by (auto simp: libbpf_nla_parse_def assms(5,6))
qed

lemma nla_atD:
  assumes "nla_at m nla d" "d \<noteq> []"
  obtains pre post where "m = pre @ d @ post" "libbpf_nla_data nla = length pre"
proof -
  have d: "d = take (length d) (drop (libbpf_nla_data nla) m)" using assms(1) by (simp add: nla_at_def)
  then have "length (take (length d) (drop (libbpf_nla_data nla) m)) = length d" by simp
  then have "libbpf_nla_data nla \<le> length m" using assms(2) by (cases "libbpf_nla_data nla \<le> length m") auto
  moreover have "m = take (libbpf_nla_data nla) m @ d @ drop (length d) (drop (libbpf_nla_data nla) m)"
    by (metis append_take_drop_id d)
  ultimately show ?thesis using that [of "take (libbpf_nla_data nla) m"] by simp
qed

lemma nla_parse_nested_stream:
  assumes "nla_at m nla (nla_stream as)" "as \<noteq> []" "\<forall>a\<in>set as. nla_fits a" "length (nla_stream as) < 2 ^ 31" "0 \<le> maxtype"
  obtains tb where "libbpf_nla_parse_nested m maxtype nla None = Some (0, tb)" "tb_ok m as tb" "int (length tb) = maxtype + 1"
proof -
  have "length (nla_stream as) \<noteq> 0" using assms(2) by (cases as) auto
  then have "nla_stream as \<noteq> []" by auto
  then obtain pre post where m: "m = pre @ nla_stream as @ post" "libbpf_nla_data nla = length pre"
    by (rule nla_atD [OF assms(1)])
  obtain tb where "libbpf_nla_parse m maxtype (length pre) (int (length (nla_stream as))) None = Some (0, tb)"
    "tb_ok m as tb" "int (length tb) = maxtype + 1"
    using nla_parse_stream [OF assms(3-5) m(1) refl refl] by blast
  then show ?thesis using that assms(1) m(2) by (simp add: libbpf_nla_parse_nested_def nla_at_def)
qed

lemma nla_at_values:
  "nla_at m nla (enc32 v) \<Longrightarrow> libbpf_nla_getattr_u32 m nla = Some v"
  "nla_at m nla (b # bs) \<Longrightarrow> libbpf_nla_getattr_u8 m nla = Some b"
proof -
  have "enc32 v \<noteq> []" using length_enc(2) [of v] by (metis list.size(3) zero_neq_numeral)
  then show "nla_at m nla (enc32 v) \<Longrightarrow> libbpf_nla_getattr_u32 m nla = Some v"
    by (metis nla_atD load32_enc_at libbpf_nla_getattr_u32_def)
  assume "nla_at m nla (b # bs)"
  then obtain pre post where "m = pre @ (b # bs) @ post" "libbpf_nla_data nla = length pre" by (rule nla_atD) simp
  then show "libbpf_nla_getattr_u8 m nla = Some b" by (simp add: libbpf_nla_getattr_u8_def load8_byte_at)
qed

lemma tb_ok_at:
  "tb_ok m as tb \<Longrightarrow> nla_last as t = Some d \<Longrightarrow> t < length tb \<Longrightarrow> \<exists>nla. tb ! t = Some nla \<and> nla_at m nla d"
  "tb_ok m as tb \<Longrightarrow> nla_last as t = None \<Longrightarrow> t < length tb \<Longrightarrow> tb ! t = None"
  by (auto simp: tb_ok_def)

text \<open>C25. Parsing undoes the encoding of attributes: on every padded stream of attributes the parser reads
nothing outside it, succeeds, and for each type up to \<open>maxtype\<close> the table holds the last attribute of that
type (with the flag bits of the type masked out), whose length and payload are the encoded ones.\<close>

theorem nla_parse_roundtrip:
  assumes "\<forall>a\<in>set as. nla_fits a" "length (nla_stream as) < 2 ^ 31" "0 \<le> maxtype"
  shows "\<exists>tb. libbpf_nla_parse (pre @ nla_stream as @ post) maxtype (length pre) (int (length (nla_stream as))) None = Some (0, tb) \<and>
    int (length tb) = maxtype + 1 \<and>
    (\<forall>t<length tb. case nla_last as t of
       None \<Rightarrow> tb ! t = None
     | Some d \<Rightarrow> \<exists>nla. tb ! t = Some nla \<and> nla_at (pre @ nla_stream as @ post) nla d)"
proof -
  obtain tb where "libbpf_nla_parse (pre @ nla_stream as @ post) maxtype (length pre) (int (length (nla_stream as))) None = Some (0, tb)"
    "tb_ok (pre @ nla_stream as @ post) as tb" "int (length tb) = maxtype + 1"
    by (rule nla_parse_stream [OF assms refl refl refl])
  then show ?thesis by (auto simp: tb_ok_def)
qed

lemma nla_parse_roundtrip_witness:
  "\<exists>tb. libbpf_nla_parse (nla_stream [(3, [1]), (4, [1, 2, 3, 4])]) 5 0 16 None = Some (0, tb) \<and> tb ! 3 \<noteq> None \<and> tb ! 5 = None"
proof -
  have al: "NLA_ALIGN 5 = 8" "NLA_ALIGN 8 = 8" by (simp_all add: nla_align_mod)
  let ?as = "[(3, [1]), (4, [1, 2, 3, 4])] :: nla list"
  have "length (nla_stream ?as) = 16" by (simp add: al)
  then obtain tb where "libbpf_nla_parse (nla_stream ?as) 5 0 16 None = Some (0, tb)" "length tb = 6"
    and t: "\<forall>t<length tb. case nla_last ?as t of None \<Rightarrow> tb ! t = None | Some d \<Rightarrow> \<exists>nla. tb ! t = Some nla \<and> nla_at (nla_stream ?as) nla d"
    using nla_parse_roundtrip [of ?as 5 "[]" "[]", unfolded append_Nil append_Nil2 list.size(3)]
    by (auto simp: nla_fits_def simp del: nla_stream_simps)
  moreover have "nla_last ?as 3 = Some [1]" "nla_last ?as 5 = None"
    by (simp_all add: nla_last_def nla_key_def NLA_TYPE_MASK_def)
  ultimately show ?thesis using t [rule_format, of 3] t [rule_format, of 5] by auto
qed

text \<open>A stream whose last attribute is not padded, as a message may end, is read behind its end: the
rest becomes negative and counts as a huge number in the comparison with a \<open>sizeof\<close>, so the length of
an attribute behind the buffer is loaded.\<close>

theorem unpadded_attribute_overread:
  assumes "nla_fits a" "length (snd a) mod 4 \<noteq> 0" "0 \<le> maxtype"
  shows "libbpf_nla_parse (pre @ nla_bytes a) maxtype (length pre) (int (length (nla_bytes a))) None = None"
proof -
  let ?m = "pre @ nla_bytes a" and ?l = "int (4 + length (snd a))" and ?tb = "replicate (nat (maxtype + 1)) None :: nat option list"
  have m: "?m = pre @ nla_bytes a @ []" by simp
  have l: "?l < 2 ^ 31" using assms(1) by (simp add: nla_fits_def)
  note ok = nla_ok_stream [OF refl assms(1) m, of ?l, OF _ l]
  have "(?l + 3) mod 4 \<noteq> 3" using assms(2) by presburger
  then have gt: "?l < NLA_ALIGN ?l" "NLA_ALIGN ?l < ?l + 4"
    using pos_mod_bound [of 4 "?l + 3"] pos_mod_sign [of 4 "?l + 3"] unfolding nla_align_mod by linarith+
  have huge: "size_of_int r \<ge> of_nat sizeof_nlattr" if "-4 < r" "r < 0" for r
  proof -
    have "r = -1 \<or> r = -2 \<or> r = -3" using that by linarith
    then show ?thesis by (auto simp: size_of_int_def sizeof_nlattr_def word_le_def unsigned_minus_1_eq_mask mask_eq_exp_minus_1)
  qed
  have "length ?m < length pre + nat (NLA_ALIGN ?l)" using gt by simp
  then have "nla_ok ?m (length pre + nat (NLA_ALIGN ?l)) (?l - NLA_ALIGN ?l) = None"
    using huge [of "?l - NLA_ALIGN ?l"] gt by (simp add: nla_ok_def nla_len_def load16_def load8_out)
  then have "nla_parse_loop ?m maxtype None (length pre + nat (NLA_ALIGN ?l)) (?l - NLA_ALIGN ?l) tb = None" for tb
    by (subst nla_parse_loop.simps) (simp only: option.case)
  moreover obtain tb' where "nla_parse_step ?m maxtype None (length pre) ?tb = Some (Inr tb')"
    using nla_parse_step_stream [OF refl assms(1) m, of "[]" ?tb maxtype] assms(3) by (auto simp: tb_ok_def nla_last_def)
  moreover have "int (length (nla_bytes a)) = ?l" by simp
  ultimately show ?thesis
    using ok unfolding libbpf_nla_parse_def by (subst nla_parse_loop.simps) simp
qed

lemma unpadded_attribute_overread_witness: "libbpf_nla_parse (nla_bytes (2, [1])) 7 0 5 None = None"
  using unpadded_attribute_overread [of "(2, [1])" 7 "[]"] by (simp add: nla_fits_def)

section \<open>The length of the kernel's messages\<close>

definition capped_error :: "u32 \<Rightarrow> u32 \<Rightarrow> u32 \<Rightarrow> bytes \<Rightarrow> bytes \<Rightarrow> bytes" where
  "capped_error seq pid error inner attrs =
     enc32 (of_nat (36 + length attrs)) @ enc16 2 @ enc16 (NLM_F_CAPPED OR NLM_F_ACK_TLVS) @ enc32 seq @ enc32 pid @
     enc32 error @ inner @ attrs"

lemma capped_error_fields:
  assumes "m = pre @ capped_error seq pid error inner attrs"
  shows "nlmsg_flags m (length pre) = Some (NLM_F_CAPPED OR NLM_F_ACK_TLVS)"
    "nlmsg_len_field m (length pre) = Some (of_nat (36 + length attrs))"
proof -
  let ?l = "enc32 (of_nat (36 + length attrs))"
  show "nlmsg_len_field m (length pre) = Some (of_nat (36 + length attrs))"
    using load32_enc_at [of pre "length pre" "of_nat (36 + length attrs)"] assms by (simp add: layout capped_error_def)
  show "nlmsg_flags m (length pre) = Some (NLM_F_CAPPED OR NLM_F_ACK_TLVS)"
    using load16_enc_at [of "pre @ ?l @ enc16 2" "length pre + 6" "NLM_F_CAPPED OR NLM_F_ACK_TLVS"] assms
    by (simp add: layout capped_error_def)
qed

text \<open>The first attribute of the policy is a text: it must end with a zero byte.\<close>

lemma validate_text:
  assumes "length pre = nla" "nla_fits (1, d @ [0])" "m = pre @ nla_bytes (1, d @ [0]) @ post"
  shows "validate_nla m nla 3 extack_policy = Some 0"
proof -
  note f = nla_fields [OF assms(1-3)]
  have "libbpf_nla_len m nla = Some (int (length d) + 1)" using f(1,3) by (simp add: libbpf_nla_len_def NLA_HDRLEN_def)
  moreover have "nla_type m nla = Some 1" using f(2) by (simp add: NLA_TYPE_MASK_def)
  moreover have "nat (int (libbpf_nla_data nla) + (int (length d) + 1) - 1) = nla + (4 + length d)"
    by (simp add: libbpf_nla_data_def NLA_HDRLEN_def)
  moreover have "load8 m (nla + (4 + length d)) = Some 0"
    using assms(1) load8_byte_at [of "pre @ enc16 (of_nat (5 + length d)) @ enc16 1 @ d" "nla + (4 + length d)" 0 post]
    by (simp add: assms(3) nla_bytes_def)
  moreover have "\<not> word_of_int (int (length d) + 1) < (1 :: u32)"
  proof -
    have "unat (of_nat (length d + 1) :: u32) = length d + 1"
      by (rule unat_of_nat_u32) (use assms(2) in \<open>simp add: nla_fits_def\<close>)
    then have "(word_of_int (int (length d) + 1) :: u32) \<noteq> 0" by (auto simp: add.commute)
    then show ?thesis by (simp add: word_less_1)
  qed
  ultimately show ?thesis
    by (simp add: validate_nla_def extack_policy_def arr_get_def Let_def)
qed

text \<open>The kernel's error text is searched for behind its message: the length of the attributes is
computed without the 16 bytes of the message's own header, so after the last attribute of a message that
ends its buffer the parser loads a length from behind the buffer.\<close>

theorem errormsg_overread:
  assumes "length inner = 16" "length txt < 60000"
  shows "libbpf_nla_dump_errormsg (pre @ capped_error seq pid error inner (nla_stream [(1, txt @ [0])])) (length pre) = None"
proof -
  let ?a = "(1, txt @ [0]) :: nla" and ?m = "pre @ capped_error seq pid error inner (nla_stream [(1, txt @ [0])])"
  let ?nla = "length pre + 36" and ?n = "NLA_ALIGN (int (4 + length (txt @ [0])))"
  have fits: "nla_fits ?a" using assms(2) by (simp add: nla_fits_def)
  have al: "int (4 + length (txt @ [0])) \<le> ?n" "?n < int (4 + length (txt @ [0])) + 4"
    using nla_align_range [of "int (4 + length (txt @ [0]))"] by auto
  have stream: "int (length (nla_stream [?a])) = ?n" using al by simp
  let ?pre = "pre @ enc32 (of_nat (36 + length (nla_stream [?a]))) @ enc16 2 @ enc16 (NLM_F_CAPPED OR NLM_F_ACK_TLVS) @
      enc32 seq @ enc32 pid @ enc32 error @ inner"
  have pre: "length ?pre = ?nla" using assms(1) by simp
  have m: "?m = ?pre @ nla_bytes ?a @ nla_pad ?a" by (simp add: capped_error_def)
  have len: "length ?m = ?nla + nat ?n" using stream assms(1) by (simp add: capped_error_def)
  note f = capped_error_fields [OF refl, of pre seq pid error inner "nla_stream [?a]"]
  have "sint (of_nat (36 + length (nla_stream [?a])) - word_of_int 20 :: u32) = ?n + 16"
  proof -
    have "int (36 + length (nla_stream [?a])) = 36 + ?n" using stream by linarith
    then have "(of_nat (36 + length (nla_stream [?a])) :: u32) = of_int (36 + ?n)" by (metis of_int_of_nat_eq)
    then have "of_nat (36 + length (nla_stream [?a])) - word_of_int 20 = (word_of_int (?n + 16) :: u32)"
      by (simp only: of_int_diff [symmetric]) simp
    moreover have "sint (word_of_int (?n + 16) :: u32) = ?n + 16"
      by (rule sint_u32_small) (use al assms(2) in simp_all)
    ultimately show ?thesis by (simp only:)
  qed
  moreover have fl: "(NLM_F_CAPPED OR NLM_F_ACK_TLVS) AND NLM_F_ACK_TLVS \<noteq> 0" "(NLM_F_CAPPED OR NLM_F_ACK_TLVS) AND NLM_F_CAPPED \<noteq> 0"
    by (simp_all add: NLM_F_CAPPED_def NLM_F_ACK_TLVS_def)
  moreover have addr: "nat (int (NLMSG_DATA (length pre)) + 20) = ?nla" by (simp add: NLMSG_DATA_def NLMSG_HDRLEN_def)
  ultimately have dump: "libbpf_nla_dump_errormsg ?m (length pre) = None"
    if "libbpf_nla_parse ?m 3 ?nla (?n + 16) (Some extack_policy) = None"
    using f that by (simp add: libbpf_nla_dump_errormsg_def Let_def fl addr del: nla_stream_simps of_nat_add)
  note ok = nla_ok_stream [OF pre fits m, of "?n + 16"]
  have step: "\<exists>tb. nla_parse_step ?m 3 (Some extack_policy) ?nla (replicate 4 None) = Some (Inr tb)"
    using nla_fields(2) [OF pre fits m] validate_text [OF pre fits m]
    by (simp add: nla_parse_step_def NLA_TYPE_MASK_def arr_get_def arr_set_def)
  have out: "nla_ok ?m (?nla + nat ?n) 16 = None"
    using len size_of_int_ge_4 [of 16] by (simp add: nla_ok_def nla_len_def load16_def load8_out)
  show ?thesis
  proof (rule dump)
    obtain tb where "nla_parse_step ?m 3 (Some extack_policy) ?nla (replicate 4 None) = Some (Inr tb)" using step by blast
    moreover have "nla_ok ?m ?nla (?n + 16) = Some True" "nla_next ?m ?nla (?n + 16) = Some (?nla + nat ?n, 16)"
      using ok al assms(2) by (simp_all del: of_nat_add)
    moreover have "nla_parse_loop ?m 3 (Some extack_policy) (?nla + nat ?n) 16 tb = None" for tb
      by (subst nla_parse_loop.simps) (simp only: out option.case)
    ultimately show "libbpf_nla_parse ?m 3 ?nla (?n + 16) (Some extack_policy) = None"
      unfolding libbpf_nla_parse_def by (subst nla_parse_loop.simps) simp
  qed
qed

lemma errormsg_overread_witness:
  "libbpf_nla_dump_errormsg (capped_error 1 0 0xFFFFFFEA (replicate 16 0) (nla_stream [(1, [78, 111, 0])])) 0 = None"
  using errormsg_overread [of "replicate 16 0" "[78, 111]" "[]" 1 0 "0xFFFFFFEA"] by (simp del: nla_stream_simps)

end
