(* ===== verification/Netlink.thy ===== *)
theory Netlink
  imports Nlattr Bpf_User
begin

text \<open>
  libbpf/src/netlink.c: attaching an XDP program to a link and asking for the attached one, as
  requests to the kernel over a netlink socket. The system calls are the fields of \<open>nl_env\<close> over a
  kernel state \<open>'k\<close>; a negative result stands for -1 with \<open>errno\<close>. Messages are bytes, so what is
  sent is exactly what the code stores. A function's value \<^term>\<open>None\<close> is an access outside a buffer
  or a reply that never ends; \<open>bpf_netlink_recv\<close> keeps the two apart.
\<close>

section \<open>The socket\<close>

record 'k nl_env =
  nl_socket :: "'k \<Rightarrow> int \<times> 'k"
  nl_setsockopt :: "int \<Rightarrow> 'k \<Rightarrow> int \<times> 'k"
  nl_bind :: "int \<Rightarrow> 'k \<Rightarrow> int \<times> 'k"
  nl_getsockname :: "int \<Rightarrow> 'k \<Rightarrow> int \<times> nat \<times> u32 \<times> 'k"
  nl_send :: "int \<Rightarrow> bytes \<Rightarrow> 'k \<Rightarrow> int \<times> 'k"
  nl_recv :: "int \<Rightarrow> nat \<Rightarrow> 'k \<Rightarrow> (int + bytes) \<times> 'k"
  nl_close :: "int \<Rightarrow> 'k \<Rightarrow> 'k"
  nl_time :: "'k \<Rightarrow> int"

definition LIBBPF_ERRNO__INTERNAL :: int where "LIBBPF_ERRNO__INTERNAL = 4004"
definition LIBBPF_ERRNO__WRNGPID :: int where "LIBBPF_ERRNO__WRNGPID = 4011"
definition LIBBPF_ERRNO__INVSEQ :: int where "LIBBPF_ERRNO__INVSEQ = 4012"
definition LIBBPF_ERRNO__NLPARSE :: int where "LIBBPF_ERRNO__NLPARSE = 4013"

text \<open>The result: the socket or a negative code, and the port of the socket if there is one.\<close>

definition libbpf_netlink_open :: "'k nl_env \<Rightarrow> 'k \<Rightarrow> int \<times> u32 \<times> 'k" where
  "libbpf_netlink_open env k =
     (let (sock, k) = nl_socket env k in
      if sock < 0 then (sock, 0, k)
      else let (_, k) = nl_setsockopt env sock k; (ret, k) = nl_bind env sock k in
      if ret < 0 then (ret, 0, nl_close env sock k)
      else let (ret, addrlen, nl_pid, k) = nl_getsockname env sock k in
      if ret < 0 then (ret, 0, nl_close env sock k)
      else if addrlen \<noteq> 12 then (- LIBBPF_ERRNO__INTERNAL, 0, nl_close env sock k)
      else (sock, nl_pid, k))"

section \<open>Receiving\<close>

definition NLMSG_ERROR :: u16 where "NLMSG_ERROR = 2"
definition NLMSG_DONE :: u16 where "NLMSG_DONE = 3"
definition NLM_F_MULTI :: u16 where "NLM_F_MULTI = 2"

definition NLMSG_ALIGN :: "u32 \<Rightarrow> u32" where
  "NLMSG_ALIGN len = (len + 4 - 1) AND NOT (4 - 1)"

definition NLMSG_OK :: "bytes \<Rightarrow> nat \<Rightarrow> int \<Rightarrow> bool option" where
  "NLMSG_OK m nh len =
     (if len \<ge> int sizeof_nlmsghdr then do {
        l \<leftarrow> nlmsg_len_field m nh;
        Some (l \<ge> of_nat sizeof_nlmsghdr \<and> l \<le> word_of_int len)
      } else Some False)"

definition NLMSG_NEXT :: "bytes \<Rightarrow> nat \<Rightarrow> int \<Rightarrow> (nat \<times> int) option" where
  "NLMSG_NEXT m nh len = do {
     l \<leftarrow> nlmsg_len_field m nh;
     Some (nh + unat (NLMSG_ALIGN l), sint (word_of_int len - NLMSG_ALIGN l))
   }"

text \<open>
  A callback takes the buffer, the message in it and its own state; the body of the loop over the
  messages of one buffer leaves the function with a code (\<open>Inl\<close>) or goes on (\<open>Inr\<close> with the flag
  \<open>multipart\<close>).
\<close>

type_synonym 'c nlmsg_fn = "bytes \<Rightarrow> nat \<Rightarrow> 'c \<Rightarrow> (int \<times> 'c) option"

definition msg_step ::
    "u32 \<Rightarrow> int \<Rightarrow> 'c nlmsg_fn option \<Rightarrow> bytes \<Rightarrow> nat \<Rightarrow> bool \<Rightarrow> 'c \<Rightarrow> ((int + bool) \<times> 'c) option" where
  "msg_step nl_pid seq fn m nh multipart cookie = do {
     pid \<leftarrow> nlmsg_pid m nh;
     if pid \<noteq> nl_pid then Some (Inl (- LIBBPF_ERRNO__WRNGPID), cookie)
     else do {
       s \<leftarrow> nlmsg_seq m nh;
       if s \<noteq> word_of_int seq then Some (Inl (- LIBBPF_ERRNO__INVSEQ), cookie)
       else do {
         flags \<leftarrow> nlmsg_flags m nh;
         let multipart = (multipart \<or> flags AND NLM_F_MULTI \<noteq> 0);
         ty \<leftarrow> nlmsg_type m nh;
         if ty = NLMSG_ERROR then do {
           error \<leftarrow> load32 m (NLMSG_DATA nh);
           if error = 0 then Some (Inr multipart, cookie)
           else do {
             _ \<leftarrow> libbpf_nla_dump_errormsg m nh;
             Some (Inl (sint error), cookie)
           }
         }
         else if ty = NLMSG_DONE then Some (Inl 0, cookie)
         else case fn of
           None \<Rightarrow> Some (Inr multipart, cookie)
         | Some f \<Rightarrow> do {
             (ret, cookie) \<leftarrow> f m nh cookie;
             Some (if ret \<noteq> 0 then Inl ret else Inr multipart, cookie)
           }
       }
     }
   }"

lemma nlmsg_align:
  assumes "uint l < 2 ^ 31"
  shows "uint (NLMSG_ALIGN l) = NLA_ALIGN (uint l)"
proof -
  let ?x = "l + 3"
  have x: "uint ?x = uint l + 3" using assms by (simp add: uint_word_ariths)
  have "(?x AND mask 2) AND (?x AND NOT (mask 2)) = 0" "(?x AND mask 2) OR (?x AND NOT (mask 2)) = ?x"
    by (rule bit_eqI; auto simp: bit_simps)+
  then have sum: "(?x AND mask 2) + (?x AND NOT (mask 2)) = ?x" by (simp only: disjunctive_add_eq_or)
  have "uint (?x AND mask 2) = uint ?x mod 4"
    by (simp add: take_bit_eq_mask [symmetric] take_bit_eq_mod uint_mod)
  moreover have "?x AND NOT (mask 2) = ?x - (?x AND mask 2)" using sum by (metis add_diff_cancel_left')
  moreover have "uint ?x mod 4 \<le> uint ?x" using pos_mod_bound [of 4 "uint ?x"] by (simp add: zmod_le_nonneg_dividend)
  ultimately have "uint (?x AND NOT (mask 2)) = uint ?x - uint ?x mod 4"
    by (simp add: uint_minus_simple_alt word_le_def uint_sub_if')
  then show ?thesis by (simp add: NLMSG_ALIGN_def nla_align_mod x mask_eq_exp_minus_1 add.commute)
qed

text \<open>What is left of the buffer decreases with every message.\<close>

lemma nlmsg_next_less:
  assumes "NLMSG_OK m nh len = Some True" "NLMSG_NEXT m nh len = Some (nh', len')"
  shows "len' < len" "0 < len"
proof -
  obtain l where l: "nlmsg_len_field m nh = Some l" "l \<ge> of_nat sizeof_nlmsghdr" "l \<le> word_of_int len" "16 \<le> len"
    using assms(1) by (auto simp: NLMSG_OK_def sizeof_nlmsghdr_def split: if_splits Option.bind_splits)
  have len': "len' = sint (word_of_int len - NLMSG_ALIGN l)"
    using assms(2) l(1) by (simp add: NLMSG_NEXT_def)
  show "0 < len" using l(4) by simp
  show "len' < len"
  proof (cases "len < 2 ^ 31")
    case True
    then have w: "uint (word_of_int len :: u32) = len" using l(4) by (simp add: uint_word_of_int)
    have u: "16 \<le> uint l" "uint l \<le> len" using l(2,3) w by (simp_all add: word_le_def sizeof_nlmsghdr_def)
    then have a: "uint (NLMSG_ALIGN l) = NLA_ALIGN (uint l)" using True by (intro nlmsg_align) simp
    have "word_of_int len - NLMSG_ALIGN l = (word_of_int (len - NLA_ALIGN (uint l)) :: u32)"
      by (simp flip: a)
    moreover have "sint (word_of_int (len - NLA_ALIGN (uint l)) :: u32) = len - NLA_ALIGN (uint l)"
    proof (cases "0 \<le> len - NLA_ALIGN (uint l)")
      case True
      then show ?thesis by (rule sint_u32_small) (use u \<open>len < 2 ^ 31\<close> nla_align_range [of "uint l"] in linarith)
    next
      case False
      then show ?thesis using u nla_align_range [of "uint l"] by (intro sint_u32_neg) auto
    qed
    ultimately show ?thesis using len' u nla_align_range(1) [of "uint l"] by (simp only:)
  next
    case False
    moreover have "sint (word_of_int len - NLMSG_ALIGN l :: u32) < 2 ^ 31"
      using sint_lt [of "word_of_int len - NLMSG_ALIGN l :: u32"] by simp
    ultimately show ?thesis using len' by linarith
  qed
qed

function msg_loop ::
    "u32 \<Rightarrow> int \<Rightarrow> 'c nlmsg_fn option \<Rightarrow> bytes \<Rightarrow> nat \<Rightarrow> int \<Rightarrow> bool \<Rightarrow> 'c \<Rightarrow> ((int + bool) \<times> 'c) option" where
  "msg_loop nl_pid seq fn m nh len multipart cookie =
     (case NLMSG_OK m nh len of
        None \<Rightarrow> None
      | Some False \<Rightarrow> Some (Inr multipart, cookie)
      | Some True \<Rightarrow>
          (case msg_step nl_pid seq fn m nh multipart cookie of
             None \<Rightarrow> None
           | Some (Inl ret, cookie) \<Rightarrow> Some (Inl ret, cookie)
           | Some (Inr multipart, cookie) \<Rightarrow>
               (case NLMSG_NEXT m nh len of
                  None \<Rightarrow> None
                | Some (nh, len) \<Rightarrow> msg_loop nl_pid seq fn m nh len multipart cookie)))"
  by pat_completeness auto
termination
  by (relation "measure (\<lambda>(nl_pid, seq, fn, m, nh, len, multipart, cookie). nat len)")
    (auto dest: nlmsg_next_less)

declare msg_loop.simps [simp del]

text \<open>
  A buffer of 4096 bytes on the stack; a message overwrites its beginning. The result is \<^term>\<open>None\<close>
  when the loop never ends and \<^term>\<open>Some None\<close> when an access leaves the buffer.
\<close>

partial_function (option) bpf_netlink_recv ::
    "'k nl_env \<Rightarrow> int \<Rightarrow> u32 \<Rightarrow> int \<Rightarrow> 'c nlmsg_fn option \<Rightarrow> bytes \<Rightarrow> 'c \<Rightarrow> 'k \<Rightarrow> (int \<times> 'c \<times> 'k) option option" where
  "bpf_netlink_recv env sock nl_pid seq fn buf cookie k =
     (case nl_recv env sock 4096 k of
        (Inl err, k) \<Rightarrow> Some (Some (err, cookie, k))
      | (Inr msg, k) \<Rightarrow>
          if msg = [] then Some (Some (0, cookie, k))
          else case msg_loop nl_pid seq fn (msg @ drop (length msg) buf) 0 (int (length msg)) False cookie of
            None \<Rightarrow> Some None
          | Some (Inl ret, cookie) \<Rightarrow> Some (Some (ret, cookie, k))
          | Some (Inr multipart, cookie) \<Rightarrow>
              if multipart then bpf_netlink_recv env sock nl_pid seq fn (msg @ drop (length msg) buf) cookie k
              else Some (Some (0, cookie, k)))"

section \<open>Attaching a program\<close>

definition NLM_F_REQUEST :: u16 where "NLM_F_REQUEST = 1"
definition NLM_F_ACK :: u16 where "NLM_F_ACK = 4"
definition NLM_F_DUMP :: u16 where "NLM_F_DUMP = 0x300"
definition RTM_GETLINK :: u16 where "RTM_GETLINK = 18"
definition RTM_SETLINK :: u16 where "RTM_SETLINK = 19"
definition sizeof_ifinfomsg :: nat where "sizeof_ifinfomsg = 16"
definition IFLA_XDP :: nat where "IFLA_XDP = 43"
definition IFLA_MAX :: int where "IFLA_MAX = 54"
definition IFLA_XDP_FD :: nat where "IFLA_XDP_FD = 1"
definition IFLA_XDP_ATTACHED :: nat where "IFLA_XDP_ATTACHED = 2"
definition IFLA_XDP_FLAGS :: nat where "IFLA_XDP_FLAGS = 3"
definition IFLA_XDP_PROG_ID :: nat where "IFLA_XDP_PROG_ID = 4"
definition IFLA_XDP_DRV_PROG_ID :: nat where "IFLA_XDP_DRV_PROG_ID = 5"
definition IFLA_XDP_SKB_PROG_ID :: nat where "IFLA_XDP_SKB_PROG_ID = 6"
definition IFLA_XDP_HW_PROG_ID :: nat where "IFLA_XDP_HW_PROG_ID = 7"
definition IFLA_XDP_MAX :: int where "IFLA_XDP_MAX = 7"

definition NLMSG_LENGTH :: "nat \<Rightarrow> nat" where
  "NLMSG_LENGTH len = len + nat NLMSG_HDRLEN"

text \<open>
  One attribute with a 32-bit value behind the attributes of \<open>nla\<close> so far, in the request.
\<close>

definition put_u32_attr :: "bytes \<Rightarrow> nat \<Rightarrow> nat \<Rightarrow> u32 \<Rightarrow> bytes option" where
  "put_u32_attr req nla type v = do {
     len \<leftarrow> nla_len req nla;
     let nla_xdp = nla + unat len;
     req \<leftarrow> store16 req (nla_xdp + 2) (of_nat type);
     req \<leftarrow> store16 req nla_xdp (word_of_int NLA_HDRLEN + 4);
     req \<leftarrow> store32 req (nla_xdp + nat NLA_HDRLEN) v;
     xdp_len \<leftarrow> nla_len req nla_xdp;
     store16 req nla (len + xdp_len)
   }"

text \<open>The request (header, \<open>ifinfomsg\<close> and 64 bytes for attributes): first its header, then all of it up to the call of \<open>send\<close>.\<close>

definition set_link_start :: "int \<Rightarrow> int \<Rightarrow> bytes option" where
  "set_link_start ifindex seq = do {
     let req = replicate (16 + 16 + 64) (0 :: u8);
     req \<leftarrow> store32 req 0 (of_nat (NLMSG_LENGTH sizeof_ifinfomsg));
     req \<leftarrow> store16 req 6 (NLM_F_REQUEST OR NLM_F_ACK);
     req \<leftarrow> store16 req 4 RTM_SETLINK;
     req \<leftarrow> store32 req 12 0;
     req \<leftarrow> store32 req 8 (word_of_int seq);
     req \<leftarrow> mem_write req 16 [0];
     store32 req 20 (word_of_int ifindex)
   }"

definition set_link_request :: "int \<Rightarrow> int \<Rightarrow> u32 \<Rightarrow> int \<Rightarrow> bytes option" where
  "set_link_request ifindex fd flags seq = do {
     req \<leftarrow> set_link_start ifindex seq;
     len \<leftarrow> nlmsg_len_field req 0;
     let nla = unat (NLMSG_ALIGN len);
     req \<leftarrow> store16 req (nla + 2) (NLA_F_NESTED OR of_nat IFLA_XDP);
     req \<leftarrow> store16 req nla (word_of_int NLA_HDRLEN);
     req \<leftarrow> put_u32_attr req nla IFLA_XDP_FD (word_of_int fd);
     req \<leftarrow> (if flags \<noteq> 0 then put_u32_attr req nla IFLA_XDP_FLAGS flags else Some req);
     len \<leftarrow> nlmsg_len_field req 0;
     alen \<leftarrow> nla_len req nla;
     store32 req 0 (len + word_of_int (NLA_ALIGN (uint alen)))
   }"

definition nl_set_link_xdp_fd :: "'k nl_env \<Rightarrow> bytes \<Rightarrow> int \<Rightarrow> int \<Rightarrow> u32 \<Rightarrow> 'k \<Rightarrow> (int \<times> 'k) option" where
  "nl_set_link_xdp_fd env buf ifindex fd flags k =
     (let (sock, nl_pid, k) = libbpf_netlink_open env k in
      if sock < 0 then Some (sock, k)
      else do {
        req \<leftarrow> set_link_request ifindex fd flags 1;
        len \<leftarrow> nlmsg_len_field req 0;
        msg \<leftarrow> mem_read req 0 (unat len);
        let (ret, k) = nl_send env sock msg k;
        if ret < 0 then Some (ret, nl_close env sock k)
        else do {
          reply \<leftarrow> bpf_netlink_recv env sock nl_pid 1 (None :: unit nlmsg_fn option) buf () k;
          (ret, _, k) \<leftarrow> reply;
          Some (ret, nl_close env sock k)
        }
      })"

section \<open>Asking for the attached program\<close>

definition AF_PACKET :: u8 where "AF_PACKET = 17"
definition XDP_ATTACHED_NONE :: u8 where "XDP_ATTACHED_NONE = 0"
definition XDP_ATTACHED_MULTI :: u8 where "XDP_ATTACHED_MULTI = 4"
definition XDP_FLAGS_MASK :: u32 where
  "XDP_FLAGS_MASK = XDP_FLAGS_UPDATE_IF_NOEXIST OR XDP_FLAGS_MODES"

record xdp_link_info =
  prog_id :: u32
  drv_prog_id :: u32
  hw_prog_id :: u32
  skb_prog_id :: u32
  attach_mode :: u8

record xdp_id_md =
  md_ifindex :: int
  md_flags :: u32
  md_info :: xdp_link_info

text \<open>A callback for the parsed message gets the buffer, the message's data and the attribute table.\<close>

type_synonym 'c dump_fn = "bytes \<Rightarrow> nat \<Rightarrow> nat option list \<Rightarrow> 'c \<Rightarrow> (int \<times> 'c) option"

definition dump_link_nlmsg :: "'c dump_fn \<Rightarrow> 'c nlmsg_fn" where
  "dump_link_nlmsg dump m nlh cookie = do {
     let ifi = NLMSG_DATA nlh;
     mlen \<leftarrow> nlmsg_len_field m nlh;
     let len = sint (mlen - of_nat (NLMSG_LENGTH sizeof_ifinfomsg));
     let attr = ifi + unat (NLMSG_ALIGN (of_nat sizeof_ifinfomsg));
     (ret, tb) \<leftarrow> libbpf_nla_parse m IFLA_MAX attr len None;
     if ret \<noteq> 0 then Some (- LIBBPF_ERRNO__NLPARSE, cookie) else dump m ifi tb cookie
   }"

text \<open>An attribute of the table, if it is there, is loaded into a field.\<close>

definition set_id ::
    "bytes \<Rightarrow> nat option list \<Rightarrow> nat \<Rightarrow> (u32 \<Rightarrow> xdp_link_info \<Rightarrow> xdp_link_info) \<Rightarrow> xdp_link_info \<Rightarrow> xdp_link_info option" where
  "set_id m tb type upd info = do {
     attr \<leftarrow> arr_get tb type;
     case attr of None \<Rightarrow> Some info
     | Some nla \<Rightarrow> do { v \<leftarrow> libbpf_nla_getattr_u32 m nla; Some (upd v info) }
   }"

definition get_xdp_info :: "xdp_id_md dump_fn" where
  "get_xdp_info m ifinfo tb xdp_id = do {
     ifi_index \<leftarrow> load32 m (ifinfo + 4);
     if md_ifindex xdp_id \<noteq> 0 \<and> md_ifindex xdp_id \<noteq> sint ifi_index then Some (0, xdp_id)
     else do {
       xdp \<leftarrow> arr_get tb IFLA_XDP;
       case xdp of None \<Rightarrow> Some (0, xdp_id)
       | Some nla \<Rightarrow> do {
           (ret, xdp_tb) \<leftarrow> libbpf_nla_parse_nested m IFLA_XDP_MAX nla None;
           if ret \<noteq> 0 then Some (ret, xdp_id)
           else do {
             attached \<leftarrow> arr_get xdp_tb IFLA_XDP_ATTACHED;
             case attached of None \<Rightarrow> Some (0, xdp_id)
             | Some nla \<Rightarrow> do {
                 mode \<leftarrow> libbpf_nla_getattr_u8 m nla;
                 let xdp_id = xdp_id\<lparr>md_info := (md_info xdp_id)\<lparr>attach_mode := mode\<rparr>\<rparr>;
                 if mode = XDP_ATTACHED_NONE then Some (0, xdp_id)
                 else do {
                   info \<leftarrow> set_id m xdp_tb IFLA_XDP_PROG_ID (\<lambda>v i. i\<lparr>prog_id := v\<rparr>) (md_info xdp_id);
                   info \<leftarrow> set_id m xdp_tb IFLA_XDP_SKB_PROG_ID (\<lambda>v i. i\<lparr>skb_prog_id := v\<rparr>) info;
                   info \<leftarrow> set_id m xdp_tb IFLA_XDP_DRV_PROG_ID (\<lambda>v i. i\<lparr>drv_prog_id := v\<rparr>) info;
                   info \<leftarrow> set_id m xdp_tb IFLA_XDP_HW_PROG_ID (\<lambda>v i. i\<lparr>hw_prog_id := v\<rparr>) info;
                   Some (0, xdp_id\<lparr>md_info := info\<rparr>)
                 }
               }
           }
         }
     }
   }"

text \<open>A request: header, and the family and further fields of its body.\<close>

definition dump_request :: "u16 \<Rightarrow> nat \<Rightarrow> u8 \<Rightarrow> u32 \<Rightarrow> u32 \<Rightarrow> int \<Rightarrow> bytes" where
  "dump_request type body family index parent seq =
     enc32 (of_nat (NLMSG_LENGTH body)) @ enc16 type @ enc16 (NLM_F_DUMP OR NLM_F_REQUEST) @ enc32 (word_of_int seq) @ enc32 0 @
     [family, 0, 0, 0] @ enc32 index @
     (if body = 20 then enc32 0 @ enc32 parent @ enc32 0 else replicate (body - 8) 0)"

definition nl_dump ::
    "'k nl_env \<Rightarrow> bytes \<Rightarrow> int \<Rightarrow> u32 \<Rightarrow> (int \<Rightarrow> bytes) \<Rightarrow> 'c nlmsg_fn \<Rightarrow> 'c \<Rightarrow> 'k \<Rightarrow> (int \<times> 'c \<times> 'k) option" where
  "nl_dump env buf sock nl_pid req fn cookie k =
     (let seq = nl_time env k; (ret, k) = nl_send env sock (req seq) k in
      if ret < 0 then Some (ret, cookie, k)
      else do { reply \<leftarrow> bpf_netlink_recv env sock nl_pid seq (Some fn) buf cookie k; reply })"

definition libbpf_nl_get_link ::
    "'k nl_env \<Rightarrow> bytes \<Rightarrow> int \<Rightarrow> u32 \<Rightarrow> 'c dump_fn \<Rightarrow> 'c \<Rightarrow> 'k \<Rightarrow> (int \<times> 'c \<times> 'k) option" where
  "libbpf_nl_get_link env buf sock nl_pid dump cookie k =
     nl_dump env buf sock nl_pid (dump_request RTM_GETLINK sizeof_ifinfomsg AF_PACKET 0 0) (dump_link_nlmsg dump) cookie k"

text \<open>The layout of \<open>struct xdp_link_info\<close>: four words, the mode and three bytes of padding.\<close>

definition info_bytes :: "xdp_link_info \<Rightarrow> bytes" where
  "info_bytes i = enc32 (prog_id i) @ enc32 (drv_prog_id i) @ enc32 (hw_prog_id i) @ enc32 (skb_prog_id i) @
     [attach_mode i, 0, 0, 0]"

definition zero_info :: xdp_link_info where
  "zero_info = \<lparr>prog_id = 0, drv_prog_id = 0, hw_prog_id = 0, skb_prog_id = 0, attach_mode = 0\<rparr>"

text \<open>\<open>info\<close> is the caller's memory, at least \<open>info_size\<close> bytes.\<close>

definition bpf_get_link_xdp_info ::
    "'k nl_env \<Rightarrow> bytes \<Rightarrow> int \<Rightarrow> bytes \<Rightarrow> nat \<Rightarrow> u32 \<Rightarrow> 'k \<Rightarrow> (int \<times> bytes \<times> 'k) option" where
  "bpf_get_link_xdp_info env buf ifindex info info_size flags k =
     (if flags AND NOT XDP_FLAGS_MASK \<noteq> 0 \<or> info_size = 0 then Some (- 22, info, k)
      else let flags = flags AND (XDP_FLAGS_SKB_MODE OR XDP_FLAGS_DRV_MODE OR XDP_FLAGS_HW_MODE); mask = flags - 1 in
      if flags \<noteq> 0 \<and> flags AND mask \<noteq> 0 then Some (- 22, info, k)
      else let (sock, nl_pid, k) = libbpf_netlink_open env k in
      if sock < 0 then Some (sock, info, k)
      else do {
        (ret, xdp_id, k) \<leftarrow> libbpf_nl_get_link env buf sock nl_pid get_xdp_info
           \<lparr>md_ifindex = ifindex, md_flags = flags, md_info = zero_info\<rparr> k;
        info \<leftarrow> (if ret = 0 then do {
            let sz = min info_size 20;
            info \<leftarrow> mem_write info 0 (take sz (info_bytes (md_info xdp_id)));
            mem_write info sz (replicate (info_size - sz) 0)
          } else Some info);
        Some (ret, info, nl_close env sock k)
      })"

definition get_xdp_id :: "bytes \<Rightarrow> u32 \<Rightarrow> u32 option" where
  "get_xdp_id info flags = do {
     mode \<leftarrow> load8 info 16;
     if mode \<noteq> XDP_ATTACHED_MULTI then load32 info 0
     else if flags AND XDP_FLAGS_DRV_MODE \<noteq> 0 then load32 info 4
     else if flags AND XDP_FLAGS_HW_MODE \<noteq> 0 then load32 info 8
     else if flags AND XDP_FLAGS_SKB_MODE \<noteq> 0 then load32 info 12
     else Some 0
   }"

text \<open>The result: the code and the program's number, unchanged after an error.\<close>

definition nl_get_link_xdp_id ::
    "'k nl_env \<Rightarrow> bytes \<Rightarrow> bytes \<Rightarrow> int \<Rightarrow> u32 \<Rightarrow> u32 \<Rightarrow> 'k \<Rightarrow> (int \<times> u32 \<times> 'k) option" where
  "nl_get_link_xdp_id env buf uninit ifindex old_id flags k = do {
     (ret, info, k) \<leftarrow> bpf_get_link_xdp_info env buf ifindex uninit 20 flags k;
     if ret = 0 then do { pid \<leftarrow> get_xdp_id info flags; Some (ret, pid, k) }
     else Some (ret, old_id, k)
   }"

section \<open>Traffic control objects\<close>

text \<open>The three dumps of traffic control objects differ in the request only; \<open>tca_max\<close> is \<open>TCA_MAX\<close> of the system.\<close>

definition RTM_GETTCLASS :: u16 where "RTM_GETTCLASS = 42"
definition RTM_GETQDISC :: u16 where "RTM_GETQDISC = 38"
definition RTM_GETTFILTER :: u16 where "RTM_GETTFILTER = 46"
definition sizeof_tcmsg :: nat where "sizeof_tcmsg = 20"

definition dump_tc_nlmsg :: "int \<Rightarrow> 'c dump_fn \<Rightarrow> 'c nlmsg_fn" where
  "dump_tc_nlmsg tca_max dump m nlh cookie = do {
     let t = NLMSG_DATA nlh;
     mlen \<leftarrow> nlmsg_len_field m nlh;
     let len = sint (mlen - of_nat (NLMSG_LENGTH sizeof_tcmsg));
     let attr = t + unat (NLMSG_ALIGN (of_nat sizeof_tcmsg));
     (ret, tb) \<leftarrow> libbpf_nla_parse m tca_max attr len None;
     if ret \<noteq> 0 then Some (- LIBBPF_ERRNO__NLPARSE, cookie) else dump m t tb cookie
   }"

definition dump_class_nlmsg :: "int \<Rightarrow> 'c dump_fn \<Rightarrow> 'c nlmsg_fn" where
  "dump_class_nlmsg = dump_tc_nlmsg"

definition dump_qdisc_nlmsg :: "int \<Rightarrow> 'c dump_fn \<Rightarrow> 'c nlmsg_fn" where
  "dump_qdisc_nlmsg = dump_tc_nlmsg"

definition dump_filter_nlmsg :: "int \<Rightarrow> 'c dump_fn \<Rightarrow> 'c nlmsg_fn" where
  "dump_filter_nlmsg = dump_tc_nlmsg"

definition libbpf_nl_get_class where
  "libbpf_nl_get_class tca_max env buf sock nl_pid ifindex dump cookie k =
     nl_dump env buf sock nl_pid (dump_request RTM_GETTCLASS sizeof_tcmsg 0 (word_of_int ifindex) 0)
       (dump_class_nlmsg tca_max dump) cookie k"

definition libbpf_nl_get_qdisc where
  "libbpf_nl_get_qdisc tca_max env buf sock nl_pid ifindex dump cookie k =
     nl_dump env buf sock nl_pid (dump_request RTM_GETQDISC sizeof_tcmsg 0 (word_of_int ifindex) 0)
       (dump_qdisc_nlmsg tca_max dump) cookie k"

definition libbpf_nl_get_filter where
  "libbpf_nl_get_filter tca_max env buf sock nl_pid ifindex handle dump cookie k =
     nl_dump env buf sock nl_pid (dump_request RTM_GETTFILTER sizeof_tcmsg 0 (word_of_int ifindex) (word_of_int handle))
       (dump_filter_nlmsg tca_max dump) cookie k"

section \<open>The request to attach a program\<close>

lemma put_u32_attr_at:
  assumes "req = pre @ enc16 (of_nat (4 + length body)) @ enc16 ty @ body @ replicate (8 + n) 0" "length pre = nla"
    "4 + length body < 1000"
  shows "put_u32_attr req nla type v =
    Some (pre @ enc16 (of_nat (4 + length (body @ nla_bytes (of_nat type, enc32 v)))) @ enc16 ty @
      (body @ nla_bytes (of_nat type, enc32 v)) @ replicate n 0)"
proof -
  let ?l = "of_nat (4 + length body) :: u16" and ?hd = "pre @ enc16 (of_nat (4 + length body)) @ enc16 ty @ body"
  have l: "unat ?l = 4 + length body" using assms(3) by (simp only: unsigned_of_nat) (simp add: take_bit_eq_mod)
  have req: "req = ?hd @ replicate 2 0 @ replicate 2 0 @ replicate 4 0 @ replicate n 0"
    using assms(1) by (simp add: numeral_eq_Suc)
  have x: "nla + unat ?l = length ?hd" using assms(2) l by simp
  have "nla_len req nla = Some ?l"
    using load16_enc_at [OF assms(2), of ?l] assms(1) by (simp add: nla_len_def)
  moreover have "store16 req (length ?hd + 2) (of_nat type) =
      Some (?hd @ replicate 2 0 @ enc16 (of_nat type) @ replicate 4 0 @ replicate n 0)"
    using store16_at [of "?hd @ replicate 2 0" "length ?hd + 2" "replicate 2 0" "replicate 4 0 @ replicate n 0"] req by simp
  moreover have "store16 (?hd @ replicate 2 0 @ enc16 (of_nat type) @ replicate 4 0 @ replicate n 0) (length ?hd) 8 =
      Some (?hd @ enc16 8 @ enc16 (of_nat type) @ replicate 4 0 @ replicate n 0)"
    using store16_at [of ?hd "length ?hd" "replicate 2 0"] by simp
  moreover have "store32 (?hd @ enc16 8 @ enc16 (of_nat type) @ replicate 4 0 @ replicate n 0) (length ?hd + 4) v =
      Some (?hd @ enc16 8 @ enc16 (of_nat type) @ enc32 v @ replicate n 0)"
    using store32_at [of "?hd @ enc16 8 @ enc16 (of_nat type)" "length ?hd + 4" "replicate 4 0" "replicate n 0"] by simp
  moreover have "nla_len (?hd @ enc16 8 @ enc16 (of_nat type) @ enc32 v @ replicate n 0) (length ?hd) = Some 8"
    using load16_enc_at [of ?hd "length ?hd" 8] by (simp add: nla_len_def)
  moreover have "store16 (?hd @ enc16 8 @ enc16 (of_nat type) @ enc32 v @ replicate n 0) nla (?l + 8) =
      Some (pre @ enc16 (?l + 8) @ enc16 ty @ (body @ enc16 8 @ enc16 (of_nat type) @ enc32 v) @ replicate n 0)"
    using store16_at [OF assms(2), of "enc16 ?l"] by simp
  moreover have "?l + 8 = of_nat (4 + length (body @ nla_bytes (of_nat type, enc32 v)))" by simp
  moreover have "enc16 8 @ enc16 (of_nat type) @ enc32 v = nla_bytes (of_nat type, enc32 v)" by (simp add: nla_bytes_def)
  ultimately show ?thesis
    unfolding put_u32_attr_def Let_def by (simp add: x NLA_HDRLEN_def del: length_append of_nat_add)
qed

text \<open>The attributes of the request: the program's descriptor, and the flags unless they are zero.\<close>

definition xdp_attrs :: "int \<Rightarrow> u32 \<Rightarrow> nla list" where
  "xdp_attrs fd flags = (of_nat IFLA_XDP_FD, enc32 (word_of_int fd)) #
     (if flags \<noteq> 0 then [(of_nat IFLA_XDP_FLAGS, enc32 flags)] else [])"

definition link_header :: "nat \<Rightarrow> int \<Rightarrow> int \<Rightarrow> bytes" where
  "link_header len ifindex seq =
     enc32 (of_nat len) @ enc16 RTM_SETLINK @ enc16 (NLM_F_REQUEST OR NLM_F_ACK) @ enc32 (word_of_int seq) @ enc32 0 @
     [0, 0, 0, 0] @ enc32 (word_of_int ifindex) @ replicate 8 0"

lemma set_link_start_eq: "set_link_start ifindex seq = Some (link_header 32 ifindex seq @ replicate 64 0)"
proof -
  have r: "replicate (16 + 16 + 64) (0 :: u8) =
    [0, 0, 0, 0, 0, 0, 0, 0, 0, 0, 0, 0, 0, 0, 0, 0, 0, 0, 0, 0, 0, 0, 0, 0, 0, 0, 0, 0, 0, 0, 0, 0] @ replicate 64 0"
    by (simp add: numeral_eq_Suc)
  have z: "replicate 8 (0 :: u8) = [0, 0, 0, 0, 0, 0, 0, 0]" by (simp add: numeral_eq_Suc)
  show ?thesis
    unfolding set_link_start_def r Let_def
    by (simp add: z store32_def store16_enc mem_write_def enc32_def enc16_def link_header_def NLMSG_LENGTH_def NLMSG_HDRLEN_def
        sizeof_ifinfomsg_def take_Cons' drop_Cons')
qed

lemma nla_pad_u32: "nla_pad (t, enc32 v) = []"
proof -
  have "NLA_ALIGN 8 = 8" by (simp add: nla_align_mod)
  then show ?thesis by (simp add: nla_pad_def)
qed

lemma link_header_len:
  "length (link_header len ifindex seq) = 32" "nlmsg_len_field (link_header len ifindex seq @ rest) 0 = Some (of_nat len)"
  "store32 (link_header len ifindex seq @ rest) 0 (of_nat len') = Some (link_header len' ifindex seq @ rest)"
  using load32_enc_at [of "[]" 0 "of_nat len"] store32_at [of "[]" 0 "enc32 (of_nat len)"]
  by (simp_all add: link_header_def layout)

definition xdp_nested :: "int \<Rightarrow> u32 \<Rightarrow> nla" where
  "xdp_nested fd flags = (NLA_F_NESTED OR of_nat IFLA_XDP, nla_stream (xdp_attrs fd flags))"

lemma set_link_request_eq:
  "\<exists>n. set_link_request ifindex fd flags seq =
    Some (link_header (32 + length (nla_bytes (xdp_nested fd flags))) ifindex seq @ nla_bytes (xdp_nested fd flags) @ replicate n 0)"
proof -
  let ?hd = "link_header 32 ifindex seq" and ?ty = "NLA_F_NESTED OR of_nat IFLA_XDP :: u16"
  let ?fd = "nla_bytes (of_nat IFLA_XDP_FD, enc32 (word_of_int fd))" and ?fl = "nla_bytes (of_nat IFLA_XDP_FLAGS, enc32 flags)"
  have len: "nlmsg_len_field (?hd @ replicate 64 0) 0 = Some 32" using link_header_len(2) [of 32] by simp
  have al: "unat (NLMSG_ALIGN 32) = 32" by (simp add: NLMSG_ALIGN_def)
  have r64: "replicate 64 (0::u8) = replicate 2 0 @ replicate 2 0 @ replicate (8 + (8 + 44)) 0" by (simp add: numeral_eq_Suc)
  have ty: "store16 (?hd @ replicate 64 0) (32 + 2) ?ty = Some (?hd @ replicate 2 0 @ enc16 ?ty @ replicate (8 + (8 + 44)) 0)"
    using store16_at [of "?hd @ replicate 2 0" 34 "replicate 2 0"] link_header_len(1) r64 by simp
  have al4: "store16 (?hd @ replicate 2 0 @ enc16 ?ty @ replicate (8 + (8 + 44)) 0) 32 (word_of_int NLA_HDRLEN) =
      Some (?hd @ enc16 (of_nat (4 + length ([] :: bytes))) @ enc16 ?ty @ [] @ replicate (8 + (8 + 44)) 0)"
    using store16_at [of ?hd 32 "replicate 2 0"] link_header_len(1) by (simp add: NLA_HDRLEN_def)
  note put1 = put_u32_attr_at [OF refl link_header_len(1), of "[]" 32 ifindex seq ?ty "8 + 44" IFLA_XDP_FD "word_of_int fd"]
  have fin: "(do {
        len \<leftarrow> nlmsg_len_field req 0;
        alen \<leftarrow> nla_len req 32;
        store32 req 0 (len + word_of_int (NLA_ALIGN (uint alen)))
      }) = Some (link_header (32 + (4 + length body)) ifindex seq @ enc16 (of_nat (4 + length body)) @ enc16 ?ty @ body @ rest)"
    if req: "req = ?hd @ enc16 (of_nat (4 + length body)) @ enc16 ?ty @ body @ rest" and l: "length body = 8 \<or> length body = 16"
    for req body rest
  proof -
    have "nla_len req 32 = Some (of_nat (4 + length body))"
      using load16_enc_at [of ?hd 32 "of_nat (4 + length body)"] req link_header_len(1) by (simp add: nla_len_def)
    moreover have "NLA_ALIGN 12 = 12" "NLA_ALIGN 20 = 20" by (simp_all add: nla_align_mod)
    ultimately show ?thesis
      using l link_header_len(2) [of 32 ifindex seq] link_header_len(3) [of 32 ifindex seq _ "36 + length body"] req by auto
  qed
  note put2 = put_u32_attr_at [OF refl link_header_len(1), of ?fd 32 ifindex seq ?ty 44 IFLA_XDP_FLAGS flags]
  show ?thesis
  proof (cases "flags = 0")
    case True
    have "set_link_request ifindex fd flags seq = Some (link_header (32 + (4 + length ?fd)) ifindex seq @
        enc16 (of_nat (4 + length ?fd)) @ enc16 ?ty @ ?fd @ replicate (8 + 44) 0)"
      using fin [OF refl, of ?fd "replicate (8 + 44) 0"] put1 ty al4 True
      by (simp add: set_link_request_def set_link_start_eq len al Let_def)
    moreover have "nla_stream (xdp_attrs fd flags) = ?fd" using True by (simp add: xdp_attrs_def nla_pad_u32)
    ultimately show ?thesis by (auto simp: xdp_nested_def nla_bytes_def)
  next
    case False
    have "set_link_request ifindex fd flags seq = Some (link_header (32 + (4 + length (?fd @ ?fl))) ifindex seq @
        enc16 (of_nat (4 + length (?fd @ ?fl))) @ enc16 ?ty @ (?fd @ ?fl) @ replicate 44 0)"
      using fin [OF refl, of "?fd @ ?fl" "replicate 44 0"] put1 put2 ty al4 False
      by (simp add: set_link_request_def set_link_start_eq len al Let_def)
    moreover have "nla_stream (xdp_attrs fd flags) = ?fd @ ?fl" using False by (simp add: xdp_attrs_def nla_pad_u32)
    ultimately show ?thesis by (auto simp: xdp_nested_def nla_bytes_def)
  qed
qed

text \<open>
  What a message to attach a program must say: the parser of the attributes finds the descriptor and
  the flags in it, and its header names the link.
\<close>

definition asks_for :: "int \<Rightarrow> int \<Rightarrow> u32 \<Rightarrow> int \<Rightarrow> bytes \<Rightarrow> bool" where
  "asks_for ifindex fd flags seq msg \<longleftrightarrow>
     nlmsg_len_field msg 0 = Some (of_nat (length msg)) \<and> nlmsg_type msg 0 = Some RTM_SETLINK \<and>
     nlmsg_seq msg 0 = Some (word_of_int seq) \<and> load32 msg 20 = Some (word_of_int ifindex) \<and>
     (\<exists>tb nla xtb a. libbpf_nla_parse msg IFLA_MAX 32 (int (length msg) - 32) None = Some (0, tb) \<and> tb ! IFLA_XDP = Some nla \<and>
        libbpf_nla_parse_nested msg IFLA_XDP_MAX nla None = Some (0, xtb) \<and>
        xtb ! IFLA_XDP_FD = Some a \<and> libbpf_nla_getattr_u32 msg a = Some (word_of_int fd) \<and>
        (if flags = 0 then xtb ! IFLA_XDP_FLAGS = None
         else \<exists>b. xtb ! IFLA_XDP_FLAGS = Some b \<and> libbpf_nla_getattr_u32 msg b = Some flags))"

lemma xdp_request_decodes:
  "\<exists>req msg. set_link_request ifindex fd flags seq = Some req \<and> nlmsg_len_field req 0 = Some (of_nat (length msg)) \<and>
     mem_read req 0 (length msg) = Some msg \<and> length msg < 2 ^ 31 \<and> asks_for ifindex fd flags seq msg"
proof -
  let ?n = "xdp_nested fd flags" and ?as = "xdp_attrs fd flags"
  let ?hd = "link_header (32 + length (nla_bytes ?n)) ifindex seq"
  define msg where "msg = ?hd @ nla_bytes ?n"
  obtain k where req: "set_link_request ifindex fd flags seq = Some (msg @ replicate k 0)"
    using set_link_request_eq [of ifindex fd flags seq] by (auto simp: msg_def)
  have len: "length msg = 32 + length (nla_bytes ?n)" by (simp add: msg_def link_header_len)
  have stream: "length (nla_stream ?as) = 8 \<or> length (nla_stream ?as) = 16" by (simp add: xdp_attrs_def nla_pad_u32)
  have "NLA_ALIGN 12 = 12" "NLA_ALIGN 20 = 20" by (simp_all add: nla_align_mod)
  then have pad: "nla_pad ?n = []" using stream by (auto simp: nla_pad_def xdp_nested_def)
  have fits: "nla_fits ?n" "\<forall>a\<in>set ?as. nla_fits a" using stream by (auto simp: nla_fits_def xdp_nested_def xdp_attrs_def)
  have one: "nla_stream [?n] = nla_bytes ?n" "length (nla_bytes ?n) < 2 ^ 31"
    using stream pad by (auto simp: nla_align_mod xdp_nested_def)
  obtain tb where tb: "libbpf_nla_parse msg IFLA_MAX 32 (int (length msg) - 32) None = Some (0, tb)" "tb_ok msg [?n] tb" "length tb = 55"
  proof (rule nla_parse_stream [of "[?n]" IFLA_MAX msg ?hd "[]" 32 "int (length msg) - 32"])
    fix tb
    assume "libbpf_nla_parse msg IFLA_MAX 32 (int (length msg) - 32) None = Some (0, tb)" "tb_ok msg [?n] tb"
      "int (length tb) = IFLA_MAX + 1"
    then show thesis using that by (simp add: IFLA_MAX_def)
  qed (use fits(1) one len in \<open>simp_all add: msg_def link_header_len IFLA_MAX_def del: nla_stream_simps\<close>)
  have "nla_last [?n] IFLA_XDP = Some (nla_stream ?as)"
    by (simp add: nla_last_def nla_key_def xdp_nested_def NLA_F_NESTED_def NLA_TYPE_MASK_def IFLA_XDP_def)
  then obtain nla where nla: "tb ! IFLA_XDP = Some nla" "nla_at msg nla (nla_stream ?as)"
    using tb_ok_at(1) [OF tb(2) _ , of IFLA_XDP "nla_stream ?as"] tb(3) by (force simp: IFLA_XDP_def)
  have short: "?as \<noteq> []" "length (nla_stream ?as) < 2 ^ 31" using stream by (auto simp: xdp_attrs_def)
  obtain xtb where xtb: "libbpf_nla_parse_nested msg IFLA_XDP_MAX nla None = Some (0, xtb)" "tb_ok msg ?as xtb" "length xtb = 8"
  proof (rule nla_parse_nested_stream [OF nla(2) short(1) fits(2) short(2), of IFLA_XDP_MAX])
    fix xtb
    assume "libbpf_nla_parse_nested msg IFLA_XDP_MAX nla None = Some (0, xtb)" "tb_ok msg ?as xtb"
      "int (length xtb) = IFLA_XDP_MAX + 1"
    then show thesis using that by (simp add: IFLA_XDP_MAX_def)
  qed (simp add: IFLA_XDP_MAX_def)
  have last: "nla_last ?as IFLA_XDP_FD = Some (enc32 (word_of_int fd))"
    "nla_last ?as IFLA_XDP_FLAGS = (if flags = 0 then None else Some (enc32 flags))"
    by (simp_all add: nla_last_def nla_key_def xdp_attrs_def NLA_TYPE_MASK_def IFLA_XDP_FD_def IFLA_XDP_FLAGS_def)
  have xlen: "IFLA_XDP_FD < length xtb" "IFLA_XDP_FLAGS < length xtb" using xtb(3) by (simp_all add: IFLA_XDP_FD_def IFLA_XDP_FLAGS_def)
  obtain a where a: "xtb ! IFLA_XDP_FD = Some a" "libbpf_nla_getattr_u32 msg a = Some (word_of_int fd)"
    using tb_ok_at(1) [OF xtb(2) last(1) xlen(1)] nla_at_values(1) by blast
  have b: "if flags = 0 then xtb ! IFLA_XDP_FLAGS = None
      else \<exists>b. xtb ! IFLA_XDP_FLAGS = Some b \<and> libbpf_nla_getattr_u32 msg b = Some flags"
  proof (cases "flags = 0")
    case True
    then show ?thesis using tb_ok_at(2) [OF xtb(2) _ xlen(2)] last(2) by simp
  next
    case False
    then have "nla_last ?as IFLA_XDP_FLAGS = Some (enc32 flags)" using last(2) by simp
    from tb_ok_at(1) [OF xtb(2) this xlen(2)] False show ?thesis using nla_at_values(1) by auto
  qed
  have read: "mem_read (msg @ replicate k 0) 0 (length msg) = Some msg" by (simp add: mem_read_def)
  have small: "length msg < 2 ^ 31" using len one stream by (auto simp: xdp_nested_def)
  have field: "nlmsg_len_field (msg @ rest) 0 = Some (of_nat (length msg))" for rest
    using link_header_len(2) [of "32 + length (nla_bytes ?n)" ifindex seq "nla_bytes ?n @ rest"] len by (simp add: msg_def)
  have "nlmsg_type msg 0 = Some RTM_SETLINK"
    using load16_enc_at [of "enc32 (of_nat (32 + length (nla_bytes ?n)))" 4 RTM_SETLINK] by (simp add: msg_def link_header_def layout)
  moreover have "nlmsg_seq msg 0 = Some (word_of_int seq)"
    using load32_enc_at [of "enc32 (of_nat (32 + length (nla_bytes ?n))) @ enc16 RTM_SETLINK @ enc16 (NLM_F_REQUEST OR NLM_F_ACK)" 8 "word_of_int seq"]
    by (simp add: msg_def link_header_def layout)
  moreover have "load32 msg 20 = Some (word_of_int ifindex)"
    using load32_enc_at [of "enc32 (of_nat (32 + length (nla_bytes ?n))) @ enc16 RTM_SETLINK @ enc16 (NLM_F_REQUEST OR NLM_F_ACK) @
        enc32 (word_of_int seq) @ enc32 0 @ [0, 0, 0, 0]" 20 "word_of_int ifindex"]
    by (simp add: msg_def link_header_def)
  ultimately have "asks_for ifindex fd flags seq msg"
    unfolding asks_for_def using field [of "[]"] tb(1) nla(1) xtb(1) a b by auto
  with req read field [of "replicate k 0"] small show ?thesis by (auto simp del: of_nat_add)
qed

section \<open>The end of the replies\<close>

lemma recv_none: "bpf_netlink_recv env sock pid seq fn buf c k = None \<Longrightarrow>
    \<exists>msg k' buf' c'. nl_recv env sock 4096 k = (Inr msg, k') \<and> msg \<noteq> [] \<and> bpf_netlink_recv env sock pid seq fn buf' c' k' = None"
  by (subst (asm) bpf_netlink_recv.simps) (auto split: prod.splits sum.splits if_splits option.splits)


text \<open>A kernel that answers with the datagrams of a list, one after the other.\<close>

definition queue_env :: "bytes list nl_env" where
  "queue_env = \<lparr>nl_socket = (\<lambda>k. (3, k)), nl_setsockopt = (\<lambda>s k. (0, k)), nl_bind = (\<lambda>s k. (0, k)),
     nl_getsockname = (\<lambda>s k. (0, 12, 77, k)), nl_send = (\<lambda>s m k. (int (length m), k)),
     nl_recv = (\<lambda>s n k. case k of [] \<Rightarrow> (Inl (- 11), []) | m # ms \<Rightarrow> (Inr m, ms)), nl_close = (\<lambda>s k. k), nl_time = (\<lambda>k. 5)\<rparr>"


section \<open>The acknowledgement\<close>

definition ack_message :: "u32 \<Rightarrow> int \<Rightarrow> u16 \<Rightarrow> u32 \<Rightarrow> bytes \<Rightarrow> bytes" where
  "ack_message pid seq flags error orig =
     enc32 36 @ enc16 NLMSG_ERROR @ enc16 flags @ enc32 (word_of_int seq) @ enc32 pid @ enc32 error @ orig"

lemma ack_fields:
  assumes "m = ack_message pid seq flags error orig @ post"
  shows "nlmsg_len_field m 0 = Some 36" "nlmsg_type m 0 = Some NLMSG_ERROR" "nlmsg_flags m 0 = Some flags"
    "nlmsg_seq m 0 = Some (word_of_int seq)" "nlmsg_pid m 0 = Some pid" "load32 m (NLMSG_DATA 0) = Some error"
proof -
  note m = assms [unfolded ack_message_def]
  show "nlmsg_len_field m 0 = Some 36" using load32_enc_at [of "[]" 0 36] m by (simp add: layout)
  show "nlmsg_type m 0 = Some NLMSG_ERROR" using load16_enc_at [of "enc32 36" 4 NLMSG_ERROR] m by (simp add: layout)
  show "nlmsg_flags m 0 = Some flags" using load16_enc_at [of "enc32 36 @ enc16 NLMSG_ERROR" 6 flags] m by (simp add: layout)
  show "nlmsg_seq m 0 = Some (word_of_int seq)"
    using load32_enc_at [of "enc32 36 @ enc16 NLMSG_ERROR @ enc16 flags" 8 "word_of_int seq"] m by (simp add: layout)
  show "nlmsg_pid m 0 = Some pid"
    using load32_enc_at [of "enc32 36 @ enc16 NLMSG_ERROR @ enc16 flags @ enc32 (word_of_int seq)" 12 pid] m by (simp add: layout)
  show "load32 m (NLMSG_DATA 0) = Some error"
    using load32_enc_at [of "enc32 36 @ enc16 NLMSG_ERROR @ enc16 flags @ enc32 (word_of_int seq) @ enc32 pid" 16 error] m
    by (simp add: NLMSG_DATA_def NLMSG_HDRLEN_def)
qed

lemma recv_ack:
  assumes "nl_recv env sock 4096 k = (Inr (ack_message pid seq f error orig), k')" "f AND NLM_F_MULTI = 0"
    "f AND NLM_F_ACK_TLVS = 0" "length orig = 16"
  shows "bpf_netlink_recv env sock pid seq (None :: 'c nlmsg_fn option) buf c k = Some (Some (sint error, c, k'))"
proof -
  define a where "a = ack_message pid seq f error orig"
  define m where "m = a @ drop (length a) buf"
  have len: "length a = 36" using assms(4) by (simp add: a_def ack_message_def)
  then have "a \<noteq> []" by auto
  note f = ack_fields [OF m_def [unfolded a_def], folded a_def]
  have ok: "NLMSG_OK m 0 36 = Some True" by (simp add: NLMSG_OK_def f sizeof_nlmsghdr_def)
  have nxt: "NLMSG_NEXT m 0 36 = Some (36, 0)" by (simp add: NLMSG_NEXT_def f NLMSG_ALIGN_def)
  have quiet: "libbpf_nla_dump_errormsg m 0 = Some (0, [])"
    using f(3) assms(3) by (simp add: libbpf_nla_dump_errormsg_def)
  have stop: "msg_loop pid seq None m 36 0 mp c = Some (Inr mp, c)" for mp
    by (subst msg_loop.simps) (simp add: NLMSG_OK_def sizeof_nlmsghdr_def)
  have step: "msg_step pid seq None m 0 False c = Some (if error = 0 then (Inr False, c) else (Inl (sint error), c))"
    using assms(2) quiet by (simp add: msg_step_def f Let_def)
  have "msg_loop pid seq None m 0 36 False c = Some (if error = 0 then (Inr False, c) else (Inl (sint error), c))"
    by (subst msg_loop.simps) (simp add: ok nxt step stop)
  then have "msg_loop pid seq None (a @ drop 36 buf) 0 36 False c = Some (if error = 0 then (Inr False, c) else (Inl (sint error), c))"
    by (simp add: m_def len)
  then show ?thesis by (subst bpf_netlink_recv.simps) (simp add: assms(1) [folded a_def] len \<open>a \<noteq> []\<close>)
qed



end
