(* ===== verification/Libbpf_Errno.thy ===== *)
theory Libbpf_Errno
  imports Netlink Text
begin

text \<open>
  libbpf/src/libbpf_errno.c: the texts of the library's own error codes, and \<open>libbpf_strerror_r\<close> of
  libbpf/src/str_error.c. \<open>strerror_r\<close> is a parameter: the code it returns and what it leaves in a buffer
  of the given size. A buffer is what it holds as a C string; \<^term>\<open>None\<close> is the NULL pointer.
\<close>

definition LIBBPF_ERRNO__START :: int where "LIBBPF_ERRNO__START = 4000"
definition LIBBPF_ERRNO__END :: int where "LIBBPF_ERRNO__END = 4014"

text \<open>The table by the offset of the code; the entry of \<open>LIBBPF_ERRNO__LOAD\<close> is missing.\<close>

definition libbpf_strerror_table :: "string option list" where
  "libbpf_strerror_table =
     [Some ''Something wrong in libelf'', Some ''BPF object format invalid'', Some (CHR 0x27 # ''version'' @ CHR 0x27 # '' section incorrect or lost''),
      Some ''Endian mismatch'', Some ''Internal error in libbpf'', Some ''Relocation failed'', None,
      Some ''Kernel verifier blocks program loading'', Some ''Program too big'', Some ''Incorrect kernel version'',
      Some (''Kernel doesn'' @ CHR 0x27 # ''t support this program type''), Some ''Wrong pid in netlink message'',
      Some ''Invalid netlink sequence'', Some ''Incorrect netlink message parsing'']"

text \<open>\<open>%s\<close> of a NULL pointer, as the C library prints it.\<close>

definition printed :: "string option \<Rightarrow> string" where
  "printed s = (case s of None \<Rightarrow> ''(null)'' | Some t \<Rightarrow> t)"

definition libbpf_strerror :: "(int \<Rightarrow> nat \<Rightarrow> int \<times> string) \<Rightarrow> int \<Rightarrow> string option \<Rightarrow> nat \<Rightarrow> int \<times> string option" where
  "libbpf_strerror strerror_r err buf n =
     (if buf = None \<or> n = 0 then (-1, buf)
      else let err = (if err > 0 then err else - err) in
      if err < LIBBPF_ERRNO__START then let (ret, txt) = strerror_r err n in (ret, Some (take (n - 1) txt))
      else if err < LIBBPF_ERRNO__END then
        (0, Some (snd (snprintf n (printed (libbpf_strerror_table ! nat (err - LIBBPF_ERRNO__START))))))
      else (-1, Some (snd (snprintf n (''Unknown libbpf error '' @ show_int err)))))"

definition libbpf_strerror_r :: "(int \<Rightarrow> nat \<Rightarrow> int \<times> string) \<Rightarrow> int \<Rightarrow> nat \<Rightarrow> string" where
  "libbpf_strerror_r strerror_r err n =
     (let (ret, txt) = strerror_r (if err < 0 then - err else err) n in
      if ret \<noteq> 0 then snd (snprintf n (''ERROR: strerror_r('' @ show_int err @ '')='' @ show_int ret)) else txt)"

section \<open>Every code of the netlink functions has a text\<close>

lemma table_index:
  assumes "LIBBPF_ERRNO__START \<le> err" "err < LIBBPF_ERRNO__END" "0 < n"
  shows "libbpf_strerror strerror_r (- err) (Some b) n =
    (0, Some (take (n - 1) (printed (libbpf_strerror_table ! nat (err - LIBBPF_ERRNO__START)))))"
  using assms by (simp add: libbpf_strerror_def snprintf_def LIBBPF_ERRNO__START_def LIBBPF_ERRNO__END_def)

lemma netlink_codes_named:
  assumes "64 \<le> n"
  shows "libbpf_strerror strerror_r (- LIBBPF_ERRNO__WRNGPID) (Some b) n = (0, Some ''Wrong pid in netlink message'')"
    "libbpf_strerror strerror_r (- LIBBPF_ERRNO__INVSEQ) (Some b) n = (0, Some ''Invalid netlink sequence'')"
    "libbpf_strerror strerror_r (- LIBBPF_ERRNO__NLPARSE) (Some b) n = (0, Some ''Incorrect netlink message parsing'')"
    "libbpf_strerror strerror_r (- LIBBPF_ERRNO__INTERNAL) (Some b) n = (0, Some ''Internal error in libbpf'')"
  using assms
  by (simp_all add: table_index LIBBPF_ERRNO__START_def LIBBPF_ERRNO__END_def LIBBPF_ERRNO__WRNGPID_def LIBBPF_ERRNO__INVSEQ_def
      LIBBPF_ERRNO__NLPARSE_def LIBBPF_ERRNO__INTERNAL_def libbpf_strerror_table_def printed_def)

lemma load_code_unnamed:
  "64 \<le> n \<Longrightarrow> libbpf_strerror strerror_r (- 4006) (Some b) n = (0, Some ''(null)'')"
  by (simp add: table_index LIBBPF_ERRNO__START_def LIBBPF_ERRNO__END_def libbpf_strerror_table_def printed_def)

end
