(* ===== verification/Perf_Ring.thy ===== *)
theory Perf_Ring
  imports Poller Bytes
begin

text \<open>
  \<open>bpf_perf_event_read_simple\<close> of libbpf/src/libbpf.c and its callback in main/start_policy.c, over the
  bytes of a ring buffer. The memory behind the header page is a list of \<open>mmap_size\<close> bytes; a record
  that is cut by the end of the ring is put together in the copy buffer, whose memory \<open>malloc\<close> provides.
  \<^term>\<open>None\<close> is a loop that never ends, \<^term>\<open>Some None\<close> an access outside a buffer.
\<close>

section \<open>The reader\<close>

text \<open>
  The record at \<open>tail\<close>: its size, the memory it is in and its place there, and the copy buffer; the
  left result is a failed \<open>malloc\<close>.
\<close>

definition perf_event_at ::
    "(nat \<Rightarrow> bytes option) \<Rightarrow> bytes \<Rightarrow> nat \<Rightarrow> u64 \<Rightarrow> bytes \<Rightarrow> (bytes + nat \<times> bytes \<times> nat \<times> bytes) option" where
  "perf_event_at malloc base mmap_size data_tail copy = do {
     let ehdr = unat (data_tail AND (of_nat mmap_size - 1));
     sz \<leftarrow> load16 base (ehdr + 6);
     let ehdr_size = unat sz;
     if ehdr + ehdr_size > mmap_size then do {
       let len_first = mmap_size - ehdr;
       let len_secnd = ehdr_size - len_first;
       case (if length copy < ehdr_size then malloc ehdr_size else Some copy) of
         None \<Rightarrow> Some (Inl [])
       | Some copy \<Rightarrow> do {
           first \<leftarrow> mem_read base ehdr len_first;
           copy \<leftarrow> mem_write copy 0 first;
           secnd \<leftarrow> mem_read base 0 len_secnd;
           copy \<leftarrow> mem_write copy len_first secnd;
           Some (Inr (ehdr_size, copy, 0, copy))
         }
     } else Some (Inr (ehdr_size, base, ehdr, copy))
   }"

partial_function (option) perf_event_loop ::
    "(nat \<Rightarrow> bytes option) \<Rightarrow> (bytes \<Rightarrow> nat \<Rightarrow> 's \<Rightarrow> (int \<times> 's) option) \<Rightarrow> bytes \<Rightarrow> nat \<Rightarrow> u64 \<Rightarrow> u64 \<Rightarrow> int \<Rightarrow> bytes \<Rightarrow> 's
      \<Rightarrow> (int \<times> u64 \<times> bytes \<times> 's) option option" where
  "perf_event_loop malloc fn base mmap_size data_head data_tail ret copy st =
     (if data_head = data_tail then Some (Some (ret, data_tail, copy, st))
      else case perf_event_at malloc base mmap_size data_tail copy of
        None \<Rightarrow> Some None
      | Some (Inl copy) \<Rightarrow> Some (Some (LIBBPF_PERF_EVENT_ERROR, data_tail, copy, st))
      | Some (Inr (ehdr_size, m, ehdr, copy)) \<Rightarrow>
          (case fn m ehdr st of
             None \<Rightarrow> Some None
           | Some (ret, st) \<Rightarrow>
               if ret \<noteq> LIBBPF_PERF_EVENT_CONT then Some (Some (ret, data_tail + of_nat ehdr_size, copy, st))
               else perf_event_loop malloc fn base mmap_size data_head (data_tail + of_nat ehdr_size) ret copy st))"

text \<open>The result: the code, the new \<open>data_tail\<close> of the header, the copy buffer and the callback's state.\<close>

definition bpf_perf_event_read_simple ::
    "(nat \<Rightarrow> bytes option) \<Rightarrow> (bytes \<Rightarrow> nat \<Rightarrow> 's \<Rightarrow> (int \<times> 's) option) \<Rightarrow> bytes \<Rightarrow> nat \<Rightarrow> u64 \<Rightarrow> u64 \<Rightarrow> bytes \<Rightarrow> 's
      \<Rightarrow> (int \<times> u64 \<times> bytes \<times> 's) option option" where
  "bpf_perf_event_read_simple malloc fn base mmap_size data_head data_tail copy st =
     perf_event_loop malloc fn base mmap_size data_head data_tail LIBBPF_PERF_EVENT_CONT copy st"

section \<open>The callback\<close>

definition pkt_meta_at :: "bytes \<Rightarrow> nat \<Rightarrow> pkt_meta option" where
  "pkt_meta_at m p = do {
     s \<leftarrow> load32 m p; d \<leftarrow> load32 m (p + 4); p0 \<leftarrow> load16 m (p + 8); p1 \<leftarrow> load16 m (p + 10);
     l3 \<leftarrow> load16 m (p + 12); l4 \<leftarrow> load16 m (p + 14); dl \<leftarrow> load16 m (p + 16); pl \<leftarrow> load16 m (p + 18); sq \<leftarrow> load32 m (p + 20);
     Some \<lparr>src = s, dst = d, port16 = [p0, p1], l3_proto = l3, l4_proto = l4, data_len = dl, pkt_len = pl, seq = sq\<rparr>
   }"

text \<open>\<open>event_received\<close> on the bytes of a \<open>struct perf_event_sample\<close>: the meta data is at offset 20 and read for samples only.\<close>

definition event_received_at :: "bytes \<Rightarrow> nat \<Rightarrow> 'k poller \<Rightarrow> (int \<times> 'k poller) option" where
  "event_received_at m p st = do {
     ty \<leftarrow> load32 m p;
     if ty = PERF_RECORD_SAMPLE then do {
       mt \<leftarrow> pkt_meta_at m (p + 20);
       event_received \<lparr>header_type = ty, meta = mt\<rparr> st
     } else Some (LIBBPF_PERF_EVENT_CONT, st)
   }"

section \<open>A ring that holds records\<close>

text \<open>Byte \<open>i\<close> behind position \<open>t\<close> of an endless stream lies at its remainder by the size of the ring.\<close>

definition ring_holds :: "bytes \<Rightarrow> nat \<Rightarrow> bytes \<Rightarrow> bool" where
  "ring_holds base t bs \<longleftrightarrow> (\<forall>i<length bs. base ! ((t + i) mod length base) = bs ! i)"

definition record_ok :: "nat \<Rightarrow> bytes \<Rightarrow> bool" where
  "record_ok n r \<longleftrightarrow> 8 \<le> length r \<and> 8 dvd length r \<and> length r < 2 ^ 16 \<and> length r \<le> n \<and> load16 r 6 = Some (of_nat (length r))"

lemma all_less_add: "(\<forall>i<a + b. Q i) \<longleftrightarrow> (\<forall>i<a. Q i) \<and> (\<forall>i<b. Q (a + i))" for a b :: nat
proof
  assume r: "(\<forall>i<a. Q i) \<and> (\<forall>i<b. Q (a + i))"
  show "\<forall>i<a + b. Q i"
  proof (intro allI impI)
    fix i
    assume "i < a + b"
    then show "Q i" using r by (cases "i < a") (auto dest: spec [of _ "i - a"])
  qed
qed simp

lemma ring_holds_append:
  "ring_holds base t (xs @ ys) \<longleftrightarrow> ring_holds base t xs \<and> ring_holds base (t + length xs) ys"
  by (auto simp: ring_holds_def all_less_add nth_append add.assoc)

lemma ring_holds_mod: "ring_holds base (t mod length base) bs = ring_holds base t bs"
  by (simp add: ring_holds_def mod_add_left_eq)

text \<open>A record that is not cut lies in the ring, the two parts of one that is cut at its ends.\<close>

lemma ring_slice:
  assumes "ring_holds base t bs" "t + length bs \<le> length base"
  shows "take (length bs) (drop t base) = bs"
proof (rule nth_equalityI)
  show "length (take (length bs) (drop t base)) = length bs" using assms(2) by simp
  fix i
  assume "i < length (take (length bs) (drop t base))"
  then have i: "i < length bs" using assms(2) by simp
  then have "(t + i) mod length base = t + i" using assms(2) by (intro mod_less) simp
  then show "take (length bs) (drop t base) ! i = bs ! i" using assms i by (simp add: ring_holds_def)
qed

lemma ring_parts:
  assumes "ring_holds base t bs" "t < length base" "length base < t + length bs" "length bs \<le> length base"
  defines "n \<equiv> length base - t"
  shows "mem_read base t n = Some (take n bs)" "mem_read base 0 (length bs - n) = Some (drop n bs)"
proof -
  have n: "n < length bs" "t + n = length base" using assms(2,3) by (auto simp: n_def)
  have "ring_holds base t (take n bs @ drop n bs)" using assms(1) by simp
  then have first: "ring_holds base t (take n bs)" and secnd: "ring_holds base (t + n) (drop n bs)"
    using n(1) by (simp_all only: ring_holds_append length_take min.absorb4)
  have "take n (drop t base) = take n bs" using ring_slice [OF first] n by (simp add: min.absorb4)
  then show "mem_read base t n = Some (take n bs)" using n by (simp add: mem_read_def)
  from secnd have "ring_holds base 0 (drop n bs)" using ring_holds_mod [of base "length base"] n(2) by simp
  then have "take (length bs - n) (drop 0 base) = drop n bs" using ring_slice [of base 0 "drop n bs"] assms(4) by simp
  then show "mem_read base 0 (length bs - n) = Some (drop n bs)" using assms(4) by (simp add: mem_read_def)
qed

lemma ring_offset:
  assumes "k < 64"
  shows "unat (t AND (of_nat (2 ^ k) - 1) :: u64) = unat t mod 2 ^ k"
proof -
  have "(of_nat (2 ^ k) - 1 :: u64) = mask k" by (simp add: mask_eq_exp_minus_1)
  then have "t AND (of_nat (2 ^ k) - 1) = take_bit k t" by (simp add: take_bit_eq_mask)
  moreover have "unat (take_bit k t) = unat t mod 2 ^ k" by (simp add: unsigned_take_bit_eq take_bit_eq_mod [of k "unat t"])
  ultimately show ?thesis by (simp only:)
qed

lemma perf_event_at_record:
  assumes "ring_holds base (unat tail) r" "record_ok (length base) r" "length base = 2 ^ k" "3 \<le> k" "k < 64" "8 dvd unat tail"
    and malloc: "\<And>n. \<exists>b. malloc n = Some b \<and> length b = n"
  obtains m p copy' where "perf_event_at malloc base (length base) tail copy = Some (Inr (length r, m, p, copy'))"
    "take (length r) (drop p m) = r"
proof -
  define off where "off = unat tail mod length base"
  have off: "unat (tail AND (of_nat (length base) - 1)) = off" using ring_offset [OF assms(5)] by (simp add: off_def assms(3))
  have holds: "ring_holds base off r" using assms(1) by (simp add: off_def ring_holds_mod)
  have r: "8 \<le> length r" "length r < 2 ^ 16" "length r \<le> length base" "load16 r 6 = Some (of_nat (length r))"
    using assms(2) by (simp_all add: record_ok_def)
  have "8 dvd length base" using le_imp_power_dvd [OF assms(4), of "2 :: nat"] assms(3) by simp
  moreover from this assms(6) have "8 dvd off" by (simp add: off_def dvd_mod)
  moreover have "off < length base" using assms(3) by (simp add: off_def)
  ultimately have room: "off + 8 \<le> length base" by (elim dvdE) simp
  have byte: "base ! (off + i) = r ! i" if "i < 8" for i
    using holds [unfolded ring_holds_def, rule_format, of i] that r(1) room by simp
  have size: "load16 base (off + 6) = Some (of_nat (length r))"
    using r(4) room byte [of 6] byte [of 7] r(1) by (simp add: load16_in ac_simps)
  have u: "unat (of_nat (length r) :: u16) = length r" using r(2) by (simp add: unat_of_nat)
  show ?thesis
  proof (cases "off + length r \<le> length base")
    case True
    with ring_slice [OF holds] show ?thesis
      by (intro that [of base off copy]) (simp_all add: perf_event_at_def off size u)
  next
    case False
    define n where "n = length base - off"
    obtain b where b: "(if length copy < length r then malloc (length r) else Some copy) = Some b" "length r \<le> length b"
      using malloc [of "length r"] by (cases "length copy < length r") auto
    have n: "n < length r" "off < length base" using False room by (auto simp: n_def)
    note parts = ring_parts [OF holds n(2) _ r(3), folded n_def]
    have first: "mem_write b 0 (take n r) = Some (take n r @ drop n b)"
      using n(1) b(2) by (simp add: mem_write_def)
    have secnd: "mem_write (take n r @ drop n b) n (drop n r) = Some (r @ drop (length r) b)"
      using n(1) b(2) by (simp add: mem_write_def)
    have "perf_event_at malloc base (length base) tail copy = Some (Inr (length r, r @ drop (length r) b, 0, r @ drop (length r) b))"
      using False parts n(1) b(1) first secnd
      by (cases "length copy < length r") (simp_all add: perf_event_at_def off size u Let_def flip: n_def)
    then show ?thesis by (rule that) simp
  qed
qed

section \<open>Reading a whole ring\<close>

text \<open>What the reader should do: hand the records over in order, until the callback does not answer \<open>CONT\<close>.\<close>

fun consume :: "(bytes \<Rightarrow> 's \<Rightarrow> (int \<times> 's) option) \<Rightarrow> bytes list \<Rightarrow> 's \<Rightarrow> (int \<times> nat \<times> 's) option" where
  "consume h [] st = Some (LIBBPF_PERF_EVENT_CONT, 0, st)"
| "consume h (r # rs) st = do {
     (ret, st) \<leftarrow> h r st;
     if ret \<noteq> LIBBPF_PERF_EVENT_CONT then Some (ret, length r, st)
     else do { (ret, n, st) \<leftarrow> consume h rs st; Some (ret, length r + n, st) }
   }"

lemma perf_event_loop_consume:
  assumes "length base = 2 ^ k" "3 \<le> k" "k < 64" "\<And>n. \<exists>b. malloc n = Some b \<and> length b = n"
    and fn: "\<And>m p r st. r \<in> set rs \<Longrightarrow> take (length r) (drop p m) = r \<Longrightarrow> fn m p st = h r st"
  shows "ring_holds base (unat tail) (concat rs) \<Longrightarrow> \<forall>r\<in>set rs. record_ok (length base) r \<Longrightarrow> 8 dvd unat tail \<Longrightarrow>
    length (concat rs) < 2 ^ 64 \<Longrightarrow>
    \<exists>copy'. perf_event_loop malloc fn base (length base) (tail + of_nat (length (concat rs))) tail LIBBPF_PERF_EVENT_CONT copy st =
      Some (map_option (\<lambda>(ret, n, st). (ret, tail + of_nat n, copy', st)) (consume h rs st))"
  using fn
proof (induction rs arbitrary: tail copy st)
  case Nil
  then show ?case by (subst perf_event_loop.simps) simp
next
  case (Cons r rs)
  let ?tot = "length (concat (r # rs))"
  have r: "ring_holds base (unat tail) r" "record_ok (length base) r" and rest: "ring_holds base (unat tail + length r) (concat rs)"
    using Cons.prems(1,2) by (simp_all add: ring_holds_append)
  obtain m p copy1 where ev: "perf_event_at malloc base (length base) tail copy = Some (Inr (length r, m, p, copy1))"
    "take (length r) (drop p m) = r"
    by (rule perf_event_at_record [OF r assms(1-3) Cons.prems(3) assms(4)])
  have fn: "fn m p st = h r st" using Cons.prems(5) ev(2) by simp
  have pos: "length r \<noteq> 0" "8 dvd length r" using r(2) by (auto simp: record_ok_def)
  have "unat (of_nat ?tot :: u64) = ?tot" using Cons.prems(4) by (simp add: unat_of_nat del: of_nat_add)
  then have "of_nat ?tot \<noteq> (0 :: u64)" using pos(1) by (metis add_is_0 concat.simps(2) length_append unsigned_0)
  then have ne: "tail + of_nat ?tot \<noteq> tail" by simp
  let ?tail = "tail + of_nat (length r)"
  have base: "length base dvd 2 ^ 64" using le_imp_power_dvd [of k 64 "2 :: nat"] assms(1,3) by (simp only:)
  have u: "unat ?tail = (unat tail + length r) mod 2 ^ 64" by (simp add: unat_word_ariths unat_of_nat mod_add_right_eq)
  have "unat ?tail mod length base = (unat tail + length r) mod length base"
    unfolding u using base by (rule mod_mod_cancel)
  then have next_holds: "ring_holds base (unat ?tail) (concat rs)" using rest by (metis ring_holds_mod)
  have next_dvd: "8 dvd unat ?tail" unfolding u using Cons.prems(3) pos(2) by (intro dvd_mod) simp_all
  show ?case
  proof (cases "h r st")
    case None
    then show ?thesis by (subst perf_event_loop.simps) (use ne ev(1) fn in simp)
  next
    case (Some res)
    obtain ret st1 where res: "res = (ret, st1)" by fastforce
    show ?thesis
    proof (cases "ret = LIBBPF_PERF_EVENT_CONT")
      case False
      then show ?thesis by (subst perf_event_loop.simps) (use ne ev(1) fn Some res in simp)
    next
      case True
      obtain copy2 where "perf_event_loop malloc fn base (length base) (?tail + of_nat (length (concat rs))) ?tail
          LIBBPF_PERF_EVENT_CONT copy1 st1 =
          Some (map_option (\<lambda>(ret, n, st). (ret, ?tail + of_nat n, copy2, st)) (consume h rs st1))"
        using Cons.IH [of ?tail copy1 st1, OF next_holds _ next_dvd] Cons.prems(2,4,5) by auto
      then show ?thesis
        by (subst perf_event_loop.simps)
          (use ne ev(1) fn Some res True in \<open>cases "consume h rs st1"; auto simp: add.assoc\<close>)
    qed
  qed
qed

section \<open>The ring and the queue\<close>

text \<open>A record holds a sample: its type, and the meta data if it is one.\<close>

definition holds_sample :: "bytes \<Rightarrow> perf_event_sample \<Rightarrow> bool" where
  "holds_sample r e \<longleftrightarrow> load32 r 0 = Some (header_type e) \<and> 8 \<le> length r \<and>
     (header_type e = PERF_RECORD_SAMPLE \<longrightarrow> pkt_meta_at r 20 = Some (meta e) \<and> 44 \<le> length r)"

lemma load_slice:
  assumes "take n (drop p m) = r" "length r = n"
  shows "a + 4 \<le> n \<Longrightarrow> load32 m (p + a) = load32 r a" "b + 2 \<le> n \<Longrightarrow> load16 m (p + b) = load16 r b"
proof -
  have len: "p + n \<le> length m \<or> n = 0" using assms by auto
  have "i < n \<Longrightarrow> r ! i = m ! (p + i)" for i using assms(1) len by auto
  then show "a + 4 \<le> n \<Longrightarrow> load32 m (p + a) = load32 r a" "b + 2 \<le> n \<Longrightarrow> load16 m (p + b) = load16 r b"
    using len assms(2) by (auto simp: load32_in load16_in add.assoc)
qed

lemma event_received_at_sample:
  assumes "take (length r) (drop p m) = r" "holds_sample r e"
  shows "event_received_at m p st = event_received e st"
proof -
  note load = load_slice [OF assms(1) refl]
  have ty: "load32 m p = Some (header_type e)" using load(1) [of 0] assms(2) by (simp add: holds_sample_def)
  have "pkt_meta_at m (p + 20) = Some (meta e)" if "header_type e = PERF_RECORD_SAMPLE"
    using that assms(2) load by (simp add: holds_sample_def pkt_meta_at_def add.assoc)
  then show ?thesis using ty by (cases e) (auto simp: event_received_at_def event_received_def)
qed

lemma policy_stats_cont: "policy_stats e st = Some (ret, st') \<Longrightarrow> ret = LIBBPF_PERF_EVENT_CONT"
  by (auto simp: policy_stats_def split: if_splits)

lemma event_received_cont: "event_received e st = Some (ret, st') \<Longrightarrow> ret = LIBBPF_PERF_EVENT_CONT"
  by (auto simp: event_received_def dest: policy_stats_cont split: if_splits)

lemma consume_read_simple:
  "list_all2 holds_sample rs es \<Longrightarrow> (\<And>r e st. (r, e) \<in> set (zip rs es) \<Longrightarrow> h r st = event_received e st) \<Longrightarrow>
     consume h rs st = map_option (\<lambda>(ret, st). (ret, length (concat rs), st)) (read_simple es LIBBPF_PERF_EVENT_CONT st)"
proof (induction rs es arbitrary: st rule: list_all2_induct)
  case (Cons r rs e es)
  have hr: "h r st = event_received e st" for st by (rule Cons.prems) simp
  have "consume h rs st = map_option (\<lambda>(ret, st). (ret, length (concat rs), st)) (read_simple es LIBBPF_PERF_EVENT_CONT st)" for st
    by (rule Cons.IH) (simp add: Cons.prems)
  then show ?case
    by (cases "event_received e st")
      (auto simp: hr dest: event_received_cont simp: option.map_comp comp_def case_prod_beta split: bind_splits)
qed simp

text \<open>C21. The reader and its callback implement the queue of the daemon: however a ring of \<open>2 ^ k\<close> bytes cuts
the records at its end, reading it hands the samples it holds over in order, exactly as \<open>read_simple\<close> does
for the list of samples, and leaves it empty; it neither leaves a buffer by itself nor runs forever.\<close>

theorem ring_feeds_queue:
  assumes "length base = 2 ^ k" "3 \<le> k" "k < 64" "\<forall>n. \<exists>b. malloc n = Some b \<and> length b = n"
    "list_all2 holds_sample rs es" "\<forall>r\<in>set rs. record_ok (length base) r" "ring_holds base (unat tail) (concat rs)"
    "8 dvd unat tail" "length (concat rs) < 2 ^ 64"
  shows "\<exists>copy'. bpf_perf_event_read_simple malloc event_received_at base (2 ^ k) (tail + of_nat (length (concat rs))) tail copy st =
    Some (map_option (\<lambda>(ret, st'). (ret, tail + of_nat (length (concat rs)), copy', st'))
      (read_simple es LIBBPF_PERF_EVENT_CONT st))"
proof -
  let ?h = "\<lambda>r st. event_received_at r 0 st"
  have zip: "(r, e) \<in> set (zip rs es) \<Longrightarrow> holds_sample r e" for r e
    using assms(5) by (auto simp: list_all2_iff)
  have h: "(r, e) \<in> set (zip rs es) \<Longrightarrow> ?h r st = event_received e st" for r e st
    using event_received_at_sample [of r 0 r e st] zip by simp
  have fn: "event_received_at m p st = ?h r st" if r: "r \<in> set rs" "take (length r) (drop p m) = r" for m p r st
  proof -
    obtain e where "holds_sample r e" using r(1) assms(5) by (metis in_set_conv_nth list_all2_conv_all_nth)
    then show ?thesis using event_received_at_sample [OF r(2), of e st] event_received_at_sample [of r 0 r e st] by simp
  qed
  have "consume ?h rs st = map_option (\<lambda>(ret, st). (ret, length (concat rs), st)) (read_simple es LIBBPF_PERF_EVENT_CONT st)"
    by (rule consume_read_simple [OF assms(5) h])
  moreover obtain copy' where "perf_event_loop malloc event_received_at base (length base) (tail + of_nat (length (concat rs))) tail
      LIBBPF_PERF_EVENT_CONT copy st =
      Some (map_option (\<lambda>(ret, n, st). (ret, tail + of_nat n, copy', st)) (consume ?h rs st))"
    using perf_event_loop_consume [OF assms(1-3) spec [OF assms(4)], where fn = event_received_at and h = ?h and copy = copy and st = st,
        OF fn assms(7,6,8,9)] by blast
  ultimately show ?thesis
    by (intro exI [of _ copy'])
      (cases "read_simple es LIBBPF_PERF_EVENT_CONT st"; auto simp: bpf_perf_event_read_simple_def assms(1))
qed

text \<open>A sample of 48 bytes in a ring of 64, half of it behind the end.\<close>

definition sample_record :: "pkt_meta \<Rightarrow> bytes" where
  "sample_record mt = enc32 PERF_RECORD_SAMPLE @ enc16 0 @ enc16 48 @ replicate 8 0 @ enc32 28 @
     enc32 (src mt) @ enc32 (dst mt) @ enc16 (port16 mt ! 0) @ enc16 (port16 mt ! 1) @ enc16 (l3_proto mt) @ enc16 (l4_proto mt) @
     enc16 (data_len mt) @ enc16 (pkt_len mt) @ enc32 (seq mt) @ replicate 4 0"

lemma sample_record_holds:
  assumes "length (port16 mt) = 2"
  shows "holds_sample (sample_record mt) \<lparr>header_type = PERF_RECORD_SAMPLE, meta = mt\<rparr>" "record_ok 64 (sample_record mt)"
    "length (sample_record mt) = 48"
proof -
  show len: "length (sample_record mt) = 48" by (simp add: sample_record_def)
  let ?h = "enc32 PERF_RECORD_SAMPLE @ enc16 0 @ enc16 48 @ replicate 8 0 @ enc32 28"
  let ?a = "?h @ enc32 (src mt) @ enc32 (dst mt)"
  let ?b = "?a @ enc16 (port16 mt ! 0) @ enc16 (port16 mt ! 1) @ enc16 (l3_proto mt) @ enc16 (l4_proto mt)"
  note def = sample_record_def [of mt]
  have "load32 (sample_record mt) 0 = Some PERF_RECORD_SAMPLE" using load32_enc_at [of "[]"] by (simp add: def)
  moreover have "load16 (sample_record mt) 6 = Some 48"
    using load16_enc_at [of "enc32 PERF_RECORD_SAMPLE @ enc16 0" 6 48] by (simp add: def)
  moreover have "load32 (sample_record mt) 20 = Some (src mt)" using load32_enc_at [of ?h 20] by (simp add: def)
  moreover have "load32 (sample_record mt) 24 = Some (dst mt)" using load32_enc_at [of "?h @ enc32 (src mt)" 24] by (simp add: def)
  moreover have "load16 (sample_record mt) 28 = Some (port16 mt ! 0)" using load16_enc_at [of ?a 28] by (simp add: def)
  moreover have "load16 (sample_record mt) 30 = Some (port16 mt ! 1)"
    using load16_enc_at [of "?a @ enc16 (port16 mt ! 0)" 30] by (simp add: def)
  moreover have "load16 (sample_record mt) 32 = Some (l3_proto mt)"
    using load16_enc_at [of "?a @ enc16 (port16 mt ! 0) @ enc16 (port16 mt ! 1)" 32] by (simp add: def)
  moreover have "load16 (sample_record mt) 34 = Some (l4_proto mt)"
    using load16_enc_at [of "?a @ enc16 (port16 mt ! 0) @ enc16 (port16 mt ! 1) @ enc16 (l3_proto mt)" 34] by (simp add: def)
  moreover have "load16 (sample_record mt) 36 = Some (data_len mt)" using load16_enc_at [of ?b 36] by (simp add: def)
  moreover have "load16 (sample_record mt) 38 = Some (pkt_len mt)"
    using load16_enc_at [of "?b @ enc16 (data_len mt)" 38] by (simp add: def)
  moreover have "load32 (sample_record mt) 40 = Some (seq mt)"
    using load32_enc_at [of "?b @ enc16 (data_len mt) @ enc16 (pkt_len mt)" 40] by (simp add: def)
  moreover have "[port16 mt ! 0, port16 mt ! 1] = port16 mt"
    using assms by (auto simp: numeral_2_eq_2 length_Suc_conv)
  ultimately show "holds_sample (sample_record mt) \<lparr>header_type = PERF_RECORD_SAMPLE, meta = mt\<rparr>" "record_ok 64 (sample_record mt)"
    using len by (simp_all add: holds_sample_def pkt_meta_at_def record_ok_def)
qed

lemma ring_feeds_queue_witness:
  "\<forall>st :: nat poller. \<exists>copy'. bpf_perf_event_read_simple (\<lambda>n. Some (replicate n 0)) event_received_at
      (drop 32 (sample_record pkt_meta_zero) @ replicate 16 0 @ take 32 (sample_record pkt_meta_zero)) 64 80 32 [] st =
    Some (map_option (\<lambda>(ret, st'). (ret, 80, copy', st'))
      (read_simple [\<lparr>header_type = PERF_RECORD_SAMPLE, meta = pkt_meta_zero\<rparr>] LIBBPF_PERF_EVENT_CONT st))"
proof
  fix st :: "nat poller"
  let ?r = "sample_record pkt_meta_zero"
  let ?base = "drop 32 ?r @ replicate 16 0 @ take 32 ?r"
  have r: "holds_sample ?r \<lparr>header_type = PERF_RECORD_SAMPLE, meta = pkt_meta_zero\<rparr>" "record_ok 64 ?r" "length ?r = 48"
    by (rule sample_record_holds; simp add: pkt_meta_zero_def)+
  have len: "length ?base = 2 ^ 6" using r(3) by simp
  have "?base ! ((32 + i) mod 64) = ?r ! i" if "i < 48" for i
  proof (cases "i < 32")
    case False
    then have "(32 + i) mod 64 = i - 32" "i - 32 < 16" using that by (simp_all add: mod_if)
    with False that r(3) show ?thesis by (simp add: nth_append)
  qed (use r(3) in \<open>simp add: nth_append\<close>)
  then have "ring_holds ?base (unat (32 :: u64)) (concat [?r])" using r(3) by (simp add: ring_holds_def)
  with ring_feeds_queue [OF len, of "\<lambda>n. Some (replicate n 0)" "[?r]" "[\<lparr>header_type = PERF_RECORD_SAMPLE, meta = pkt_meta_zero\<rparr>]"
      32 "[]" st] r len
  show "\<exists>copy'. bpf_perf_event_read_simple (\<lambda>n. Some (replicate n 0)) event_received_at
      (drop 32 ?r @ replicate 16 0 @ take 32 ?r) 64 80 32 [] st =
    Some (map_option (\<lambda>(ret, st'). (ret, 80, copy', st'))
      (read_simple [\<lparr>header_type = PERF_RECORD_SAMPLE, meta = pkt_meta_zero\<rparr>] LIBBPF_PERF_EVENT_CONT st))" by simp
qed

end
