(* ===== verification/Pinning.thy ===== *)
theory Pinning
  imports Xdp_Loader
begin

text \<open>
  The pinning functions of libbpf/src/libbpf.c, by which xdp_loader makes the maps of the program known
  to the other programs. The file system is the record \<open>fs_env\<close> over a state \<open>'k\<close>: a negative result
  stands for -1 with \<open>errno\<close>, and \<open>fs_strdup\<close> says whether memory was left. \<^term>\<open>None\<close> for a map or a
  program is the NULL pointer; a program that is not loaded has no instances.
\<close>

record 'k fs_env =
  fs_strdup :: "'k \<Rightarrow> bool \<times> 'k"
  fs_mkdir :: "string \<Rightarrow> 'k \<Rightarrow> int \<times> 'k"
  fs_statfs :: "string \<Rightarrow> 'k \<Rightarrow> int \<times> u64"
  fs_obj_pin :: "int \<Rightarrow> string \<Rightarrow> 'k \<Rightarrow> int \<times> 'k"
  fs_unlink :: "string \<Rightarrow> 'k \<Rightarrow> int \<times> 'k"
  fs_rmdir :: "string \<Rightarrow> 'k \<Rightarrow> int \<times> 'k"

record lb_map =
  lb_name :: string
  lb_fd :: int
  pin_path :: "string option"
  pinned :: bool

record lb_prog =
  section_name :: string
  pin_name :: string
  instances :: "int list"

record lb_object =
  loaded :: bool
  lb_maps :: "lb_map list"
  lb_progs :: "lb_prog list"

definition BPF_FS_MAGIC :: u64 where "BPF_FS_MAGIC = 0xCAFE4A11"

section \<open>Paths\<close>

text \<open>\<open>dirname(3)\<close>.\<close>

definition strip_slashes :: "string \<Rightarrow> string" where
  "strip_slashes s = rev (dropWhile (\<lambda>c. c = CHR ''/'') (rev s))"

definition dirname :: "string \<Rightarrow> string" where
  "dirname path =
     (let p = strip_slashes path in
      if p = [] then (if path = [] then ''.'' else ''/'')
      else let d = rev (dropWhile (\<lambda>c. c \<noteq> CHR ''/'') (rev p)) in
      if d = [] then ''.'' else if strip_slashes d = [] then ''/'' else strip_slashes d)"

definition make_parent_dir :: "'k fs_env \<Rightarrow> string \<Rightarrow> 'k \<Rightarrow> int \<times> 'k" where
  "make_parent_dir fs path k =
     (let (ok, k) = fs_strdup fs k in
      if \<not> ok then (- ENOMEM, k)
      else let (r, k) = fs_mkdir fs (dirname path) k in
      if r \<noteq> 0 \<and> r \<noteq> - EEXIST then (r, k) else (0, k))"

definition check_path :: "'k fs_env \<Rightarrow> string option \<Rightarrow> 'k \<Rightarrow> int \<times> 'k" where
  "check_path fs path k =
     (case path of None \<Rightarrow> (- EINVAL, k)
      | Some path \<Rightarrow>
          let (ok, k) = fs_strdup fs k in
          if \<not> ok then (- ENOMEM, k)
          else let (err, f_type) = fs_statfs fs (dirname path) k in
          if err = 0 \<and> f_type \<noteq> BPF_FS_MAGIC then (- EINVAL, k) else (err, k))"

section \<open>Maps\<close>

definition bpf_map__pin ::
    "'k fs_env \<Rightarrow> lb_map option \<Rightarrow> string option \<Rightarrow> 'k \<Rightarrow> int \<times> lb_map option \<times> 'k" where
  "bpf_map__pin fs mp path k =
     (case mp of None \<Rightarrow> (- EINVAL, None, k)
      | Some m \<Rightarrow>
          let start = (case pin_path m of
              Some old \<Rightarrow>
                if path \<noteq> None \<and> path \<noteq> Some old then Inl (- EINVAL, k)
                else if pinned m then Inl (0, k) else Inr (m, old, k)
            | None \<Rightarrow>
                (case path of None \<Rightarrow> Inl (- EINVAL, k)
                 | Some p \<Rightarrow>
                     if pinned m then Inl (- EEXIST, k)
                     else let (ok, k) = fs_strdup fs k in
                     if ok then Inr (m\<lparr>pin_path := Some p\<rparr>, p, k) else Inl (- ENOMEM, k)))
          in case start of
            Inl (err, k) \<Rightarrow> (err, Some m, k)
          | Inr (m, p, k) \<Rightarrow>
              let (err, k) = make_parent_dir fs p k in
              if err \<noteq> 0 then (err, Some m, k)
              else let (err, k) = check_path fs (Some p) k in
              if err \<noteq> 0 then (err, Some m, k)
              else let (err, k) = fs_obj_pin fs (lb_fd m) p k in
              if err \<noteq> 0 then (err, Some m, k) else (0, Some (m\<lparr>pinned := True\<rparr>), k))"

definition bpf_map__unpin ::
    "'k fs_env \<Rightarrow> lb_map option \<Rightarrow> string option \<Rightarrow> 'k \<Rightarrow> int \<times> lb_map option \<times> 'k" where
  "bpf_map__unpin fs mp path k =
     (case mp of None \<Rightarrow> (- EINVAL, None, k)
      | Some m \<Rightarrow>
          let start = (case pin_path m of
              Some old \<Rightarrow> if path \<noteq> None \<and> path \<noteq> Some old then None else Some old
            | None \<Rightarrow> path)
          in case start of
            None \<Rightarrow> (- EINVAL, mp, k)
          | Some p \<Rightarrow>
              let (err, k) = check_path fs (Some p) k in
              if err \<noteq> 0 then (err, mp, k)
              else let (err, k) = fs_unlink fs p k in
              if err \<noteq> 0 then (err, mp, k) else (0, Some (m\<lparr>pinned := False\<rparr>), k))"

definition bpf_map__set_pin_path :: "'k fs_env \<Rightarrow> lb_map \<Rightarrow> string option \<Rightarrow> 'k \<Rightarrow> int \<times> lb_map \<times> 'k" where
  "bpf_map__set_pin_path fs m path k =
     (case path of None \<Rightarrow> (0, m\<lparr>pin_path := None\<rparr>, k)
      | Some p \<Rightarrow> let (ok, k) = fs_strdup fs k in if ok then (0, m\<lparr>pin_path := Some p\<rparr>, k) else (- ENOMEM, m, k))"

definition bpf_map__get_pin_path :: "lb_map \<Rightarrow> string option" where
  "bpf_map__get_pin_path m = pin_path m"

definition bpf_map__is_pinned :: "lb_map \<Rightarrow> bool" where
  "bpf_map__is_pinned m = pinned m"

section \<open>The maps of an object\<close>

text \<open>The path of a map or program in the directory: an error, or the text.\<close>

definition path_in :: "string \<Rightarrow> string \<Rightarrow> int + string" where
  "path_in path name =
     (let (len, buf) = snprintf PATH_MAX (path @ ''/'' @ name) in
      if len < 0 then Inl (- EINVAL) else if len \<ge> int PATH_MAX then Inl (- ENAMETOOLONG) else Inr buf)"

text \<open>The loop gives the code, the maps it has passed, the rest from the failing map on, and the state.\<close>

fun pin_maps_loop :: "'k fs_env \<Rightarrow> string option \<Rightarrow> lb_map list \<Rightarrow> 'k \<Rightarrow> int \<times> lb_map list \<times> lb_map list \<times> 'k" where
  "pin_maps_loop fs path [] k = (0, [], [], k)"
| "pin_maps_loop fs path (m # ms) k =
     (case (case path of Some p \<Rightarrow> map_sum id Some (path_in p (lb_name m)) | None \<Rightarrow> Inr None) of
        Inl err \<Rightarrow> (err, [], m # ms, k)
      | Inr dest \<Rightarrow>
          if path = None \<and> pin_path m = None then
            let (err, before, rest, k) = pin_maps_loop fs path ms k in (err, m # before, rest, k)
          else let (err, m', k) = bpf_map__pin fs (Some m) dest k in
          if err \<noteq> 0 then (err, [], the m' # ms, k)
          else let (err, before, rest, k) = pin_maps_loop fs path ms k in (err, the m' # before, rest, k))"

text \<open>The way back over the maps before the failing one, the last one first.\<close>

fun unpin_back :: "'k fs_env \<Rightarrow> lb_map list \<Rightarrow> 'k \<Rightarrow> lb_map list \<times> 'k" where
  "unpin_back fs [] k = ([], k)"
| "unpin_back fs (m # ms) k =
     (let (ms, k) = unpin_back fs ms k in
      if pin_path m = None then (m # ms, k)
      else let (err, m', k) = bpf_map__unpin fs (Some m) None k in (the m' # ms, k))"

definition bpf_object__pin_maps ::
    "'k fs_env \<Rightarrow> lb_object option \<Rightarrow> string option \<Rightarrow> 'k \<Rightarrow> int \<times> lb_object option \<times> 'k" where
  "bpf_object__pin_maps fs obj path k =
     (case obj of None \<Rightarrow> (- ENOENT, None, k)
      | Some ob \<Rightarrow>
          if \<not> loaded ob then (- ENOENT, obj, k)
          else let (err, before, rest, k) = pin_maps_loop fs path (lb_maps ob) k in
          if err = 0 then (0, Some (ob\<lparr>lb_maps := before @ rest\<rparr>), k)
          else let (before, k) = unpin_back fs before k in (err, Some (ob\<lparr>lb_maps := before @ rest\<rparr>), k))"

fun unpin_maps_loop :: "'k fs_env \<Rightarrow> string option \<Rightarrow> lb_map list \<Rightarrow> 'k \<Rightarrow> int \<times> lb_map list \<times> 'k" where
  "unpin_maps_loop fs path [] k = (0, [], k)"
| "unpin_maps_loop fs path (m # ms) k =
     (case (case path of Some p \<Rightarrow> map_sum id Some (path_in p (lb_name m)) | None \<Rightarrow> Inr None) of
        Inl err \<Rightarrow> (err, m # ms, k)
      | Inr dest \<Rightarrow>
          if path = None \<and> pin_path m = None then
            let (err, ms, k) = unpin_maps_loop fs path ms k in (err, m # ms, k)
          else let (err, m', k) = bpf_map__unpin fs (Some m) dest k in
          if err \<noteq> 0 then (err, the m' # ms, k)
          else let (err, ms, k) = unpin_maps_loop fs path ms k in (err, the m' # ms, k))"

definition bpf_object__unpin_maps ::
    "'k fs_env \<Rightarrow> lb_object option \<Rightarrow> string option \<Rightarrow> 'k \<Rightarrow> int \<times> lb_object option \<times> 'k" where
  "bpf_object__unpin_maps fs obj path k =
     (case obj of None \<Rightarrow> (- ENOENT, None, k)
      | Some ob \<Rightarrow> let (err, ms, k) = unpin_maps_loop fs path (lb_maps ob) k in (err, Some (ob\<lparr>lb_maps := ms\<rparr>), k))"

section \<open>Programs\<close>

definition bpf_program__pin_instance :: "'k fs_env \<Rightarrow> lb_prog option \<Rightarrow> string \<Rightarrow> int \<Rightarrow> 'k \<Rightarrow> int \<times> 'k" where
  "bpf_program__pin_instance fs prog path i k =
     (let (err, k) = make_parent_dir fs path k in
      if err \<noteq> 0 then (err, k)
      else let (err, k) = check_path fs (Some path) k in
      if err \<noteq> 0 then (err, k)
      else case prog of None \<Rightarrow> (- EINVAL, k)
      | Some p \<Rightarrow>
          if i < 0 \<or> i \<ge> int (length (instances p)) then (- EINVAL, k)
          else fs_obj_pin fs (instances p ! nat i) path k)"

definition bpf_program__unpin_instance :: "'k fs_env \<Rightarrow> lb_prog option \<Rightarrow> string \<Rightarrow> int \<Rightarrow> 'k \<Rightarrow> int \<times> 'k" where
  "bpf_program__unpin_instance fs prog path i k =
     (let (err, k) = check_path fs (Some path) k in
      if err \<noteq> 0 then (err, k)
      else case prog of None \<Rightarrow> (- EINVAL, k)
      | Some p \<Rightarrow>
          if i < 0 \<or> i \<ge> int (length (instances p)) then (- EINVAL, k) else fs_unlink fs path k)"

text \<open>Pinning the instances one after the other: the code and the number of the failing instance.\<close>

fun pin_instances :: "'k fs_env \<Rightarrow> lb_prog \<Rightarrow> string \<Rightarrow> nat list \<Rightarrow> 'k \<Rightarrow> int \<times> nat \<times> 'k" where
  "pin_instances fs p path [] k = (0, length (instances p), k)"
| "pin_instances fs p path (i # is) k =
     (case path_in path (show_nat i) of
        Inl err \<Rightarrow> (err, i, k)
      | Inr buf \<Rightarrow>
          let (err, k) = bpf_program__pin_instance fs (Some p) buf (int i) k in
          if err \<noteq> 0 then (err, i, k) else pin_instances fs p path is k)"

fun unpin_instances_back :: "'k fs_env \<Rightarrow> lb_prog \<Rightarrow> string \<Rightarrow> nat \<Rightarrow> 'k \<Rightarrow> 'k" where
  "unpin_instances_back fs p path 0 k = k"
| "unpin_instances_back fs p path (Suc i) k =
     (case path_in path (show_nat i) of
        Inl err \<Rightarrow> unpin_instances_back fs p path i k
      | Inr buf \<Rightarrow> let (err, k) = bpf_program__unpin_instance fs (Some p) buf (int i) k in unpin_instances_back fs p path i k)"

definition bpf_program__pin :: "'k fs_env \<Rightarrow> lb_prog option \<Rightarrow> string \<Rightarrow> 'k \<Rightarrow> int \<times> 'k" where
  "bpf_program__pin fs prog path k =
     (let (err, k) = make_parent_dir fs path k in
      if err \<noteq> 0 then (err, k)
      else let (err, k) = check_path fs (Some path) k in
      if err \<noteq> 0 then (err, k)
      else case prog of None \<Rightarrow> (- EINVAL, k)
      | Some p \<Rightarrow>
          if instances p = [] then (- EINVAL, k)
          else if length (instances p) = 1 then bpf_program__pin_instance fs prog path 0 k
          else let (err, i, k) = pin_instances fs p path [0..<length (instances p)] k in
          if err = 0 then (0, k)
          else let k = unpin_instances_back fs p path i k; (_, k) = fs_rmdir fs path k in (err, k))"

fun unpin_instances :: "'k fs_env \<Rightarrow> lb_prog \<Rightarrow> string \<Rightarrow> nat list \<Rightarrow> 'k \<Rightarrow> int \<times> 'k" where
  "unpin_instances fs p path [] k = (0, k)"
| "unpin_instances fs p path (i # is) k =
     (case path_in path (show_nat i) of
        Inl err \<Rightarrow> (err, k)
      | Inr buf \<Rightarrow>
          let (err, k) = bpf_program__unpin_instance fs (Some p) buf (int i) k in
          if err \<noteq> 0 then (err, k) else unpin_instances fs p path is k)"

definition bpf_program__unpin :: "'k fs_env \<Rightarrow> lb_prog option \<Rightarrow> string \<Rightarrow> 'k \<Rightarrow> int \<times> 'k" where
  "bpf_program__unpin fs prog path k =
     (let (err, k) = check_path fs (Some path) k in
      if err \<noteq> 0 then (err, k)
      else case prog of None \<Rightarrow> (- EINVAL, k)
      | Some p \<Rightarrow>
          if instances p = [] then (- EINVAL, k)
          else if length (instances p) = 1 then bpf_program__unpin_instance fs prog path 0 k
          else let (err, k) = unpin_instances fs p path [0..<length (instances p)] k in
          if err \<noteq> 0 then (err, k) else fs_rmdir fs path k)"

text \<open>The programs of an object: the code and the programs passed before the failing one.\<close>

fun pin_progs_loop :: "'k fs_env \<Rightarrow> string \<Rightarrow> lb_prog list \<Rightarrow> 'k \<Rightarrow> int \<times> lb_prog list \<times> 'k" where
  "pin_progs_loop fs path [] k = (0, [], k)"
| "pin_progs_loop fs path (p # ps) k =
     (case path_in path (pin_name p) of
        Inl err \<Rightarrow> (err, [], k)
      | Inr buf \<Rightarrow>
          let (err, k) = bpf_program__pin fs (Some p) buf k in
          if err \<noteq> 0 then (err, [], k)
          else let (err, before, k) = pin_progs_loop fs path ps k in (err, p # before, k))"

fun unpin_progs_back :: "'k fs_env \<Rightarrow> string \<Rightarrow> lb_prog list \<Rightarrow> 'k \<Rightarrow> 'k" where
  "unpin_progs_back fs path [] k = k"
| "unpin_progs_back fs path (p # ps) k =
     (let k = unpin_progs_back fs path ps k in
      case path_in path (pin_name p) of
        Inl err \<Rightarrow> k
      | Inr buf \<Rightarrow> snd (bpf_program__unpin fs (Some p) buf k))"

definition bpf_object__pin_programs :: "'k fs_env \<Rightarrow> lb_object option \<Rightarrow> string \<Rightarrow> 'k \<Rightarrow> int \<times> 'k" where
  "bpf_object__pin_programs fs obj path k =
     (case obj of None \<Rightarrow> (- ENOENT, k)
      | Some ob \<Rightarrow>
          if \<not> loaded ob then (- ENOENT, k)
          else let (err, before, k) = pin_progs_loop fs path (lb_progs ob) k in
          if err = 0 then (0, k) else (err, unpin_progs_back fs path before k))"

fun unpin_progs_loop :: "'k fs_env \<Rightarrow> string \<Rightarrow> lb_prog list \<Rightarrow> 'k \<Rightarrow> int \<times> 'k" where
  "unpin_progs_loop fs path [] k = (0, k)"
| "unpin_progs_loop fs path (p # ps) k =
     (case path_in path (pin_name p) of
        Inl err \<Rightarrow> (err, k)
      | Inr buf \<Rightarrow>
          let (err, k) = bpf_program__unpin fs (Some p) buf k in
          if err \<noteq> 0 then (err, k) else unpin_progs_loop fs path ps k)"

definition bpf_object__unpin_programs :: "'k fs_env \<Rightarrow> lb_object option \<Rightarrow> string \<Rightarrow> 'k \<Rightarrow> int \<times> 'k" where
  "bpf_object__unpin_programs fs obj path k =
     (case obj of None \<Rightarrow> (- ENOENT, k) | Some ob \<Rightarrow> unpin_progs_loop fs path (lb_progs ob) k)"

definition bpf_object__pin :: "'k fs_env \<Rightarrow> lb_object option \<Rightarrow> string \<Rightarrow> 'k \<Rightarrow> int \<times> lb_object option \<times> 'k" where
  "bpf_object__pin fs obj path k =
     (let (err, obj, k) = bpf_object__pin_maps fs obj (Some path) k in
      if err \<noteq> 0 then (err, obj, k)
      else let (err, k) = bpf_object__pin_programs fs obj path k in
      if err \<noteq> 0 then let (_, obj, k) = bpf_object__unpin_maps fs obj (Some path) k in (err, obj, k)
      else (0, obj, k))"

section \<open>What the file system promises\<close>

text \<open>
  The directory on the BPF file system exists or can be made, a path that is taken cannot be pinned
  to, one that is free cannot be removed. \<open>view\<close> gives the descriptor behind a pinned path.
\<close>

definition pin_law :: "'k fs_env \<Rightarrow> ('k \<Rightarrow> string \<Rightarrow> int option) \<Rightarrow> bool" where
  "pin_law fs view \<longleftrightarrow>
     (\<forall>k. fst (fs_strdup fs k) \<and> view (snd (fs_strdup fs k)) = view k) \<and>
     (\<forall>d k. fst (fs_mkdir fs d k) \<in> {0, - EEXIST} \<and> view (snd (fs_mkdir fs d k)) = view k) \<and>
     (\<forall>d k. fs_statfs fs d k = (0, BPF_FS_MAGIC)) \<and>
     (\<forall>fd p k. if view k p = None then fst (fs_obj_pin fs fd p k) = 0 \<and> view (snd (fs_obj_pin fs fd p k)) = (view k)(p \<mapsto> fd)
        else fst (fs_obj_pin fs fd p k) = - EEXIST \<and> view (snd (fs_obj_pin fs fd p k)) = view k) \<and>
     (\<forall>p k. if view k p = None then fst (fs_unlink fs p k) = - ENOENT \<and> view (snd (fs_unlink fs p k)) = view k
        else fst (fs_unlink fs p k) = 0 \<and> view (snd (fs_unlink fs p k)) = (view k)(p := None))"

lemma pin_law_steps:
  assumes "pin_law fs view"
  shows "\<exists>k'. fs_strdup fs k = (True, k') \<and> view k' = view k"
    "\<exists>r k'. fs_mkdir fs d k = (r, k') \<and> (r = 0 \<or> r = - EEXIST) \<and> view k' = view k"
    "fs_statfs fs d k = (0, BPF_FS_MAGIC)"
    "view k p = None \<Longrightarrow> \<exists>k'. fs_obj_pin fs fd p k = (0, k') \<and> view k' = (view k)(p \<mapsto> fd)"
    "view k p \<noteq> None \<Longrightarrow> \<exists>k'. fs_obj_pin fs fd p k = (- EEXIST, k') \<and> view k' = view k"
    "view k p = None \<Longrightarrow> \<exists>k'. fs_unlink fs p k = (- ENOENT, k') \<and> view k' = view k"
    "view k p \<noteq> None \<Longrightarrow> \<exists>k'. fs_unlink fs p k = (0, k') \<and> view k' = (view k)(p := None)"
proof -
  note law = assms [unfolded pin_law_def]
  note rest = conjunct2 [OF conjunct2 [OF law]]
  have dup: "fst (fs_strdup fs k) \<and> view (snd (fs_strdup fs k)) = view k" by (rule spec [OF conjunct1 [OF law]])
  have dir: "fst (fs_mkdir fs d k) \<in> {0, - EEXIST} \<and> view (snd (fs_mkdir fs d k)) = view k"
    by (rule spec [OF spec [OF conjunct1 [OF conjunct2 [OF law]]]])
  show "fs_statfs fs d k = (0, BPF_FS_MAGIC)" by (rule spec [OF spec [OF conjunct1 [OF rest]]])
  have pin: "if view k p = None then fst (fs_obj_pin fs fd p k) = 0 \<and> view (snd (fs_obj_pin fs fd p k)) = (view k)(p \<mapsto> fd)
        else fst (fs_obj_pin fs fd p k) = - EEXIST \<and> view (snd (fs_obj_pin fs fd p k)) = view k"
    by (rule spec [OF spec [OF spec [OF conjunct1 [OF conjunct2 [OF rest]]]]])
  have unlink: "if view k p = None then fst (fs_unlink fs p k) = - ENOENT \<and> view (snd (fs_unlink fs p k)) = view k
        else fst (fs_unlink fs p k) = 0 \<and> view (snd (fs_unlink fs p k)) = (view k)(p := None)"
    by (rule spec [OF spec [OF conjunct2 [OF conjunct2 [OF rest]]]])
  obtain a1 b1 where "fs_strdup fs k = (a1, b1)" by (cases "fs_strdup fs k")
  then show "\<exists>k'. fs_strdup fs k = (True, k') \<and> view k' = view k" using dup by simp
  obtain a2 b2 where "fs_mkdir fs d k = (a2, b2)" by (cases "fs_mkdir fs d k")
  then show "\<exists>r k'. fs_mkdir fs d k = (r, k') \<and> (r = 0 \<or> r = - EEXIST) \<and> view k' = view k" using dir by simp
  obtain a3 b3 where o: "fs_obj_pin fs fd p k = (a3, b3)" by (cases "fs_obj_pin fs fd p k")
  obtain a4 b4 where u: "fs_unlink fs p k = (a4, b4)" by (cases "fs_unlink fs p k")
  show "view k p = None \<Longrightarrow> \<exists>k'. fs_obj_pin fs fd p k = (0, k') \<and> view k' = (view k)(p \<mapsto> fd)" using pin o by simp
  show "view k p \<noteq> None \<Longrightarrow> \<exists>k'. fs_obj_pin fs fd p k = (- EEXIST, k') \<and> view k' = view k" using pin o by auto
  show "view k p = None \<Longrightarrow> \<exists>k'. fs_unlink fs p k = (- ENOENT, k') \<and> view k' = view k" using unlink u by simp
  show "view k p \<noteq> None \<Longrightarrow> \<exists>k'. fs_unlink fs p k = (0, k') \<and> view k' = (view k)(p := None)" using unlink u by auto
qed

lemma make_parent_dir_ok:
  assumes "pin_law fs view"
  shows "\<exists>k'. make_parent_dir fs p k = (0, k') \<and> view k' = view k"
proof -
  obtain k1 where s: "fs_strdup fs k = (True, k1)" "view k1 = view k" using pin_law_steps(1) [OF assms] by blast
  obtain r k2 where "fs_mkdir fs (dirname p) k1 = (r, k2)" "r = 0 \<or> r = - EEXIST" "view k2 = view k1"
    using pin_law_steps(2) [OF assms] by blast
  with s show ?thesis by (auto simp: make_parent_dir_def)
qed

lemma check_path_ok:
  assumes "pin_law fs view"
  shows "\<exists>k'. check_path fs (Some p) k = (0, k') \<and> view k' = view k"
proof -
  obtain k1 where "fs_strdup fs k = (True, k1)" "view k1 = view k" using pin_law_steps(1) [OF assms] by blast
  then show ?thesis using pin_law_steps(3) [OF assms, of "dirname p" k1] by (simp add: check_path_def)
qed

text \<open>One map, not pinned before.\<close>

lemma map_pin_effect:
  assumes "pin_law fs view" "pin_path m = None" "\<not> pinned m"
  shows "\<exists>k'. bpf_map__pin fs (Some m) (Some p) k =
      (if view k p = None then (0, Some (m\<lparr>pin_path := Some p, pinned := True\<rparr>), k')
       else (- EEXIST, Some (m\<lparr>pin_path := Some p\<rparr>), k')) \<and>
    view k' = (if view k p = None then (view k)(p \<mapsto> lb_fd m) else view k)"
proof -
  obtain k1 where s: "fs_strdup fs k = (True, k1)" "view k1 = view k" using pin_law_steps(1) [OF assms(1)] by blast
  obtain k2 where d: "make_parent_dir fs p k1 = (0, k2)" "view k2 = view k1" using make_parent_dir_ok [OF assms(1)] by blast
  obtain k3 where c: "check_path fs (Some p) k2 = (0, k3)" "view k3 = view k2" using check_path_ok [OF assms(1)] by blast
  obtain err k4 where o: "fs_obj_pin fs (lb_fd m) p k3 = (err, k4)"
    "if view k p = None then err = 0 \<and> view k4 = (view k)(p \<mapsto> lb_fd m) else err = - EEXIST \<and> view k4 = view k"
    using pin_law_steps(4,5) [OF assms(1), of k3 p "lb_fd m"] s(2) d(2) c(2) by (cases "view k p") auto
  then show ?thesis using s d c assms(2,3) by (auto simp: bpf_map__pin_def EEXIST_def)
qed

lemma map_unpin_effect:
  assumes "pin_law fs view" "pin_path m = None \<longrightarrow> path = Some p" "pin_path m \<noteq> None \<longrightarrow> pin_path m = Some p \<and> (path = None \<or> path = Some p)"
  shows "\<exists>k'. bpf_map__unpin fs (Some m) path k =
      (if view k p = None then (- ENOENT, Some m, k') else (0, Some (m\<lparr>pinned := False\<rparr>), k')) \<and>
    view k' = (view k)(p := None)"
proof -
  obtain k1 where c: "check_path fs (Some p) k = (0, k1)" "view k1 = view k" using check_path_ok [OF assms(1)] by blast
  obtain err k2 where u: "fs_unlink fs p k1 = (err, k2)"
    "if view k p = None then err = - ENOENT \<and> view k2 = view k else err = 0 \<and> view k2 = (view k)(p := None)"
    using pin_law_steps(6,7) [OF assms(1), of k1 p] c(2) by (cases "view k p") auto
  then show ?thesis using c assms(2,3) by (cases "pin_path m"; cases "view k p") (auto simp: bpf_map__unpin_def ENOENT_def fun_upd_idem split: if_splits)
qed

section \<open>All maps or none\<close>

text \<open>The paths fit, and the maps have not been pinned.\<close>

definition dir_path :: "string \<Rightarrow> lb_map \<Rightarrow> string" where
  "dir_path dir m = dir @ ''/'' @ lb_name m"

definition paths_fit :: "string \<Rightarrow> lb_map list \<Rightarrow> bool" where
  "paths_fit dir ms \<longleftrightarrow> (\<forall>m\<in>set ms. length (dir_path dir m) < PATH_MAX)"

definition never_pinned :: "lb_map list \<Rightarrow> bool" where
  "never_pinned ms \<longleftrightarrow> (\<forall>m\<in>set ms. pin_path m = None \<and> \<not> pinned m)"

definition all_free :: "(string \<Rightarrow> int option) \<Rightarrow> string \<Rightarrow> lb_map list \<Rightarrow> bool" where
  "all_free v dir ms \<longleftrightarrow> distinct (map (dir_path dir) ms) \<and> (\<forall>m\<in>set ms. v (dir_path dir m) = None)"

lemma path_in_fits: "length (dir_path dir m) < PATH_MAX \<Longrightarrow> path_in dir (lb_name m) = Inr (dir_path dir m)"
  by (simp add: path_in_def dir_path_def snprintf_def PATH_MAX_def)

lemma all_free_Cons:
  "v (dir_path dir m) = None \<Longrightarrow> all_free (v(dir_path dir m \<mapsto> fd)) dir ms \<longleftrightarrow> all_free v dir (m # ms)"
  by (auto simp: all_free_def image_iff)

text \<open>The loop and, after an error, the way back from any state in which the same paths are pinned.\<close>

lemma pin_maps_loop_effect:
  assumes "pin_law fs view"
  shows "never_pinned ms \<Longrightarrow> paths_fit dir ms \<Longrightarrow>
    \<exists>err before rest k'. pin_maps_loop fs (Some dir) ms k = (err, before, rest, k') \<and>
      (if all_free (view k) dir ms
       then err = 0 \<and> view k' = (view k)(map (dir_path dir) ms [\<mapsto>] map lb_fd ms) \<and> rest = [] \<and>
         before = map (\<lambda>m. m\<lparr>pin_path := Some (dir_path dir m), pinned := True\<rparr>) ms
       else err = - EEXIST \<and> (\<forall>k''. view k'' = view k' \<longrightarrow> view (snd (unpin_back fs before k'')) = view k))"
proof (induction ms arbitrary: k)
  case (Cons m ms)
  let ?p = "dir_path dir m"
  have fits: "path_in dir (lb_name m) = Inr ?p" "paths_fit dir ms" and m: "pin_path m = None" "\<not> pinned m" "never_pinned ms"
    using Cons.prems by (auto simp: paths_fit_def never_pinned_def path_in_fits)
  obtain k1 where pin: "bpf_map__pin fs (Some m) (Some ?p) k =
      (if view k ?p = None then (0, Some (m\<lparr>pin_path := Some ?p, pinned := True\<rparr>), k1) else (- EEXIST, Some (m\<lparr>pin_path := Some ?p\<rparr>), k1))"
    "view k1 = (if view k ?p = None then (view k)(?p \<mapsto> lb_fd m) else view k)"
    using map_pin_effect [OF assms m(1,2)] by blast
  show ?case
  proof (cases "view k ?p")
    case (Some fd)
    then show ?thesis using pin fits by (auto simp: EEXIST_def all_free_def)
  next
    case None
    let ?m = "m\<lparr>pin_path := Some ?p, pinned := True\<rparr>"
    have v1: "view k1 = (view k)(?p \<mapsto> lb_fd m)" using pin(2) None by simp
    have free: "all_free (view k1) dir ms = all_free (view k) dir (m # ms)" unfolding v1 by (rule all_free_Cons) (rule None)
    obtain err before rest k' where IH: "pin_maps_loop fs (Some dir) ms k1 = (err, before, rest, k')"
      "if all_free (view k1) dir ms
       then err = 0 \<and> view k' = (view k1)(map (dir_path dir) ms [\<mapsto>] map lb_fd ms) \<and> rest = [] \<and>
         before = map (\<lambda>m. m\<lparr>pin_path := Some (dir_path dir m), pinned := True\<rparr>) ms
       else err = - EEXIST \<and> (\<forall>k''. view k'' = view k' \<longrightarrow> view (snd (unpin_back fs before k'')) = view k1)"
      using Cons.IH [OF m(3) fits(2), of k1] by blast
    have run: "pin_maps_loop fs (Some dir) (m # ms) k = (err, ?m # before, rest, k')"
      using pin(1) None fits(1) IH(1) by simp
    show ?thesis
    proof (cases "all_free (view k) dir (m # ms)")
      case True
      then show ?thesis using IH(2) run free v1 by simp
    next
      case False
      have undo: "view (snd (unpin_back fs (?m # before) k'')) = view k" if "view k'' = view k'" for k''
      proof -
        obtain bs k2 where b: "unpin_back fs before k'' = (bs, k2)" by (cases "unpin_back fs before k''")
        then have "view k2 = view k1" using IH(2) False free that by auto
        moreover obtain r m2 k3 where "bpf_map__unpin fs (Some ?m) None k2 = (r, m2, k3)" "view k3 = (view k2)(?p := None)"
          using map_unpin_effect [OF assms, of ?m None ?p k2] by (auto split: if_splits)
        ultimately show ?thesis using b v1 None by (simp add: fun_upd_idem)
      qed
      show ?thesis using IH(2) run False free undo by auto
    qed
  qed
qed (simp add: all_free_def)

lemma pin_maps_effect:
  assumes "pin_law fs view" "loaded ob" "never_pinned (lb_maps ob)" "paths_fit dir (lb_maps ob)"
  shows "\<exists>ob' k'. bpf_object__pin_maps fs (Some ob) (Some dir) k =
      (if all_free (view k) dir (lb_maps ob) then 0 else - EEXIST, Some ob', k') \<and>
    view k' = (if all_free (view k) dir (lb_maps ob) then (view k)(map (dir_path dir) (lb_maps ob) [\<mapsto>] map lb_fd (lb_maps ob)) else view k)"
proof -
  obtain err before rest k' where r: "pin_maps_loop fs (Some dir) (lb_maps ob) k = (err, before, rest, k')"
      "if all_free (view k) dir (lb_maps ob)
       then err = 0 \<and> view k' = (view k)(map (dir_path dir) (lb_maps ob) [\<mapsto>] map lb_fd (lb_maps ob)) \<and> rest = [] \<and>
         before = map (\<lambda>m. m\<lparr>pin_path := Some (dir_path dir m), pinned := True\<rparr>) (lb_maps ob)
       else err = - EEXIST \<and> (\<forall>k''. view k'' = view k' \<longrightarrow> view (snd (unpin_back fs before k'')) = view k)"
    using pin_maps_loop_effect [OF assms(1,3,4), of k] by blast
  then show ?thesis
    using assms(2) by (cases "unpin_back fs before k'") (auto simp: bpf_object__pin_maps_def EEXIST_def split: if_splits)
qed

lemma unpin_maps_loop_effect:
  assumes "pin_law fs view"
  shows "never_pinned ms \<Longrightarrow> paths_fit dir ms \<Longrightarrow> distinct (map (dir_path dir) ms) \<Longrightarrow>
    \<exists>err ms' k'. unpin_maps_loop fs (Some dir) ms k = (err, ms', k') \<and>
      (if \<forall>m\<in>set ms. view k (dir_path dir m) \<noteq> None
       then err = 0 \<and> view k' = (\<lambda>p. if p \<in> dir_path dir ` set ms then None else view k p) else err = - ENOENT)"
proof (induction ms arbitrary: k)
  case (Cons m ms)
  let ?p = "dir_path dir m"
  have fits: "path_in dir (lb_name m) = Inr ?p" "paths_fit dir ms" "never_pinned ms" "distinct (map (dir_path dir) ms)" and m: "pin_path m = None"
    using Cons.prems by (auto simp: paths_fit_def never_pinned_def path_in_fits)
  obtain k1 where u: "bpf_map__unpin fs (Some m) (Some ?p) k =
      (if view k ?p = None then (- ENOENT, Some m, k1) else (0, Some (m\<lparr>pinned := False\<rparr>), k1))" "view k1 = (view k)(?p := None)"
    using map_unpin_effect [OF assms, of m "Some ?p" ?p k] m by auto
  show ?case
  proof (cases "view k ?p")
    case None
    then show ?thesis using u(1) fits(1) by (simp add: ENOENT_def)
  next
    case (Some fd)
    obtain err ms' k' where IH: "unpin_maps_loop fs (Some dir) ms k1 = (err, ms', k')"
      "if \<forall>m\<in>set ms. view k1 (dir_path dir m) \<noteq> None
       then err = 0 \<and> view k' = (\<lambda>p. if p \<in> dir_path dir ` set ms then None else view k1 p) else err = - ENOENT"
      using Cons.IH [OF fits(3,2,4), of k1] by blast
    have other: "view k1 (dir_path dir n) = view k (dir_path dir n)" if "n \<in> set ms" for n
      using Cons.prems(3) that u(2) by (auto simp: image_iff)
    have "(\<lambda>p. if p \<in> dir_path dir ` set ms then None else view k1 p) =
        (\<lambda>p. if p \<in> dir_path dir ` set (m # ms) then None else view k p)"
      using u(2) by auto
    moreover have "unpin_maps_loop fs (Some dir) (m # ms) k = (err, m\<lparr>pinned := False\<rparr> # ms', k')"
      using u(1) Some fits(1) IH(1) by simp
    ultimately show ?thesis using IH(2) Some other by auto
  qed
qed simp

lemma map_upds_base: "length xs = length ys \<Longrightarrow> p \<in> set xs \<Longrightarrow> (f(xs [\<mapsto>] ys)) p = (g(xs [\<mapsto>] ys)) p"
proof (induction xs ys arbitrary: f g rule: list_induct2)
  case (Cons x xs y ys)
  then show ?case by (cases "p \<in> set xs") (auto simp: map_upds_apply_nontin)
qed simp

lemma map_upds_over:
  assumes "length xs = length ys"
  shows "(\<lambda>p. if p \<in> set xs then None else f p)(xs [\<mapsto>] ys) = f(xs [\<mapsto>] ys)"
proof
  fix p
  show "((\<lambda>p. if p \<in> set xs then None else f p)(xs [\<mapsto>] ys)) p = (f(xs [\<mapsto>] ys)) p"
    using map_upds_base [OF assms] by (cases "p \<in> set xs") (simp_all add: map_upds_apply_nontin)
qed

section \<open>The loader over these functions\<close>

text \<open>The maps of a freshly loaded object, and the loader's environment with the functions above in it.\<close>

definition lb_maps_of :: "bpf_object \<Rightarrow> lb_map list" where
  "lb_maps_of obj = map (\<lambda>m. \<lparr>lb_name = map_name m, lb_fd = map_fd m, pin_path = None, pinned = False\<rparr>) (obj_maps obj)"

definition lb_object_of :: "bpf_object \<Rightarrow> lb_object" where
  "lb_object_of obj = \<lparr>loaded = True, lb_maps = lb_maps_of obj, lb_progs = []\<rparr>"

definition pinning_env :: "'k fs_env \<Rightarrow> ('k \<Rightarrow> string \<Rightarrow> int option) \<Rightarrow> 'k obj_env \<Rightarrow> 'k obj_env" where
  "pinning_env fs view env = env
     \<lparr>bpf_object_pin_maps := (\<lambda>obj dir k. let (err, _, k) = bpf_object__pin_maps fs (Some (lb_object_of obj)) (Some dir) k in (err, k)),
      bpf_object_unpin_maps := (\<lambda>obj dir k. let (err, _, k) = bpf_object__unpin_maps fs (Some (lb_object_of obj)) (Some dir) k in (err, k)),
      file_exists := (\<lambda>p k. view k p \<noteq> None)\<rparr>"

definition map_paths :: "string \<Rightarrow> bpf_object \<Rightarrow> string list" where
  "map_paths dir obj = map (\<lambda>m. dir @ ''/'' @ map_name m) (obj_maps obj)"

lemma lb_maps_of:
  "never_pinned (lb_maps_of obj)" "map (dir_path dir) (lb_maps_of obj) = map_paths dir obj"
  "map lb_fd (lb_maps_of obj) = map map_fd (obj_maps obj)"
  by (simp_all add: lb_maps_of_def never_pinned_def map_paths_def dir_path_def)

lemma lb_maps_set: "dir_path dir ` set (lb_maps_of obj) = set (map_paths dir obj)"
  using lb_maps_of(2) [of dir obj] by (metis set_map)

lemma lb_maps_ball: "(\<forall>m\<in>set (lb_maps_of obj). P (dir_path dir m)) \<longleftrightarrow> (\<forall>p\<in>set (map_paths dir obj). P p)"
  unfolding lb_maps_set [symmetric] by blast

lemma env_pin_maps:
  fixes k :: 'k
  assumes "pin_law fs view" "distinct (map_paths dir obj)" "\<forall>p\<in>set (map_paths dir obj). length p < PATH_MAX"
  defines "free \<equiv> \<forall>p\<in>set (map_paths dir obj). view k p = None"
  shows "\<exists>k'. bpf_object_pin_maps (pinning_env fs view env) obj dir k = (if free then 0 else - EEXIST, k') \<and>
    view k' = (if free then (view k)(map_paths dir obj [\<mapsto>] map map_fd (obj_maps obj)) else view k)"
proof -
  have fit: "paths_fit dir (lb_maps_of obj)"
    using assms(3) lb_maps_ball [of obj "\<lambda>p. length p < PATH_MAX" dir] by (simp add: paths_fit_def)
  have free: "all_free (view k) dir (lb_maps_of obj) = free"
    using assms(2) lb_maps_ball [of obj "\<lambda>p. view k p = None" dir] by (simp add: all_free_def free_def lb_maps_of(2))
  obtain ob' k' where "bpf_object__pin_maps fs (Some (lb_object_of obj)) (Some dir) k = (if free then 0 else - EEXIST, ob', k')"
      "view k' = (if free then (view k)(map_paths dir obj [\<mapsto>] map map_fd (obj_maps obj)) else view k)"
    using pin_maps_effect [OF assms(1), of "lb_object_of obj" dir k] fit
    by (auto simp: lb_object_of_def lb_maps_of free)
  then show ?thesis by (simp add: pinning_env_def)
qed

lemma env_unpin_maps:
  assumes "pin_law fs view" "distinct (map_paths dir obj)" "\<forall>p\<in>set (map_paths dir obj). length p < PATH_MAX"
  shows "\<exists>err k'. bpf_object_unpin_maps (pinning_env fs view env) obj dir k = (err, k') \<and>
    (if \<forall>p\<in>set (map_paths dir obj). view k p \<noteq> None
     then err = 0 \<and> view k' = (\<lambda>p. if p \<in> set (map_paths dir obj) then None else view k p) else err = - ENOENT)"
proof -
  have fit: "paths_fit dir (lb_maps_of obj)"
    using assms(3) lb_maps_ball [of obj "\<lambda>p. length p < PATH_MAX" dir] by (simp add: paths_fit_def)
  obtain err ms' k' where "unpin_maps_loop fs (Some dir) (lb_maps_of obj) k = (err, ms', k')"
      "if \<forall>p\<in>set (map_paths dir obj). view k p \<noteq> None
       then err = 0 \<and> view k' = (\<lambda>p. if p \<in> set (map_paths dir obj) then None else view k p) else err = - ENOENT"
    using unpin_maps_loop_effect [OF assms(1) lb_maps_of(1) fit, of k] assms(2)
    unfolding lb_maps_of(2) lb_maps_set lb_maps_ball [of obj "\<lambda>p. view k p \<noteq> None"] by blast
  then show ?thesis by (simp add: pinning_env_def bpf_object__unpin_maps_def lb_object_of_def)
qed

text \<open>C23. The loader leaves all maps of its program pinned or says so: over the pinning functions of libbpf, if
none or all of the paths of its maps were taken, each of them afterwards names the map just loaded and nothing
else has changed; if only some of them were, it fails with \<open>EXIT_FAIL_BPF\<close>.\<close>

theorem loader_repins:
  fixes subdir
  defines "dir \<equiv> pin_basedir @ ''/'' @ subdir"
  assumes "pin_law fs view" "distinct (map map_name (obj_maps obj))" "\<forall>p\<in>set (map_paths dir obj). length p < PATH_MAX"
    "''xdp_stats_map'' \<in> map_name ` set (obj_maps obj)"
  shows "\<exists>err k'. pin_maps_in_bpf_object (pinning_env fs view env) obj subdir k = (err, k') \<and>
    (if (\<forall>p\<in>set (map_paths dir obj). view k p = None) \<or> (\<forall>p\<in>set (map_paths dir obj). view k p \<noteq> None)
     then err = 0 \<and> view k' = (view k)(map_paths dir obj [\<mapsto>] map map_fd (obj_maps obj)) else err = EXIT_FAIL_BPF)"
proof -
  let ?env = "pinning_env fs view env" and ?stats = "dir @ ''/'' @ ''xdp_stats_map''"
  have dist: "distinct (map_paths dir obj)" using assms(3) by (simp add: map_paths_def distinct_map inj_on_def)
  have stats: "?stats \<in> set (map_paths dir obj)" using assms(5) by (auto simp: map_paths_def)
  then have len: "length ?stats < PATH_MAX" using assms(4) by blast
  have snp: "snprintf PATH_MAX (pin_basedir @ ''/'' @ subdir) = (int (length dir), dir)"
      "snprintf PATH_MAX (pin_basedir @ ''/'' @ subdir @ ''/'' @ ''xdp_stats_map'') = (int (length ?stats), ?stats)"
    using len by (auto simp: snprintf_def dir_def PATH_MAX_def)
  have run: "pin_maps_in_bpf_object ?env obj subdir k =
      (let (err, k) = (if view k ?stats \<noteq> None then bpf_object_unpin_maps ?env obj dir k else (0, k)) in
       if err \<noteq> 0 then (EXIT_FAIL_BPF, k)
       else let (err, k) = bpf_object_pin_maps ?env obj dir k in if err \<noteq> 0 then (EXIT_FAIL_BPF, k) else (0, k))"
    unfolding pin_maps_in_bpf_object_def snp by (simp add: pinning_env_def)
  obtain uerr k1 where u: "bpf_object_unpin_maps ?env obj dir k = (uerr, k1)"
    "if \<forall>p\<in>set (map_paths dir obj). view k p \<noteq> None
     then uerr = 0 \<and> view k1 = (\<lambda>p. if p \<in> set (map_paths dir obj) then None else view k p) else uerr = - ENOENT"
    using env_unpin_maps [OF assms(2) dist assms(4)] by blast
  have pin: "\<exists>k'. bpf_object_pin_maps ?env obj dir k = (if \<forall>p\<in>set (map_paths dir obj). view k p = None then 0 else - EEXIST, k') \<and>
    view k' = (if \<forall>p\<in>set (map_paths dir obj). view k p = None then (view k)(map_paths dir obj [\<mapsto>] map map_fd (obj_maps obj)) else view k)" for k
    by (rule env_pin_maps [OF assms(2) dist assms(4)])
  have over: "(\<lambda>p. if p \<in> set (map_paths dir obj) then None else view k p)(map_paths dir obj [\<mapsto>] map map_fd (obj_maps obj)) =
      (view k)(map_paths dir obj [\<mapsto>] map map_fd (obj_maps obj))"
    by (rule map_upds_over) (simp add: map_paths_def)
  show ?thesis
  proof (cases "view k ?stats = None")
    case True
    then have ne: "\<not> (\<forall>p\<in>set (map_paths dir obj). view k p \<noteq> None)" using stats by blast
    obtain k' where k': "bpf_object_pin_maps ?env obj dir k = (if \<forall>p\<in>set (map_paths dir obj). view k p = None then 0 else - EEXIST, k')"
      "view k' = (if \<forall>p\<in>set (map_paths dir obj). view k p = None then (view k)(map_paths dir obj [\<mapsto>] map map_fd (obj_maps obj)) else view k)"
      using pin [of k] by blast
    show ?thesis
    proof (cases "\<forall>p\<in>set (map_paths dir obj). view k p = None")
      case free: True
      then have "pin_maps_in_bpf_object ?env obj subdir k = (0, k')"
        unfolding run using True k'(1) by simp
      moreover have "view k' = (view k)(map_paths dir obj [\<mapsto>] map map_fd (obj_maps obj))" by (rule k'(2) [unfolded if_P [OF free]])
      ultimately show ?thesis using free by (intro exI conjI) simp_all
    next
      case some: False
      then have "pin_maps_in_bpf_object ?env obj subdir k = (EXIT_FAIL_BPF, k')"
        unfolding run using True k'(1) [unfolded if_not_P [OF some]] by (simp add: EEXIST_def)
      then show ?thesis using some ne by auto
    qed
  next
    case False
    have ne: "\<not> (\<forall>p\<in>set (map_paths dir obj). view k p = None)"
      by (rule notI, rule notE [OF False], drule bspec [OF _ stats])
    show ?thesis
    proof (cases "\<forall>p\<in>set (map_paths dir obj). view k p \<noteq> None")
      case True
      then have "uerr = 0" "view k1 = (\<lambda>p. if p \<in> set (map_paths dir obj) then None else view k p)" using u(2) by simp_all
      then show ?thesis using pin [of k1] run False True u(1) over by auto
    next
      case some: False
      then have "uerr = - ENOENT" using u(2) by (simp only: if_False)
      then have "pin_maps_in_bpf_object ?env obj subdir k = (EXIT_FAIL_BPF, k1)"
        using run u(1) False by (simp add: ENOENT_def)
      with some ne show ?thesis by auto
    qed
  qed
qed

text \<open>A file system whose state is the pinned paths, and an object with two maps.\<close>

definition demo_fs :: "(string \<Rightarrow> int option) fs_env" where
  "demo_fs = \<lparr>fs_strdup = (\<lambda>k. (True, k)), fs_mkdir = (\<lambda>d k. (0, k)), fs_statfs = (\<lambda>d k. (0, BPF_FS_MAGIC)),
     fs_obj_pin = (\<lambda>fd p k. if k p = None then (0, k(p \<mapsto> fd)) else (- EEXIST, k)),
     fs_unlink = (\<lambda>p k. if k p = None then (- ENOENT, k) else (0, k(p := None))), fs_rmdir = (\<lambda>p k. (0, k))\<rparr>"

lemma demo_fs: "pin_law demo_fs id"
  by (simp add: pin_law_def demo_fs_def)

definition two_maps :: bpf_object where
  "two_maps = \<lparr>progs = [], obj_maps = [\<lparr>map_name = ''xdp_stats_map'', map_fd = 4, map_ifindex = 0, offload_neutral = False\<rparr>,
     \<lparr>map_name = ''black_list'', map_fd = 5, map_ifindex = 0, offload_neutral = False\<rparr>]\<rparr>"

lemma loader_repins_witness:
  "\<forall>env. \<exists>k'. pin_maps_in_bpf_object (pinning_env demo_fs id env) two_maps ''eth0'' (\<lambda>p. Some 9) = (0, k') \<and>
    k' ''/sys/fs/bpf/eth0/black_list'' = Some 5"
proof
  fix env
  have "distinct (map map_name (obj_maps two_maps))" "''xdp_stats_map'' \<in> map_name ` set (obj_maps two_maps)"
    "\<forall>p\<in>set (map_paths (pin_basedir @ ''/'' @ ''eth0'') two_maps). length p < PATH_MAX"
    by (simp_all add: two_maps_def map_paths_def PATH_MAX_def pin_basedir_def)
  from loader_repins [OF demo_fs this(1,3,2), of env "\<lambda>p. Some 9"]
  obtain k' where "pin_maps_in_bpf_object (pinning_env demo_fs id env) two_maps ''eth0'' (\<lambda>p. Some 9) = (0, k')"
    "k' = (\<lambda>p. Some 9)(map_paths (pin_basedir @ ''/'' @ ''eth0'') two_maps [\<mapsto>] map map_fd (obj_maps two_maps))"
    by auto
  then show "\<exists>k'. pin_maps_in_bpf_object (pinning_env demo_fs id env) two_maps ''eth0'' (\<lambda>p. Some 9) = (0, k') \<and>
      k' ''/sys/fs/bpf/eth0/black_list'' = Some 5"
    by (simp add: two_maps_def map_paths_def pin_basedir_def)
qed

text \<open>
  The way back after an error removes more than was added: a map that was pinned before the call, and
  was passed without a change, is unpinned too.
\<close>

lemma pin_error_unpins_old_pin:
  assumes "pin_law fs view" "pin_path a = Some (dir_path dir a)" "pinned a" "view k (dir_path dir a) \<noteq> None"
    "pin_path b = None" "\<not> pinned b" "view k (dir_path dir b) \<noteq> None" "paths_fit dir [a, b]" "dir_path dir a \<noteq> dir_path dir b"
  shows "\<exists>ob k'. bpf_object__pin_maps fs (Some \<lparr>loaded = True, lb_maps = [a, b], lb_progs = []\<rparr>) (Some dir) k = (- EEXIST, ob, k') \<and>
    view k' (dir_path dir a) = None"
proof -
  have fit: "path_in dir (lb_name a) = Inr (dir_path dir a)" "path_in dir (lb_name b) = Inr (dir_path dir b)"
    using assms(8) by (simp_all add: paths_fit_def path_in_fits)
  have a: "bpf_map__pin fs (Some a) (Some (dir_path dir a)) k = (0, Some a, k)" using assms(2,3) by (simp add: bpf_map__pin_def)
  obtain k1 where b: "bpf_map__pin fs (Some b) (Some (dir_path dir b)) k = (- EEXIST, Some (b\<lparr>pin_path := Some (dir_path dir b)\<rparr>), k1)" "view k1 = view k"
    using map_pin_effect [OF assms(1,5,6), of "dir_path dir b" k] unfolding if_not_P [OF assms(7)] by blast
  have old: "view k1 (dir_path dir a) \<noteq> None" using assms(4) b(2) by simp
  have "\<exists>k'. bpf_map__unpin fs (Some a) None k1 =
      (if view k1 (dir_path dir a) = None then (- ENOENT, Some a, k') else (0, Some (a\<lparr>pinned := False\<rparr>), k')) \<and>
    view k' = (view k1)(dir_path dir a := None)"
    by (rule map_unpin_effect [OF assms(1)]) (simp_all add: assms(2))
  then obtain k2 where u: "bpf_map__unpin fs (Some a) None k1 = (0, Some (a\<lparr>pinned := False\<rparr>), k2)"
    "view k2 = (view k1)(dir_path dir a := None)"
    unfolding if_not_P [OF old] by blast
  have "pin_maps_loop fs (Some dir) [a, b] k = (- EEXIST, [a], [b\<lparr>pin_path := Some (dir_path dir b)\<rparr>], k1)"
    using a b(1) fit by (simp add: EEXIST_def)
  then show ?thesis using u assms(2) by (simp add: bpf_object__pin_maps_def EEXIST_def)
qed

end
