(* ===== verification/Xsk_Ring.thy ===== *)
theory Xsk_Ring
  imports Prelude
begin

text \<open>
  The rings of AF_XDP sockets, libbpf/src/xsk.h: a producer and a consumer share two counters and an
  array, and each keeps local copies of the counters. All counters are 32-bit and wrap around. The
  producer and the consumer run in different processes; a system of both is a step relation whose steps
  are single calls, with the barriers of the code making each of them take effect at once.
\<close>

section \<open>The two ends of a ring\<close>

text \<open>\<open>DEFINE_XSK_RING\<close> without its pointers into the shared memory.\<close>

record xsk_ring =
  cached_prod :: u32
  cached_cons :: u32
  mask_of :: u32
  size_of_ring :: u32

record 'a xsk_mem =
  producer :: u32
  consumer :: u32
  slots :: "'a list"
  ring_flags :: u32

definition XDP_RING_NEED_WAKEUP :: u32 where "XDP_RING_NEED_WAKEUP = 1"

text \<open>The index that the four accessors address.\<close>

definition xsk_ring_prod__fill_addr :: "xsk_ring \<Rightarrow> u32 \<Rightarrow> nat" where
  "xsk_ring_prod__fill_addr fill idx = unat (idx AND mask_of fill)"

definition xsk_ring_cons__comp_addr :: "xsk_ring \<Rightarrow> u32 \<Rightarrow> nat" where
  "xsk_ring_cons__comp_addr c idx = unat (idx AND mask_of c)"

definition xsk_ring_prod__tx_desc :: "xsk_ring \<Rightarrow> u32 \<Rightarrow> nat" where
  "xsk_ring_prod__tx_desc tx idx = unat (idx AND mask_of tx)"

definition xsk_ring_cons__rx_desc :: "xsk_ring \<Rightarrow> u32 \<Rightarrow> nat" where
  "xsk_ring_cons__rx_desc rx idx = unat (idx AND mask_of rx)"

definition xsk_ring_prod__needs_wakeup :: "'a xsk_mem \<Rightarrow> u32" where
  "xsk_ring_prod__needs_wakeup m = ring_flags m AND XDP_RING_NEED_WAKEUP"

definition xsk_prod_nb_free :: "xsk_ring \<Rightarrow> 'a xsk_mem \<Rightarrow> u32 \<Rightarrow> u32 \<times> xsk_ring" where
  "xsk_prod_nb_free r m nb =
     (let free_entries = cached_cons r - cached_prod r in
      if free_entries \<ge> nb then (free_entries, r)
      else let r = r\<lparr>cached_cons := consumer m + size_of_ring r\<rparr> in (cached_cons r - cached_prod r, r))"

definition xsk_cons_nb_avail :: "xsk_ring \<Rightarrow> 'a xsk_mem \<Rightarrow> u32 \<Rightarrow> u32 \<times> xsk_ring" where
  "xsk_cons_nb_avail r m nb =
     (let entries = cached_prod r - cached_cons r;
          (entries, r) = (if entries = 0
             then let r = r\<lparr>cached_prod := producer m\<rparr> in (cached_prod r - cached_cons r, r) else (entries, r))
      in (if entries > nb then nb else entries, r))"

text \<open>The number of entries is a \<open>size_t\<close>; the result is the number, and the index if it was stored.\<close>

definition xsk_ring_prod__reserve :: "xsk_ring \<Rightarrow> 'a xsk_mem \<Rightarrow> u64 \<Rightarrow> u64 \<times> u32 option \<times> xsk_ring" where
  "xsk_ring_prod__reserve r m nb =
     (let (free_entries, r) = xsk_prod_nb_free r m (ucast nb) in
      if ucast free_entries < nb then (0, None, r)
      else (nb, Some (cached_prod r), r\<lparr>cached_prod := cached_prod r + ucast nb\<rparr>))"

definition xsk_ring_prod__submit :: "'a xsk_mem \<Rightarrow> u64 \<Rightarrow> 'a xsk_mem" where
  "xsk_ring_prod__submit m nb = m\<lparr>producer := producer m + ucast nb\<rparr>"

definition xsk_ring_cons__peek :: "xsk_ring \<Rightarrow> 'a xsk_mem \<Rightarrow> u64 \<Rightarrow> u64 \<times> u32 option \<times> xsk_ring" where
  "xsk_ring_cons__peek r m nb =
     (let (entries, r) = xsk_cons_nb_avail r m (ucast nb) in
      if entries > 0 then (ucast entries, Some (cached_cons r), r\<lparr>cached_cons := cached_cons r + entries\<rparr>)
      else (ucast entries, None, r))"

definition xsk_ring_cons__release :: "'a xsk_mem \<Rightarrow> u64 \<Rightarrow> 'a xsk_mem" where
  "xsk_ring_cons__release m nb = m\<lparr>consumer := consumer m + ucast nb\<rparr>"

section \<open>Addresses in the packet buffer\<close>

definition XSK_UNALIGNED_BUF_OFFSET_SHIFT :: nat where "XSK_UNALIGNED_BUF_OFFSET_SHIFT = 48"
definition XSK_UNALIGNED_BUF_ADDR_MASK :: u64 where
  "XSK_UNALIGNED_BUF_ADDR_MASK = push_bit XSK_UNALIGNED_BUF_OFFSET_SHIFT 1 - 1"

definition xsk_umem__get_data :: "u64 \<Rightarrow> u64 \<Rightarrow> u64" where
  "xsk_umem__get_data umem_area addr = umem_area + addr"

definition xsk_umem__extract_addr :: "u64 \<Rightarrow> u64" where
  "xsk_umem__extract_addr addr = addr AND XSK_UNALIGNED_BUF_ADDR_MASK"

definition xsk_umem__extract_offset :: "u64 \<Rightarrow> u64" where
  "xsk_umem__extract_offset addr = drop_bit XSK_UNALIGNED_BUF_OFFSET_SHIFT addr"

definition xsk_umem__add_offset_to_addr :: "u64 \<Rightarrow> u64" where
  "xsk_umem__add_offset_to_addr addr = xsk_umem__extract_addr addr + xsk_umem__extract_offset addr"

section \<open>The system of a producer and a consumer\<close>

text \<open>
  Beside the two ends and the memory the system records, for the statement of its properties, how many
  entries have been reserved, submitted, peeked and released so far, and which values were submitted.
\<close>

record 'a xsk_sys =
  pr :: xsk_ring
  co :: xsk_ring
  mem :: "'a xsk_mem"
  reserved :: nat
  submitted :: nat
  peeked :: nat
  released :: nat
  sent :: "nat \<Rightarrow> 'a"

text \<open>The ring when it is created: \<open>sz\<close> entries, the local \<open>cached_cons\<close> of the producer ahead by \<open>sz\<close>.\<close>

definition xsk_init :: "nat \<Rightarrow> 'a \<Rightarrow> 'a xsk_sys" where
  "xsk_init sz v = \<lparr>pr = \<lparr>cached_prod = 0, cached_cons = of_nat sz, mask_of = of_nat sz - 1, size_of_ring = of_nat sz\<rparr>,
     co = \<lparr>cached_prod = 0, cached_cons = 0, mask_of = of_nat sz - 1, size_of_ring = of_nat sz\<rparr>,
     mem = \<lparr>producer = 0, consumer = 0, slots = replicate sz v, ring_flags = 0\<rparr>,
     reserved = 0, submitted = 0, peeked = 0, released = 0, sent = (\<lambda>i. v)\<rparr>"

text \<open>
  The producer writes only what it has reserved and not submitted yet, and submits no more than that;
  the consumer releases no more than it has peeked at.
\<close>

inductive xsk_step :: "'a xsk_sys \<Rightarrow> 'a xsk_sys \<Rightarrow> bool" where
  producer_reserves: "xsk_ring_prod__reserve (pr s) (mem s) nb = (n, idx, r) \<Longrightarrow>
    xsk_step s (s\<lparr>pr := r, reserved := reserved s + unat n\<rparr>)"
| producer_writes: "submitted s \<le> i \<Longrightarrow> i < reserved s \<Longrightarrow>
    xsk_step s (s\<lparr>mem := (mem s)\<lparr>slots := (slots (mem s))[xsk_ring_prod__fill_addr (pr s) (of_nat i) := v]\<rparr>\<rparr>)"
| producer_submits: "submitted s + unat nb \<le> reserved s \<Longrightarrow>
    xsk_step s (s\<lparr>mem := xsk_ring_prod__submit (mem s) nb, submitted := submitted s + unat nb,
      sent := (\<lambda>i. if submitted s \<le> i \<and> i < submitted s + unat nb
        then slots (mem s) ! xsk_ring_prod__fill_addr (pr s) (of_nat i) else sent s i)\<rparr>)"
| consumer_peeks: "xsk_ring_cons__peek (co s) (mem s) nb = (n, idx, r) \<Longrightarrow>
    xsk_step s (s\<lparr>co := r, peeked := peeked s + unat n\<rparr>)"
| consumer_releases: "released s + unat nb \<le> peeked s \<Longrightarrow>
    xsk_step s (s\<lparr>mem := xsk_ring_cons__release (mem s) nb, released := released s + unat nb\<rparr>)"

definition xsk_reachable :: "nat \<Rightarrow> 'a \<Rightarrow> 'a xsk_sys \<Rightarrow> bool" where
  "xsk_reachable sz v s \<longleftrightarrow> xsk_step\<^sup>*\<^sup>* (xsk_init sz v) s"

section \<open>The invariant\<close>

text \<open>
  The counters are positions modulo \<open>2 ^ 32\<close>; the local copies are older positions: \<open>l\<close> of what was released,
  \<open>p\<close> of what was submitted.
\<close>

definition xsk_counters :: "nat \<Rightarrow> 'a xsk_sys \<Rightarrow> nat \<Rightarrow> nat \<Rightarrow> bool" where
  "xsk_counters sz s l p \<longleftrightarrow>
     cached_prod (pr s) = of_nat (reserved s) \<and> cached_cons (pr s) = of_nat (l + sz) \<and>
     producer (mem s) = of_nat (submitted s) \<and> consumer (mem s) = of_nat (released s) \<and>
     cached_prod (co s) = of_nat p \<and> cached_cons (co s) = of_nat (peeked s) \<and>
     l \<le> released s \<and> released s \<le> peeked s \<and> peeked s \<le> p \<and> p \<le> submitted s \<and> submitted s \<le> reserved s \<and>
     reserved s \<le> l + sz"

definition xsk_inv :: "nat \<Rightarrow> 'a xsk_sys \<Rightarrow> bool" where
  "xsk_inv sz s \<longleftrightarrow> mask_of (pr s) = of_nat sz - 1 \<and> mask_of (co s) = of_nat sz - 1 \<and> size_of_ring (pr s) = of_nat sz \<and>
     length (slots (mem s)) = sz \<and> (\<exists>l p. xsk_counters sz s l p) \<and>
     (\<forall>i. released s \<le> i \<and> i < submitted s \<longrightarrow> slots (mem s) ! (i mod sz) = sent s i)"

lemma of_nat_diff_word: "b \<le> a \<Longrightarrow> a - b < 2 ^ 32 \<Longrightarrow> unat (of_nat a - of_nat b :: u32) = a - b"
  by (simp flip: of_nat_diff add: unat_of_nat_u32)

lemma slot_index:
  assumes "k < 32"
  shows "unat (of_nat i AND (of_nat (2 ^ k) - 1) :: u32) = i mod 2 ^ k"
proof -
  have "(of_nat (2 ^ k) - 1 :: u32) = mask k" by (simp add: mask_eq_exp_minus_1)
  then have "of_nat i AND (of_nat (2 ^ k) - 1) = take_bit k (of_nat i :: u32)" by (simp add: take_bit_eq_mask)
  moreover have "unat (take_bit k (of_nat i :: u32)) = take_bit k (take_bit 32 i)"
    by (simp add: unsigned_take_bit_eq unsigned_of_nat)
  moreover have "take_bit k (take_bit 32 i) = i mod 2 ^ k" using assms by (simp add: min.absorb1 take_bit_eq_mod [of k i])
  ultimately show ?thesis by (simp only:)
qed

lemma mod_ne: "j < i \<Longrightarrow> i < j + n \<Longrightarrow> i mod n \<noteq> j mod n" for i j n :: nat
  by (metis add.commute add_diff_inverse_nat diff_is_0_eq' le_add_diff_inverse less_diff_conv2 less_imp_le_nat mod_eq_dvd_iff_nat nat_dvd_not_less not_less_iff_gr_or_eq zero_less_diff)

text \<open>What the calls do in terms of the counters.\<close>

lemma unat_ucast_up: "unat (ucast (w :: u32) :: u64) = unat w"
proof -
  have "unat w < 2 ^ LENGTH(32)" by (rule unsigned_less)
  then have "unat w < 2 ^ 64" by simp
  then show ?thesis by (simp add: unsigned_ucast_eq take_bit_nat_eq_self)
qed

lemma unat_ucast_down: "unat nb < 2 ^ 32 \<Longrightarrow> unat (ucast (nb :: u64) :: u32) = unat nb"
  by (simp add: unsigned_ucast_eq take_bit_nat_eq_self)

lemma ucast_down_of_nat: "(ucast (nb :: u64) :: u32) = of_nat (unat nb)"
  by (simp add: unsigned_ucast_eq)

lemma nb_free:
  assumes "xsk_counters (2 ^ k) s l p" "k < 32" "size_of_ring (pr s) = of_nat (2 ^ k)" "xsk_prod_nb_free (pr s) (mem s) nb = (f, r)"
  shows "\<exists>l'. xsk_counters (2 ^ k) (s\<lparr>pr := r\<rparr>) l' p \<and> unat f = l' + 2 ^ k - reserved s \<and> (f < nb \<longrightarrow> l' = released s)"
    "mask_of r = mask_of (pr s)" "size_of_ring r = size_of_ring (pr s)" "cached_prod r = cached_prod (pr s)"
proof -
  have big: "(2 :: nat) ^ k < 2 ^ 32" using assms(2) by (rule power_strict_increasing) simp
  note c = assms(1) [unfolded xsk_counters_def]
  have F: "unat (cached_cons (pr s) - cached_prod (pr s)) = l + 2 ^ k - reserved s"
    using c big of_nat_diff_word [of "reserved s" "l + 2 ^ k"] by auto
  have F': "unat (consumer (mem s) + size_of_ring (pr s) - cached_prod (pr s)) = released s + 2 ^ k - reserved s"
    using c big of_nat_diff_word [of "reserved s" "released s + 2 ^ k"] assms(3) by auto
  show "\<exists>l'. xsk_counters (2 ^ k) (s\<lparr>pr := r\<rparr>) l' p \<and> unat f = l' + 2 ^ k - reserved s \<and> (f < nb \<longrightarrow> l' = released s)"
    "mask_of r = mask_of (pr s)" "size_of_ring r = size_of_ring (pr s)" "cached_prod r = cached_prod (pr s)"
  proof -
    show "\<exists>l'. xsk_counters (2 ^ k) (s\<lparr>pr := r\<rparr>) l' p \<and> unat f = l' + 2 ^ k - reserved s \<and> (f < nb \<longrightarrow> l' = released s)"
    proof (cases "cached_cons (pr s) - cached_prod (pr s) \<ge> nb")
      case True
      then have "f = cached_cons (pr s) - cached_prod (pr s)" "r = pr s" using assms(4) by (auto simp: xsk_prod_nb_free_def)
      then show ?thesis using assms(1) F True by (intro exI [of _ l]) auto
    next
      case False
      then have "f = consumer (mem s) + size_of_ring (pr s) - cached_prod (pr s)"
        "r = (pr s)\<lparr>cached_cons := consumer (mem s) + size_of_ring (pr s)\<rparr>"
        using assms(4) by (auto simp: xsk_prod_nb_free_def Let_def)
      then show ?thesis using c F' assms(3) by (intro exI [of _ "released s"]) (auto simp: xsk_counters_def)
    qed
    show "mask_of r = mask_of (pr s)" "size_of_ring r = size_of_ring (pr s)" "cached_prod r = cached_prod (pr s)"
      using assms(4) by (auto simp: xsk_prod_nb_free_def Let_def split: if_splits)
  qed
qed

lemma reserve_counters:
  assumes "xsk_counters (2 ^ k) s l p" "k < 32" "size_of_ring (pr s) = of_nat (2 ^ k)"
    "xsk_ring_prod__reserve (pr s) (mem s) nb = (n, idx, r)"
  shows "\<exists>l'. xsk_counters (2 ^ k) (s\<lparr>pr := r, reserved := reserved s + unat n\<rparr>) l' p"
    "mask_of r = mask_of (pr s)" "size_of_ring r = size_of_ring (pr s)"
    "n = (if unat nb \<le> released s + 2 ^ k - reserved s then nb else 0)"
    "n \<noteq> 0 \<Longrightarrow> idx = Some (of_nat (reserved s))"
proof -
  have big: "(2 :: nat) ^ k < 2 ^ 32" using assms(2) by (rule power_strict_increasing) simp
  obtain f r1 where f: "xsk_prod_nb_free (pr s) (mem s) (ucast nb) = (f, r1)" by fastforce
  obtain l' where l': "xsk_counters (2 ^ k) (s\<lparr>pr := r1\<rparr>) l' p" "unat f = l' + 2 ^ k - reserved s" "f < ucast nb \<longrightarrow> l' = released s"
    using nb_free(1) [OF assms(1-3) f] by blast
  note keep = nb_free(2-4) [OF assms(1-3) f]
  note c = l'(1) [unfolded xsk_counters_def, simplified]
  have bound: "released s + 2 ^ k - reserved s < 2 ^ 32" "unat f \<le> released s + 2 ^ k - reserved s"
    using c big l'(2) by auto
  have test: "(ucast f < nb) = (unat f < unat nb)" by (simp add: word_less_nat_alt unat_ucast_up)
  show "mask_of r = mask_of (pr s)" "size_of_ring r = size_of_ring (pr s)"
    using assms(4) f keep by (auto simp: xsk_ring_prod__reserve_def split: if_splits)
  have small: "unat nb \<le> released s + 2 ^ k - reserved s \<Longrightarrow> unat f < unat nb \<Longrightarrow> False"
  proof -
    assume a: "unat nb \<le> released s + 2 ^ k - reserved s" "unat f < unat nb"
    then have "unat (ucast nb :: u32) = unat nb" using bound by (intro unat_ucast_down) simp
    then have "f < ucast nb" using a(2) by (simp add: word_less_nat_alt)
    with l'(2,3) a show False by simp
  qed
  show n: "n = (if unat nb \<le> released s + 2 ^ k - reserved s then nb else 0)"
    using assms(4) f test small bound(2) by (auto simp: xsk_ring_prod__reserve_def split: if_splits)
  show "n \<noteq> 0 \<Longrightarrow> idx = Some (of_nat (reserved s))"
    using assms(4) f keep c by (auto simp: xsk_ring_prod__reserve_def split: if_splits)
  show "\<exists>l'. xsk_counters (2 ^ k) (s\<lparr>pr := r, reserved := reserved s + unat n\<rparr>) l' p"
  proof (cases "unat f < unat nb")
    case True
    then have "(0, None, r1) = (n, idx, r)" using assms(4) f test by (simp add: xsk_ring_prod__reserve_def)
    then have "n = 0" "r = r1" by simp_all
    then show ?thesis using l'(1) by auto
  next
    case False
    then have "xsk_ring_prod__reserve (pr s) (mem s) nb = (nb, Some (cached_prod r1), r1\<lparr>cached_prod := cached_prod r1 + ucast nb\<rparr>)"
      using f test by (simp add: xsk_ring_prod__reserve_def)
    then have "n = nb" "r = r1\<lparr>cached_prod := cached_prod r1 + ucast nb\<rparr>" unfolding assms(4) by auto
    moreover have "reserved s + unat nb \<le> l' + 2 ^ k" using False l'(2) c by linarith
    ultimately show ?thesis using c by (intro exI [of _ l']) (auto simp: xsk_counters_def)
  qed
qed

lemma peek_counters:
  assumes "xsk_counters (2 ^ k) s l p" "k < 32" "xsk_ring_cons__peek (co s) (mem s) nb = (n, idx, r)"
  shows "\<exists>p'. xsk_counters (2 ^ k) (s\<lparr>co := r, peeked := peeked s + unat n\<rparr>) l p'" "mask_of r = mask_of (co s)"
    "n \<noteq> 0 \<Longrightarrow> idx = Some (of_nat (peeked s))" "n = 0 \<longleftrightarrow> peeked s = submitted s \<or> (ucast nb :: u32) = 0"
proof -
  have big: "(2 :: nat) ^ k < 2 ^ 32" using assms(2) by (rule power_strict_increasing) simp
  note c = assms(1) [unfolded xsk_counters_def]
  have E: "unat (cached_prod (co s) - cached_cons (co s)) = p - peeked s"
    using c big of_nat_diff_word [of "peeked s" p] by auto
  have E': "unat (producer (mem s) - cached_cons (co s)) = submitted s - peeked s"
    using c big of_nat_diff_word [of "peeked s" "submitted s"] by auto
  define p' where "p' = (if p = peeked s then submitted s else p)"
  define e where "e = (if p = peeked s then producer (mem s) - cached_cons (co s) else cached_prod (co s) - cached_cons (co s))"
  define r1 where "r1 = (if p = peeked s then (co s)\<lparr>cached_prod := producer (mem s)\<rparr> else co s)"
  have e: "unat e = p' - peeked s" using E E' by (simp add: e_def p'_def)
  have zero: "cached_prod (co s) - cached_cons (co s) = 0 \<longleftrightarrow> p = peeked s"
    using E c by (metis diff_is_0_eq' diff_self_eq_0 le_antisym unat_eq_zero diffs0_imp_equal)
  have avail: "xsk_cons_nb_avail (co s) (mem s) m = (if e > m then m else e, r1)" for m
    using zero by (simp add: xsk_cons_nb_avail_def Let_def e_def r1_def)
  have c1: "xsk_counters (2 ^ k) (s\<lparr>co := r1\<rparr>) l p'" using c by (auto simp: xsk_counters_def r1_def p'_def)
  define m where "m = (if e > ucast nb then ucast nb else e)"
  have m: "m \<le> e" "m = 0 \<longleftrightarrow> e = 0 \<or> (ucast nb :: u32) = 0" by (auto simp: m_def word_gt_0)
  have run: "(n, idx, r) = (if m > 0 then (ucast m, Some (cached_cons r1), r1\<lparr>cached_cons := cached_cons r1 + m\<rparr>) else (ucast m, None, r1))"
    using assms(3) by (simp add: xsk_ring_cons__peek_def avail flip: m_def)
  have n: "unat n = unat m" using run by (auto simp: unat_ucast_up split: if_splits)
  have le: "peeked s + unat m \<le> p'" using m(1) e c1 by (auto simp: word_le_nat_alt xsk_counters_def)
  show "mask_of r = mask_of (co s)" using run by (auto simp: r1_def split: if_splits)
  show "n \<noteq> 0 \<Longrightarrow> idx = Some (of_nat (peeked s))"
    using run c by (auto simp: r1_def word_gt_0 split: if_splits)
  have "n = 0 \<longleftrightarrow> m = 0" using n by (metis unat_eq_zero)
  moreover have "e = 0 \<longleftrightarrow> peeked s = submitted s" using e c by (auto simp: p'_def unat_eq_zero [symmetric] simp del: unat_eq_zero)
  ultimately show "n = 0 \<longleftrightarrow> peeked s = submitted s \<or> (ucast nb :: u32) = 0" using m(2) by blast
  have "r = r1\<lparr>cached_cons := cached_cons r1 + m\<rparr>" using run by (cases "m = 0") (auto simp: word_gt_0)
  then show "\<exists>p'. xsk_counters (2 ^ k) (s\<lparr>co := r, peeked := peeked s + unat n\<rparr>) l p'"
    using c1 le n by (intro exI [of _ p']) (auto simp: xsk_counters_def)
qed

lemma xsk_invI:
  assumes "xsk_counters sz s l p" "mask_of (pr s) = of_nat sz - 1" "mask_of (co s) = of_nat sz - 1" "size_of_ring (pr s) = of_nat sz"
    "length (slots (mem s)) = sz" "\<And>i. released s \<le> i \<Longrightarrow> i < submitted s \<Longrightarrow> slots (mem s) ! (i mod sz) = sent s i"
  shows "xsk_inv sz s"
  using assms by (auto simp: xsk_inv_def)

lemma xsk_inv_init: "k < 32 \<Longrightarrow> xsk_inv (2 ^ k) (xsk_init (2 ^ k) v)"
  by (auto simp: xsk_inv_def xsk_init_def xsk_counters_def)

lemma xsk_inv_step:
  assumes "xsk_step s s'" "xsk_inv (2 ^ k) s" "k < 32"
  shows "xsk_inv (2 ^ k) s'"
  using assms(1,2)
proof (cases rule: xsk_step.cases)
  case (producer_reserves nb n idx r)
  obtain l p where c: "xsk_counters (2 ^ k) s l p" using assms(2) by (auto simp: xsk_inv_def)
  have "size_of_ring (pr s) = of_nat (2 ^ k)" using assms(2) by (simp add: xsk_inv_def)
  note res = reserve_counters [OF c assms(3) this producer_reserves(2)]
  obtain l' where "xsk_counters (2 ^ k) s' l' p" using res(1) producer_reserves(1) by auto
  then show ?thesis by (rule xsk_invI) (use assms(2) res(2,3) producer_reserves(1) in \<open>auto simp: xsk_inv_def\<close>)
next
  case (producer_writes i v)
  obtain l p where c: "xsk_counters (2 ^ k) s l p" using assms(2) by (auto simp: xsk_inv_def)
  have at: "xsk_ring_prod__fill_addr (pr s) (of_nat i) = i mod 2 ^ k"
    using assms(2) slot_index [OF assms(3)] by (simp add: xsk_ring_prod__fill_addr_def xsk_inv_def)
  have "i mod 2 ^ k \<noteq> j mod 2 ^ k" if "released s \<le> j" "j < submitted s" for j
    using that c producer_writes(2,3) by (intro mod_ne) (auto simp: xsk_counters_def)
  moreover have "xsk_counters (2 ^ k) s' l p" using c producer_writes(1) by (simp add: xsk_counters_def)
  ultimately show ?thesis by (intro xsk_invI) (use assms(2) producer_writes(1) at in \<open>auto simp: xsk_inv_def\<close>)
next
  case (producer_submits nb)
  obtain l p where c: "xsk_counters (2 ^ k) s l p" using assms(2) by (auto simp: xsk_inv_def)
  have at: "xsk_ring_prod__fill_addr (pr s) (of_nat i) = i mod 2 ^ k" for i
    using assms(2) slot_index [OF assms(3)] by (simp add: xsk_ring_prod__fill_addr_def xsk_inv_def)
  have "xsk_counters (2 ^ k) s' l p"
    using c producer_submits by (auto simp: xsk_counters_def xsk_ring_prod__submit_def)
  then show ?thesis
    by (rule xsk_invI) (use assms(2) producer_submits(1) at in \<open>auto simp: xsk_inv_def xsk_ring_prod__submit_def\<close>)
next
  case (consumer_peeks nb n idx r)
  obtain l p where c: "xsk_counters (2 ^ k) s l p" using assms(2) by (auto simp: xsk_inv_def)
  note res = peek_counters(1,2) [OF c assms(3) consumer_peeks(2)]
  obtain p' where "xsk_counters (2 ^ k) s' l p'" using res(1) consumer_peeks(1) by auto
  then show ?thesis by (rule xsk_invI) (use assms(2) res(2) consumer_peeks(1) in \<open>auto simp: xsk_inv_def\<close>)
next
  case (consumer_releases nb)
  obtain l p where c: "xsk_counters (2 ^ k) s l p" using assms(2) by (auto simp: xsk_inv_def)
  then have "xsk_counters (2 ^ k) s' l p"
    using consumer_releases by (auto simp: xsk_counters_def xsk_ring_cons__release_def)
  then show ?thesis
    by (rule xsk_invI) (use assms(2) consumer_releases(1) in \<open>auto simp: xsk_inv_def xsk_ring_cons__release_def\<close>)
qed

lemma xsk_reachable_inv: "xsk_reachable (2 ^ k) v s \<Longrightarrow> k < 32 \<Longrightarrow> xsk_inv (2 ^ k) s"
  unfolding xsk_reachable_def
  by (induction rule: rtranclp_induct) (auto intro: xsk_inv_init xsk_inv_step)

text \<open>C24. A ring is a queue: in every state that calls of a producer and a consumer can reach, in any order and
however often the 32-bit counters have wrapped around, the entries the consumer may read are exactly the
submitted ones in their order, a reservation is granted exactly while it fits beside the entries that are
not released, and a peek comes back empty-handed only if nothing is left or nothing was asked for.\<close>

theorem xsk_ring_is_queue:
  assumes "xsk_reachable (2 ^ k) v s" "k < 32"
  shows "released s \<le> peeked s \<and> peeked s \<le> submitted s \<and> submitted s \<le> reserved s \<and> reserved s \<le> released s + 2 ^ k \<and>
    (\<forall>i. released s \<le> i \<and> i < submitted s \<longrightarrow> slots (mem s) ! xsk_ring_cons__rx_desc (co s) (of_nat i) = sent s i) \<and>
    (\<forall>nb n idx r. xsk_ring_prod__reserve (pr s) (mem s) nb = (n, idx, r) \<longrightarrow>
       n = (if unat nb \<le> released s + 2 ^ k - reserved s then nb else 0) \<and> (n \<noteq> 0 \<longrightarrow> idx = Some (of_nat (reserved s)))) \<and>
    (\<forall>nb n idx r. xsk_ring_cons__peek (co s) (mem s) nb = (n, idx, r) \<longrightarrow>
       (n \<noteq> 0 \<longrightarrow> idx = Some (of_nat (peeked s))) \<and> (n = 0 \<longleftrightarrow> peeked s = submitted s \<or> (ucast nb :: u32) = 0))"
proof -
  have inv: "xsk_inv (2 ^ k) s" by (rule xsk_reachable_inv [OF assms])
  then obtain l p where c: "xsk_counters (2 ^ k) s l p" by (auto simp: xsk_inv_def)
  have at: "xsk_ring_cons__rx_desc (co s) (of_nat i) = i mod 2 ^ k" for i
    using inv slot_index [OF assms(2)] by (simp add: xsk_ring_cons__rx_desc_def xsk_inv_def)
  have sz: "size_of_ring (pr s) = of_nat (2 ^ k)" using inv by (simp add: xsk_inv_def)
  show ?thesis
    using c inv reserve_counters(4,5) [OF c assms(2) sz] peek_counters(3,4) [OF c assms(2)]
    by (auto simp: xsk_counters_def xsk_inv_def at)
qed

text \<open>A ring of four entries in which three have been reserved and two submitted.\<close>

lemma xsk_ring_is_queue_witness:
  "\<exists>s :: nat xsk_sys. xsk_reachable 4 0 s \<and> reserved s = 3 \<and> submitted s = 2 \<and>
    (\<forall>nb n idx r. xsk_ring_prod__reserve (pr s) (mem s) nb = (n, idx, r) \<longrightarrow> n = (if unat nb \<le> 1 then nb else 0))"
proof -
  let ?s0 = "xsk_init 4 0 :: nat xsk_sys"
  obtain n idx r where r: "xsk_ring_prod__reserve (pr ?s0) (mem ?s0) 3 = (n, idx, r)" by (metis prod_cases3)
  then have n: "n = 3" by (auto simp: xsk_ring_prod__reserve_def xsk_prod_nb_free_def xsk_init_def Let_def split: if_splits)
  let ?s1 = "?s0\<lparr>pr := r, reserved := reserved ?s0 + unat n\<rparr>"
  have one: "xsk_step ?s0 ?s1" by (rule producer_reserves [OF r])
  have "submitted ?s1 + unat (2 :: u64) \<le> reserved ?s1" by (simp add: n xsk_init_def)
  from producer_submits [OF this] obtain s2 where two: "xsk_step ?s1 s2" "reserved s2 = 3" "submitted s2 = 2" "released s2 = 0"
    by (auto simp: n xsk_init_def)
  have "xsk_reachable (2 ^ 2) 0 s2"
    unfolding xsk_reachable_def using one two(1) by (simp add: rtranclp.rtrancl_into_rtrancl [OF r_into_rtranclp])
  moreover from xsk_ring_is_queue [OF this] have free:
    "\<forall>nb n idx r. xsk_ring_prod__reserve (pr s2) (mem s2) nb = (n, idx, r) \<longrightarrow> n = (if unat nb \<le> 1 then nb else 0)"
    using two by simp
  ultimately show ?thesis using two(2,3) by (intro exI [of _ s2] conjI) simp_all
qed

section \<open>Splitting an address\<close>

lemma extract_roundtrip:
  "push_bit XSK_UNALIGNED_BUF_OFFSET_SHIFT (xsk_umem__extract_offset addr) OR xsk_umem__extract_addr addr = addr"
proof -
  have m: "XSK_UNALIGNED_BUF_ADDR_MASK = mask 48"
    by (simp add: XSK_UNALIGNED_BUF_ADDR_MASK_def XSK_UNALIGNED_BUF_OFFSET_SHIFT_def mask_eq_exp_minus_1 push_bit_eq_mult)
  show ?thesis
    unfolding xsk_umem__extract_offset_def xsk_umem__extract_addr_def m XSK_UNALIGNED_BUF_OFFSET_SHIFT_def
    by (rule bit_eqI) (auto simp: bit_simps)
qed

end
