(* ===== verification/Jhash.thy ===== *)
theory Jhash
  imports Bytes
begin

text \<open>
  headers/jhash.h: Jenkins' hash functions over bytes and over 32-bit words. A load outside the
  key's memory or array is a fault (\<^term>\<open>None\<close>). The words of \<open>jhash\<close> are loaded little-endian.
\<close>

section \<open>The hash functions\<close>

definition rol32 :: "u32 \<Rightarrow> u32 \<Rightarrow> u32" where
  "rol32 w s = push_bit (unat s) w OR drop_bit (unat ((- s) AND 31)) w"

definition jhash_mix :: "u32 \<Rightarrow> u32 \<Rightarrow> u32 \<Rightarrow> u32 \<times> u32 \<times> u32" where
  "jhash_mix a b c =
     (let a = a - c; a = a XOR rol32 c 4; c = c + b;
          b = b - a; b = b XOR rol32 a 6; a = a + c;
          c = c - b; c = c XOR rol32 b 8; b = b + a;
          a = a - c; a = a XOR rol32 c 16; c = c + b;
          b = b - a; b = b XOR rol32 a 19; a = a + c;
          c = c - b; c = c XOR rol32 b 4; b = b + a
      in (a, b, c))"

definition jhash_final :: "u32 \<Rightarrow> u32 \<Rightarrow> u32 \<Rightarrow> u32 \<times> u32 \<times> u32" where
  "jhash_final a b c =
     (let c = c XOR b; c = c - rol32 b 14;
          a = a XOR c; a = a - rol32 c 11;
          b = b XOR a; b = b - rol32 a 25;
          c = c XOR b; c = c - rol32 b 16;
          a = a XOR c; a = a - rol32 c 4;
          b = b XOR a; b = b - rol32 a 14;
          c = c XOR b; c = c - rol32 b 24
      in (a, b, c))"

definition JHASH_INITVAL :: u32 where "JHASH_INITVAL = 0xdeadbeef"

text \<open>The loop over all but the last block; it ends with what is left of the key.\<close>

fun jhash_loop :: "bytes \<Rightarrow> nat \<Rightarrow> nat \<Rightarrow> u32 \<Rightarrow> u32 \<Rightarrow> u32 \<Rightarrow> (nat \<times> nat \<times> u32 \<times> u32 \<times> u32) option" where
  "jhash_loop m k len a b c =
     (if len > 12 then do {
        x \<leftarrow> load32 m k; y \<leftarrow> load32 m (k + 4); z \<leftarrow> load32 m (k + 8);
        let (a, b, c) = jhash_mix (a + x) (b + y) (c + z);
        jhash_loop m (k + 12) (len - 12) a b c
      } else Some (k, len, a, b, c))"

declare jhash_loop.simps [simp del]

text \<open>One case of the switch over the last block: byte \<open>i\<close>, added if the rest is longer than \<open>i\<close>.\<close>

definition jhash_case :: "bytes \<Rightarrow> nat \<Rightarrow> nat \<Rightarrow> nat \<Rightarrow> nat \<Rightarrow> u32 \<Rightarrow> u32 option" where
  "jhash_case m k len i shift x =
     (if i < len then do { b \<leftarrow> load8 m (k + i); Some (x + push_bit shift (ucast b)) } else Some x)"

definition jhash_last :: "bytes \<Rightarrow> nat \<Rightarrow> nat \<Rightarrow> u32 \<Rightarrow> u32 \<Rightarrow> u32 \<Rightarrow> u32 option" where
  "jhash_last m k len a b c = do {
     c \<leftarrow> jhash_case m k len 11 24 c;
     c \<leftarrow> jhash_case m k len 10 16 c;
     c \<leftarrow> jhash_case m k len 9 8 c;
     c \<leftarrow> jhash_case m k len 8 0 c;
     b \<leftarrow> jhash_case m k len 7 24 b;
     b \<leftarrow> jhash_case m k len 6 16 b;
     b \<leftarrow> jhash_case m k len 5 8 b;
     b \<leftarrow> jhash_case m k len 4 0 b;
     a \<leftarrow> jhash_case m k len 3 24 a;
     a \<leftarrow> jhash_case m k len 2 16 a;
     a \<leftarrow> jhash_case m k len 1 8 a;
     a \<leftarrow> jhash_case m k len 0 0 a;
     Some (if len = 0 then c else snd (snd (jhash_final a b c)))
   }"

definition jhash :: "bytes \<Rightarrow> nat \<Rightarrow> u32 \<Rightarrow> u32 \<Rightarrow> u32 option" where
  "jhash m key len initval = do {
     let s = JHASH_INITVAL + len + initval;
     (k, len, a, b, c) \<leftarrow> jhash_loop m key (unat len) s s s;
     jhash_last m k len a b c
   }"

fun jhash2_loop :: "u32 list \<Rightarrow> nat \<Rightarrow> nat \<Rightarrow> u32 \<Rightarrow> u32 \<Rightarrow> u32 \<Rightarrow> (nat \<times> nat \<times> u32 \<times> u32 \<times> u32) option" where
  "jhash2_loop ks k len a b c =
     (if len > 3 then do {
        x \<leftarrow> arr_get ks k; y \<leftarrow> arr_get ks (k + 1); z \<leftarrow> arr_get ks (k + 2);
        let (a, b, c) = jhash_mix (a + x) (b + y) (c + z);
        jhash2_loop ks (k + 3) (len - 3) a b c
      } else Some (k, len, a, b, c))"

declare jhash2_loop.simps [simp del]

definition jhash2_last :: "u32 list \<Rightarrow> nat \<Rightarrow> nat \<Rightarrow> u32 \<Rightarrow> u32 \<Rightarrow> u32 \<Rightarrow> u32 option" where
  "jhash2_last ks k len a b c = do {
     c \<leftarrow> (if len \<ge> 3 then do { x \<leftarrow> arr_get ks (k + 2); Some (c + x) } else Some c);
     b \<leftarrow> (if len \<ge> 2 then do { x \<leftarrow> arr_get ks (k + 1); Some (b + x) } else Some b);
     a \<leftarrow> (if len \<ge> 1 then do { x \<leftarrow> arr_get ks k; Some (a + x) } else Some a);
     Some (if len = 0 then c else snd (snd (jhash_final a b c)))
   }"

definition jhash2 :: "u32 list \<Rightarrow> u32 \<Rightarrow> u32 \<Rightarrow> u32 option" where
  "jhash2 ks len initval = do {
     let s = JHASH_INITVAL + push_bit 2 len + initval;
     (k, len, a, b, c) \<leftarrow> jhash2_loop ks 0 (unat len) s s s;
     jhash2_last ks k len a b c
   }"

definition jhash_nwords :: "u32 \<Rightarrow> u32 \<Rightarrow> u32 \<Rightarrow> u32 \<Rightarrow> u32" where
  "jhash_nwords a b c initval = snd (snd (jhash_final (a + initval) (b + initval) (c + initval)))"

definition jhash_3words :: "u32 \<Rightarrow> u32 \<Rightarrow> u32 \<Rightarrow> u32 \<Rightarrow> u32" where
  "jhash_3words a b c initval = jhash_nwords a b c (initval + JHASH_INITVAL + push_bit 2 3)"

definition jhash_2words :: "u32 \<Rightarrow> u32 \<Rightarrow> u32 \<Rightarrow> u32" where
  "jhash_2words a b initval = jhash_nwords a b 0 (initval + JHASH_INITVAL + push_bit 2 2)"

definition jhash_1word :: "u32 \<Rightarrow> u32 \<Rightarrow> u32" where
  "jhash_1word a initval = jhash_nwords a 0 0 (initval + JHASH_INITVAL + push_bit 2 1)"

section \<open>Words and their bytes\<close>

text \<open>A loaded word is the sum of its four bytes at their places.\<close>

lemma le16_sum: "(ucast (le16 b0 b1) :: u32) = ucast b0 + push_bit 8 (ucast b1)"
proof -
  have "(ucast (le16 b0 b1) :: u32) = ucast b0 OR push_bit 8 (ucast b1)"
  proof (rule bit_word_eqI)
    fix n
    show "bit (ucast (le16 b0 b1) :: u32) n = bit (ucast b0 OR push_bit 8 (ucast b1) :: u32) n" if "n < LENGTH(32)"
      using that bit_byte_out [of "n - 8" b1] bit_byte_out [of n b0] by (cases "n < 16") (auto simp: le16_def bit_simps)
  qed
  moreover have "(ucast b0 :: u32) AND push_bit 8 (ucast b1) = 0"
    by (rule bit_word_eqI) (auto simp: bit_simps bit_byte_out)
  ultimately show ?thesis by (simp add: disjunctive_add_eq_or)
qed

lemma bit_half_out: "16 \<le> n \<Longrightarrow> \<not> bit (b :: u16) n"
  using bit_imp_le_length [of b n] by auto

lemma le32_sum: "le32 lo hi = ucast lo + push_bit 16 (ucast hi)"
proof -
  have "(ucast lo :: u32) AND push_bit 16 (ucast hi) = 0"
    by (rule bit_word_eqI) (auto simp: bit_simps bit_half_out)
  then show ?thesis by (simp add: le32_def disjunctive_add_eq_or)
qed

lemma load32_bytes:
  assumes "load32 m k = Some w"
  obtains b0 b1 b2 b3 where "load8 m k = Some b0" "load8 m (k + 1) = Some b1" "load8 m (k + 2) = Some b2" "load8 m (k + 3) = Some b3"
    "w = ucast b0 + push_bit 8 (ucast b1) + push_bit 16 (ucast b2) + push_bit 24 (ucast b3)"
proof -
  obtain b0 b1 b2 b3 where b: "load8 m k = Some b0" "load8 m (k + 1) = Some b1" "load8 m (k + 2) = Some b2" "load8 m (k + 3) = Some b3"
    and w: "w = le32 (le16 b0 b1) (le16 b2 b3)"
    using assms by (auto simp: load32_def load16_def eval_nat_numeral split: Option.bind_splits)
  have "push_bit 16 (x + push_bit 8 y) = push_bit 16 x + push_bit 24 y" for x y :: u32
    by (simp add: push_bit_eq_mult algebra_simps)
  then show ?thesis using that [OF b] w by (simp add: le32_sum le16_sum add.assoc)
qed

text \<open>The four cases of one word.\<close>

lemma jhash_cases_word:
  assumes "load32 m (k + i) = Some w" "i + 3 < len"
  shows "do {
     x \<leftarrow> jhash_case m k len (i + 3) 24 x; x \<leftarrow> jhash_case m k len (i + 2) 16 x;
     x \<leftarrow> jhash_case m k len (i + 1) 8 x; x \<leftarrow> jhash_case m k len i 0 x; f x } = f (x + w)"
proof -
  obtain b0 b1 b2 b3 where "load8 m (k + i) = Some b0" "load8 m (k + i + 1) = Some b1" "load8 m (k + i + 2) = Some b2"
    "load8 m (k + i + 3) = Some b3" "w = ucast b0 + push_bit 8 (ucast b1) + push_bit 16 (ucast b2) + push_bit 24 (ucast b3)"
    by (rule load32_bytes [OF assms(1)])
  then show ?thesis using assms(2) by (simp add: jhash_case_def ac_simps)
qed

lemma jhash_cases_none:
  "len \<le> i \<Longrightarrow> do {
     x \<leftarrow> jhash_case m k len (i + 3) 24 x; x \<leftarrow> jhash_case m k len (i + 2) 16 x;
     x \<leftarrow> jhash_case m k len (i + 1) 8 x; x \<leftarrow> jhash_case m k len i 0 x; f x } = f x"
  by (simp add: jhash_case_def)

section \<open>Both hash functions agree\<close>

definition words_at :: "bytes \<Rightarrow> nat \<Rightarrow> u32 list \<Rightarrow> nat \<Rightarrow> nat \<Rightarrow> bool" where
  "words_at m k ws i n \<longleftrightarrow> i + n \<le> length ws \<and> (\<forall>j<n. load32 m (k + 4 * j) = Some (ws ! (i + j)))"

lemma words_at_load:
  assumes "words_at m k ws i n" "j < n"
  shows "load32 m (k + 4 * j) = Some (ws ! (i + j))" "arr_get ws (i + j) = Some (ws ! (i + j))"
  using assms by (simp_all add: words_at_def arr_get_def)

lemma words_at_drop:
  assumes "words_at m k ws i n" "3 \<le> n"
  shows "words_at m (k + 12) ws (i + 3) (n - 3)"
  unfolding words_at_def
proof (intro conjI allI impI)
  show "i + 3 + (n - 3) \<le> length ws" using assms by (simp add: words_at_def)
  fix j
  assume "j < n - 3"
  then have "load32 m (k + 4 * (j + 3)) = Some (ws ! (i + (j + 3)))"
    using words_at_load(1) [OF assms(1), of "j + 3"] by linarith
  then show "load32 m (k + 12 + 4 * j) = Some (ws ! (i + 3 + j))" by (simp add: algebra_simps)
qed

lemma jhash_last_words:
  assumes "words_at m k ws i n" "n \<le> 3"
  shows "jhash_last m k (4 * n) a b c = jhash2_last ws i n a b c"
proof -
  note at = words_at_load [OF assms(1)]
  have w: "load32 m (k + 4 * j) = Some (ws ! (i + j))" "arr_get ws (i + j) = Some (ws ! (i + j))" if "j < n" for j using at that by blast+
  have first: "n \<ge> 1 \<Longrightarrow> load32 m (k + 0) = Some (ws ! i) \<and> arr_get ws i = Some (ws ! i)" using w [of 0] by simp
  have second: "n \<ge> 2 \<Longrightarrow> load32 m (k + 4) = Some (ws ! (i + 1)) \<and> arr_get ws (i + 1) = Some (ws ! (i + 1))" using w [of 1] by simp
  have third: "n \<ge> 3 \<Longrightarrow> load32 m (k + 8) = Some (ws ! (i + 2)) \<and> arr_get ws (i + 2) = Some (ws ! (i + 2))" using w [of 2] by simp
  have n: "n = 0 \<or> n = 1 \<or> n = 2 \<or> n = 3" using assms(2) by auto
  note word = jhash_cases_word [of m k 0, simplified add_0 add_0_right One_nat_def] jhash_cases_word [of m k 4, simplified] jhash_cases_word [of m k 8, simplified]
  note none = jhash_cases_none [of _ 0, simplified add_0 One_nat_def] jhash_cases_none [of _ 4, simplified] jhash_cases_none [of _ 8, simplified]
  from n show ?thesis
    using first second third
    by (elim disjE) (simp add: jhash_last_def jhash2_last_def jhash_case_def, simp_all add: jhash_last_def jhash2_last_def word none)
qed

lemma jhash_loop_words:
  assumes "words_at m k ws i n"
  shows "do { (k, len, a, b, c) \<leftarrow> jhash_loop m k (4 * n) a b c; jhash_last m k len a b c } =
    do { (k, len, a, b, c) \<leftarrow> jhash2_loop ws i n a b c; jhash2_last ws k len a b c }"
  using assms
proof (induction n arbitrary: k i a b c rule: less_induct)
  case (less n)
  show ?case
  proof (cases "n \<le> 3")
    case True
    then show ?thesis
      using jhash_last_words [OF less.prems] by (simp add: jhash_loop.simps [of m k "4 * n"] jhash2_loop.simps [of ws i n])
  next
    case False
    have len: "4 * n - 12 = 4 * (n - 3)" by simp
    have w: "load32 m k = Some (ws ! i)" "load32 m (k + 4) = Some (ws ! (i + 1))" "load32 m (k + 8) = Some (ws ! (i + 2))"
      "arr_get ws i = Some (ws ! i)" "arr_get ws (i + 1) = Some (ws ! (i + 1))" "arr_get ws (i + 2) = Some (ws ! (i + 2))"
      using words_at_load [OF less.prems, of 0] words_at_load [OF less.prems, of 1] words_at_load [OF less.prems, of 2] False
      by simp_all
    obtain a' b' c' where mix: "jhash_mix (a + ws ! i) (b + ws ! (i + 1)) (c + ws ! (i + 2)) = (a', b', c')"
      by (metis prod_cases3)
    have "words_at m (k + 12) ws (i + 3) (n - 3)" using words_at_drop [OF less.prems] False by simp
    from less.IH [OF _ this, of a' b' c'] False show ?thesis
      using w mix by (simp add: jhash_loop.simps [of m k "4 * n"] jhash2_loop.simps [of ws i n] len)
  qed
qed

lemma jhash2_total: "i + n \<le> length ws \<Longrightarrow>
  \<exists>h. do { (k, len, a, b, c) \<leftarrow> jhash2_loop ws i n a b c; jhash2_last ws k len a b c } = Some h"
proof (induction n arbitrary: i a b c rule: less_induct)
  case (less n)
  show ?case
  proof (cases "n \<le> 3")
    case True
    with less.prems show ?thesis by (simp add: jhash2_loop.simps [of ws i n] jhash2_last_def arr_get_def)
  next
    case False
    with less.prems less.IH [of "n - 3" "i + 3"] show ?thesis
      by (simp add: jhash2_loop.simps [of ws i n] arr_get_def split: prod.splits)
  qed
qed

lemma jhash2_short:
  "jhash2 [a] 1 iv = Some (jhash_1word a iv)"
  "jhash2 [a, b] 2 iv = Some (jhash_2words a b iv)"
  "jhash2 [a, b, c] 3 iv = Some (jhash_3words a b c iv)"
proof -
  have u: "unat (1 :: u32) = 1" "unat (2 :: u32) = 2" "unat (3 :: u32) = 3" by simp_all
  have loop: "n \<le> 3 \<Longrightarrow> jhash2_loop ks i n a b c = Some (i, n, a, b, c)" for ks i n a b c
    by (simp add: jhash2_loop.simps)
  have s: "push_bit 2 (1 :: u32) = 4" "push_bit 2 (2 :: u32) = 8" "push_bit 2 (3 :: u32) = 12" by simp_all
  show "jhash2 [a] 1 iv = Some (jhash_1word a iv)"
    unfolding jhash2_def u s Let_def by (simp add: loop jhash2_last_def arr_get_def jhash_1word_def jhash_nwords_def Let_def ac_simps)
  show "jhash2 [a, b] 2 iv = Some (jhash_2words a b iv)"
    unfolding jhash2_def u s Let_def by (simp add: loop jhash2_last_def arr_get_def jhash_2words_def jhash_nwords_def Let_def ac_simps)
  show "jhash2 [a, b, c] 3 iv = Some (jhash_3words a b c iv)"
    unfolding jhash2_def u s Let_def by (simp add: loop jhash2_last_def arr_get_def jhash_3words_def jhash_nwords_def Let_def ac_simps)
qed

text \<open>The two hash functions are the same function: the hash of an array of words is the hash of its bytes,
for every initial value, and neither reads outside the key; the functions for one, two and three words are
the hash of the array of those words.\<close>

theorem jhash_of_words:
  assumes "mem_read m key (4 * length ws) = Some (concat (map enc32 ws))" "length ws < 2 ^ 30"
  shows "\<exists>h. jhash m key (of_nat (4 * length ws)) iv = Some h \<and> jhash2 ws (of_nat (length ws)) iv = Some h \<and>
    (\<forall>a. ws = [a] \<longrightarrow> h = jhash_1word a iv) \<and> (\<forall>a b. ws = [a, b] \<longrightarrow> h = jhash_2words a b iv) \<and>
    (\<forall>a b c. ws = [a, b, c] \<longrightarrow> h = jhash_3words a b c iv)"
proof -
  obtain pre post where m: "m = pre @ concat (map enc32 ws) @ post" "length pre = key"
  proof -
    have "m = take key m @ concat (map enc32 ws) @ drop (4 * length ws) (drop key m)" "key \<le> length m"
      using assms(1) append_take_drop_id [of "4 * length ws" "drop key m"] append_take_drop_id [of key m]
      by (auto simp: mem_read_def simp del: append_take_drop_id drop_drop split: if_splits)
    then show ?thesis using that [of "take key m"] by simp
  qed
  have "words_at m key ws 0 (length ws)"
    unfolding m(1) using m(2)
  proof (induction ws arbitrary: pre key)
    case (Cons w ws)
    from Cons.IH [of "pre @ enc32 w" "key + 4"] Cons.prems have IH: "words_at ((pre @ enc32 w) @ concat (map enc32 ws) @ post) (key + 4) ws 0 (length ws)"
      by simp
    show ?case
      unfolding words_at_def
    proof (intro conjI allI impI)
      fix j
      assume "j < length (w # ws)"
      then show "load32 (pre @ concat (map enc32 (w # ws)) @ post) (key + 4 * j) = Some ((w # ws) ! (0 + j))"
        using IH Cons.prems load32_enc_at [of pre key w] by (cases j) (simp_all add: words_at_def algebra_simps)
    qed simp
  qed (simp add: words_at_def)
  note loop = jhash_loop_words [OF this]
  have len: "unat (of_nat (4 * length ws) :: u32) = 4 * length ws" "unat (of_nat (length ws) :: u32) = length ws"
    "push_bit 2 (of_nat (length ws) :: u32) = of_nat (4 * length ws)"
    using assms(2) unat_of_nat_u32 [of "4 * length ws"] by (simp_all add: unat_of_nat_u32 push_bit_eq_mult mult.commute)
  have same: "jhash m key (of_nat (4 * length ws)) iv = jhash2 ws (of_nat (length ws)) iv"
    unfolding jhash_def jhash2_def len Let_def by (rule loop)
  have total: "\<exists>h. jhash2 ws (of_nat (length ws)) iv = Some h"
    unfolding jhash2_def len Let_def by (rule jhash2_total) simp
  show ?thesis
    using same total by (auto simp: jhash2_short)
qed

text \<open>The bytes of two words behind two others.\<close>

lemma jhash_of_words_witness:
  "\<exists>h. jhash [9, 9, 1, 2, 3, 4, 5, 6, 7, 8] 2 8 7 = Some h \<and> h = jhash_2words 0x04030201 0x08070605 7"
proof -
  have "mem_read [9, 9, 1, 2, 3, 4, 5, 6, 7, 8] 2 (4 * length [0x04030201, 0x08070605 :: u32]) =
      Some (concat (map enc32 [0x04030201, 0x08070605]))"
    by (simp add: mem_read_def enc32_def enc16_def)
  from jhash_of_words [OF this, of 7] show ?thesis by auto
qed

end
