(* ===== verification/Linfo.thy ===== *)
theory Linfo
  imports Bytes
begin

text \<open>
  libbpf/src/bpf_prog_linfo.c: the source lines of a loaded program, found by the offset of an instruction
  or by an address in the compiled code. The arrays the kernel fills are lists; a pointer into the copied
  records is the offset of its record, and a load outside them a fault (\<^term>\<open>None\<close>). A NULL pointer
  in \<open>struct bpf_prog_info\<close> is \<^term>\<open>None\<close> too. The result of each allocation is an argument, and so is
  what the fresh memory holds.
\<close>

section \<open>Data\<close>

record bpf_prog_linfo =
  raw_linfo :: bytes
  raw_jited_linfo :: bytes
  nr_jited_linfo_per_func :: "u32 list"
  jited_linfo_func_idx :: "u32 list"
  nr_linfo :: u32
  nr_jited_func :: u32
  rec_size :: u32
  jited_rec_size :: u32

text \<open>The fields of the kernel's description of a program that are used here.\<close>

record bpf_prog_info =
  nr_line_info :: u32
  line_info_rec_size :: u32
  line_info :: bytes
  nr_jited_ksyms :: u32
  jited_ksyms :: "u64 list option"
  nr_jited_line_info :: u32
  jited_line_info_rec_size :: u32
  jited_line_info :: "bytes option"
  nr_jited_func_lens :: u32
  jited_func_lens :: "u32 list option"

definition le64 :: "u32 \<Rightarrow> u32 \<Rightarrow> u64" where
  "le64 lo hi = ucast lo OR push_bit 32 (ucast hi)"

definition load64 :: "bytes \<Rightarrow> nat \<Rightarrow> u64 option" where
  "load64 m a = do { lo \<leftarrow> load32 m a; hi \<leftarrow> load32 m (a + 4); Some (le64 lo hi) }"

section \<open>Taking the functions apart\<close>

text \<open>
  The loop over the addresses: \<open>pos\<close> is the offset of \<open>jited_linfo\<close> and \<open>cur\<close> the address there. The left
  result is the jump to \<open>errout\<close>.
\<close>

function dissect_loop ::
    "bpf_prog_linfo \<Rightarrow> u64 list \<Rightarrow> u32 list \<Rightarrow> nat \<Rightarrow> nat \<Rightarrow> nat \<Rightarrow> nat \<Rightarrow> u64 \<Rightarrow> (int + bpf_prog_linfo \<times> nat \<times> nat) option" where
  "dissect_loop pl ksym_func ksym_len prev_i i f pos cur =
     (if i < unat (nr_linfo pl) \<and> f < unat (nr_jited_func pl) then do {
        let pos = pos + unat (jited_rec_size pl);
        let last_jited_linfo = cur;
        cur \<leftarrow> load64 (raw_jited_linfo pl) pos;
        sym \<leftarrow> arr_get ksym_func f;
        if sym = cur then do {
          idx \<leftarrow> arr_set (jited_linfo_func_idx pl) f (of_nat i);
          sym1 \<leftarrow> arr_get ksym_func (f - 1);
          len1 \<leftarrow> arr_get ksym_len (f - 1);
          if last_jited_linfo - sym1 + 1 > ucast len1 then Some (Inl (- EINVAL))
          else do {
            nrs \<leftarrow> arr_set (nr_jited_linfo_per_func pl) (f - 1) (of_nat (i - prev_i));
            dissect_loop (pl\<lparr>jited_linfo_func_idx := idx, nr_jited_linfo_per_func := nrs\<rparr>) ksym_func ksym_len i (i + 1) (f + 1) pos cur
          }
        } else if cur \<le> last_jited_linfo then Some (Inl (- EINVAL))
        else dissect_loop pl ksym_func ksym_len prev_i (i + 1) f pos cur
      } else Some (Inr (pl, prev_i, f)))"
  by pat_completeness auto
termination by (relation "measure (\<lambda>(pl, _, _, _, i, _). unat (nr_linfo pl) - i)") auto

declare dissect_loop.simps [simp del]

definition dissect_jited_func :: "bpf_prog_linfo \<Rightarrow> u64 list \<Rightarrow> u32 list \<Rightarrow> (int + bpf_prog_linfo) option" where
  "dissect_jited_func pl ksym_func ksym_len = do {
     sym0 \<leftarrow> arr_get ksym_func 0;
     cur \<leftarrow> load64 (raw_jited_linfo pl) 0;
     if sym0 \<noteq> cur then Some (Inl (- EINVAL))
     else do {
       idx \<leftarrow> arr_set (jited_linfo_func_idx pl) 0 0;
       res \<leftarrow> dissect_loop (pl\<lparr>jited_linfo_func_idx := idx\<rparr>) ksym_func ksym_len 0 1 1 0 cur;
       case res of
         Inl err \<Rightarrow> Some (Inl err)
       | Inr (pl, prev_i, f) \<Rightarrow>
           if f \<noteq> unat (nr_jited_func pl) then Some (Inl (- EINVAL))
           else do {
             nrs \<leftarrow> arr_set (nr_jited_linfo_per_func pl) (unat (nr_jited_func pl) - 1) (of_nat (unat (nr_linfo pl) - prev_i));
             Some (Inr (pl\<lparr>nr_jited_linfo_per_func := nrs\<rparr>))
           }
     }
   }"

text \<open>
  The outer option is the fault, the inner one the NULL pointer. \<open>oks\<close> says which of the five allocations
  succeed, \<open>junk1\<close> and \<open>junk2\<close> are what the two arrays hold before they are filled.
\<close>

definition bpf_prog_linfo__new :: "(nat \<Rightarrow> bool) \<Rightarrow> (nat \<Rightarrow> u32) \<Rightarrow> (nat \<Rightarrow> u32) \<Rightarrow> bpf_prog_info \<Rightarrow> bpf_prog_linfo option option" where
  "bpf_prog_linfo__new oks junk1 junk2 info = (
     let nr = nr_line_info info in
     if nr = 0 then Some None
     else if line_info_rec_size info < 4 then Some None
     else if \<not> oks 0 then Some None
     else let pl = \<lparr>raw_linfo = [], raw_jited_linfo = [], nr_jited_linfo_per_func = [], jited_linfo_func_idx = [],
              nr_linfo = nr, nr_jited_func = 0, rec_size = line_info_rec_size info, jited_rec_size = 0\<rparr> in
     if \<not> oks 1 then Some None
     else do {
       raw \<leftarrow> mem_read (line_info info) 0 (unat (ucast nr * ucast (rec_size pl) :: u64));
       let pl = pl\<lparr>raw_linfo := raw\<rparr>;
       let funcs = nr_jited_ksyms info;
       case (jited_line_info info, jited_ksyms info, jited_func_lens info) of
         (Some jinfo, Some syms, Some lens) \<Rightarrow>
           if funcs = 0 \<or> nr_jited_line_info info \<noteq> nr \<or> jited_line_info_rec_size info < 8 \<or> nr_jited_func_lens info \<noteq> funcs
           then Some (Some pl)
           else let pl = pl\<lparr>nr_jited_func := funcs, jited_rec_size := jited_line_info_rec_size info\<rparr> in
           if \<not> oks 2 then Some None
           else do {
             raw \<leftarrow> mem_read jinfo 0 (unat (ucast nr * ucast (jited_rec_size pl) :: u64));
             let pl = pl\<lparr>raw_jited_linfo := raw\<rparr>;
             if \<not> oks 3 then Some None
             else let pl = pl\<lparr>nr_jited_linfo_per_func := map junk1 [0..<unat funcs]\<rparr> in
             if \<not> oks 4 then Some None
             else let pl = pl\<lparr>jited_linfo_func_idx := map junk2 [0..<unat funcs]\<rparr> in do {
               res \<leftarrow> dissect_jited_func pl syms lens;
               Some (case res of Inl err \<Rightarrow> None | Inr pl \<Rightarrow> Some pl)
             }
           }
       | _ \<Rightarrow> Some (Some pl)
     })"

section \<open>Searching\<close>

text \<open>The loop of both searches: the first record, counted from the start, that \<open>behind\<close> holds of.\<close>

function linfo_scan :: "(nat \<Rightarrow> bool option) \<Rightarrow> nat \<Rightarrow> nat \<Rightarrow> nat option" where
  "linfo_scan behind i n =
     (if i < n then do { b \<leftarrow> behind i; if b then Some i else linfo_scan behind (i + 1) n } else Some i)"
  by pat_completeness auto
termination by (relation "measure (\<lambda>(_, i, n). n - i)") auto

declare linfo_scan.simps [simp del]

definition bpf_prog_linfo__lfind_addr_func :: "bpf_prog_linfo \<Rightarrow> u64 \<Rightarrow> u32 \<Rightarrow> u32 \<Rightarrow> nat option option" where
  "bpf_prog_linfo__lfind_addr_func pl addr func_idx nr_skip =
     (if func_idx \<ge> nr_jited_func pl then Some None
      else do {
        nr \<leftarrow> arr_get (nr_jited_linfo_per_func pl) (unat func_idx);
        if nr_skip \<ge> nr then Some None
        else do {
          first \<leftarrow> arr_get (jited_linfo_func_idx pl) (unat func_idx);
          let start = first + nr_skip;
          let raw_jited = unat (start * jited_rec_size pl);
          cur \<leftarrow> load64 (raw_jited_linfo pl) raw_jited;
          if addr < cur then Some None
          else do {
            let nr = nr - nr_skip;
            let raw = unat (start * rec_size pl);
            n \<leftarrow> linfo_scan (\<lambda>i. do {
                x \<leftarrow> load64 (raw_jited_linfo pl) (raw_jited + i * unat (jited_rec_size pl)); Some (addr < x) }) 0 (unat nr);
            Some (Some (raw + n * unat (rec_size pl) - unat (rec_size pl)))
          }
        }
      })"

definition bpf_prog_linfo__lfind :: "bpf_prog_linfo \<Rightarrow> u32 \<Rightarrow> u32 \<Rightarrow> nat option option" where
  "bpf_prog_linfo__lfind pl insn_off nr_skip =
     (let nr = nr_linfo pl in
      if nr_skip \<ge> nr then Some None
      else do {
        let raw = unat (nr_skip * rec_size pl);
        cur \<leftarrow> load32 (raw_linfo pl) raw;
        if insn_off < cur then Some None
        else do {
          n \<leftarrow> linfo_scan (\<lambda>i. do {
              x \<leftarrow> load32 (raw_linfo pl) (raw + i * unat (rec_size pl)); Some (insn_off < x) }) 0 (unat (nr - nr_skip));
          Some (Some (raw + n * unat (rec_size pl) - unat (rec_size pl)))
        }
      })"

section \<open>What a search finds\<close>

text \<open>
  The records \<open>start\<close> to \<open>start + n\<close> hold the values \<open>val\<close>. A search from the record \<open>start + skip\<close> on finds
  nothing if that one is behind the key, and otherwise the last record of the first run of records that are not.
\<close>

definition linfo_found :: "(nat \<Rightarrow> 'a::len word) \<Rightarrow> nat \<Rightarrow> nat \<Rightarrow> nat \<Rightarrow> 'a word \<Rightarrow> nat \<Rightarrow> nat option \<Rightarrow> bool" where
  "linfo_found val start n skip key recsz r \<longleftrightarrow>
     (case r of
        None \<Rightarrow> n \<le> skip \<or> key < val (start + skip)
      | Some p \<Rightarrow> \<exists>j. p = j * recsz \<and> start + skip \<le> j \<and> j < start + n \<and>
          (\<forall>k. start + skip \<le> k \<and> k \<le> j \<longrightarrow> val k \<le> key) \<and> (j + 1 < start + n \<longrightarrow> key < val (j + 1)))"

lemma linfo_scan_spec:
  fixes val :: "nat \<Rightarrow> 'a::len word"
  assumes "\<forall>i<n. behind i = Some (key < val (s + i))" "i \<le> n" "\<forall>k<i. val (s + k) \<le> key"
  shows "\<exists>m. linfo_scan behind i n = Some m \<and> i \<le> m \<and> m \<le> n \<and> (\<forall>k<m. val (s + k) \<le> key) \<and> (m < n \<longrightarrow> key < val (s + m))"
  using assms
proof (induction behind i n rule: linfo_scan.induct)
  case (1 behind i n)
  show ?case
  proof (cases "i < n \<and> \<not> key < val (s + i)")
    case True
    then have b: "behind i = Some False" using "1.prems"(1) by simp
    have "\<forall>k<i + 1. val (s + k) \<le> key" using "1.prems"(3) True by (auto simp: less_Suc_eq not_less)
    with "1.IH" [OF _ b] True "1.prems"(1) obtain m where "linfo_scan behind (i + 1) n = Some m" "i + 1 \<le> m" "m \<le> n"
      "\<forall>k<m. val (s + k) \<le> key" "m < n \<longrightarrow> key < val (s + m)"
      by auto
    then show ?thesis using True b by (subst linfo_scan.simps) auto
  next
    case False
    then show ?thesis using "1.prems" by (subst linfo_scan.simps) (auto intro: le_neq_trans)
  qed
qed

lemma linfo_scan_found:
  fixes val :: "nat \<Rightarrow> 'a::len word"
  assumes "\<forall>i<n. behind i = Some (key < val (s + i))" "0 < n" "\<not> key < val s"
  shows "\<exists>m. linfo_scan behind 0 n = Some m \<and> 0 < m \<and> linfo_found val s n 0 key recsz (Some (s * recsz + m * recsz - recsz))"
proof -
  obtain m where m: "linfo_scan behind 0 n = Some m" "m \<le> n" "\<forall>k<m. val (s + k) \<le> key" "m < n \<longrightarrow> key < val (s + m)"
    using linfo_scan_spec [OF assms(1), of 0] by auto
  have pos: "0 < m"
  proof (rule ccontr)
    assume "\<not> 0 < m"
    with m(4) assms(2,3) show False by simp
  qed
  have "s * recsz + m * recsz - recsz = (s + (m - 1)) * recsz" using pos by (cases m) (simp_all add: algebra_simps)
  moreover have "val k \<le> key" if "s \<le> k" "k \<le> s + (m - 1)" for k
    using m(3) [rule_format, of "k - s"] that pos by simp
  ultimately show ?thesis using m pos by (intro exI [of _ m] conjI) (auto simp: linfo_found_def intro!: exI [of _ "s + (m - 1)"])
qed

lemma linfo_found_skip: "linfo_found val (start + skip) (n - skip) 0 key recsz (Some p) \<Longrightarrow> skip \<le> n \<Longrightarrow>
  linfo_found val start n skip key recsz (Some p)"
  by (auto simp: linfo_found_def)

section \<open>Taking apart the addresses of the functions\<close>

definition func_start :: "bpf_prog_linfo \<Rightarrow> nat \<Rightarrow> nat" where
  "func_start pl g = unat (jited_linfo_func_idx pl ! g)"

definition func_count :: "bpf_prog_linfo \<Rightarrow> nat \<Rightarrow> nat" where
  "func_count pl g = unat (nr_jited_linfo_per_func pl ! g)"

text \<open>
  The state of the loop at record \<open>i\<close>, with \<open>f\<close> functions found: the functions lie one behind the other, each
  starts at its address, and the addresses of the records passed so far ascend within their function.
\<close>

definition dissect_inv :: "(nat \<Rightarrow> u64) \<Rightarrow> u64 list \<Rightarrow> bpf_prog_linfo \<Rightarrow> nat \<Rightarrow> nat \<Rightarrow> nat \<Rightarrow> bool" where
  "dissect_inv J syms pl prev i f \<longleftrightarrow>
     length (jited_linfo_func_idx pl) = unat (nr_jited_func pl) \<and> length (nr_jited_linfo_per_func pl) = unat (nr_jited_func pl) \<and>
     0 < f \<and> f \<le> unat (nr_jited_func pl) \<and> i \<le> unat (nr_linfo pl) \<and> func_start pl (f - 1) = prev \<and> prev < i \<and> func_start pl 0 = 0 \<and>
     (\<forall>g<f. J (func_start pl g) = syms ! g) \<and>
     (\<forall>g. g + 1 < f \<longrightarrow> 0 < func_count pl g \<and> func_start pl g + func_count pl g = func_start pl (g + 1) \<and>
        (\<forall>k. func_start pl g < k \<and> k < func_start pl (g + 1) \<longrightarrow> J (k - 1) < J k)) \<and>
     (\<forall>k. prev < k \<and> k < i \<longrightarrow> J (k - 1) < J k)"

lemma dissect_inv_step:
  assumes "dissect_inv J syms pl prev i f" "i < unat (nr_linfo pl)" "J (i - 1) < J i"
  shows "dissect_inv J syms pl prev (i + 1) f"
  using assms by (auto simp: dissect_inv_def less_Suc_eq)

lemma dissect_inv_next:
  assumes inv: "dissect_inv J syms pl prev i f" and lt: "i < unat (nr_linfo pl)" "f < unat (nr_jited_func pl)" and at: "J i = syms ! f"
  defines "pl' \<equiv> pl\<lparr>jited_linfo_func_idx := (jited_linfo_func_idx pl)[f := of_nat i],
    nr_jited_linfo_per_func := (nr_jited_linfo_per_func pl)[f - 1 := of_nat (i - prev)]\<rparr>"
  shows "dissect_inv J syms pl' i (i + 1) (f + 1)"
proof -
  have lens: "length (jited_linfo_func_idx pl) = unat (nr_jited_func pl)" "length (nr_jited_linfo_per_func pl) = unat (nr_jited_func pl)"
    and f: "0 < f" and prev: "prev < i" "func_start pl (f - 1) = prev"
    and old: "g + 1 < f \<Longrightarrow> 0 < func_count pl g \<and> func_start pl g + func_count pl g = func_start pl (g + 1) \<and>
        (\<forall>k. func_start pl g < k \<and> k < func_start pl (g + 1) \<longrightarrow> J (k - 1) < J k)"
    and inside: "prev < k \<Longrightarrow> k < i \<Longrightarrow> J (k - 1) < J k" and starts: "\<forall>g<f. J (func_start pl g) = syms ! g" "func_start pl 0 = 0" for g k
    using inv by (simp_all add: dissect_inv_def)
  have fit: "i < 2 ^ 32" using lt(1) unsigned_less [of "nr_linfo pl", where 'a = nat] by simp
  have start: "func_start pl' g = (if g = f then i else func_start pl g)" for g
    using lens lt(2) fit by (auto simp: pl'_def func_start_def unat_of_nat_u32)
  have count: "func_count pl' g = (if g = f - 1 then i - prev else func_count pl g)" for g
    using lens lt(2) fit by (auto simp: pl'_def func_count_def unat_of_nat_u32)
  have sizes: "nr_jited_func pl' = nr_jited_func pl" "nr_linfo pl' = nr_linfo pl" by (simp_all add: pl'_def)
  have lens': "length (jited_linfo_func_idx pl') = unat (nr_jited_func pl)" "length (nr_jited_linfo_per_func pl') = unat (nr_jited_func pl)"
    using lens by (simp_all add: pl'_def)
  have "0 < func_count pl' g \<and> func_start pl' g + func_count pl' g = func_start pl' (g + 1) \<and>
      (\<forall>k. func_start pl' g < k \<and> k < func_start pl' (g + 1) \<longrightarrow> J (k - 1) < J k)" if "g + 1 < f + 1" for g
  proof (cases "g = f - 1")
    case True
    then show ?thesis using f prev inside by (simp add: start count)
  next
    case False
    then have "g + 1 < f" using that f by linarith
    then show ?thesis using old [of g] False by (simp add: start count)
  qed
  moreover have "J (func_start pl' g) = syms ! g" if "g < f + 1" for g
    using starts(1) that at by (auto simp: start less_Suc_eq)
  ultimately show ?thesis
    unfolding dissect_inv_def sizes using f starts(2) lens' lt by (simp add: start less_Suc_eq) linarith
qed

definition same_linfo :: "bpf_prog_linfo \<Rightarrow> bpf_prog_linfo \<Rightarrow> bool" where
  "same_linfo pl pl' \<longleftrightarrow> raw_linfo pl = raw_linfo pl' \<and> raw_jited_linfo pl = raw_jited_linfo pl' \<and> nr_linfo pl = nr_linfo pl' \<and>
     nr_jited_func pl = nr_jited_func pl' \<and> rec_size pl = rec_size pl' \<and> jited_rec_size pl = jited_rec_size pl'"

lemma dissect_loop_spec:
  assumes "dissect_inv J syms pl prev i f" "unat (nr_jited_func pl) \<le> length syms" "unat (nr_jited_func pl) \<le> length lens"
    "\<forall>k<unat (nr_linfo pl). load64 (raw_jited_linfo pl) (k * unat (jited_rec_size pl)) = Some (J k)"
    "pos = (i - 1) * unat (jited_rec_size pl)" "cur = J (i - 1)"
  shows "\<exists>res. dissect_loop pl syms lens prev i f pos cur = Some res \<and>
    (\<forall>pl' prev' f'. res = Inr (pl', prev', f') \<longrightarrow> same_linfo pl' pl \<and> (\<exists>i'. dissect_inv J syms pl' prev' i' f'))"
  using assms
proof (induction pl syms lens prev i f pos cur rule: dissect_loop.induct)
  case (1 pl syms lens prev i f pos cur)
  note inv = "1.prems"(1)
  have f: "0 < f" "prev < i" using inv by (simp_all add: dissect_inv_def)
  show ?case
  proof (cases "i < unat (nr_linfo pl) \<and> f < unat (nr_jited_func pl)")
    case False
    then show ?thesis using inv by (subst dissect_loop.simps) (auto simp: same_linfo_def)
  next
    case run: True
    let ?pos = "pos + unat (jited_rec_size pl)"
    have pos: "?pos = i * unat (jited_rec_size pl)" "?pos = (i + 1 - 1) * unat (jited_rec_size pl)"
      using "1.prems"(5) f(2) by (cases i; simp)+
    have cur: "load64 (raw_jited_linfo pl) ?pos = Some (J i)" using "1.prems"(4) run pos by simp
    have sym: "arr_get syms f = Some (syms ! f)" "arr_get syms (f - 1) = Some (syms ! (f - 1))" "arr_get lens (f - 1) = Some (lens ! (f - 1))"
      using less_le_trans [OF conjunct2 [OF run] "1.prems"(2)] less_le_trans [OF conjunct2 [OF run] "1.prems"(3)]
      by (simp_all add: arr_get_def)
    show ?thesis
    proof (cases "syms ! f = J i")
      case False
      show ?thesis
      proof (cases "J i \<le> cur")
        case True
        then show ?thesis using run False cur sym by (subst dissect_loop.simps) auto
      next
        case up: False
        have "dissect_inv J syms pl prev (i + 1) f" using dissect_inv_step [OF inv] run up "1.prems"(6) by simp
        from "1.IH"(2) [OF run refl refl cur sym(1) False up this "1.prems"(2-4) pos(2)]
        show ?thesis using run False up cur sym by (subst dissect_loop.simps) simp
      qed
    next
      case same: True
      have lens: "f < length (jited_linfo_func_idx pl)" "f - 1 < length (nr_jited_linfo_per_func pl)"
        using inv run by (auto simp: dissect_inv_def)
      let ?idx = "(jited_linfo_func_idx pl)[f := of_nat i]" and ?nrs = "(nr_jited_linfo_per_func pl)[f - 1 := of_nat (i - prev)]"
      have arr: "arr_set (jited_linfo_func_idx pl) f (of_nat i) = Some ?idx"
        "arr_set (nr_jited_linfo_per_func pl) (f - 1) (of_nat (i - prev)) = Some ?nrs"
        using lens by (simp_all add: arr_set_def)
      show ?thesis
      proof (cases "cur - syms ! (f - 1) + 1 > ucast (lens ! (f - 1))")
        case True
        then show ?thesis using run same cur sym arr by (subst dissect_loop.simps) auto
      next
        case short: False
        have "dissect_inv J syms (pl\<lparr>jited_linfo_func_idx := ?idx, nr_jited_linfo_per_func := ?nrs\<rparr>) i (i + 1) (f + 1)"
          using dissect_inv_next [OF inv] run same by simp
        from "1.IH"(1) [OF run refl refl cur sym(1) same arr(1) sym(2,3) short arr(2) this] "1.prems"(2-4) pos(2)
        obtain res where "dissect_loop (pl\<lparr>jited_linfo_func_idx := ?idx, nr_jited_linfo_per_func := ?nrs\<rparr>) syms lens i (i + 1) (f + 1) ?pos (J i) = Some res"
          "\<forall>pl' prev' f'. res = Inr (pl', prev', f') \<longrightarrow> same_linfo pl' pl \<and> (\<exists>i'. dissect_inv J syms pl' prev' i' f')"
          by (auto simp: same_linfo_def)
        then show ?thesis using run same short cur sym arr by (subst dissect_loop.simps) auto
      qed
    qed
  qed
qed

text \<open>Functions that lie one behind the other end at the last record.\<close>

definition dissected :: "(nat \<Rightarrow> u64) \<Rightarrow> u64 list \<Rightarrow> bpf_prog_linfo \<Rightarrow> bool" where
  "dissected J syms pl \<longleftrightarrow>
     length (jited_linfo_func_idx pl) = unat (nr_jited_func pl) \<and> length (nr_jited_linfo_per_func pl) = unat (nr_jited_func pl) \<and>
     func_start pl 0 = 0 \<and>
     (\<forall>g<unat (nr_jited_func pl). J (func_start pl g) = syms ! g \<and> 0 < func_count pl g \<and>
        func_start pl g + func_count pl g = (if g + 1 < unat (nr_jited_func pl) then func_start pl (g + 1) else unat (nr_linfo pl))) \<and>
     (\<forall>g k. g + 1 < unat (nr_jited_func pl) \<and> func_start pl g < k \<and> k < func_start pl (g + 1) \<longrightarrow> J (k - 1) < J k)"

lemma dissect_jited_func_spec:
  assumes "length (jited_linfo_func_idx pl) = unat (nr_jited_func pl)" "length (nr_jited_linfo_per_func pl) = unat (nr_jited_func pl)"
    "nr_jited_func pl \<noteq> 0" "nr_linfo pl \<noteq> 0" "unat (nr_jited_func pl) \<le> length syms" "unat (nr_jited_func pl) \<le> length lens"
    "\<forall>k<unat (nr_linfo pl). load64 (raw_jited_linfo pl) (k * unat (jited_rec_size pl)) = Some (J k)"
  shows "\<exists>res. dissect_jited_func pl syms lens = Some res \<and> (\<forall>pl'. res = Inr pl' \<longrightarrow> same_linfo pl' pl \<and> dissected J syms pl')"
proof -
  have pos: "0 < unat (nr_jited_func pl)" "0 < unat (nr_linfo pl)" using assms(3,4) by (simp_all add: unat_gt_0)
  have cur: "load64 (raw_jited_linfo pl) 0 = Some (J 0)" using assms(7) pos(2) by fastforce
  have sym: "arr_get syms 0 = Some (syms ! 0)" using less_le_trans [OF pos(1) assms(5)] by (simp add: arr_get_def)
  have idx: "arr_set (jited_linfo_func_idx pl) 0 0 = Some ((jited_linfo_func_idx pl)[0 := 0])" using pos assms(1) by (simp add: arr_set_def)
  show ?thesis
  proof (cases "syms ! 0 = J 0")
    case False
    then show ?thesis by (simp add: dissect_jited_func_def sym cur)
  next
    case True
    let ?pl = "pl\<lparr>jited_linfo_func_idx := (jited_linfo_func_idx pl)[0 := 0]\<rparr>"
    have start: "func_start ?pl 0 = 0" using pos assms(1) by (simp add: func_start_def)
    have "dissect_inv J syms ?pl 0 1 1"
      using assms(1,2) pos True start by (auto simp: dissect_inv_def)
    from dissect_loop_spec [OF this, of lens 0 "J 0"] assms(5-7) obtain res where
      res: "dissect_loop ?pl syms lens 0 1 1 0 (J 0) = Some res"
        "\<forall>pl' prev' f'. res = Inr (pl', prev', f') \<longrightarrow> same_linfo pl' ?pl \<and> (\<exists>i'. dissect_inv J syms pl' prev' i' f')"
      by auto
    show ?thesis
    proof (cases res)
      case (Inl e)
      then show ?thesis using res(1) by (simp add: dissect_jited_func_def sym cur idx True)
    next
      case (Inr r)
      obtain pl' prev' f' where r: "r = (pl', prev', f')" by (cases r)
      obtain i' where same: "same_linfo pl' ?pl" and inv: "dissect_inv J syms pl' prev' i' f'" using res(2) Inr r by blast
      have sizes: "nr_jited_func pl' = nr_jited_func pl" "nr_linfo pl' = nr_linfo pl" using same by (simp_all add: same_linfo_def)
      show ?thesis
      proof (cases "f' = unat (nr_jited_func pl)")
        case False
        then show ?thesis using res(1) Inr r sizes by (simp add: dissect_jited_func_def sym cur idx True)
      next
        case last: True
        let ?n = "unat (nr_jited_func pl)" and ?nrs = "(nr_jited_linfo_per_func pl')[unat (nr_jited_func pl) - 1 := of_nat (unat (nr_linfo pl) - prev')]"
        have lens: "length (nr_jited_linfo_per_func pl') = ?n" using inv sizes by (simp add: dissect_inv_def)
        then have nrs: "arr_set (nr_jited_linfo_per_func pl') (?n - 1) (of_nat (unat (nr_linfo pl) - prev')) = Some ?nrs"
          using pos by (simp add: arr_set_def)
        define new where "new = pl'\<lparr>nr_jited_linfo_per_func := ?nrs\<rparr>"
        have new: "nr_jited_func new = nr_jited_func pl" "nr_linfo new = nr_linfo pl" "length (jited_linfo_func_idx new) = ?n"
          "length (nr_jited_linfo_per_func new) = ?n"
          using inv sizes lens by (simp_all add: new_def dissect_inv_def)
        have prev: "prev' < unat (nr_linfo pl)" "func_start pl' (?n - 1) = prev'" using inv sizes last by (auto simp: dissect_inv_def)
        have "unat (nr_linfo pl) < 2 ^ 32" using unsigned_less [of "nr_linfo pl", where 'a = nat] by simp
        then have count: "func_count new g = (if g = ?n - 1 then unat (nr_linfo pl) - prev' else func_count pl' g)" for g
          using lens pos by (auto simp: new_def func_count_def unat_of_nat_u32)
        have start: "func_start new g = func_start pl' g" for g by (simp add: new_def func_start_def)
        have "dissected J syms new"
          unfolding dissected_def start
        proof (intro conjI allI impI)
          fix g
          assume g: "g < unat (nr_jited_func new)"
          show "J (func_start pl' g) = syms ! g" using inv g last new sizes by (simp add: dissect_inv_def)
          show "0 < func_count new g" using inv g last new sizes prev(1) by (auto simp: count dissect_inv_def)
          show "func_start pl' g + func_count new g = (if g + 1 < unat (nr_jited_func new) then func_start pl' (g + 1) else unat (nr_linfo new))"
            using inv g last new sizes prev by (auto simp: count dissect_inv_def)
        next
          fix g k
          assume "g + 1 < unat (nr_jited_func new) \<and> func_start pl' g < k \<and> k < func_start pl' (g + 1)"
          then show "J (k - 1) < J k" using inv last new sizes by (auto simp: dissect_inv_def)
        qed (use inv new in \<open>simp_all add: dissect_inv_def\<close>)
        moreover have "same_linfo new pl" using same by (simp add: new_def same_linfo_def)
        ultimately show ?thesis unfolding new_def using res(1) Inr r sizes last nrs by (simp add: dissect_jited_func_def sym cur idx True)
      qed
    qed
  qed
qed

section \<open>From the kernel's description to the lines\<close>

text \<open>The memory the description points to has the sizes it says, and the records fit 32-bit offsets.\<close>

definition linfo_sized :: "bpf_prog_info \<Rightarrow> bool" where
  "linfo_sized info \<longleftrightarrow>
     unat (nr_line_info info) * unat (line_info_rec_size info) \<le> length (line_info info) \<and>
     unat (nr_line_info info) * unat (line_info_rec_size info) < 2 ^ 32 \<and>
     unat (nr_jited_line_info info) * unat (jited_line_info_rec_size info) < 2 ^ 32 \<and>
     (\<forall>b. jited_line_info info = Some b \<longrightarrow> unat (nr_jited_line_info info) * unat (jited_line_info_rec_size info) \<le> length b) \<and>
     (\<forall>s. jited_ksyms info = Some s \<longrightarrow> unat (nr_jited_ksyms info) \<le> length s) \<and>
     (\<forall>l. jited_func_lens info = Some l \<longrightarrow> unat (nr_jited_func_lens info) \<le> length l)"

definition line_off :: "bpf_prog_info \<Rightarrow> nat \<Rightarrow> u32" where
  "line_off info k = the (load32 (line_info info) (k * unat (line_info_rec_size info)))"

definition jited_addr :: "bpf_prog_info \<Rightarrow> nat \<Rightarrow> u64" where
  "jited_addr info k = the (load64 (the (jited_line_info info)) (k * unat (jited_line_info_rec_size info)))"

lemma unat_prod64: "unat a * unat b < 2 ^ 32 \<Longrightarrow> unat (ucast a * ucast b :: u64) = unat a * unat b" for a b :: u32
  using unsigned_less [of a, where 'a = nat] unsigned_less [of b, where 'a = nat]
  by (simp add: unat_word_ariths unsigned_ucast_eq take_bit_eq_mod)

lemma record_inside:
  fixes sz :: nat
  assumes "k < n" "w \<le> sz" "n * sz \<le> len"
  shows "k * sz + w \<le> len"
proof -
  have "Suc k * sz \<le> n * sz" using assms(1) by (intro mult_le_mono1) simp
  then show ?thesis using assms(2,3) by simp
qed

lemma load64_in: "a + 8 \<le> length m \<Longrightarrow> \<exists>v. load64 m a = Some v"
  by (simp add: load64_def load32_in)

lemma load32_take: "a + 4 \<le> n \<Longrightarrow> n \<le> length m \<Longrightarrow> load32 (take n m) a = load32 m a"
  by (simp add: load32_in)

lemma load64_take: "a + 8 \<le> n \<Longrightarrow> n \<le> length m \<Longrightarrow> load64 (take n m) a = load64 m a"
  by (simp add: load64_def load32_take)

text \<open>What a successful \<open>bpf_prog_linfo__new\<close> gives.\<close>

definition linfo_ok :: "bpf_prog_info \<Rightarrow> bpf_prog_linfo \<Rightarrow> bool" where
  "linfo_ok info pl \<longleftrightarrow> nr_linfo pl = nr_line_info info \<and> rec_size pl = line_info_rec_size info \<and>
     (\<forall>k<unat (nr_linfo pl). load32 (raw_linfo pl) (k * unat (rec_size pl)) = Some (line_off info k)) \<and>
     unat (nr_linfo pl) * unat (rec_size pl) < 2 ^ 32 \<and>
     (nr_jited_func pl = 0 \<or> nr_jited_func pl = nr_jited_ksyms info \<and> jited_rec_size pl = jited_line_info_rec_size info \<and>
        (\<forall>k<unat (nr_linfo pl). load64 (raw_jited_linfo pl) (k * unat (jited_rec_size pl)) = Some (jited_addr info k)) \<and>
        unat (nr_linfo pl) * unat (jited_rec_size pl) < 2 ^ 32 \<and> dissected (jited_addr info) (the (jited_ksyms info)) pl)"

lemma linfo_new_ok:
  assumes "linfo_sized info"
  shows "\<exists>r. bpf_prog_linfo__new oks junk1 junk2 info = Some r \<and> (\<forall>pl. r = Some pl \<longrightarrow> linfo_ok info pl)"
proof (cases "nr_line_info info = 0 \<or> line_info_rec_size info < 4 \<or> \<not> oks 0 \<or> \<not> oks 1")
  case True
  then show ?thesis by (auto simp: bpf_prog_linfo__new_def Let_def)
next
  case False
  let ?n = "unat (nr_line_info info)" and ?sz = "unat (line_info_rec_size info)"
  note sized = assms [unfolded linfo_sized_def]
  define raw where "raw = take (?n * ?sz) (line_info info)"
  have read: "mem_read (line_info info) 0 (unat (ucast (nr_line_info info) * ucast (line_info_rec_size info) :: u64)) = Some raw"
    using sized by (simp add: mem_read_def unat_prod64 raw_def)
  have sz: "4 \<le> ?sz" using False by (simp add: word_less_nat_alt not_less)
  have offs: "load32 raw (k * ?sz) = Some (line_off info k)" if "k < ?n" for k
  proof -
    have inside: "k * ?sz + 4 \<le> ?n * ?sz" by (rule record_inside [OF that sz]) simp
    then obtain v where "load32 (line_info info) (k * ?sz) = Some v" using sized by (auto simp: load32_in)
    then show ?thesis using load32_take [OF inside conjunct1 [OF sized]] by (simp add: raw_def line_off_def)
  qed
  let ?pl = "\<lparr>raw_linfo = raw, raw_jited_linfo = [], nr_jited_linfo_per_func = [], jited_linfo_func_idx = [],
      nr_linfo = nr_line_info info, nr_jited_func = 0, rec_size = line_info_rec_size info, jited_rec_size = 0\<rparr>"
  have plain: "linfo_ok info ?pl" using offs sized by (simp add: linfo_ok_def)
  show ?thesis
  proof (cases "(\<exists>j s l. jited_line_info info = Some j \<and> jited_ksyms info = Some s \<and> jited_func_lens info = Some l) \<and> nr_jited_ksyms info \<noteq> 0 \<and>
      nr_jited_line_info info = nr_line_info info \<and> \<not> jited_line_info_rec_size info < 8 \<and> nr_jited_func_lens info = nr_jited_ksyms info")
    case no: False
    have "bpf_prog_linfo__new oks junk1 junk2 info = Some (Some ?pl)"
      using False no read by (cases "jited_line_info info"; cases "jited_ksyms info"; cases "jited_func_lens info")
        (auto simp: bpf_prog_linfo__new_def Let_def)
    with plain show ?thesis by simp
  next
    case yes: True
    then obtain j syms lens where ptr: "jited_line_info info = Some j" "jited_ksyms info = Some syms" "jited_func_lens info = Some lens" by blast
    let ?jsz = "unat (jited_line_info_rec_size info)" and ?funcs = "unat (nr_jited_ksyms info)"
    define jraw where "jraw = take (?n * ?jsz) j"
    have jread: "mem_read j 0 (unat (ucast (nr_line_info info) * ucast (jited_line_info_rec_size info) :: u64)) = Some jraw"
      using sized yes ptr by (simp add: mem_read_def unat_prod64 jraw_def)
    have jsz: "8 \<le> ?jsz" using yes by (simp add: word_less_nat_alt not_less)
    have jlen: "?n * ?jsz \<le> length j" "?n * ?jsz < 2 ^ 32" using sized yes ptr by auto
    have addrs: "load64 jraw (k * ?jsz) = Some (jited_addr info k)" if "k < ?n" for k
      using record_inside [OF that jsz, of "?n * ?jsz"] load64_in [of "k * ?jsz" j] jlen ptr
      by (auto simp: jraw_def load64_take jited_addr_def)
    let ?jpl = "?pl\<lparr>nr_jited_func := nr_jited_ksyms info, jited_rec_size := jited_line_info_rec_size info, raw_jited_linfo := jraw,
        nr_jited_linfo_per_func := map junk1 [0..<?funcs], jited_linfo_func_idx := map junk2 [0..<?funcs]\<rparr>"
    have "\<exists>res. dissect_jited_func ?jpl syms lens = Some res \<and>
        (\<forall>pl'. res = Inr pl' \<longrightarrow> same_linfo pl' ?jpl \<and> dissected (jited_addr info) syms pl')"
      using False yes ptr sized addrs by (intro dissect_jited_func_spec) auto
    then obtain res where res: "dissect_jited_func ?jpl syms lens = Some res"
      "\<forall>pl'. res = Inr pl' \<longrightarrow> same_linfo pl' ?jpl \<and> dissected (jited_addr info) syms pl'" by blast
    have run: "bpf_prog_linfo__new oks junk1 junk2 info =
        (if oks 2 \<and> oks 3 \<and> oks 4 then Some (case res of Inl err \<Rightarrow> None | Inr pl \<Rightarrow> Some pl) else Some None)"
      using False yes ptr read jread res(1) by (simp add: bpf_prog_linfo__new_def Let_def)
    have "linfo_ok info pl'" if "res = Inr pl'" for pl'
      using res(2) that offs addrs sized yes jlen ptr by (auto simp: linfo_ok_def same_linfo_def)
    then show ?thesis using run by (auto split: sum.splits)
  qed
qed

lemma linfo_okD:
  assumes "linfo_ok info pl"
  shows "nr_linfo pl = nr_line_info info" "rec_size pl = line_info_rec_size info" "unat (nr_linfo pl) * unat (rec_size pl) < 2 ^ 32"
    "k < unat (nr_linfo pl) \<Longrightarrow> load32 (raw_linfo pl) (k * unat (rec_size pl)) = Some (line_off info k)"
    "nr_jited_func pl \<noteq> 0 \<Longrightarrow> unat (nr_linfo pl) * unat (jited_rec_size pl) < 2 ^ 32"
    "nr_jited_func pl \<noteq> 0 \<Longrightarrow> dissected (jited_addr info) (the (jited_ksyms info)) pl"
    "nr_jited_func pl \<noteq> 0 \<Longrightarrow> k < unat (nr_linfo pl) \<Longrightarrow>
      load64 (raw_jited_linfo pl) (k * unat (jited_rec_size pl)) = Some (jited_addr info k)"
  using assms unfolding linfo_ok_def by (elim conjE; (blast | metis))+

text \<open>Both searches on such an object.\<close>

lemma unat_mult_fits: "unat a * unat b < 2 ^ 32 \<Longrightarrow> unat (a * b :: u32) = unat a * unat b"
  by (simp add: unat_word_ariths)

lemma lfind_found:
  assumes "linfo_ok info pl"
  shows "\<exists>r. bpf_prog_linfo__lfind pl off skip = Some r \<and>
    linfo_found (line_off info) 0 (unat (nr_line_info info)) (unat skip) off (unat (line_info_rec_size info)) r"
proof (cases "nr_linfo pl \<le> skip")
  case True
  then show ?thesis using assms by (simp add: bpf_prog_linfo__lfind_def linfo_found_def linfo_ok_def word_le_nat_alt)
next
  case False
  let ?n = "unat (nr_linfo pl)" and ?s = "unat skip" and ?sz = "unat (rec_size pl)"
  have lt: "?s < ?n" using False by (simp add: word_le_nat_alt)
  have ok: "nr_linfo pl = nr_line_info info" "rec_size pl = line_info_rec_size info" "?n * ?sz < 2 ^ 32"
    and offs: "k < ?n \<Longrightarrow> load32 (raw_linfo pl) (k * ?sz) = Some (line_off info k)" for k
    by (fact linfo_okD [OF assms])+
  have "?s * ?sz \<le> ?n * ?sz" using lt by (intro mult_le_mono1) simp
  then have raw: "unat (skip * rec_size pl) = ?s * ?sz" using le_less_trans [OF _ ok(3)] by (intro unat_mult_fits)
  have rest: "unat (nr_linfo pl - skip) = ?n - ?s" using False by (simp add: unat_sub)
  show ?thesis
  proof (cases "off < line_off info ?s")
    case True
    then show ?thesis using False offs [OF lt] by (simp add: bpf_prog_linfo__lfind_def raw linfo_found_def)
  next
    case in_front: False
    have "\<forall>i<?n - ?s. do { x \<leftarrow> load32 (raw_linfo pl) (?s * ?sz + i * ?sz); Some (off < x) } = Some (off < line_off info (?s + i))"
      using offs by (simp flip: add_mult_distrib)
    note scan = linfo_scan_found [where val = "line_off info" and s = ?s, OF this _ in_front, of ?sz]
    have "0 < ?n - ?s" using lt by simp
    with scan obtain m where
      "linfo_scan (\<lambda>i. do { x \<leftarrow> load32 (raw_linfo pl) (?s * ?sz + i * ?sz); Some (off < x) }) 0 (?n - ?s) = Some m"
      "linfo_found (line_off info) ?s (?n - ?s) 0 off ?sz (Some (?s * ?sz + m * ?sz - ?sz))" by blast
    note m = this
    have "bpf_prog_linfo__lfind pl off skip = Some (Some (?s * ?sz + m * ?sz - ?sz))"
      using False in_front offs [OF lt] m(1) by (simp add: bpf_prog_linfo__lfind_def raw rest)
    moreover have "linfo_found (line_off info) 0 ?n ?s off ?sz (Some (?s * ?sz + m * ?sz - ?sz))"
      by (rule linfo_found_skip [OF _ less_imp_le [OF lt]]) (simp only: add_0 m(2))
    ultimately show ?thesis unfolding ok(1,2) by blast
  qed
qed

lemma dissected_inside:
  assumes "dissected J syms pl" "g < unat (nr_jited_func pl)"
  shows "func_start pl g + func_count pl g \<le> unat (nr_linfo pl)"
  using assms(2)
proof (induction "unat (nr_jited_func pl) - g" arbitrary: g)
  case (Suc d)
  have step: "func_start pl g + func_count pl g = (if g + 1 < unat (nr_jited_func pl) then func_start pl (g + 1) else unat (nr_linfo pl))"
    using assms(1) Suc.prems unfolding dissected_def by blast
  show ?case
  proof (cases "g + 1 < unat (nr_jited_func pl)")
    case True
    have "d = unat (nr_jited_func pl) - (g + 1)" using Suc.hyps(2) by simp
    from Suc.hyps(1) [OF this True] step True show ?thesis by simp
  qed (use step in simp)
qed simp

lemma lfind_addr_found:
  assumes "linfo_ok info pl" "func_idx < nr_jited_func pl"
  defines "first \<equiv> func_start pl (unat func_idx)" and "n \<equiv> func_count pl (unat func_idx)"
  shows "\<exists>r. bpf_prog_linfo__lfind_addr_func pl addr func_idx skip = Some r \<and>
    linfo_found (jited_addr info) first n (unat skip) addr (unat (line_info_rec_size info)) r"
proof -
  let ?g = "unat func_idx" and ?s = "unat skip" and ?sz = "unat (rec_size pl)" and ?jsz = "unat (jited_rec_size pl)"
  let ?all = "unat (nr_linfo pl)"
  have g: "?g < unat (nr_jited_func pl)" using assms(2) by (simp add: word_less_nat_alt)
  have ok: "rec_size pl = line_info_rec_size info" "?all * ?sz < 2 ^ 32" by (fact linfo_okD [OF assms(1)])+
  have some: "nr_jited_func pl \<noteq> 0" using assms(2) by auto
  have jok: "?all * ?jsz < 2 ^ 32" "dissected (jited_addr info) (the (jited_ksyms info)) pl"
    and addrs: "k < ?all \<Longrightarrow> load64 (raw_jited_linfo pl) (k * ?jsz) = Some (jited_addr info k)" for k
    by (fact linfo_okD(5-) [OF assms(1) some])+
  have len: "length (jited_linfo_func_idx pl) = unat (nr_jited_func pl)" "length (nr_jited_linfo_per_func pl) = unat (nr_jited_func pl)"
    using jok(2) unfolding dissected_def by blast+
  have part: "first + n \<le> ?all" unfolding first_def n_def by (rule dissected_inside [OF jok(2) g])
  have get: "arr_get (nr_jited_linfo_per_func pl) ?g = Some (nr_jited_linfo_per_func pl ! ?g)"
    "arr_get (jited_linfo_func_idx pl) ?g = Some (jited_linfo_func_idx pl ! ?g)"
    using g len by (simp_all add: arr_get_def)
  let ?first = "jited_linfo_func_idx pl ! ?g" and ?n = "nr_jited_linfo_per_func pl ! ?g"
  have words: "unat ?first = first" "unat ?n = n" by (simp_all add: first_def n_def func_start_def func_count_def)
  show ?thesis
  proof (cases "?n \<le> skip")
    case True
    then show ?thesis using assms(2) get words by (simp add: bpf_prog_linfo__lfind_addr_func_def linfo_found_def word_le_nat_alt not_le)
  next
    case False
    have lt: "?s < n" using False words by (simp add: word_le_nat_alt)
    have "first + ?s < 2 ^ 32" using part lt unsigned_less [of "nr_linfo pl", where 'a = nat] by simp
    then have start: "unat (?first + skip) = first + ?s" using words by (simp add: unat_word_ariths)
    have inside: "first + ?s + k < ?all" if "k < n - ?s" for k using that part lt by simp
    have fits: "unat ((?first + skip) * jited_rec_size pl) = (first + ?s) * ?jsz" "unat ((?first + skip) * rec_size pl) = (first + ?s) * ?sz"
    proof -
      have "(first + ?s) * sz \<le> ?all * sz" for sz using inside [of 0] lt by (intro mult_le_mono1) simp
      then show "unat ((?first + skip) * jited_rec_size pl) = (first + ?s) * ?jsz" "unat ((?first + skip) * rec_size pl) = (first + ?s) * ?sz"
        using unat_mult_fits [of "?first + skip"] le_less_trans [OF _ jok(1)] le_less_trans [OF _ ok(2)] by (simp_all add: start)
    qed
    have rest: "unat (?n - skip) = n - ?s" using False words by (simp add: unat_sub)
    have cur: "load64 (raw_jited_linfo pl) ((first + ?s) * ?jsz) = Some (jited_addr info (first + ?s))"
      using addrs [OF inside [of 0]] lt by simp
    show ?thesis
    proof (cases "addr < jited_addr info (first + ?s)")
      case True
      then show ?thesis using False assms(2) get cur
        by (simp add: bpf_prog_linfo__lfind_addr_func_def fits linfo_found_def not_le)
    next
      case in_front: False
      have "\<forall>i<n - ?s. do { x \<leftarrow> load64 (raw_jited_linfo pl) ((first + ?s) * ?jsz + i * ?jsz); Some (addr < x) } =
          Some (addr < jited_addr info (first + ?s + i))"
        using addrs [OF inside] by (simp flip: add_mult_distrib)
      note scan = linfo_scan_found [where val = "jited_addr info" and s = "first + ?s", OF this _ in_front, of ?sz]
      have "0 < n - ?s" using lt by simp
      with scan obtain m where
        "linfo_scan (\<lambda>i. do { x \<leftarrow> load64 (raw_jited_linfo pl) ((first + ?s) * ?jsz + i * ?jsz); Some (addr < x) }) 0 (n - ?s) = Some m"
        "linfo_found (jited_addr info) (first + ?s) (n - ?s) 0 addr ?sz (Some ((first + ?s) * ?sz + m * ?sz - ?sz))" by blast
      note m = this
      have "bpf_prog_linfo__lfind_addr_func pl addr func_idx skip = Some (Some ((first + ?s) * ?sz + m * ?sz - ?sz))"
        using False in_front cur get m(1) assms(2) by (simp add: bpf_prog_linfo__lfind_addr_func_def fits rest not_le)
      moreover have "linfo_found (jited_addr info) first n ?s addr ?sz (Some ((first + ?s) * ?sz + m * ?sz - ?sz))"
        by (rule linfo_found_skip [OF m(2) less_imp_le [OF lt]])
      ultimately show ?thesis unfolding ok(1) by blast
    qed
  qed
qed


text \<open>Two functions, the first of two lines; the address of the second line and one byte.\<close>

definition demo_info :: bpf_prog_info where
  "demo_info = \<lparr>nr_line_info = 3, line_info_rec_size = 4, line_info = [0, 0, 0, 0, 2, 0, 0, 0, 5, 0, 0, 0],
     nr_jited_ksyms = 2, jited_ksyms = Some [0x10, 0x20], nr_jited_line_info = 3, jited_line_info_rec_size = 8,
     jited_line_info = Some [0x10, 0, 0, 0, 0, 0, 0, 0, 0x14, 0, 0, 0, 0, 0, 0, 0, 0x20, 0, 0, 0, 0, 0, 0, 0],
     nr_jited_func_lens = 2, jited_func_lens = Some [8, 8]\<rparr>"

definition demo_linfo :: bpf_prog_linfo where
  "demo_linfo = \<lparr>raw_linfo = line_info demo_info, raw_jited_linfo = the (jited_line_info demo_info),
     nr_jited_linfo_per_func = [2, 1], jited_linfo_func_idx = [0, 2], nr_linfo = 3, nr_jited_func = 2, rec_size = 4, jited_rec_size = 8\<rparr>"

lemma demo_new: "bpf_prog_linfo__new (\<lambda>_. True) (\<lambda>_. 7) (\<lambda>_. 7) demo_info = Some (Some demo_linfo)"
  by code_simp


end
