(* ===== verification/Btf.thy ===== *)
theory Btf
  imports Text Bpf_User
begin

text \<open>
  BTF types (libbpf/include/uapi/linux/btf.h), the accessors of libbpf/src/btf.h and the queries of
  libbpf/src/btf.c. A type is a record with its three words and the words that follow it in memory
  (members, parameters, array data); a type pointer is the record itself, \<^term>\<open>None\<close> the NULL pointer.
  \<open>btf_void\<close> is the only type of kind \<open>BTF_KIND_UNKN\<close>, since a type of that kind is refused by the
  parser, so the comparison with its address is a comparison of values. How the records arise from the
  bytes of a section is in \<open>Btf_Parse\<close>.
\<close>

section \<open>Types\<close>

record btf_type =
  t_name_off :: u32
  t_info :: u32
  t_size :: u32
  t_extra :: "u32 list"

text \<open>The kinds, in the order of their numbers.\<close>

datatype btf_kind =
    BTF_KIND_UNKN | BTF_KIND_INT | BTF_KIND_PTR | BTF_KIND_ARRAY | BTF_KIND_STRUCT | BTF_KIND_UNION | BTF_KIND_ENUM | BTF_KIND_FWD
  | BTF_KIND_TYPEDEF | BTF_KIND_VOLATILE | BTF_KIND_CONST | BTF_KIND_RESTRICT | BTF_KIND_FUNC | BTF_KIND_FUNC_PROTO | BTF_KIND_VAR
  | BTF_KIND_DATASEC

definition btf_kinds :: "btf_kind list" where
  "btf_kinds = [BTF_KIND_UNKN, BTF_KIND_INT, BTF_KIND_PTR, BTF_KIND_ARRAY, BTF_KIND_STRUCT, BTF_KIND_UNION, BTF_KIND_ENUM, BTF_KIND_FWD,
     BTF_KIND_TYPEDEF, BTF_KIND_VOLATILE, BTF_KIND_CONST, BTF_KIND_RESTRICT, BTF_KIND_FUNC, BTF_KIND_FUNC_PROTO, BTF_KIND_VAR,
     BTF_KIND_DATASEC]"

definition BTF_INFO_KIND :: "u32 \<Rightarrow> u32" where "BTF_INFO_KIND i = drop_bit 24 i AND 0x0f"
definition BTF_INFO_VLEN :: "u32 \<Rightarrow> u32" where "BTF_INFO_VLEN i = i AND 0xffff"
definition BTF_INFO_KFLAG :: "u32 \<Rightarrow> u32" where "BTF_INFO_KFLAG i = drop_bit 31 i"

definition btf_kind :: "btf_type \<Rightarrow> btf_kind" where
  "btf_kind t = btf_kinds ! unat (BTF_INFO_KIND (t_info t))"

definition btf_vlen :: "btf_type \<Rightarrow> nat" where
  "btf_vlen t = unat (BTF_INFO_VLEN (t_info t))"

definition btf_kflag :: "btf_type \<Rightarrow> bool" where
  "btf_kflag t \<longleftrightarrow> BTF_INFO_KFLAG (t_info t) \<noteq> 0"

definition btf_is_int :: "btf_type \<Rightarrow> bool" where "btf_is_int t \<longleftrightarrow> btf_kind t = BTF_KIND_INT"
definition btf_is_ptr :: "btf_type \<Rightarrow> bool" where "btf_is_ptr t \<longleftrightarrow> btf_kind t = BTF_KIND_PTR"
definition btf_is_array :: "btf_type \<Rightarrow> bool" where "btf_is_array t \<longleftrightarrow> btf_kind t = BTF_KIND_ARRAY"
definition btf_is_struct :: "btf_type \<Rightarrow> bool" where "btf_is_struct t \<longleftrightarrow> btf_kind t = BTF_KIND_STRUCT"
definition btf_is_union :: "btf_type \<Rightarrow> bool" where "btf_is_union t \<longleftrightarrow> btf_kind t = BTF_KIND_UNION"
definition btf_is_composite :: "btf_type \<Rightarrow> bool" where
  "btf_is_composite t \<longleftrightarrow> btf_kind t = BTF_KIND_STRUCT \<or> btf_kind t = BTF_KIND_UNION"
definition btf_is_enum :: "btf_type \<Rightarrow> bool" where "btf_is_enum t \<longleftrightarrow> btf_kind t = BTF_KIND_ENUM"
definition btf_is_fwd :: "btf_type \<Rightarrow> bool" where "btf_is_fwd t \<longleftrightarrow> btf_kind t = BTF_KIND_FWD"
definition btf_is_typedef :: "btf_type \<Rightarrow> bool" where "btf_is_typedef t \<longleftrightarrow> btf_kind t = BTF_KIND_TYPEDEF"
definition btf_is_volatile :: "btf_type \<Rightarrow> bool" where "btf_is_volatile t \<longleftrightarrow> btf_kind t = BTF_KIND_VOLATILE"
definition btf_is_const :: "btf_type \<Rightarrow> bool" where "btf_is_const t \<longleftrightarrow> btf_kind t = BTF_KIND_CONST"
definition btf_is_restrict :: "btf_type \<Rightarrow> bool" where "btf_is_restrict t \<longleftrightarrow> btf_kind t = BTF_KIND_RESTRICT"
definition btf_is_mod :: "btf_type \<Rightarrow> bool" where
  "btf_is_mod t \<longleftrightarrow> btf_kind t = BTF_KIND_VOLATILE \<or> btf_kind t = BTF_KIND_CONST \<or> btf_kind t = BTF_KIND_RESTRICT"
definition btf_is_func :: "btf_type \<Rightarrow> bool" where "btf_is_func t \<longleftrightarrow> btf_kind t = BTF_KIND_FUNC"
definition btf_is_func_proto :: "btf_type \<Rightarrow> bool" where "btf_is_func_proto t \<longleftrightarrow> btf_kind t = BTF_KIND_FUNC_PROTO"
definition btf_is_var :: "btf_type \<Rightarrow> bool" where "btf_is_var t \<longleftrightarrow> btf_kind t = BTF_KIND_VAR"
definition btf_is_datasec :: "btf_type \<Rightarrow> bool" where "btf_is_datasec t \<longleftrightarrow> btf_kind t = BTF_KIND_DATASEC"

section \<open>What follows a type\<close>

record btf_array = a_type :: u32  a_index_type :: u32  a_nelems :: u32
record btf_member = m_name_off :: u32  m_type :: u32  m_offset :: u32
record btf_enum = e_name_off :: u32  e_val :: u32
record btf_param = p_name_off :: u32  p_type :: u32
record btf_var_secinfo = v_type :: u32  v_offset :: u32  v_size :: u32

definition btf_array :: "btf_type \<Rightarrow> btf_array" where
  "btf_array t = \<lparr>a_type = t_extra t ! 0, a_index_type = t_extra t ! 1, a_nelems = t_extra t ! 2\<rparr>"

definition btf_member :: "btf_type \<Rightarrow> nat \<Rightarrow> btf_member" where
  "btf_member t i = \<lparr>m_name_off = t_extra t ! (3 * i), m_type = t_extra t ! (3 * i + 1), m_offset = t_extra t ! (3 * i + 2)\<rparr>"

definition btf_members :: "btf_type \<Rightarrow> btf_member list" where
  "btf_members t = map (btf_member t) [0..<btf_vlen t]"

definition btf_enum :: "btf_type \<Rightarrow> btf_enum list" where
  "btf_enum t = map (\<lambda>i. \<lparr>e_name_off = t_extra t ! (2 * i), e_val = t_extra t ! (2 * i + 1)\<rparr>) [0..<btf_vlen t]"

definition btf_params :: "btf_type \<Rightarrow> btf_param list" where
  "btf_params t = map (\<lambda>i. \<lparr>p_name_off = t_extra t ! (2 * i), p_type = t_extra t ! (2 * i + 1)\<rparr>) [0..<btf_vlen t]"

definition btf_var_linkage :: "btf_type \<Rightarrow> u32" where "btf_var_linkage t = t_extra t ! 0"

definition btf_var_secinfos :: "btf_type \<Rightarrow> btf_var_secinfo list" where
  "btf_var_secinfos t = map (\<lambda>i. \<lparr>v_type = t_extra t ! (3 * i), v_offset = t_extra t ! (3 * i + 1), v_size = t_extra t ! (3 * i + 2)\<rparr>) [0..<btf_vlen t]"

definition BTF_INT_ENCODING :: "u32 \<Rightarrow> u32" where "BTF_INT_ENCODING v = drop_bit 24 (v AND 0x0f000000)"
definition BTF_INT_OFFSET :: "u32 \<Rightarrow> u32" where "BTF_INT_OFFSET v = drop_bit 16 (v AND 0x00ff0000)"
definition BTF_INT_BITS :: "u32 \<Rightarrow> u32" where "BTF_INT_BITS v = v AND 0x000000ff"

definition btf_int_encoding :: "btf_type \<Rightarrow> u8" where "btf_int_encoding t = ucast (BTF_INT_ENCODING (t_extra t ! 0))"
definition btf_int_offset :: "btf_type \<Rightarrow> u8" where "btf_int_offset t = ucast (BTF_INT_OFFSET (t_extra t ! 0))"
definition btf_int_bits :: "btf_type \<Rightarrow> u8" where "btf_int_bits t = ucast (BTF_INT_BITS (t_extra t ! 0))"

definition BTF_MEMBER_BITFIELD_SIZE :: "u32 \<Rightarrow> u32" where "BTF_MEMBER_BITFIELD_SIZE v = drop_bit 24 v"
definition BTF_MEMBER_BIT_OFFSET :: "u32 \<Rightarrow> u32" where "BTF_MEMBER_BIT_OFFSET v = v AND 0xffffff"

definition btf_member_bit_offset :: "btf_type \<Rightarrow> nat \<Rightarrow> u32" where
  "btf_member_bit_offset t i =
     (if btf_kflag t then BTF_MEMBER_BIT_OFFSET (m_offset (btf_member t i)) else m_offset (btf_member t i))"

definition btf_member_bitfield_size :: "btf_type \<Rightarrow> nat \<Rightarrow> u32" where
  "btf_member_bitfield_size t i = (if btf_kflag t then BTF_MEMBER_BITFIELD_SIZE (m_offset (btf_member t i)) else 0)"

text \<open>The number of bytes of a type with what follows it, negative for an unknown kind.\<close>

definition btf_type_size :: "btf_type \<Rightarrow> int" where
  "btf_type_size t = (case btf_kind t of
     BTF_KIND_FWD \<Rightarrow> 12 | BTF_KIND_CONST \<Rightarrow> 12 | BTF_KIND_VOLATILE \<Rightarrow> 12 | BTF_KIND_RESTRICT \<Rightarrow> 12 | BTF_KIND_PTR \<Rightarrow> 12
   | BTF_KIND_TYPEDEF \<Rightarrow> 12 | BTF_KIND_FUNC \<Rightarrow> 12
   | BTF_KIND_INT \<Rightarrow> 12 + 4
   | BTF_KIND_ENUM \<Rightarrow> 12 + int (btf_vlen t) * 8
   | BTF_KIND_ARRAY \<Rightarrow> 12 + 12
   | BTF_KIND_STRUCT \<Rightarrow> 12 + int (btf_vlen t) * 12 | BTF_KIND_UNION \<Rightarrow> 12 + int (btf_vlen t) * 12
   | BTF_KIND_FUNC_PROTO \<Rightarrow> 12 + int (btf_vlen t) * 8
   | BTF_KIND_VAR \<Rightarrow> 12 + 4
   | BTF_KIND_DATASEC \<Rightarrow> 12 + int (btf_vlen t) * 12
   | BTF_KIND_UNKN \<Rightarrow> - EINVAL)"

text \<open>A type is well formed when exactly the words its kind asks for follow it.\<close>

definition type_ok :: "btf_type \<Rightarrow> bool" where
  "type_ok t \<longleftrightarrow> 0 \<le> btf_type_size t \<and> int (length (t_extra t)) * 4 + 12 = btf_type_size t"

section \<open>The section\<close>

definition BTF_MAX_NR_TYPES :: u32 where "BTF_MAX_NR_TYPES = 0x7fffffff"

text \<open>
  The parsed section: \<open>types ! 0\<close> is \<open>btf_void\<close>, the others follow by their number. The strings are
  characters, each string closed by a NUL character.
\<close>

record btf =
  types :: "btf_type list"
  strs :: string

definition btf_void :: btf_type where
  "btf_void = \<lparr>t_name_off = 0, t_info = 0, t_size = 0, t_extra = []\<rparr>"

definition btf__get_nr_types :: "btf \<Rightarrow> nat" where
  "btf__get_nr_types b = length (types b) - 1"

definition btf__type_by_id :: "btf \<Rightarrow> u32 \<Rightarrow> btf_type option" where
  "btf__type_by_id b type_id =
     (if unat type_id > btf__get_nr_types b then None else Some (types b ! unat type_id))"

definition btf_type_is_void :: "btf_type \<Rightarrow> bool" where
  "btf_type_is_void t \<longleftrightarrow> t = btf_void \<or> btf_is_fwd t"

definition btf_type_is_void_or_null :: "btf_type option \<Rightarrow> bool" where
  "btf_type_is_void_or_null t \<longleftrightarrow> (case t of None \<Rightarrow> True | Some t \<Rightarrow> btf_type_is_void t)"

text \<open>A string is read up to its NUL character.\<close>

definition btf__name_by_offset :: "btf \<Rightarrow> u32 \<Rightarrow> string option" where
  "btf__name_by_offset b off =
     (if unat off < length (strs b) then Some (takeWhile (\<lambda>c. c \<noteq> CHR 0x00) (drop (unat off) (strs b))) else None)"

definition MAX_RESOLVE_DEPTH :: nat where "MAX_RESOLVE_DEPTH = 32"
definition UINT32_MAX :: nat where "UINT32_MAX = 2 ^ 32 - 1"

text \<open>
  The loop of \<open>btf__resolve_size\<close> with the number of rounds left: an error, or the number of elements
  and the size so far (-1 when the rounds are used up or nothing was found).
\<close>

fun resolve_size_loop :: "btf \<Rightarrow> nat \<Rightarrow> btf_type option \<Rightarrow> u32 \<Rightarrow> int + u32 \<times> int" where
  "resolve_size_loop b 0 t nelems = Inr (nelems, -1)"
| "resolve_size_loop b (Suc n) t nelems =
     (case t of
        None \<Rightarrow> Inr (nelems, -1)
      | Some ty \<Rightarrow>
          if btf_type_is_void ty then Inr (nelems, -1)
          else if btf_kind ty \<in> {BTF_KIND_INT, BTF_KIND_STRUCT, BTF_KIND_UNION, BTF_KIND_ENUM, BTF_KIND_DATASEC}
          then Inr (nelems, uint (t_size ty))
          else if btf_kind ty = BTF_KIND_PTR then Inr (nelems, 8)
          else if btf_kind ty \<in> {BTF_KIND_TYPEDEF, BTF_KIND_VOLATILE, BTF_KIND_CONST, BTF_KIND_RESTRICT, BTF_KIND_VAR}
          then resolve_size_loop b n (btf__type_by_id b (t_size ty)) nelems
          else if btf_kind ty = BTF_KIND_ARRAY
          then (if nelems \<noteq> 0 \<and> unat (a_nelems (btf_array ty)) > UINT32_MAX div unat nelems then Inl (- E2BIG)
            else resolve_size_loop b n (btf__type_by_id b (a_type (btf_array ty))) (nelems * a_nelems (btf_array ty)))
          else Inl (- EINVAL))"

definition btf__resolve_size :: "btf \<Rightarrow> u32 \<Rightarrow> int" where
  "btf__resolve_size b type_id =
     (case resolve_size_loop b MAX_RESOLVE_DEPTH (btf__type_by_id b type_id) 1 of
        Inl err \<Rightarrow> err
      | Inr (nelems, s) \<Rightarrow>
          if s < 0 then - EINVAL
          else if nelems \<noteq> 0 \<and> s > int (UINT32_MAX div unat nelems) then - E2BIG
          else int (unat nelems) * s)"

text \<open>The loop of \<open>btf__resolve_type\<close>: the depth and the type at its end.\<close>

fun resolve_type_loop :: "btf \<Rightarrow> nat \<Rightarrow> u32 \<Rightarrow> nat \<times> u32" where
  "resolve_type_loop b 0 type_id = (MAX_RESOLVE_DEPTH, type_id)"
| "resolve_type_loop b (Suc n) type_id =
     (case btf__type_by_id b type_id of
        None \<Rightarrow> (MAX_RESOLVE_DEPTH - Suc n, type_id)
      | Some t \<Rightarrow>
          if \<not> btf_type_is_void t \<and> (btf_is_mod t \<or> btf_is_typedef t \<or> btf_is_var t)
          then resolve_type_loop b n (t_size t) else (MAX_RESOLVE_DEPTH - Suc n, type_id))"

definition btf__resolve_type :: "btf \<Rightarrow> u32 \<Rightarrow> int" where
  "btf__resolve_type b type_id =
     (let (depth, type_id) = resolve_type_loop b MAX_RESOLVE_DEPTH type_id in
      if depth = MAX_RESOLVE_DEPTH \<or> btf_type_is_void_or_null (btf__type_by_id b type_id) then - EINVAL
      else int_of_size (ucast type_id))"

fun find_by_name_loop :: "btf \<Rightarrow> string \<Rightarrow> nat list \<Rightarrow> int" where
  "find_by_name_loop b type_name [] = - ENOENT"
| "find_by_name_loop b type_name (i # is) =
     (if btf__name_by_offset b (t_name_off (types b ! i)) = Some type_name then int i else find_by_name_loop b type_name is)"

definition btf__find_by_name :: "btf \<Rightarrow> string \<Rightarrow> int" where
  "btf__find_by_name b type_name =
     (if type_name = ''void'' then 0 else find_by_name_loop b type_name [1..<Suc (btf__get_nr_types b)])"

text \<open>The result: the code, and the two type numbers if they were stored.\<close>

definition btf__get_map_kv_tids :: "btf \<Rightarrow> string \<Rightarrow> u32 \<Rightarrow> u32 \<Rightarrow> int \<times> (u32 \<times> u32) option" where
  "btf__get_map_kv_tids b map_name expected_key_size expected_value_size =
     (let (len, container_name) = snprintf 256 (''____btf_map_'' @ map_name) in
      if len = 256 then (- EINVAL, None)
      else let container_id = btf__find_by_name b container_name in
      if container_id < 0 then (container_id, None)
      else case btf__type_by_id b (word_of_int container_id) of
        None \<Rightarrow> (- EINVAL, None)
      | Some t \<Rightarrow>
          if \<not> btf_is_struct t \<or> btf_vlen t < 2 then (- EINVAL, None)
          else let k = btf_member t 0; v = btf_member t 1; key_size = btf__resolve_size b (m_type k) in
          if key_size < 0 then (key_size, None)
          else if int (unat expected_key_size) \<noteq> key_size then (- EINVAL, None)
          else let value_size = btf__resolve_size b (m_type v) in
          if value_size < 0 then (value_size, None)
          else if int (unat expected_value_size) \<noteq> value_size then (- EINVAL, None)
          else (0, Some (m_type k, m_type v)))"

section \<open>The size of a type\<close>

text \<open>
  The meaning of \<open>btf__resolve_size\<close>: the type \<open>id\<close> leads, over \<open>d\<close> references and arrays, to a type of
  \<open>s\<close> bytes, and the arrays passed have \<open>n\<close> elements together. There is no bound on the depth and no
  machine arithmetic in it.
\<close>

inductive sized :: "btf \<Rightarrow> nat \<Rightarrow> u32 \<Rightarrow> nat \<Rightarrow> nat \<Rightarrow> bool" for b where
  sized_leaf: "btf__type_by_id b tid = Some t \<Longrightarrow> \<not> btf_type_is_void t \<Longrightarrow>
    btf_kind t \<in> {BTF_KIND_INT, BTF_KIND_STRUCT, BTF_KIND_UNION, BTF_KIND_ENUM, BTF_KIND_DATASEC} \<Longrightarrow> sized b 0 tid 1 (unat (t_size t))"
| sized_ptr: "btf__type_by_id b tid = Some t \<Longrightarrow> \<not> btf_type_is_void t \<Longrightarrow> btf_kind t = BTF_KIND_PTR \<Longrightarrow> sized b 0 tid 1 8"
| sized_ref: "btf__type_by_id b tid = Some t \<Longrightarrow> \<not> btf_type_is_void t \<Longrightarrow>
    btf_kind t \<in> {BTF_KIND_TYPEDEF, BTF_KIND_VOLATILE, BTF_KIND_CONST, BTF_KIND_RESTRICT, BTF_KIND_VAR} \<Longrightarrow>
    sized b d (t_size t) n s \<Longrightarrow> sized b (Suc d) tid n s"
| sized_array: "btf__type_by_id b tid = Some t \<Longrightarrow> \<not> btf_type_is_void t \<Longrightarrow> btf_kind t = BTF_KIND_ARRAY \<Longrightarrow>
    sized b d (a_type (btf_array t)) n s \<Longrightarrow> sized b (Suc d) tid (unat (a_nelems (btf_array t)) * n) s"

text \<open>The check before a multiplication says exactly that the product fits.\<close>

lemma fits_u32: "0 < n \<Longrightarrow> m \<le> UINT32_MAX div n \<longleftrightarrow> n * m < 2 ^ 32"
proof -
  assume n: "0 < n"
  have "m \<le> UINT32_MAX div n \<longleftrightarrow> m * n \<le> UINT32_MAX" by (rule less_eq_div_iff_mult_less_eq [OF n])
  also have "\<dots> \<longleftrightarrow> n * m < 2 ^ 32" by (auto simp: UINT32_MAX_def mult.commute)
  finally show ?thesis .
qed

lemma unat_mult_u32: "unat a * unat b < 2 ^ 32 \<Longrightarrow> unat (a * b :: u32) = unat a * unat b"
  by (simp add: unat_word_ariths)

lemma resolve_size_loop_sound:
  "resolve_size_loop b k (btf__type_by_id b tid) nelems = Inr (m, z) \<Longrightarrow> 0 \<le> z \<Longrightarrow>
   \<exists>d<k. \<exists>n s. sized b d tid n s \<and> z = int s \<and> unat m = unat nelems * n"
proof (induction k arbitrary: tid nelems)
  case (Suc k)
  obtain t where t: "btf__type_by_id b tid = Some t" "\<not> btf_type_is_void t"
    using Suc.prems by (auto split: option.splits if_splits)
  note step = Suc.prems(1) [unfolded t(1) resolve_size_loop.simps option.case if_not_P [OF t(2)]]
  show ?case
  proof (cases "btf_kind t \<in> {BTF_KIND_INT, BTF_KIND_STRUCT, BTF_KIND_UNION, BTF_KIND_ENUM, BTF_KIND_DATASEC}")
    case True
    have "m = nelems" "z = int (unat (t_size t))" using step unfolding if_P [OF True] by simp_all
    moreover have "sized b 0 tid 1 (unat (t_size t))" by (rule sized_leaf [OF t True])
    ultimately show ?thesis by (intro exI [of _ 0] conjI exI [of _ 1] exI [of _ "unat (t_size t)"]) simp_all
  next
    case leaf: False
    note step = step [unfolded if_not_P [OF leaf]]
    show ?thesis
    proof (cases "btf_kind t \<in> {BTF_KIND_TYPEDEF, BTF_KIND_VOLATILE, BTF_KIND_CONST, BTF_KIND_RESTRICT, BTF_KIND_VAR}")
      case True
      then have "resolve_size_loop b k (btf__type_by_id b (t_size t)) nelems = Inr (m, z)" using step by auto
      from Suc.IH [OF this Suc.prems(2)] obtain d n s where
        d: "d < k" "sized b d (t_size t) n s" "z = int s" "unat m = unat nelems * n" by blast
      have "sized b (Suc d) tid n s" by (rule sized_ref [OF t True d(2)])
      with d show ?thesis by (intro exI [of _ "Suc d"]) auto
    next
      case ref: False
      show ?thesis
      proof (cases "btf_kind t = BTF_KIND_PTR")
        case True
        then have "m = nelems" "z = 8" using step by simp_all
        moreover have "sized b 0 tid 1 8" by (rule sized_ptr [OF t True])
        ultimately show ?thesis by (intro exI [of _ 0] conjI exI [of _ 1] exI [of _ 8]) simp_all
      next
        case False
        then have arr: "btf_kind t = BTF_KIND_ARRAY" using step ref by (auto split: if_splits)
        let ?e = "a_nelems (btf_array t)"
        have ok: "nelems = 0 \<or> unat ?e \<le> UINT32_MAX div unat nelems"
          and run: "resolve_size_loop b k (btf__type_by_id b (a_type (btf_array t))) (nelems * ?e) = Inr (m, z)"
          using step arr by (simp_all add: not_less split: if_splits)
        from Suc.IH [OF run Suc.prems(2)] obtain d n s where
          d: "d < k" "sized b d (a_type (btf_array t)) n s" "z = int s" "unat m = unat (nelems * ?e) * n" by blast
        have "unat (nelems * ?e) = unat nelems * unat ?e"
          using ok fits_u32 [of "unat nelems" "unat ?e"] by (cases "nelems = 0") (simp_all add: unat_mult_u32 unat_gt_0)
        moreover have "sized b (Suc d) tid (unat ?e * n) s" by (rule sized_array [OF t arr d(2)])
        ultimately show ?thesis using d by (intro exI [of _ "Suc d"]) (auto simp: mult.assoc)
      qed
    qed
  qed
qed simp

lemma resolve_size_loop_complete:
  "sized b d tid n s \<Longrightarrow> d < k \<Longrightarrow> 0 < n \<Longrightarrow> nelems \<noteq> 0 \<Longrightarrow> unat nelems * n < 2 ^ 32 \<Longrightarrow>
   \<exists>m. resolve_size_loop b k (btf__type_by_id b tid) nelems = Inr (m, int s) \<and> unat m = unat nelems * n"
proof (induction arbitrary: k nelems rule: sized.induct)
  case (sized_leaf tid t)
  then show ?case by (cases k) simp_all
next
  case (sized_ptr tid t)
  then show ?case by (cases k) simp_all
next
  case (sized_ref tid t d n s)
  then obtain k' where k: "k = Suc k'" "d < k'" by (cases k) simp_all
  from sized_ref.IH [OF k(2) sized_ref.prems(2-4)] obtain m where
    "resolve_size_loop b k' (btf__type_by_id b (t_size t)) nelems = Inr (m, int s)" "unat m = unat nelems * n" by blast
  then show ?case using sized_ref.hyps k by auto
next
  case (sized_array tid t d n s)
  let ?e = "a_nelems (btf_array t)"
  obtain k' where k: "k = Suc k'" "d < k'" using sized_array.prems(1) by (cases k) simp_all
  have pos: "0 < unat ?e" "0 < n" "0 < unat nelems" using sized_array.prems by (simp_all add: unat_gt_0)
  have "unat nelems * unat ?e * 1 \<le> unat nelems * unat ?e * n" using pos(2) by (intro mult_le_mono2) simp
  then have fit: "unat nelems * unat ?e < 2 ^ 32" using sized_array.prems(4) by (simp only: mult.assoc mult_1_right)
  then have ok: "unat ?e \<le> UINT32_MAX div unat nelems" using fits_u32 [OF pos(3)] by simp
  have prod: "unat (nelems * ?e) = unat nelems * unat ?e" by (rule unat_mult_u32 [OF fit])
  have ne: "nelems * ?e \<noteq> 0" using prod pos by (metis mult_is_0 neq0_conv unsigned_0)
  have "unat (nelems * ?e) * n < 2 ^ 32" using sized_array.prems(4) by (simp add: prod mult.assoc)
  from sized_array.IH [OF k(2) pos(2) ne this] obtain m where
    m: "resolve_size_loop b k' (btf__type_by_id b (a_type (btf_array t))) (nelems * ?e) = Inr (m, int s)"
    "unat m = unat (nelems * ?e) * n" by blast
  then have "resolve_size_loop b k (btf__type_by_id b tid) nelems = Inr (m, int s)"
    using sized_array.hyps(1-3) k ok by (simp add: not_less)
  then show ?case using m(2) by (simp add: prod mult.assoc)
qed


text \<open>A typedef of an array of three integers of four bytes.\<close>

definition demo_btf :: btf where
  "demo_btf = \<lparr>types = [btf_void, \<lparr>t_name_off = 1, t_info = 0x01000000, t_size = 4, t_extra = [32]\<rparr>,
     \<lparr>t_name_off = 0, t_info = 0x03000000, t_size = 0, t_extra = [1, 1, 3]\<rparr>,
     \<lparr>t_name_off = 5, t_info = 0x08000000, t_size = 2, t_extra = []\<rparr>], strs = CHR 0x00 # ''int'' @ CHR 0x00 # ''tri'' @ [CHR 0x00]\<rparr>"


end
