(* ===== verification/Btf_Parse.thy ===== *)
theory Btf_Parse
  imports Btf Bytes
begin

text \<open>
  libbpf/src/btf.c, from the bytes of a .BTF section to its types: the header, the string section and the
  type section. The section is a copy in memory of its own, \<open>b_data\<close>; a pointer to a type is the offset of
  the type in it, or \<open>&btf_void\<close>. \<^term>\<open>None\<close> is an access outside a buffer. \<open>btf_view\<close> reads the records
  of \<open>Btf\<close> from the bytes.
\<close>

section \<open>Header\<close>

record btf_header =
  h_magic :: u16
  h_version :: u8
  h_flags :: u8
  h_hdr_len :: u32
  h_type_off :: u32
  h_type_len :: u32
  h_str_off :: u32
  h_str_len :: u32

definition BTF_MAGIC :: u16 where "BTF_MAGIC = 0xeB9F"
definition BTF_VERSION :: u8 where "BTF_VERSION = 1"
definition BTF_MAX_STR_OFFSET :: u32 where "BTF_MAX_STR_OFFSET = 0x7fffffff"

definition btf_header_at :: "bytes \<Rightarrow> btf_header option" where
  "btf_header_at m = do {
     magic \<leftarrow> load16 m 0; version \<leftarrow> load8 m 2; flags \<leftarrow> load8 m 3; hdr_len \<leftarrow> load32 m 4;
     type_off \<leftarrow> load32 m 8; type_len \<leftarrow> load32 m 12; str_off \<leftarrow> load32 m 16; str_len \<leftarrow> load32 m 20;
     Some \<lparr>h_magic = magic, h_version = version, h_flags = flags, h_hdr_len = hdr_len, h_type_off = type_off,
       h_type_len = type_len, h_str_off = str_off, h_str_len = str_len\<rparr>
   }"

datatype type_ptr = Void | At nat

record raw_btf =
  b_data :: bytes
  b_types :: "type_ptr list"
  b_strings :: nat
  b_nr_types :: u32
  b_types_size :: u32
  b_data_size :: u32
  b_fd :: int

section \<open>Parsing\<close>

text \<open>The array of types; \<open>alloc\<close> says whether it can be made larger.\<close>

definition btf_add_type :: "(u32 \<Rightarrow> bool) \<Rightarrow> raw_btf \<Rightarrow> nat \<Rightarrow> (int \<times> raw_btf) option" where
  "btf_add_type alloc b t =
     (let grow = b_types_size b - b_nr_types b < 2;
          new_size = min BTF_MAX_NR_TYPES (b_types_size b + max (drop_bit 2 (b_types_size b)) 16) in
      if grow \<and> b_types_size b = BTF_MAX_NR_TYPES then Some (- E2BIG, b)
      else if grow \<and> \<not> alloc new_size then Some (- ENOMEM, b)
      else let b = (if grow then b\<lparr>b_types := (if b_nr_types b = 0 then [Void] else b_types b), b_types_size := new_size\<rparr> else b);
               nr = b_nr_types b + 1 in
      if unat nr < unat (b_types_size b) then Some (0, b\<lparr>b_nr_types := nr, b_types := take (unat nr) (b_types b) @ [At t]\<rparr>) else None)"

definition btf_parse_hdr :: "raw_btf \<Rightarrow> int option" where
  "btf_parse_hdr b =
     (if b_data_size b < 24 then Some (- EINVAL)
      else do {
        hdr \<leftarrow> btf_header_at (b_data b);
        let meta_left = b_data_size b - 24;
        Some (if h_magic hdr \<noteq> BTF_MAGIC then - EINVAL
          else if h_version hdr \<noteq> BTF_VERSION then - ENOTSUP
          else if h_flags hdr \<noteq> 0 then - ENOTSUP
          else if meta_left = 0 then - EINVAL
          else if meta_left < h_type_off hdr then - EINVAL
          else if meta_left < h_str_off hdr then - EINVAL
          else if h_type_off hdr \<ge> h_str_off hdr then - EINVAL
          else if h_type_off hdr AND 0x02 \<noteq> 0 then - EINVAL
          else 0)
      })"

definition btf_parse_str_sec :: "raw_btf \<Rightarrow> (int \<times> raw_btf) option" where
  "btf_parse_str_sec b = do {
     hdr \<leftarrow> btf_header_at (b_data b);
     let start = 24 + unat (h_str_off hdr);
     if h_str_len hdr = 0 \<or> h_str_len hdr - 1 > BTF_MAX_STR_OFFSET then Some (- EINVAL, b)
     else do {
       c \<leftarrow> load8 (b_data b) start;
       if c \<noteq> 0 then Some (- EINVAL, b)
       else do {
         e \<leftarrow> load8 (b_data b) (start + unat (h_str_len hdr) - 1);
         if e \<noteq> 0 then Some (- EINVAL, b) else Some (0, b\<lparr>b_strings := start\<rparr>)
       }
     }
   }"

text \<open>The three words at the start of a type.\<close>

definition type_words_at :: "bytes \<Rightarrow> nat \<Rightarrow> btf_type option" where
  "type_words_at m p = do {
     name \<leftarrow> load32 m p; i \<leftarrow> load32 m (p + 4); s \<leftarrow> load32 m (p + 8);
     Some \<lparr>t_name_off = name, t_info = i, t_size = s, t_extra = []\<rparr>
   }"

text \<open>Of a type only the word \<open>info\<close> is read.\<close>

definition type_size_at :: "bytes \<Rightarrow> nat \<Rightarrow> int option" where
  "type_size_at m p = do {
     i \<leftarrow> load32 m (p + 4);
     Some (btf_type_size \<lparr>t_name_off = 0, t_info = i, t_size = 0, t_extra = []\<rparr>)
   }"

function parse_types_loop :: "(u32 \<Rightarrow> bool) \<Rightarrow> raw_btf \<Rightarrow> nat \<Rightarrow> nat \<Rightarrow> (int \<times> raw_btf) option" where
  "parse_types_loop alloc b next_type end_type =
     (if next_type < end_type then do {
        type_size \<leftarrow> type_size_at (b_data b) next_type;
        if type_size < 0 then Some (type_size, b)
        else do {
          (err, b) \<leftarrow> btf_add_type alloc b next_type;
          if err \<noteq> 0 then Some (err, b) else parse_types_loop alloc b (next_type + nat type_size) end_type
        }
      } else Some (0, b))"
  by pat_completeness auto
termination
proof (relation "measure (\<lambda>(alloc, b, next_type, end_type). end_type - next_type)", goal_cases)
  case (2 alloc b next_type end_type type_size)
  then have "12 \<le> type_size"
    by (auto simp: type_size_at_def btf_type_size_def errno_defs split: Option.bind_splits btf_kind.splits)
  with 2 show ?case by auto
qed simp

declare parse_types_loop.simps [simp del]

definition btf_parse_type_sec :: "(u32 \<Rightarrow> bool) \<Rightarrow> raw_btf \<Rightarrow> (int \<times> raw_btf) option" where
  "btf_parse_type_sec alloc b = do {
     hdr \<leftarrow> btf_header_at (b_data b);
     parse_types_loop alloc b (24 + unat (h_type_off hdr)) (24 + unat (h_str_off hdr))
   }"

text \<open>\<open>ok1\<close> and \<open>ok2\<close>: the allocations of the structure and of the copy. The left result is \<open>ERR_PTR\<close>.\<close>

definition btf__new :: "bool \<Rightarrow> bool \<Rightarrow> (u32 \<Rightarrow> bool) \<Rightarrow> bytes \<Rightarrow> u32 \<Rightarrow> (int + raw_btf) option" where
  "btf__new ok1 ok2 alloc data sz =
     (if \<not> ok1 then Some (Inl (- ENOMEM))
      else if \<not> ok2 then Some (Inl (- ENOMEM))
      else do {
        copy \<leftarrow> mem_read data 0 (unat sz);
        let b = \<lparr>b_data = copy, b_types = [], b_strings = 0, b_nr_types = 0, b_types_size = 0, b_data_size = sz, b_fd = -1\<rparr>;
        err \<leftarrow> btf_parse_hdr b;
        if err \<noteq> 0 then Some (Inl err)
        else do {
          (err, b) \<leftarrow> btf_parse_str_sec b;
          if err \<noteq> 0 then Some (Inl err)
          else do {
            (err, b) \<leftarrow> btf_parse_type_sec alloc b;
            if err \<noteq> 0 then Some (Inl err) else Some (Inr b)
          }
        }
      })"

section \<open>The types in the bytes\<close>

fun words_from :: "bytes \<Rightarrow> nat \<Rightarrow> nat \<Rightarrow> u32 list option" where
  "words_from m p 0 = Some []"
| "words_from m p (Suc n) = do { w \<leftarrow> load32 m p; ws \<leftarrow> words_from m (p + 4) n; Some (w # ws) }"

definition btf_type_at :: "bytes \<Rightarrow> nat \<Rightarrow> btf_type option" where
  "btf_type_at m p = do {
     t \<leftarrow> type_words_at m p;
     if btf_type_size t < 12 then None
     else do { ws \<leftarrow> words_from m (p + 12) ((nat (btf_type_size t) - 12) div 4); Some (t\<lparr>t_extra := ws\<rparr>) }
   }"

fun types_at :: "bytes \<Rightarrow> type_ptr list \<Rightarrow> btf_type list option" where
  "types_at m [] = Some []"
| "types_at m (Void # ps) = do { ts \<leftarrow> types_at m ps; Some (btf_void # ts) }"
| "types_at m (At p # ps) = do { t \<leftarrow> btf_type_at m p; ts \<leftarrow> types_at m ps; Some (t # ts) }"

definition btf_view :: "raw_btf \<Rightarrow> btf option" where
  "btf_view b = do {
     hdr \<leftarrow> btf_header_at (b_data b);
     ts \<leftarrow> types_at (b_data b) (b_types b);
     s \<leftarrow> mem_read (b_data b) (b_strings b) (unat (h_str_len hdr));
     Some \<lparr>types = ts, strs = map (\<lambda>c. char_of (unat c)) s\<rparr>
   }"

section \<open>Writing a section\<close>

definition enc_words :: "u32 list \<Rightarrow> bytes" where
  "enc_words ws = concat (map enc32 ws)"

definition enc_type :: "btf_type \<Rightarrow> bytes" where
  "enc_type t = enc_words (t_name_off t # t_info t # t_size t # t_extra t)"

definition enc_types :: "btf_type list \<Rightarrow> bytes" where
  "enc_types ts = concat (map enc_type ts)"

text \<open>A section as the compiler writes it: the types follow the header, the strings follow the types.\<close>

definition enc_header :: "nat \<Rightarrow> nat \<Rightarrow> bytes" where
  "enc_header tlen slen = enc16 BTF_MAGIC @ [BTF_VERSION, 0] @ enc32 24 @ enc32 0 @ enc32 (of_nat tlen) @ enc32 (of_nat tlen) @ enc32 (of_nat slen)"

definition enc_btf :: "btf_type list \<Rightarrow> bytes \<Rightarrow> bytes" where
  "enc_btf ts s = enc_header (length (enc_types ts)) (length s) @ enc_types ts @ s"

lemma length_enc_words [simp]: "length (enc_words ws) = 4 * length ws"
  by (induction ws) (simp_all add: enc_words_def)

lemma enc_words_Cons: "enc_words (w # ws) = enc32 w @ enc_words ws"
  by (simp add: enc_words_def)

lemma length_enc_header [simp]: "length (enc_header a b) = 24"
  by (simp add: enc_header_def)

lemma words_from_enc: "length pre = p \<Longrightarrow> words_from (pre @ enc_words ws @ post) p (length ws) = Some ws"
proof (induction ws arbitrary: pre p)
  case (Cons w ws)
  from Cons.IH [of "pre @ enc32 w" "p + 4"] Cons.prems load32_enc_at [of pre p w] show ?case by (simp add: enc_words_Cons)
qed simp

lemma type_ok_length: "type_ok t \<Longrightarrow> int (length (enc_type t)) = btf_type_size t"
  by (simp add: type_ok_def enc_type_def)

lemma btf_type_size_info: "t_info t = t_info t' \<Longrightarrow> btf_type_size t = btf_type_size t'"
proof -
  assume "t_info t = t_info t'"
  then have "btf_kind t = btf_kind t'" "btf_vlen t = btf_vlen t'" by (simp_all add: btf_kind_def btf_vlen_def)
  then show ?thesis by (simp only: btf_type_size_def)
qed

text \<open>A type that has been written is read again.\<close>

lemma type_size_at_enc:
  assumes "length pre = p"
  shows "type_size_at (pre @ enc_type t @ post) p = Some (btf_type_size t)"
  using load32_enc_at [of "pre @ enc32 (t_name_off t)" "p + 4" "t_info t"] assms
    btf_type_size_info [of "\<lparr>t_name_off = 0, t_info = t_info t, t_size = 0, t_extra = []\<rparr>" t]
  by (simp add: type_size_at_def enc_type_def enc_words_Cons)

lemma btf_type_at_enc:
  assumes "length pre = p" "type_ok t"
  shows "btf_type_at (pre @ enc_type t @ post) p = Some t"
proof -
  let ?m = "pre @ enc_type t @ post" and ?h = "\<lparr>t_name_off = t_name_off t, t_info = t_info t, t_size = t_size t, t_extra = []\<rparr>"
  have "load32 ?m p = Some (t_name_off t)" using load32_enc_at [OF assms(1)] by (simp add: enc_type_def enc_words_Cons)
  moreover have "load32 ?m (p + 4) = Some (t_info t)"
    using load32_enc_at [of "pre @ enc32 (t_name_off t)" "p + 4"] assms(1) by (simp add: enc_type_def enc_words_Cons)
  moreover have "load32 ?m (p + 8) = Some (t_size t)"
    using load32_enc_at [of "pre @ enc32 (t_name_off t) @ enc32 (t_info t)" "p + 8"] assms(1) by (simp add: enc_type_def enc_words_Cons)
  ultimately have words: "type_words_at ?m p = Some ?h" by (simp add: type_words_at_def)
  have sz: "btf_type_size ?h = int (length (t_extra t)) * 4 + 12"
    using btf_type_size_info [of ?h t] assms(2) by (simp add: type_ok_def)
  have n: "(nat (int (length (t_extra t)) * 4 + 12) - 12) div 4 = length (t_extra t)" by simp
  have "words_from ?m (p + 12) (length (t_extra t)) = Some (t_extra t)"
    using words_from_enc [of "pre @ enc32 (t_name_off t) @ enc32 (t_info t) @ enc32 (t_size t)" "p + 12"] assms(1)
    by (simp add: enc_type_def enc_words_Cons)
  then show ?thesis by (simp add: btf_type_at_def words sz n)
qed

section \<open>Parsing what was written\<close>

text \<open>The array always has room for its entries, and \<open>n\<close> more types fit the limit.\<close>

definition types_room :: "raw_btf \<Rightarrow> nat \<Rightarrow> bool" where
  "types_room b n \<longleftrightarrow>
     (b_nr_types b = 0 \<and> b_types_size b = 0 \<and> b_types b = [] \<or>
      b_nr_types b \<noteq> 0 \<and> b_nr_types b < b_types_size b \<and> length (b_types b) = unat (b_nr_types b) + 1) \<and>
     b_types_size b \<le> BTF_MAX_NR_TYPES \<and> unat (b_nr_types b) + n + 2 \<le> unat BTF_MAX_NR_TYPES"

definition type_list :: "raw_btf \<Rightarrow> type_ptr list" where
  "type_list b = (if b_types b = [] then [Void] else b_types b)"

lemma grown_size:
  assumes "ts < BTF_MAX_NR_TYPES"
  shows "unat ts < unat (min BTF_MAX_NR_TYPES (ts + max (drop_bit 2 ts) 16))"
    "unat ts + 16 \<le> unat BTF_MAX_NR_TYPES \<Longrightarrow> unat ts + 16 \<le> unat (min BTF_MAX_NR_TYPES (ts + max (drop_bit 2 ts) 16))"
    "min BTF_MAX_NR_TYPES (ts + max (drop_bit 2 ts) 16) \<le> BTF_MAX_NR_TYPES"
proof -
  have ts: "unat ts < 0x7fffffff" using assms by (simp add: word_less_nat_alt BTF_MAX_NR_TYPES_def)
  have d: "unat (drop_bit 2 ts) = unat ts div 4" unfolding unat_drop_bit_eq by (simp add: drop_bit_eq_div)
  have m: "unat (max (drop_bit 2 ts) 16) = max (unat ts div 4) 16" by (auto simp: max_def word_le_nat_alt d)
  have "unat ts + max (unat ts div 4) 16 < 2 ^ 32" using ts by simp
  then have sum: "unat (ts + max (drop_bit 2 ts) 16) = unat ts + max (unat ts div 4) 16" by (simp add: unat_word_ariths m)
  have new: "unat (min BTF_MAX_NR_TYPES (ts + max (drop_bit 2 ts) 16)) = min 0x7fffffff (unat ts + max (unat ts div 4) 16)"
  proof -
    have "unat BTF_MAX_NR_TYPES = 0x7fffffff" by (simp add: BTF_MAX_NR_TYPES_def)
    then show ?thesis by (simp only: min_def word_le_nat_alt if_distrib [of unat] sum)
  qed
  show "unat ts < unat (min BTF_MAX_NR_TYPES (ts + max (drop_bit 2 ts) 16))" using ts by (simp add: new)
  show "unat ts + 16 \<le> unat BTF_MAX_NR_TYPES \<Longrightarrow> unat ts + 16 \<le> unat (min BTF_MAX_NR_TYPES (ts + max (drop_bit 2 ts) 16))"
    unfolding new by (simp add: BTF_MAX_NR_TYPES_def)
  show "min BTF_MAX_NR_TYPES (ts + max (drop_bit 2 ts) 16) \<le> BTF_MAX_NR_TYPES" by simp
qed

lemma btf_add_type_ok:
  assumes "types_room b (Suc n)" "\<forall>s. alloc s"
  shows "\<exists>ts nr. btf_add_type alloc b t = Some (0, b\<lparr>b_nr_types := nr, b_types_size := ts, b_types := type_list b @ [At t]\<rparr>) \<and>
    types_room (b\<lparr>b_nr_types := nr, b_types_size := ts, b_types := type_list b @ [At t]\<rparr>) n"
proof -
  let ?max = "BTF_MAX_NR_TYPES" and ?nr = "b_nr_types b" and ?ts = "b_types_size b"
  have M: "unat ?max = 0x7fffffff" by (simp add: BTF_MAX_NR_TYPES_def)
  have shape: "?nr = 0 \<and> ?ts = 0 \<and> b_types b = [] \<or> ?nr \<noteq> 0 \<and> ?nr < ?ts \<and> length (b_types b) = unat ?nr + 1"
    and lim: "?ts \<le> ?max" "unat ?nr + n + 3 \<le> unat ?max" using assms(1) by (simp_all add: types_room_def)
  have nr1: "unat (?nr + 1) = unat ?nr + 1" using lim(2) M by (simp add: unat_word_ariths)
  have len: "length (type_list b) = unat ?nr + 1" using shape by (auto simp: type_list_def)
  define grow where "grow \<longleftrightarrow> ?ts - ?nr < 2"
  define ts' where "ts' = (if grow then min ?max (?ts + max (drop_bit 2 ?ts) 16) else ?ts)"
  have le: "unat ?nr \<le> unat ?ts" using shape by (auto simp: word_less_nat_alt)
  then have diff: "unat (?ts - ?nr) = unat ?ts - unat ?nr" by (simp add: unat_sub word_le_nat_alt)
  have not_max: "\<not> (grow \<and> ?ts = ?max)"
    using lim(2) M by (auto simp: grow_def word_less_nat_alt unat_sub word_le_nat_alt)
  have lt: "grow \<Longrightarrow> ?ts < ?max" using not_max lim(1) by (simp add: order_less_le)
  have room: "unat ?nr + 1 < unat ts'" "ts' \<le> ?max"
  proof -
    show "unat ?nr + 1 < unat ts'"
    proof (cases grow)
      case True
      show ?thesis
      proof (cases "?nr < ?ts")
        case True
        then show ?thesis using grown_size(1) [OF lt [OF \<open>grow\<close>]] \<open>grow\<close> by (simp add: ts'_def word_less_nat_alt)
      next
        case False
        then have "?nr = 0" "?ts = 0" using shape by auto
        then show ?thesis using grown_size(2) [OF lt [OF \<open>grow\<close>]] \<open>grow\<close> M by (simp add: ts'_def)
      qed
    next
      case False
      then show ?thesis using diff by (simp add: ts'_def grow_def word_less_nat_alt)
    qed
    show "ts' \<le> ?max" using lim(1) lt grown_size(3) by (simp add: ts'_def)
  qed
  have types: "(if grow then if ?nr = 0 then [Void] else b_types b else b_types b) = type_list b"
    using shape by (auto simp: type_list_def grow_def)
  let ?b = "b\<lparr>b_nr_types := ?nr + 1, b_types_size := ts', b_types := type_list b @ [At t]\<rparr>"
  have "btf_add_type alloc b t = Some (0, ?b)"
  proof (cases grow)
    case True
    then show ?thesis
      using not_max assms(2) room(1) nr1 len types
      by (simp add: btf_add_type_def Let_def ts'_def flip: grow_def) 
  next
    case False
    then show ?thesis
      using room(1) nr1 len types by (simp add: btf_add_type_def Let_def ts'_def flip: grow_def)
  qed
  moreover have "types_room ?b n"
    using lim(2) room nr1 len by (auto simp: types_room_def word_less_nat_alt)
  ultimately show ?thesis by blast
qed

fun type_offs :: "nat \<Rightarrow> btf_type list \<Rightarrow> type_ptr list" where
  "type_offs p [] = []"
| "type_offs p (t # ts) = At p # type_offs (p + length (enc_type t)) ts"

lemma parse_types_enc:
  assumes "\<forall>t\<in>set ts. type_ok t" "\<forall>s. alloc s" "types_room b (length ts)" "b_data b = pre @ enc_types ts @ post" "length pre = p"
  shows "\<exists>sz nr. parse_types_loop alloc b p (p + length (enc_types ts)) =
    Some (0, b\<lparr>b_nr_types := nr, b_types_size := sz, b_types := (if ts = [] then b_types b else type_list b @ type_offs p ts)\<rparr>) \<and>
    types_room (b\<lparr>b_nr_types := nr, b_types_size := sz, b_types := (if ts = [] then b_types b else type_list b @ type_offs p ts)\<rparr>) 0"
  using assms
proof (induction ts arbitrary: b pre p)
  case Nil
  show ?case
    by (subst parse_types_loop.simps, rule exI [of _ "b_types_size b"], rule exI [of _ "b_nr_types b"])
      (use Nil.prems(3) in \<open>simp add: enc_types_def\<close>)
next
  case (Cons t ts)
  have ok: "type_ok t" using Cons.prems(1) by simp
  have len: "btf_type_size t = int (length (enc_type t))" using type_ok_length [OF ok] by simp
  have size: "type_size_at (b_data b) p = Some (int (length (enc_type t)))"
    using type_size_at_enc [OF Cons.prems(5), of t "enc_types ts @ post"] Cons.prems(4) len by (simp add: enc_types_def)
  obtain sz nr where add: "btf_add_type alloc b p = Some (0, b\<lparr>b_nr_types := nr, b_types_size := sz, b_types := type_list b @ [At p]\<rparr>)"
    and room: "types_room (b\<lparr>b_nr_types := nr, b_types_size := sz, b_types := type_list b @ [At p]\<rparr>) (length ts)" (is "types_room ?b _")
    using btf_add_type_ok [OF _ Cons.prems(2)] Cons.prems(3) by force
  have "b_data ?b = (pre @ enc_type t) @ enc_types ts @ post" using Cons.prems(4) by (simp add: enc_types_def)
  from Cons.IH [OF _ Cons.prems(2) room this] Cons.prems(1,5) obtain sz' nr' where
    rest: "parse_types_loop alloc ?b (p + length (enc_type t)) (p + length (enc_type t) + length (enc_types ts)) =
      Some (0, ?b\<lparr>b_nr_types := nr', b_types_size := sz',
        b_types := (if ts = [] then b_types ?b else type_list ?b @ type_offs (p + length (enc_type t)) ts)\<rparr>)"
    and room': "types_room (?b\<lparr>b_nr_types := nr', b_types_size := sz',
        b_types := (if ts = [] then b_types ?b else type_list ?b @ type_offs (p + length (enc_type t)) ts)\<rparr>) 0" by auto
  have list: "type_list ?b = type_list b @ [At p]" by (simp add: type_list_def)
  have "p < p + length (enc_types (t # ts))" by (simp add: enc_types_def enc_type_def)
  moreover have "(if ts = [] then b_types ?b else type_list ?b @ type_offs (p + length (enc_type t)) ts) = type_list b @ type_offs p (t # ts)"
    by (simp add: list)
  note after = rest [unfolded this] room' [unfolded this]
  ultimately have run: "parse_types_loop alloc b p (p + length (enc_types (t # ts))) =
      parse_types_loop alloc ?b (p + length (enc_type t)) (p + length (enc_type t) + length (enc_types ts))"
    using size add by (subst parse_types_loop.simps) (simp add: enc_types_def add.assoc)
  show ?case
    unfolding run
    by (rule exI [of _ sz'], rule exI [of _ nr'], rule conjI)
      (use after in simp_all)
qed

lemma types_at_enc:
  assumes "\<forall>t\<in>set ts. type_ok t" "m = pre @ enc_types ts @ post" "length pre = p"
  shows "types_at m (type_offs p ts) = Some ts"
  using assms
proof (induction ts arbitrary: pre p)
  case (Cons t ts)
  have "btf_type_at m p = Some t"
    using btf_type_at_enc [OF Cons.prems(3), of t "enc_types ts @ post"] Cons.prems(1,2) by (simp add: enc_types_def)
  moreover have "types_at m (type_offs (p + length (enc_type t)) ts) = Some ts"
    using Cons.IH [of "pre @ enc_type t"] Cons.prems by (simp add: enc_types_def)
  ultimately show ?case by simp
qed simp

text \<open>A string section: it starts and ends with a NUL character and is not too long.\<close>

definition str_sec_ok :: "bytes \<Rightarrow> bool" where
  "str_sec_ok s \<longleftrightarrow> s \<noteq> [] \<and> hd s = 0 \<and> last s = 0 \<and> length s < 2 ^ 31"

definition header_of :: "nat \<Rightarrow> nat \<Rightarrow> btf_header" where
  "header_of tlen slen = \<lparr>h_magic = BTF_MAGIC, h_version = BTF_VERSION, h_flags = 0, h_hdr_len = 24, h_type_off = 0,
     h_type_len = of_nat tlen, h_str_off = of_nat tlen, h_str_len = of_nat slen\<rparr>"

lemma btf_header_enc: "btf_header_at (enc_header tlen slen @ rest) = Some (header_of tlen slen)"
proof -
  let ?m = "enc_header tlen slen @ rest" and ?v = "[BTF_VERSION, 0]" and ?h = "enc16 BTF_MAGIC"
  have "load16 ?m 0 = Some BTF_MAGIC" using load16_enc_at [of "[]"] by (simp add: enc_header_def)
  moreover have "load8 ?m 2 = Some BTF_VERSION" using load8_byte_at [of ?h 2] by (simp add: enc_header_def)
  moreover have "load8 ?m 3 = Some 0" using load8_byte_at [of "?h @ [BTF_VERSION]" 3] by (simp add: enc_header_def)
  moreover have "load32 ?m 4 = Some 24" using load32_enc_at [of "?h @ ?v" 4] by (simp add: enc_header_def)
  moreover have "load32 ?m 8 = Some 0" using load32_enc_at [of "?h @ ?v @ enc32 24" 8] by (simp add: enc_header_def)
  moreover have "load32 ?m 12 = Some (of_nat tlen)" using load32_enc_at [of "?h @ ?v @ enc32 24 @ enc32 0" 12] by (simp add: enc_header_def)
  moreover have "load32 ?m 16 = Some (of_nat tlen)"
    using load32_enc_at [of "?h @ ?v @ enc32 24 @ enc32 0 @ enc32 (of_nat tlen)" 16] by (simp add: enc_header_def)
  moreover have "load32 ?m 20 = Some (of_nat slen)"
    using load32_enc_at [of "?h @ ?v @ enc32 24 @ enc32 0 @ enc32 (of_nat tlen) @ enc32 (of_nat tlen)" 20] by (simp add: enc_header_def)
  ultimately show ?thesis by (simp add: btf_header_at_def header_of_def)
qed

lemma enc_types_lower: "12 * length ts \<le> length (enc_types ts)"
  by (induction ts) (simp_all add: enc_types_def enc_type_def)

text \<open>C35. Writing and parsing a .BTF section are inverse: the section written for any well-formed types and any
string section is accepted if memory suffices, and the types and strings found in the result are the ones
written, the types numbered from 1 in their order; nothing outside the section is read.\<close>

theorem btf_roundtrip:
  assumes "ts \<noteq> []" "\<forall>t\<in>set ts. type_ok t" "str_sec_ok s" "length (enc_btf ts s) < 2 ^ 32" "\<forall>n. alloc n"
  shows "\<exists>b. btf__new True True alloc (enc_btf ts s) (of_nat (length (enc_btf ts s))) = Some (Inr b) \<and>
    btf_view b = Some \<lparr>types = btf_void # ts, strs = map (\<lambda>c. char_of (unat c)) s\<rparr> \<and> unat (b_nr_types b) = length ts"
proof -
  let ?T = "length (enc_types ts)" and ?S = "length s" and ?d = "enc_btf ts s"
  have len: "length ?d = 24 + ?T + ?S" by (simp add: enc_btf_def)
  have sok: "s \<noteq> []" "hd s = 0" "last s = 0" "?S < 2 ^ 31" using assms(3) by (simp_all add: str_sec_ok_def)
  have fit: "24 + ?T + ?S < 2 ^ 32" using assms(4) len by simp
  then have words: "unat (of_nat (length ?d) :: u32) = 24 + ?T + ?S" "unat (of_nat ?T :: u32) = ?T" "unat (of_nat ?S :: u32) = ?S"
    using len by (simp_all add: unat_of_nat_u32 del: of_nat_add)
  have "0 < ?T" using assms(1) enc_types_lower [of ts] by (cases ts) auto
  have hdr: "btf_header_at ?d = Some (header_of ?T ?S)" by (simp add: enc_btf_def btf_header_enc)
  define b0 where "b0 = \<lparr>b_data = ?d, b_types = [], b_strings = 0, b_nr_types = 0, b_types_size = 0,
    b_data_size = of_nat (length ?d), b_fd = -1\<rparr>"
  have left: "unat (of_nat (length ?d) - 24 :: u32) = ?T + ?S" using words(1) by (simp add: unat_sub word_le_nat_alt)
  have parse_hdr: "btf_parse_hdr b0 = Some 0"
    using left words \<open>0 < ?T\<close> sok(1) hdr
    by (simp add: btf_parse_hdr_def b0_def header_of_def word_less_nat_alt word_le_nat_alt not_less Let_def) (auto simp: unat_eq_0 simp flip: unat_eq_0)
  have spos: "0 < ?S" using sok(1) by simp
  have last: "?d ! (24 + ?T + (?S - 1)) = s ! (?S - 1)" using spos by (simp add: enc_btf_def nth_append)
  have "24 + ?T + ?S - 1 = 24 + ?T + (?S - 1)" using spos by simp
  then have end_char: "load8 ?d (24 + ?T + ?S - 1) = Some 0"
    using sok(1,3) spos last len by (simp only: load8_def) (simp add: last_conv_nth)
  have "?d ! (24 + ?T) = s ! 0" using spos by (simp add: enc_btf_def nth_append)
  then have "load8 ?d (24 + ?T) = Some 0" using sok(1,2) len by (simp add: load8_def hd_conv_nth)
  note chars = this end_char
  have parse_str: "btf_parse_str_sec b0 = Some (0, b0\<lparr>b_strings := 24 + ?T\<rparr>)"
  proof -
    have "of_nat ?S \<noteq> (0 :: u32)" using words(3) spos by (metis less_numeral_extra(3) unsigned_0)
    moreover have "\<not> of_nat ?S - 1 > BTF_MAX_STR_OFFSET"
    proof -
      have "1 \<le> (of_nat ?S :: u32)" using words(3) Suc_leI [OF spos] by (simp add: word_le_nat_alt)
      then have "unat (of_nat ?S - 1 :: u32) = ?S - 1" using words(3) by (simp add: unat_sub)
      then show ?thesis using sok(4) by (simp add: not_less word_le_nat_alt BTF_MAX_STR_OFFSET_def)
    qed
    ultimately show ?thesis using hdr chars words by (simp add: btf_parse_str_sec_def b0_def header_of_def)
  qed
  let ?b = "b0\<lparr>b_strings := 24 + ?T\<rparr>"
  have "12 * length ts < 2 ^ 32" using enc_types_lower [of ts] fit by linarith
  then have "types_room ?b (length ts)" by (simp add: types_room_def b0_def BTF_MAX_NR_TYPES_def)
  from parse_types_enc [OF assms(2,5) this, of "enc_header ?T ?S" s 24] assms(1) obtain sz nr where
    loop: "parse_types_loop alloc ?b 24 (24 + ?T) =
      Some (0, ?b\<lparr>b_nr_types := nr, b_types_size := sz, b_types := type_list ?b @ type_offs 24 ts\<rparr>)" (is "_ = Some (0, ?r)")
    and room: "types_room (?b\<lparr>b_nr_types := nr, b_types_size := sz, b_types := type_list ?b @ type_offs 24 ts\<rparr>) 0"
    by (auto simp: b0_def enc_btf_def)
  have "btf_parse_type_sec alloc ?b = Some (0, ?r)"
    using loop hdr words by (simp add: btf_parse_type_sec_def header_of_def b0_def)
  then have "btf__new True True alloc ?d (of_nat (length ?d)) = Some (Inr ?r)"
    using parse_hdr parse_str len words(1) unfolding btf__new_def Let_def b0_def by (simp add: mem_read_def)
  moreover have "btf_view ?r = Some \<lparr>types = btf_void # ts, strs = map (\<lambda>c. char_of (unat c)) s\<rparr>"
  proof -
    have "types_at ?d (type_offs 24 ts) = Some ts" 
      using types_at_enc [OF assms(2), of ?d "enc_header ?T ?S" s 24] by (simp add: enc_btf_def)
    moreover have "mem_read ?d (24 + ?T) ?S = Some s" using len by (simp add: mem_read_def enc_btf_def)
    ultimately show ?thesis using hdr words(3) by (simp add: btf_view_def b0_def type_list_def header_of_def)
  qed
  moreover have "unat (b_nr_types ?r) = length ts"
  proof -
    have "length (type_offs p ts) = length ts" for p by (induction ts arbitrary: p) simp_all
    then show ?thesis using room assms(1) by (auto simp: types_room_def type_list_def b0_def)
  qed
  ultimately show ?thesis by blast
qed

text \<open>The section of the types of \<open>demo_btf\<close>, without its strings' names.\<close>

lemma btf_roundtrip_witness:
  "\<exists>b. btf__new True True (\<lambda>n. True) (enc_btf (tl (types demo_btf)) [0]) (of_nat (length (enc_btf (tl (types demo_btf)) [0]))) = Some (Inr b) \<and>
    btf_view b = Some (demo_btf\<lparr>strs := [CHR 0x00]\<rparr>) \<and> unat (b_nr_types b) = 3"
proof -
  have ok: "tl (types demo_btf) \<noteq> []" "\<forall>t\<in>set (tl (types demo_btf)). type_ok t" "str_sec_ok [0]"
    by (auto simp: demo_btf_def type_ok_def btf_type_size_def btf_kind_def btf_kinds_def BTF_INFO_KIND_def str_sec_ok_def)
  have "length (enc_btf (tl (types demo_btf)) [0]) < 2 ^ 32" by (simp add: enc_btf_def enc_types_def enc_type_def demo_btf_def)
  note parsed = btf_roundtrip [OF ok this, of "\<lambda>n. True"]
  have "\<lparr>types = btf_void # tl (types demo_btf), strs = map (\<lambda>c. char_of (unat c)) [0 :: u8]\<rparr> = demo_btf\<lparr>strs := [CHR 0x00]\<rparr>"
    "length (tl (types demo_btf)) = 3"
    by (simp_all add: demo_btf_def char_of_def)
  with parsed show ?thesis by (simp only: simp_thms)
qed

section \<open>A string section behind the end\<close>

text \<open>The length of the string section is never compared with the size of the data: a section whose header
says that the strings end behind the data, and whose strings begin as they must, makes the parser read
outside its buffer.\<close>

theorem str_sec_overread:
  assumes "unat sz \<le> length data" "btf_header_at (take (unat sz) data) = Some hdr"
    "btf_parse_hdr \<lparr>b_data = take (unat sz) data, b_types = [], b_strings = 0, b_nr_types = 0, b_types_size = 0, b_data_size = sz, b_fd = -1\<rparr> = Some 0"
    "0 < h_str_len hdr" "h_str_len hdr \<le> BTF_MAX_STR_OFFSET" "unat sz < 24 + unat (h_str_off hdr) + unat (h_str_len hdr)"
    "24 + unat (h_str_off hdr) < unat sz \<longrightarrow> data ! (24 + unat (h_str_off hdr)) = 0"
  shows "btf__new True True alloc data sz = None"
proof -
  let ?b = "\<lparr>b_data = take (unat sz) data, b_types = [], b_strings = 0, b_nr_types = 0, b_types_size = 0, b_data_size = sz, b_fd = -1\<rparr>"
  let ?start = "24 + unat (h_str_off hdr)"
  have len: "\<not> (h_str_len hdr = 0 \<or> h_str_len hdr - 1 > BTF_MAX_STR_OFFSET)"
  proof -
    have "0 < unat (h_str_len hdr)" using assms(4) by (simp add: word_less_nat_alt)
    then have "unat (h_str_len hdr - 1) = unat (h_str_len hdr) - 1" by (simp add: unat_sub word_le_nat_alt)
    then show ?thesis using assms(4,5) by (auto simp: word_less_nat_alt word_le_nat_alt)
  qed
  have out: "load8 (take (unat sz) data) (?start + unat (h_str_len hdr) - 1) = None"
    using assms(6) by (simp add: load8_def)
  have "btf_parse_str_sec ?b = None"
  proof (cases "?start < unat sz")
    case True
    then have "load8 (take (unat sz) data) ?start = Some 0" using assms(1,7) by (simp add: load8_def)
    then show ?thesis using assms(2) len out by (simp add: btf_parse_str_sec_def)
  next
    case False
    then have "load8 (take (unat sz) data) ?start = None" by (simp add: load8_def)
    then show ?thesis using assms(2) len by (simp add: btf_parse_str_sec_def)
  qed
  then show ?thesis using assms(1,3) by (simp add: btf__new_def mem_read_def)
qed

text \<open>One forward type and a string section of 2 bytes that the header gives 200.\<close>

definition long_strs :: bytes where
  "long_strs = enc_header 12 200 @ enc_type \<lparr>t_name_off = 0, t_info = 0x07000000, t_size = 0, t_extra = []\<rparr> @ [0, 0]"

lemma str_sec_overread_witness: "btf__new True True (\<lambda>n. True) long_strs 38 = None"
proof -
  have len: "length long_strs = 38" by (simp add: long_strs_def enc_type_def)
  have hdr: "btf_header_at long_strs = Some (header_of 12 200)" by (simp add: long_strs_def btf_header_enc)
  have start: "long_strs ! (24 + unat (h_str_off (header_of 12 200))) = 0"
    by (simp add: header_of_def long_strs_def nth_append enc_type_def)
  have "btf_parse_hdr \<lparr>b_data = take (unat (38 :: u32)) long_strs, b_types = [], b_strings = 0, b_nr_types = 0, b_types_size = 0,
      b_data_size = 38, b_fd = -1\<rparr> = Some 0"
    using hdr by (simp add: btf_parse_hdr_def len header_of_def)
  from str_sec_overread [OF _ _ this, of "header_of 12 200"] show ?thesis
    using hdr len start by (simp add: header_of_def BTF_MAX_STR_OFFSET_def)
qed

end
