(* ===== verification/Btf_Ext.thy ===== *)
theory Btf_Ext
  imports Btf_Parse
begin

text \<open>
  libbpf/src/btf.c, the .BTF.ext section: function, line and field relocation information of a program, each
  a record size followed by one list of records per ELF section, and \<open>btf_ext_reloc_info\<close>, which collects the
  records of one ELF section for the kernel. The section is a copy in memory of its own; a pointer into it
  is an offset, \<^term>\<open>None\<close> the NULL pointer. \<open>info_holds\<close> says which lists a block of the section holds.
\<close>

section \<open>Reading the section\<close>

text \<open>The words of \<open>struct btf_ext_header\<close> are loaded one at a time, since a header may be shorter.\<close>

record btf_ext_info =
  x_info :: "nat option"
  x_rec_size :: u32
  x_len :: u32

record btf_ext =
  x_data :: bytes
  func_info :: btf_ext_info
  line_info :: btf_ext_info
  field_reloc_info :: btf_ext_info
  x_data_size :: u32

definition no_info :: btf_ext_info where
  "no_info = \<lparr>x_info = None, x_rec_size = 0, x_len = 0\<rparr>"

definition hdr_len_at :: "bytes \<Rightarrow> u32 option" where
  "hdr_len_at m = load32 m 4"

text \<open>The products are those of the code: 64-bit values that cannot wrap around, since both factors have 32 bits.\<close>

function ext_secs_loop :: "bytes \<Rightarrow> u32 \<Rightarrow> nat \<Rightarrow> nat \<Rightarrow> int option" where
  "ext_secs_loop m record_size sinfo info_left =
     (if info_left = 0 then Some 0
      else if info_left < 8 then Some (- EINVAL)
      else do {
        num_records \<leftarrow> load32 m (sinfo + 4);
        if num_records = 0 then Some (- EINVAL)
        else let total_record_size = 8 + unat num_records * unat record_size in
          if info_left < total_record_size then Some (- EINVAL)
          else ext_secs_loop m record_size (sinfo + total_record_size) (info_left - total_record_size)
      })"
  by pat_completeness auto
termination by (relation "measure (\<lambda>(m, record_size, sinfo, info_left). info_left)") auto

declare ext_secs_loop.simps [simp del]

text \<open>The arguments after the section are the fields of \<open>struct btf_ext_sec_setup_param\<close>.\<close>

definition btf_ext_setup_info :: "btf_ext \<Rightarrow> u32 \<Rightarrow> u32 \<Rightarrow> u32 \<Rightarrow> btf_ext_info \<Rightarrow> (int \<times> btf_ext_info) option" where
  "btf_ext_setup_info ext off len min_rec_size ext_info =
     (if len = 0 then Some (0, ext_info)
      else if off AND 0x03 \<noteq> 0 then Some (- EINVAL, ext_info)
      else do {
        hdr_len \<leftarrow> hdr_len_at (x_data ext);
        let start = unat hdr_len + unat off;
        if unat (x_data_size ext) < start + unat len then Some (- EINVAL, ext_info)
        else if len < 4 then Some (- EINVAL, ext_info)
        else do {
          record_size \<leftarrow> load32 (x_data ext) start;
          if record_size < min_rec_size \<or> record_size AND 0x03 \<noteq> 0 then Some (- EINVAL, ext_info)
          else if len - 4 = 0 then Some (- EINVAL, ext_info)
          else do {
            err \<leftarrow> ext_secs_loop (x_data ext) record_size (start + 4) (unat (len - 4));
            Some (if err \<noteq> 0 then (err, ext_info)
              else (0, \<lparr>x_info = Some (start + 4), x_rec_size = record_size, x_len = len - 4\<rparr>))
          }
        }
      })"

definition btf_ext_setup_func_info :: "btf_ext \<Rightarrow> (int \<times> btf_ext) option" where
  "btf_ext_setup_func_info ext = do {
     off \<leftarrow> load32 (x_data ext) 8; len \<leftarrow> load32 (x_data ext) 12;
     (err, i) \<leftarrow> btf_ext_setup_info ext off len 8 (func_info ext);
     Some (err, ext\<lparr>func_info := i\<rparr>)
   }"

definition btf_ext_setup_line_info :: "btf_ext \<Rightarrow> (int \<times> btf_ext) option" where
  "btf_ext_setup_line_info ext = do {
     off \<leftarrow> load32 (x_data ext) 16; len \<leftarrow> load32 (x_data ext) 20;
     (err, i) \<leftarrow> btf_ext_setup_info ext off len 16 (line_info ext);
     Some (err, ext\<lparr>line_info := i\<rparr>)
   }"

definition btf_ext_setup_field_reloc :: "btf_ext \<Rightarrow> (int \<times> btf_ext) option" where
  "btf_ext_setup_field_reloc ext = do {
     off \<leftarrow> load32 (x_data ext) 24; len \<leftarrow> load32 (x_data ext) 28;
     (err, i) \<leftarrow> btf_ext_setup_info ext off len 16 (field_reloc_info ext);
     Some (err, ext\<lparr>field_reloc_info := i\<rparr>)
   }"

text \<open>The second test of the size reads the header only if the first one has not failed.\<close>

definition btf_ext_parse_hdr :: "bytes \<Rightarrow> u32 \<Rightarrow> int option" where
  "btf_ext_parse_hdr data data_size =
     (if data_size < 8 then Some (- EINVAL)
      else do {
        hdr_len \<leftarrow> hdr_len_at data;
        if data_size < hdr_len then Some (- EINVAL)
        else do {
          magic \<leftarrow> load16 data 0; version \<leftarrow> load8 data 2; flags \<leftarrow> load8 data 3;
          Some (if magic \<noteq> BTF_MAGIC then - EINVAL
            else if version \<noteq> BTF_VERSION then - ENOTSUP
            else if flags \<noteq> 0 then - ENOTSUP
            else if data_size = hdr_len then - EINVAL
            else 0)
        }
      })"

text \<open>Every step that fails ends in \<open>done\<close>, where an error frees the structure.\<close>

definition btf_ext__new :: "bool \<Rightarrow> bool \<Rightarrow> bytes \<Rightarrow> u32 \<Rightarrow> (int + btf_ext) option" where
  "btf_ext__new ok1 ok2 data sz = do {
     err \<leftarrow> btf_ext_parse_hdr data sz;
     if err \<noteq> 0 then Some (Inl err)
     else if \<not> ok1 then Some (Inl (- ENOMEM))
     else if \<not> ok2 then Some (Inl (- ENOMEM))
     else do {
       copy \<leftarrow> mem_read data 0 (unat sz);
       let ext = \<lparr>x_data = copy, func_info = no_info, line_info = no_info, field_reloc_info = no_info, x_data_size = sz\<rparr>;
       hdr_len \<leftarrow> hdr_len_at copy;
       if hdr_len < 24 then Some (Inr ext)
       else do {
         (err, ext) \<leftarrow> btf_ext_setup_func_info ext;
         if err \<noteq> 0 then Some (Inl err)
         else do {
           (err, ext) \<leftarrow> btf_ext_setup_line_info ext;
           if err \<noteq> 0 then Some (Inl err)
           else if hdr_len < 32 then Some (Inr ext)
           else do {
             (err, ext) \<leftarrow> btf_ext_setup_field_reloc ext;
             if err \<noteq> 0 then Some (Inl err) else Some (Inr ext)
           }
         }
       }
     }
   }"

definition btf_ext__get_raw_data :: "btf_ext \<Rightarrow> bytes \<times> u32" where
  "btf_ext__get_raw_data ext = (x_data ext, x_data_size ext)"

section \<open>Collecting the records of a program\<close>

text \<open>The loop that turns byte offsets into instruction numbers.\<close>

fun adjust_loop :: "u32 \<Rightarrow> u32 \<Rightarrow> u32 \<Rightarrow> nat list \<Rightarrow> bytes \<Rightarrow> bytes option" where
  "adjust_loop existing_len record_size insns_cnt [] data = Some data"
| "adjust_loop existing_len record_size insns_cnt (i # is) data = do {
     let p = unat existing_len + unat (of_nat i * record_size);
     insn_off \<leftarrow> load32 data p;
     data \<leftarrow> store32 data p (insn_off div 8 + insns_cnt);
     adjust_loop existing_len record_size insns_cnt is data
   }"

text \<open>\<open>realloc\<close>: the content is kept as far as it fits, new memory has arbitrary content.\<close>

definition realloc_bytes :: "(nat \<Rightarrow> u8) \<Rightarrow> bytes \<Rightarrow> nat \<Rightarrow> bytes" where
  "realloc_bytes junk m n = take n m @ map junk [length m..<n]"

text \<open>\<open>strcmp\<close> with a NULL pointer is a fault. A loop that does not end is \<^term>\<open>None\<close> as well.\<close>

partial_function (option) reloc_info_loop ::
    "btf \<Rightarrow> bytes \<Rightarrow> bool \<Rightarrow> (nat \<Rightarrow> u8) \<Rightarrow> u32 \<Rightarrow> string \<Rightarrow> u32 \<Rightarrow> bytes \<Rightarrow> u32 \<Rightarrow> nat \<Rightarrow> u64 \<Rightarrow> (int \<times> bytes \<times> u32) option" where
  "reloc_info_loop btf m ok junk record_size sec_name insns_cnt buf cnt sinfo remain_len =
     (if remain_len = 0 then Some (- ENOENT, buf, cnt)
      else do {
        num_info \<leftarrow> load32 m (sinfo + 4);
        sec_name_off \<leftarrow> load32 m sinfo;
        info_sec_name \<leftarrow> btf__name_by_offset btf sec_name_off;
        let records_len = num_info * record_size;
        if info_sec_name \<noteq> sec_name then
          reloc_info_loop btf m ok junk record_size sec_name insns_cnt buf cnt
            (sinfo + 8 + unat records_len) (remain_len - ucast (8 + records_len))
        else do {
          let existing_len = cnt * record_size;
          if \<not> ok then Some (- ENOMEM, buf, cnt)
          else do {
            let data = realloc_bytes junk buf (unat (existing_len + records_len));
            recs \<leftarrow> mem_read m (sinfo + 8) (unat records_len);
            data \<leftarrow> mem_write data (unat existing_len) recs;
            data \<leftarrow> adjust_loop existing_len record_size insns_cnt [0..<unat num_info] data;
            Some (0, data, cnt + num_info)
          }
        }
      })"

definition btf_ext_reloc_info ::
    "btf \<Rightarrow> bytes \<Rightarrow> bool \<Rightarrow> (nat \<Rightarrow> u8) \<Rightarrow> btf_ext_info \<Rightarrow> string \<Rightarrow> u32 \<Rightarrow> bytes \<Rightarrow> u32 \<Rightarrow> (int \<times> bytes \<times> u32) option" where
  "btf_ext_reloc_info btf m ok junk ext_info sec_name insns_cnt buf cnt =
     (if x_len ext_info = 0 then Some (- ENOENT, buf, cnt)
      else do {
        sinfo \<leftarrow> x_info ext_info;
        reloc_info_loop btf m ok junk (x_rec_size ext_info) sec_name insns_cnt buf cnt sinfo (ucast (x_len ext_info))
      })"

definition btf_ext__reloc_func_info where
  "btf_ext__reloc_func_info btf ext ok junk sec_name insns_cnt buf cnt =
     btf_ext_reloc_info btf (x_data ext) ok junk (func_info ext) sec_name insns_cnt buf cnt"

definition btf_ext__reloc_line_info where
  "btf_ext__reloc_line_info btf ext ok junk sec_name insns_cnt buf cnt =
     btf_ext_reloc_info btf (x_data ext) ok junk (line_info ext) sec_name insns_cnt buf cnt"

definition btf_ext__func_info_rec_size :: "btf_ext \<Rightarrow> u32" where
  "btf_ext__func_info_rec_size ext = x_rec_size (func_info ext)"

definition btf_ext__line_info_rec_size :: "btf_ext \<Rightarrow> u32" where
  "btf_ext__line_info_rec_size ext = x_rec_size (line_info ext)"

section \<open>What a block holds\<close>

text \<open>A list of records for an ELF section; a record is its bytes.\<close>

type_synonym ext_sec = "u32 \<times> bytes list"

definition enc_sec :: "ext_sec \<Rightarrow> bytes" where
  "enc_sec s = enc32 (fst s) @ enc32 (of_nat (length (snd s))) @ concat (snd s)"

definition enc_secs :: "ext_sec list \<Rightarrow> bytes" where
  "enc_secs ss = concat (map enc_sec ss)"

definition sec_ok :: "u32 \<Rightarrow> ext_sec \<Rightarrow> bool" where
  "sec_ok rec s \<longleftrightarrow> snd s \<noteq> [] \<and> length (snd s) < 2 ^ 32 \<and> (\<forall>r \<in> set (snd s). length r = unat rec)"

definition info_holds :: "bytes \<Rightarrow> u32 \<Rightarrow> btf_ext_info \<Rightarrow> ext_sec list \<Rightarrow> bool" where
  "info_holds m min_rec i ss \<longleftrightarrow>
     i = no_info \<and> ss = [] \<or>
     (\<exists>p. x_info i = Some p \<and> min_rec \<le> x_rec_size i \<and> x_rec_size i AND 3 = 0 \<and> ss \<noteq> [] \<and>
        (\<forall>s \<in> set ss. sec_ok (x_rec_size i) s) \<and> mem_read m p (unat (x_len i)) = Some (enc_secs ss))"

lemma mem_read_append: "mem_read m a n = Some x \<Longrightarrow> mem_read m (a + n) k = Some y \<Longrightarrow> mem_read m a (n + k) = Some (x @ y)"
  by (auto simp: mem_read_def take_add add.assoc add.commute [of n a] split: if_splits)

lemma mem_read_part:
  assumes "mem_read m p n = Some (pre @ bs @ post)"
  shows "mem_read m (p + length pre) (length bs) = Some bs"
proof -
  have m: "take n (drop p m) = pre @ bs @ post" and len: "p + n \<le> length m" "n = length pre + length bs + length post"
    using assms mem_read_length [OF assms] by (auto simp: mem_read_def split: if_splits)
  have "m = take p m @ take n (drop p m) @ drop (p + n) m"
    by (metis append_take_drop_id drop_drop add.commute)
  then have "m = (take p m @ pre) @ bs @ post @ drop (p + n) m" by (simp add: m)
  then show ?thesis using mem_read_at [of "take p m @ pre" "p + length pre" bs "length bs" "post @ drop (p + n) m"] len
    by simp
qed

lemma mem_read_load32:
  assumes "mem_read m p n = Some (pre @ enc32 w @ post)"
  shows "load32 m (p + length pre) = Some w"
proof -
  have "mem_read m (p + length pre) 4 = Some (enc32 w)" using mem_read_part [OF assms] by simp
  then have m: "take 4 (drop (p + length pre) m) = enc32 w" "p + length pre + 4 \<le> length m"
    by (auto simp: mem_read_def split: if_splits)
  have "m = take (p + length pre) m @ enc32 w @ drop 4 (drop (p + length pre) m)"
    by (metis append_take_drop_id m(1))
  then show ?thesis using load32_enc_at [of "take (p + length pre) m" "p + length pre" w] m(2)
    by (metis (no_types, lifting) length_take min_absorb2 add_leD1)
qed

text \<open>A word that has been loaded is where its encoding would be.\<close>

lemma enc32_le: "enc32 (le32 (le16 b0 b1) (le16 b2 b3)) = [b0, b1, b2, b3]"
proof -
  have lo: "ucast (le32 l h) = l" and hi: "ucast (drop_bit 16 (le32 l h)) = h" for l h
    by (rule bit_word_eqI; auto simp: le32_def bit_simps dest: bit_imp_le_length)+
  have "ucast (le16 a b) = a" "ucast (drop_bit 8 (le16 a b)) = b" for a b
    by (rule bit_word_eqI; auto simp: le16_def bit_simps dest: bit_imp_le_length)+
  then show ?thesis by (simp add: enc32_def enc16_def lo hi)
qed

lemma load32_mem_read: "load32 m a = Some w \<Longrightarrow> mem_read m a 4 = Some (enc32 w)"
proof -
  assume w: "load32 m a = Some w"
  then have len: "a + 4 \<le> length m"
    by (auto simp: load32_def load16_def load8_def split: Option.bind_splits if_splits)
  then have "take 4 (drop a m) = [m ! a, m ! (a + 1), m ! (a + 2), m ! (a + 3)]"
    by (intro nth_equalityI) (auto simp: less_Suc_eq numeral_eq_Suc)
  then show ?thesis using w len by (auto simp: load32_in mem_read_def enc32_le)
qed

text \<open>Any block of whole records is a list of records.\<close>

fun chunks :: "nat \<Rightarrow> nat \<Rightarrow> bytes \<Rightarrow> bytes list" where
  "chunks r 0 bs = []"
| "chunks r (Suc n) bs = take r bs # chunks r n (drop r bs)"

lemma chunks:
  "length bs = n * r \<Longrightarrow> concat (chunks r n bs) = bs \<and> length (chunks r n bs) = n \<and> (\<forall>c \<in> set (chunks r n bs). length c = r)"
proof (induction r n bs rule: chunks.induct)
  case (2 r n bs)
  then show ?case by (simp add: mult.commute)
qed simp

section \<open>Accepted sections\<close>

lemma enc_secs_simps [simp]: "enc_secs [] = []" "enc_secs (s # ss) = enc_sec s @ enc_secs ss"
  by (simp_all add: enc_secs_def)

text \<open>The check of a block stays inside it, and what it accepts is a list of records per section.\<close>

lemma ext_secs_loop_holds:
  assumes "p + left \<le> length m"
  shows "\<exists>e. ext_secs_loop m rec p left = Some e \<and> (e = 0 \<or> e = - EINVAL) \<and>
    (e = 0 \<longrightarrow> (\<exists>ss. (\<forall>s \<in> set ss. sec_ok rec s) \<and> mem_read m p left = Some (enc_secs ss) \<and> (left \<noteq> 0 \<longrightarrow> ss \<noteq> [])))"
  using assms
proof (induction m rec p left rule: ext_secs_loop.induct)
  case (1 m rec p left)
  consider "left = 0" | "left \<noteq> 0" "left < 8" | "8 \<le> left" by linarith
  then show ?case
  proof cases
    case 1
    then have "mem_read m p left = Some (enc_secs [])" using "1.prems" by (simp add: mem_read_def)
    then show ?thesis using 1 by (subst ext_secs_loop.simps) (force intro!: exI [of _ "[]"])
  next
    case 2
    then show ?thesis by (subst ext_secs_loop.simps) (simp add: EINVAL_def)
  next
    case 3
    obtain num where num: "load32 m (p + 4) = Some num" using load32_in [of "p + 4" m] 3 "1.prems" by simp
    obtain name where name: "load32 m p = Some name" using load32_in [of p m] 3 "1.prems" by simp
    define total where "total = 8 + unat num * unat rec"
    show ?thesis
    proof (cases "num = 0 \<or> left < total")
      case True
      then show ?thesis using 3 num by (subst ext_secs_loop.simps) (auto simp: EINVAL_def Let_def total_def)
    next
      case False
      then have step: "ext_secs_loop m rec p left = ext_secs_loop m rec (p + total) (left - total)"
        using 3 num by (subst ext_secs_loop.simps) (simp add: Let_def total_def)
      obtain e where e: "ext_secs_loop m rec (p + total) (left - total) = Some e" "e = 0 \<or> e = - EINVAL"
          "e = 0 \<longrightarrow> (\<exists>ss. (\<forall>s \<in> set ss. sec_ok rec s) \<and> mem_read m (p + total) (left - total) = Some (enc_secs ss))"
        using "1.IH" [OF _ _ num, of total] 3 False "1.prems" by (force simp: total_def)
      have "\<exists>ss. (\<forall>s \<in> set ss. sec_ok rec s) \<and> mem_read m p left = Some (enc_secs ss) \<and> ss \<noteq> []" if "e = 0"
      proof -
        obtain ss where ss: "\<forall>s \<in> set ss. sec_ok rec s" "mem_read m (p + total) (left - total) = Some (enc_secs ss)"
          using e(3) \<open>e = 0\<close> by blast
        define bs where "bs = take (unat num * unat rec) (drop (p + 8) m)"
        have bs: "length bs = unat num * unat rec" "mem_read m (p + 8) (unat num * unat rec) = Some bs"
          using "1.prems" False by (auto simp: bs_def total_def mem_read_def)
        let ?s = "(name, chunks (unat rec) (unat num) bs)"
        note c = chunks [OF bs(1)]
        have "mem_read m p (4 + (4 + unat num * unat rec)) = Some (enc32 name @ enc32 num @ bs)"
          using load32_mem_read [OF name] load32_mem_read [OF num] bs(2)
          by (intro mem_read_append) (simp_all add: add.assoc)
        then have "mem_read m p total = Some (enc_sec ?s)" using c by (simp add: enc_sec_def total_def)
        from mem_read_append [OF this ss(2)] False have "mem_read m p left = Some (enc_secs (?s # ss))" by simp
        moreover have "sec_ok rec ?s"
          using c False unsigned_less [of num, where 'a = nat] by (auto simp: sec_ok_def unat_eq_0 simp flip: length_0_conv)
        ultimately show ?thesis using ss(1) by (intro exI [of _ "?s # ss"]) simp
      qed
      then show ?thesis using e step by auto
    qed
  qed
qed

lemma setup_info_holds:
  assumes "hdr_len_at (x_data ext) = Some hl" "length (x_data ext) = unat (x_data_size ext)"
  shows "\<exists>e i. btf_ext_setup_info ext off len min_rec no_info = Some (e, i) \<and> (e = 0 \<longrightarrow> (\<exists>ss. info_holds (x_data ext) min_rec i ss))"
proof -
  let ?m = "x_data ext" and ?start = "unat hl + unat off"
  have no: "info_holds ?m min_rec no_info []" by (simp add: info_holds_def)
  show ?thesis
  proof (cases "len = 0 \<or> off AND 3 \<noteq> 0 \<or> unat (x_data_size ext) < ?start + unat len \<or> len < 4")
    case True
    then show ?thesis using no assms(1) by (auto simp: btf_ext_setup_info_def EINVAL_def Let_def)
  next
    case False
    then have len: "?start + unat len \<le> length ?m" "4 \<le> unat len" "len \<noteq> 0" "off AND 3 = 0"
      using assms(2) by (simp_all add: word_less_nat_alt not_less)
    obtain rec where rec: "load32 ?m ?start = Some rec" using load32_in [of ?start ?m] len by simp
    have sub: "unat (len - 4) = unat len - 4" using len(2) by (simp add: unat_sub word_le_nat_alt)
    obtain e where e: "ext_secs_loop ?m rec (?start + 4) (unat (len - 4)) = Some e" "e = 0 \<or> e = - EINVAL"
        "e = 0 \<longrightarrow> (\<exists>ss. (\<forall>s \<in> set ss. sec_ok rec s) \<and> mem_read ?m (?start + 4) (unat (len - 4)) = Some (enc_secs ss) \<and>
           (unat (len - 4) \<noteq> 0 \<longrightarrow> ss \<noteq> []))"
      using ext_secs_loop_holds [of "?start + 4" "unat (len - 4)" ?m rec] len sub by auto
    show ?thesis
    proof (cases "rec < min_rec \<or> rec AND 3 \<noteq> 0 \<or> len - 4 = 0")
      case True
      then show ?thesis using False rec assms(1) by (auto simp: btf_ext_setup_info_def EINVAL_def Let_def)
    next
      case False
      let ?i = "\<lparr>x_info = Some (?start + 4), x_rec_size = rec, x_len = len - 4\<rparr>"
      have res: "btf_ext_setup_info ext off len min_rec no_info = Some (if e \<noteq> 0 then (e, no_info) else (0, ?i))"
        using False rec assms len e(1) by (simp add: btf_ext_setup_info_def Let_def word_less_nat_alt not_less)
      show ?thesis
      proof (cases "e = 0")
        case True
        obtain ss where "\<forall>s \<in> set ss. sec_ok rec s" "mem_read ?m (?start + 4) (unat (len - 4)) = Some (enc_secs ss)" "ss \<noteq> []"
          using e(3) True False by (auto simp: unat_eq_0)
        then have "info_holds ?m min_rec ?i ss" using False by (simp add: info_holds_def not_less)
        then show ?thesis using res True by auto
      qed (use res in simp)
    qed
  qed
qed

lemma parse_hdr_accepts:
  assumes "length data = unat sz"
  shows "\<exists>e. btf_ext_parse_hdr data sz = Some e \<and>
    (e = 0 \<longrightarrow> (\<exists>hl. hdr_len_at data = Some hl \<and> hl < sz \<and> 8 \<le> length data))"
proof (cases "sz < 8")
  case False
  then have len: "8 \<le> length data" using assms by (simp add: word_less_nat_alt not_less)
  obtain hl where hl: "hdr_len_at data = Some hl" using load32_in [of 4 data] len by (simp add: hdr_len_at_def)
  have "load16 data 0 \<noteq> None" "load8 data 2 \<noteq> None" "load8 data 3 \<noteq> None" using len by (simp_all add: fault)
  then show ?thesis using False hl len by (auto simp: btf_ext_parse_hdr_def errno_defs)
qed (simp add: btf_ext_parse_hdr_def EINVAL_def)

lemma btf_ext__new_holds:
  assumes "length data = unat sz"
  shows "\<exists>r. btf_ext__new ok1 ok2 data sz = Some r \<and>
    (\<forall>ext. r = Inr ext \<longrightarrow> x_data ext = data \<and> x_data_size ext = sz \<and> (\<exists>fs ls rs. info_holds data 8 (func_info ext) fs \<and>
       info_holds data 16 (line_info ext) ls \<and> info_holds data 16 (field_reloc_info ext) rs))"
proof -
  let ?ext = "\<lparr>x_data = data, func_info = no_info, line_info = no_info, field_reloc_info = no_info, x_data_size = sz\<rparr>"
  have copy: "mem_read data 0 (unat sz) = Some data" using assms by (simp add: mem_read_def)
  have no: "\<exists>ss. info_holds data k no_info ss" for k by (auto simp: info_holds_def)
  obtain e where e: "btf_ext_parse_hdr data sz = Some e"
      "e = 0 \<longrightarrow> (\<exists>hl. hdr_len_at data = Some hl \<and> hl < sz \<and> 8 \<le> length data)"
    using parse_hdr_accepts [OF assms] by blast
  show ?thesis
  proof (cases "e = 0 \<and> ok1 \<and> ok2")
    case True
    then obtain hl where hl: "hdr_len_at data = Some hl" "hl < sz" using e(2) by blast
    show ?thesis
    proof (cases "hl < 24")
      case True
      then show ?thesis using e(1) \<open>e = 0 \<and> ok1 \<and> ok2\<close> hl(1) copy no by (simp add: btf_ext__new_def)
    next
      case False
      then have len: "24 \<le> unat hl" "unat hl < length data" using hl(2) assms by (simp_all add: word_less_nat_alt not_less)
      obtain o1 l1 o2 l2 where w: "load32 data 8 = Some o1" "load32 data 12 = Some l1" "load32 data 16 = Some o2" "load32 data 20 = Some l2"
        using load32_in [of _ data] len by simp
      obtain e1 i1 where i1: "btf_ext_setup_info ?ext o1 l1 8 no_info = Some (e1, i1)" "e1 = 0 \<longrightarrow> (\<exists>ss. info_holds data 8 i1 ss)"
        using setup_info_holds [of ?ext hl o1 l1 8] hl assms by auto
      obtain e2 i2 where i2: "btf_ext_setup_info (?ext\<lparr>func_info := i1\<rparr>) o2 l2 16 no_info = Some (e2, i2)"
          "e2 = 0 \<longrightarrow> (\<exists>ss. info_holds data 16 i2 ss)"
        using setup_info_holds [of "?ext\<lparr>func_info := i1\<rparr>" hl o2 l2 16] hl assms by auto
      show ?thesis
      proof (cases "e1 = 0 \<and> e2 = 0 \<and> \<not> hl < 32")
        case True
        then have "32 \<le> length data" using len by (simp add: word_less_nat_alt not_less)
        then obtain o3 l3 where w3: "load32 data 24 = Some o3" "load32 data 28 = Some l3" using load32_in [of _ data] by simp
        obtain e3 i3 where i3: "btf_ext_setup_info (?ext\<lparr>func_info := i1, line_info := i2\<rparr>) o3 l3 16 no_info = Some (e3, i3)"
            "e3 = 0 \<longrightarrow> (\<exists>ss. info_holds data 16 i3 ss)"
          using setup_info_holds [of "?ext\<lparr>func_info := i1, line_info := i2\<rparr>" hl o3 l3 16] hl assms by auto
        show ?thesis
          using e(1) \<open>e = 0 \<and> ok1 \<and> ok2\<close> hl(1) copy False True w w3 i1 i2 i3 
          by (auto simp: btf_ext__new_def btf_ext_setup_func_info_def btf_ext_setup_line_info_def btf_ext_setup_field_reloc_def)
      next
        case no32: False
        then show ?thesis using e(1) \<open>e = 0 \<and> ok1 \<and> ok2\<close> hl(1) copy False w i1 i2 no [of 16]
          by (auto simp: btf_ext__new_def btf_ext_setup_func_info_def btf_ext_setup_line_info_def)
      qed
    qed
  next
    case False
    then show ?thesis using e(1) by (auto simp: btf_ext__new_def)
  qed
qed

section \<open>Relocated records\<close>

definition adjust_record :: "u32 \<Rightarrow> bytes \<Rightarrow> bytes" where
  "adjust_record k r = (case load32 r 0 of Some w \<Rightarrow> enc32 (w div 8 + k) @ drop 4 r | None \<Rightarrow> r)"

text \<open>The records of the first ELF section of a name; a name outside the strings is a fault.\<close>

fun find_sec :: "btf \<Rightarrow> string \<Rightarrow> ext_sec list \<Rightarrow> bytes list option option" where
  "find_sec btf sec_name [] = Some None"
| "find_sec btf sec_name (s # ss) = do {
     name \<leftarrow> btf__name_by_offset btf (fst s);
     if name = sec_name then Some (Some (snd s)) else find_sec btf sec_name ss
   }"

definition reloc_spec :: "btf \<Rightarrow> string \<Rightarrow> u32 \<Rightarrow> bool \<Rightarrow> ext_sec list \<Rightarrow> bytes \<Rightarrow> u32 \<Rightarrow> (int \<times> bytes \<times> u32) option" where
  "reloc_spec btf sec_name k ok ss buf cnt = do {
     found \<leftarrow> find_sec btf sec_name ss;
     Some (case found of
       None \<Rightarrow> (- ENOENT, buf, cnt)
     | Some recs \<Rightarrow> if ok then (0, buf @ concat (map (adjust_record k) recs), cnt + of_nat (length recs)) else (- ENOMEM, buf, cnt))
   }"

lemma length_concat_recs: "\<forall>r \<in> set rs. length r = n \<Longrightarrow> length (concat rs) = length rs * n"
  by (induction rs) auto

lemma adjust_loop_records:
  assumes "\<forall>r \<in> set rs. length r = unat rec" "4 \<le> unat rec" "length pre = unat existing + n * unat rec"
    "(n + length rs) * unat rec < 2 ^ 32"
  shows "adjust_loop existing rec k [n..<n + length rs] (pre @ concat rs) = Some (pre @ concat (map (adjust_record k) rs))"
  using assms
proof (induction rs arbitrary: n pre)
  case (Cons r rs)
  define R where "R = unat rec"
  have R: "4 \<le> R" "n * R < 2 ^ 32" using Cons.prems(2,4) by (simp_all add: R_def add_mult_distrib)
  then have "n < 2 ^ 32" by (metis less_le_trans mult.commute mult_le_mono2 nat_mult_1_right not_less one_le_numeral order.trans)
  then have p: "unat existing + unat (of_nat n * rec) = length pre"
    using Cons.prems(3) R by (simp add: unat_word_ariths unat_of_nat_u32 R_def)
  obtain w where w: "load32 r 0 = Some w" using load32_in [of 0 r] Cons.prems(1) R by (simp add: R_def)
  have r: "r = enc32 w @ drop 4 r"
    using load32_mem_read [OF w] by (auto simp: mem_read_def split: if_splits) (metis append_take_drop_id)
  have len: "length (drop 4 r) = R - 4" using Cons.prems(1) by (simp add: R_def)
  have load: "load32 (pre @ r @ concat rs) (length pre) = Some w"
    using load32_enc_at [of pre "length pre" w "drop 4 r @ concat rs"] r by (metis append.assoc)
  have store: "store32 (pre @ r @ concat rs) (length pre) (w div 8 + k) = Some ((pre @ adjust_record k r) @ concat rs)"
    using store32_at [of pre "length pre" "enc32 w" "drop 4 r @ concat rs"] r w
    by (simp add: adjust_record_def) (metis append.assoc)
  have "length (pre @ adjust_record k r) = unat existing + Suc n * R"
    using Cons.prems(3) len R(1) w by (simp add: adjust_record_def R_def)
  then have "adjust_loop existing rec k [Suc n..<Suc n + length rs] ((pre @ adjust_record k r) @ concat rs) =
      Some ((pre @ adjust_record k r) @ concat (map (adjust_record k) rs))"
    using Cons.prems by (intro Cons.IH) (simp_all add: R_def)
  moreover have "[n..<n + length (r # rs)] = n # [Suc n..<Suc n + length rs]" by (simp add: upt_rec)
  ultimately show ?case by (simp add: p load store)
qed simp

lemma reloc_info_loop_spec:
  assumes "mem_read m p len = Some (enc_secs ss)" "\<forall>s \<in> set ss. sec_ok rec s" "4 \<le> unat rec"
    "length buf = unat cnt * unat rec" "length buf + len < 2 ^ 32"
  shows "reloc_info_loop btf m ok junk rec sec_name k buf cnt p (of_nat len) = reloc_spec btf sec_name k ok ss buf cnt"
  using assms
proof (induction ss arbitrary: p len)
  case Nil
  then have "len = 0" using mem_read_length [of m p len] by simp
  then show ?case by (subst reloc_info_loop.simps) (simp add: reloc_spec_def)
next
  case (Cons s ss)
  obtain name recs where s: "s = (name, recs)" by (cases s)
  define R where "R = unat rec"
  define n where "n = length recs"
  have ok: "n \<noteq> 0" "n < 2 ^ 32" "\<forall>r \<in> set recs. length r = R" using Cons.prems(2) by (simp_all add: s sec_ok_def R_def n_def)
  then have lrecs: "length (concat recs) = n * R" by (simp add: length_concat_recs n_def)
  have m: "mem_read m p len = Some (enc32 name @ enc32 (of_nat n) @ concat recs @ enc_secs ss)"
    using Cons.prems(1) by (simp add: s enc_sec_def n_def)
  then have len: "len = 8 + n * R + length (enc_secs ss)" using mem_read_length [OF m] by (simp add: lrecs)
  have lim: "8 + n * R < 2 ^ 32" "unat cnt * R + n * R < 2 ^ 32" using Cons.prems(4,5) by (simp_all add: len R_def)
  have ld: "load32 m p = Some name" "load32 m (p + 4) = Some (of_nat n)"
    using mem_read_load32 [of m p len "[]" name] mem_read_load32 [of m p len "enc32 name" "of_nat n"] m by simp_all
  have un: "unat (of_nat n :: u32) = n" by (rule unat_of_nat_u32 [OF ok(2)])
  have rl: "unat (of_nat n * rec) = n * R" using lim by (simp add: unat_word_ariths un R_def)
  have skip: "unat (8 + of_nat n * rec) = 8 + n * R" using lim rl by (simp add: unat_word_ariths)
  have rem: "(of_nat len - ucast (8 + of_nat n * rec) :: u64) = of_nat (length (enc_secs ss))"
  proof -
    have "(ucast (8 + of_nat n * rec) :: u64) = of_nat (8 + n * R)"
      using skip by (metis of_nat_unat)
    then show ?thesis by (simp add: len)
  qed
  have "unat (of_nat len :: u64) = len" using Cons.prems(5) by (subst unsigned_of_nat) (simp add: take_bit_eq_mod)
  then have rem0: "(of_nat len :: u64) \<noteq> 0" using len by (metis unat_eq_0 add_is_0 zero_neq_numeral)
  have rest: "mem_read m (p + 8 + n * R) (length (enc_secs ss)) = Some (enc_secs ss)"
    using mem_read_part [of m p len "enc32 name @ enc32 (of_nat n) @ concat recs" "enc_secs ss" "[]"] m
    by (simp add: lrecs add.assoc)
  have IH: "reloc_info_loop btf m ok junk rec sec_name k buf cnt (p + 8 + n * R) (of_nat (length (enc_secs ss))) =
      reloc_spec btf sec_name k ok ss buf cnt"
    using Cons.prems rest by (intro Cons.IH) (simp_all add: len)
  show ?case
  proof (cases "btf__name_by_offset btf name")
    case None
    then show ?thesis by (subst reloc_info_loop.simps) (simp add: rem0 ld reloc_spec_def s)
  next
    case (Some nm)
    show ?thesis
    proof (cases "nm = sec_name \<and> ok")
      case False
      then show ?thesis
      proof (cases "nm = sec_name")
        case True
        then show ?thesis using False Some by (subst reloc_info_loop.simps) (simp add: rem0 ld reloc_spec_def s)
      next
        case other: False
        have "reloc_info_loop btf m ok junk rec sec_name k buf cnt p (of_nat len) = reloc_spec btf sec_name k ok ss buf cnt"
          using Some other by (subst reloc_info_loop.simps) (simp add: rem0 ld Let_def skip rem rl IH)
        then show ?thesis using Some other by (simp add: reloc_spec_def s)
      qed
    next
      case True
      have ex: "unat (cnt * rec) = unat cnt * R" using lim by (simp add: unat_word_ariths R_def)
      have tot: "unat (cnt * rec + of_nat n * rec) = unat cnt * R + n * R"
        using lim by (subst unat_word_ariths(1)) (simp add: ex rl)
      have recs: "mem_read m (p + 8) (n * R) = Some (concat recs)"
        using mem_read_part [of m p len "enc32 name @ enc32 (of_nat n)" "concat recs" "enc_secs ss"] m by (simp add: lrecs)
      have buf: "length buf = unat cnt * R" using Cons.prems(4) by (simp add: R_def)
      define junk' where "junk' = map junk [length buf..<unat cnt * R + n * R]"
      have data: "realloc_bytes junk buf (unat cnt * R + n * R) = buf @ junk' @ []" "length junk' = n * R"
        by (simp_all add: realloc_bytes_def junk'_def buf)
      have wr: "mem_write (realloc_bytes junk buf (unat cnt * R + n * R)) (unat cnt * R) (concat recs) = Some (buf @ concat recs)"
        using mem_write_at [of buf "unat cnt * R" "concat recs" junk' "[]"] data buf lrecs by simp
      have adj: "adjust_loop (cnt * rec) rec k [0..<n] (buf @ concat recs) = Some (buf @ concat (map (adjust_record k) recs))"
        using adjust_loop_records [of recs rec buf "cnt * rec" 0 k] ok(3) Cons.prems(3) lim buf by (simp add: ex R_def n_def)
      show ?thesis using Some True
        by (subst reloc_info_loop.simps)
          (simp add: rem0 ld Let_def tot ex rl un recs wr adj reloc_spec_def s n_def [symmetric])
    qed
  qed
qed

lemma reloc_info_spec:
  assumes "info_holds m min_rec i ss" "4 \<le> unat min_rec" "length buf = unat cnt * unat (x_rec_size i)"
    "length buf + unat (x_len i) < 2 ^ 32"
  shows "btf_ext_reloc_info btf m ok junk i sec_name k buf cnt = reloc_spec btf sec_name k ok ss buf cnt"
proof (cases "i = no_info \<and> ss = []")
  case True
  then show ?thesis by (simp add: btf_ext_reloc_info_def no_info_def reloc_spec_def)
next
  case False
  then obtain p where p: "x_info i = Some p" "min_rec \<le> x_rec_size i" "ss \<noteq> []" "\<forall>s \<in> set ss. sec_ok (x_rec_size i) s"
      "mem_read m p (unat (x_len i)) = Some (enc_secs ss)"
    using assms(1) by (auto simp: info_holds_def)
  have "x_len i \<noteq> 0"
    using mem_read_length [OF p(5)] p(3) by (cases ss) (auto simp: enc_sec_def)
  moreover have "4 \<le> unat (x_rec_size i)" using assms(2) p(2) by (simp add: word_le_nat_alt)
  moreover have "(ucast (x_len i) :: u64) = of_nat (unat (x_len i))" by (simp only: of_nat_unat)
  ultimately show ?thesis
    using reloc_info_loop_spec [OF p(5,4) _ assms(3,4)] p(1) by (simp only: btf_ext_reloc_info_def if_False bind.bind_lunit)
qed

section \<open>Properties\<close>

text \<open>C39. A .BTF.ext section that is accepted is well-typed: whatever bytes are given and whatever allocations
fail, reading the section never leaves it, and if it is accepted each of the three blocks is empty or holds,
for each of its ELF sections, a nonempty list of records, all of the same size, which is at least the size of the
record it stands for and a multiple of four.\<close>

theorem ext_sections_typed:
  assumes "length data = unat sz"
  shows "\<exists>r. btf_ext__new ok1 ok2 data sz = Some r \<and>
    (\<forall>ext. r = Inr ext \<longrightarrow> x_data ext = data \<and> x_data_size ext = sz \<and> (\<exists>fs ls rs. info_holds data 8 (func_info ext) fs \<and>
       info_holds data 16 (line_info ext) ls \<and> info_holds data 16 (field_reloc_info ext) rs))"
  by (rule btf_ext__new_holds [OF assms])

text \<open>A section with two functions of the ELF section "prog", at the byte offsets 0 and 80.\<close>

definition demo_ext_data :: bytes where
  "demo_ext_data = enc16 BTF_MAGIC @ [BTF_VERSION, 0] @ enc32 24 @ enc32 0 @ enc32 28 @ enc32 0 @ enc32 0 @
     enc32 8 @ enc32 1 @ enc32 2 @ enc32 0 @ enc32 5 @ enc32 80 @ enc32 6"

definition demo_ext :: btf_ext where
  "demo_ext = \<lparr>x_data = demo_ext_data, func_info = \<lparr>x_info = Some 28, x_rec_size = 8, x_len = 24\<rparr>, line_info = no_info,
     field_reloc_info = no_info, x_data_size = 52\<rparr>"

definition demo_ext_btf :: btf where
  "demo_ext_btf = \<lparr>types = [btf_void], strs = CHR 0x00 # ''prog'' @ [CHR 0x00]\<rparr>"

lemma demo_ext_accepted: "btf_ext__new True True demo_ext_data 52 = Some (Inr demo_ext)"
  by code_simp

lemma ext_sections_typed_witness:
  "\<exists>r. btf_ext__new True True demo_ext_data 52 = Some r \<and> (\<exists>ext fs. r = Inr ext \<and> info_holds demo_ext_data 8 (func_info ext) fs)"
proof -
  have "length demo_ext_data = unat (52 :: u32)" by (simp add: demo_ext_data_def)
  from ext_sections_typed [OF this, of True True] demo_ext_accepted show ?thesis by auto
qed

text \<open>C40. Collecting function records: from an accepted section, \<open>btf_ext__reloc_func_info\<close> appends to the records
collected so far exactly the records of the first block of the wanted ELF section, each with its byte offset
turned into an instruction number behind the instructions already there; without such a block it fails
with -ENOENT and without memory with -ENOMEM, and neither changes anything. It faults just when the name of a block before
it lies outside the strings.\<close>

theorem func_info_relocated:
  assumes "length data = unat sz" "btf_ext__new ok1 ok2 data sz = Some (Inr ext)"
    "length buf = unat cnt * unat (btf_ext__func_info_rec_size ext)" "length buf + unat (x_len (func_info ext)) < 2 ^ 32"
  shows "\<exists>fs. info_holds data 8 (func_info ext) fs \<and>
    btf_ext__reloc_func_info btf ext ok junk sec_name k buf cnt = reloc_spec btf sec_name k ok fs buf cnt"
proof -
  obtain fs where fs: "info_holds data 8 (func_info ext) fs" "x_data ext = data"
    using btf_ext__new_holds [OF assms(1), of ok1 ok2] assms(2) by auto
  then show ?thesis
    using reloc_info_spec [OF fs(1)] assms(3,4) by (auto simp: btf_ext__reloc_func_info_def btf_ext__func_info_rec_size_def)
qed

lemma func_info_relocated_witness:
  "\<exists>fs. info_holds demo_ext_data 8 (func_info demo_ext) fs \<and>
    reloc_spec demo_ext_btf ''prog'' 3 True fs [] 0 = Some (0, enc32 3 @ enc32 5 @ enc32 13 @ enc32 6, 2)"
proof -
  have 1: "length demo_ext_data = unat (52 :: u32)" by (simp add: demo_ext_data_def)
  have 2: "length ([] :: bytes) = unat (0 :: u32) * unat (btf_ext__func_info_rec_size demo_ext)" by simp
  have 3: "length ([] :: bytes) + unat (x_len (func_info demo_ext)) < 2 ^ 32" by (simp add: demo_ext_def)
  have "btf_ext__reloc_func_info demo_ext_btf demo_ext True (\<lambda>_. 0) ''prog'' 3 [] 0 =
      Some (0, enc32 3 @ enc32 5 @ enc32 13 @ enc32 6, 2)"
    unfolding btf_ext__reloc_func_info_def btf_ext_reloc_info_def
    by (subst reloc_info_loop.simps) code_simp
  with func_info_relocated [OF 1 demo_ext_accepted 2 3, of demo_ext_btf True "\<lambda>_. 0" "''prog''" 3] show ?thesis by auto
qed

end
