(* ===== verification/Btf_Dedup.thy ===== *)
theory Btf_Dedup
  imports Btf Hashmap
begin

text \<open>
  libbpf/src/btf.c, \<open>btf__dedup\<close>: making the types of a table unique. Every type is mapped to a canonical type
  by \<open>d_map\<close> (chains of it end at a type that is its own image or not yet mapped); candidates for a canonical
  type are found in a hash map by a hash of the type. The phases are those of the code: primitive types,
  structs and unions, types that refer to others, compaction, and the rewriting of the numbers.
  Types are the records of \<open>Btf\<close>, so moving them to the front of the section is moving records to the front of
  the table; the sizes in the header follow from them. What the phases preserve is in \<open>Dedup_Sound\<close> to \<open>Dedup_Done\<close>.

  An access outside an array is \<^term>\<open>None\<close>, and so is a chain that does not end. Recursion is bounded by fuel, which
  \<open>Dedup_Equiv\<close> and \<open>Dedup_Ref\<close> show to be enough.
\<close>

section \<open>State\<close>

definition BTF_UNPROCESSED_ID :: u32 where "BTF_UNPROCESSED_ID = - 1"
definition BTF_IN_PROGRESS_ID :: u32 where "BTF_IN_PROGRESS_ID = - 2"

type_synonym cand_map = "(u64, u32, unit) hashmap"

text \<open>The first \<open>hypot_cnt\<close> elements of the array \<open>hypot_list\<close> are its list; \<open>dedup_table\<close> is NULL at the end.\<close>

record btf_dedup =
  d_btf :: btf
  dedup_table :: "cand_map option"
  d_map :: "u32 list"
  hypot_map :: "u32 list"
  hypot_list :: "u32 list"
  hypot_cap :: nat
  dont_resolve_fwds :: bool

record btf_dedup_opts =
  o_table_size :: nat
  o_dont_resolve_fwds :: bool

text \<open>
  What the machine and the allocator do: the shift of \<open>hash_bits\<close> by 64 bits, the arrays and the entry of the hash map
  when a type is added (each type is added once), the list of a given capacity.
\<close>

record dedup_env =
  env_shift :: "u64 \<Rightarrow> u64"
  env_grow :: "u32 \<Rightarrow> nat \<Rightarrow> bool"
  env_entry :: "u32 \<Rightarrow> bool"
  env_list :: "nat \<Rightarrow> bool"

definition hash_combine :: "u64 \<Rightarrow> u64 \<Rightarrow> u64" where
  "hash_combine h value = h * 31 + value"

definition type_at :: "btf_dedup \<Rightarrow> u32 \<Rightarrow> btf_type option" where
  "type_at d i = arr_get (types (d_btf d)) (unat i)"

definition map_at :: "btf_dedup \<Rightarrow> u32 \<Rightarrow> u32 option" where
  "map_at d i = arr_get (d_map d) (unat i)"

definition set_map :: "btf_dedup \<Rightarrow> u32 \<Rightarrow> u32 \<Rightarrow> btf_dedup option" where
  "set_map d i v = do { m \<leftarrow> arr_set (d_map d) (unat i) v; Some (d\<lparr>d_map := m\<rparr>) }"

section \<open>The table of candidates\<close>

definition table_add :: "dedup_env \<Rightarrow> u32 \<Rightarrow> cand_map \<Rightarrow> u64 \<Rightarrow> (int \<times> cand_map) option" where
  "table_add e type_id m h = do {
     (err, _, m) \<leftarrow> hashmap__append (env_shift e) (env_grow e type_id) (env_entry e type_id) m h type_id;
     Some (err, m)
   }"

definition btf_dedup_table_add :: "dedup_env \<Rightarrow> btf_dedup \<Rightarrow> u64 \<Rightarrow> u32 \<Rightarrow> (int \<times> btf_dedup) option" where
  "btf_dedup_table_add e d h type_id = do {
     m \<leftarrow> dedup_table d;
     (err, m) \<leftarrow> table_add e type_id m h;
     Some (err, d\<lparr>dedup_table := Some m\<rparr>)
   }"

definition table_cands :: "dedup_env \<Rightarrow> cand_map \<Rightarrow> u64 \<Rightarrow> u32 list option" where
  "table_cands e m h = map_option (map snd) (hashmap__for_each_key_entry (env_shift e) m h)"

definition for_each_dedup_cand :: "dedup_env \<Rightarrow> btf_dedup \<Rightarrow> u64 \<Rightarrow> u32 list option" where
  "for_each_dedup_cand e d h = do { m \<leftarrow> dedup_table d; table_cands e m h }"

section \<open>The hypothetical mapping\<close>

definition btf_dedup_hypot_map_add :: "dedup_env \<Rightarrow> btf_dedup \<Rightarrow> u32 \<Rightarrow> u32 \<Rightarrow> (int \<times> btf_dedup) option" where
  "btf_dedup_hypot_map_add e d from_id to_id =
     (let full = (length (hypot_list d) = hypot_cap d);
          d = (if full then d\<lparr>hypot_cap := hypot_cap d + max 16 (hypot_cap d div 2)\<rparr> else d) in
      if full \<and> \<not> env_list e (hypot_cap d) then Some (- ENOMEM, d)
      else do {
        hm \<leftarrow> arr_set (hypot_map d) (unat from_id) to_id;
        Some (0, d\<lparr>hypot_list := hypot_list d @ [from_id], hypot_map := hm\<rparr>)
      })"

fun clear_loop :: "u32 list \<Rightarrow> u32 list \<Rightarrow> u32 list option" where
  "clear_loop [] hm = Some hm"
| "clear_loop (i # is) hm = do { hm \<leftarrow> arr_set hm (unat i) BTF_UNPROCESSED_ID; clear_loop is hm }"

definition btf_dedup_clear_hypot_map :: "btf_dedup \<Rightarrow> btf_dedup option" where
  "btf_dedup_clear_hypot_map d = do {
     hm \<leftarrow> clear_loop (hypot_list d) (hypot_map d);
     Some (d\<lparr>hypot_map := hm, hypot_list := []\<rparr>)
   }"

section \<open>Creation\<close>

definition btf_dedup_free :: "btf_dedup \<Rightarrow> unit option" where
  "btf_dedup_free d = hashmap__free (dedup_table d)"

text \<open>The arguments before the table: whether the four allocations succeed. A failure frees what there is.\<close>

definition btf_dedup_new :: "bool \<Rightarrow> bool \<Rightarrow> bool \<Rightarrow> bool \<Rightarrow> btf \<Rightarrow> btf_dedup_opts option \<Rightarrow> (int + btf_dedup) option" where
  "btf_dedup_new ok1 ok2 ok3 ok4 b opts =
     (if \<not> ok1 then Some (Inl (- ENOMEM))
      else
        let nr = btf__get_nr_types b;
            hash_fn = (case opts of
              Some os \<Rightarrow> if o_table_size os = 1 then btf_dedup_collision_hash_fn else btf_dedup_identity_hash_fn
            | None \<Rightarrow> btf_dedup_identity_hash_fn) in
        case hashmap__new ok2 hash_fn btf_dedup_equal_fn () of
          Inl err \<Rightarrow> Some (Inl err)
        | Inr table \<Rightarrow>
            let d = \<lparr>d_btf = b, dedup_table = Some table,
                  d_map = 0 # map (\<lambda>i. if btf_is_var (types b ! i) \<or> btf_is_datasec (types b ! i) then of_nat i else BTF_UNPROCESSED_ID) [1..<Suc nr],
                  hypot_map = replicate (Suc nr) BTF_UNPROCESSED_ID, hypot_list = [], hypot_cap = 0,
                  dont_resolve_fwds = (case opts of Some os \<Rightarrow> o_dont_resolve_fwds os | None \<Rightarrow> False)\<rparr> in
            if \<not> ok3 \<or> \<not> ok4 then do { _ \<leftarrow> btf_dedup_free d; Some (Inl (- ENOMEM)) }
            else Some (Inr d))"

section \<open>Hashes and equality of types\<close>

definition btf_hash_common :: "btf_type \<Rightarrow> u64" where
  "btf_hash_common t = (let h = hash_combine 0 (ucast (t_name_off t)); h = hash_combine h (ucast (t_info t)) in hash_combine h (ucast (t_size t)))"

definition btf_equal_common :: "btf_type \<Rightarrow> btf_type \<Rightarrow> bool" where
  "btf_equal_common t1 t2 \<longleftrightarrow> t_name_off t1 = t_name_off t2 \<and> t_info t1 = t_info t2 \<and> t_size t1 = t_size t2"

definition btf_hash_int :: "btf_type \<Rightarrow> u64" where
  "btf_hash_int t = hash_combine (btf_hash_common t) (ucast (t_extra t ! 0))"

definition btf_equal_int :: "btf_type \<Rightarrow> btf_type \<Rightarrow> bool" where
  "btf_equal_int t1 t2 \<longleftrightarrow> btf_equal_common t1 t2 \<and> t_extra t1 ! 0 = t_extra t2 ! 0"

definition btf_hash_enum :: "btf_type \<Rightarrow> u64" where
  "btf_hash_enum t =
     (let h = hash_combine 0 (ucast (t_name_off t)); h = hash_combine h (ucast (t_info t AND NOT 0xffff)) in hash_combine h (ucast (t_size t)))"

definition btf_equal_enum :: "btf_type \<Rightarrow> btf_type \<Rightarrow> bool" where
  "btf_equal_enum t1 t2 \<longleftrightarrow> btf_equal_common t1 t2 \<and>
     list_all2 (\<lambda>m1 m2. e_name_off m1 = e_name_off m2 \<and> e_val m1 = e_val m2) (btf_enum t1) (btf_enum t2)"

definition btf_is_enum_fwd :: "btf_type \<Rightarrow> bool" where
  "btf_is_enum_fwd t \<longleftrightarrow> btf_is_enum t \<and> btf_vlen t = 0"

definition btf_compat_enum :: "btf_type \<Rightarrow> btf_type \<Rightarrow> bool" where
  "btf_compat_enum t1 t2 \<longleftrightarrow>
     (if \<not> btf_is_enum_fwd t1 \<and> \<not> btf_is_enum_fwd t2 then btf_equal_enum t1 t2
      else t_name_off t1 = t_name_off t2 \<and> t_info t1 AND NOT 0xffff = t_info t2 AND NOT 0xffff \<and> t_size t1 = t_size t2)"

definition btf_hash_struct :: "btf_type \<Rightarrow> u64" where
  "btf_hash_struct t =
     fold (\<lambda>m h. hash_combine (hash_combine h (ucast (m_name_off m))) (ucast (m_offset m))) (btf_members t) (btf_hash_common t)"

definition btf_shallow_equal_struct :: "btf_type \<Rightarrow> btf_type \<Rightarrow> bool" where
  "btf_shallow_equal_struct t1 t2 \<longleftrightarrow> btf_equal_common t1 t2 \<and>
     list_all2 (\<lambda>m1 m2. m_name_off m1 = m_name_off m2 \<and> m_offset m1 = m_offset m2) (btf_members t1) (btf_members t2)"

definition btf_hash_array :: "btf_type \<Rightarrow> u64" where
  "btf_hash_array t =
     (let h = hash_combine (btf_hash_common t) (ucast (a_type (btf_array t))); h = hash_combine h (ucast (a_index_type (btf_array t))) in
      hash_combine h (ucast (a_nelems (btf_array t))))"

definition btf_equal_array :: "btf_type \<Rightarrow> btf_type \<Rightarrow> bool" where
  "btf_equal_array t1 t2 \<longleftrightarrow> btf_equal_common t1 t2 \<and> a_type (btf_array t1) = a_type (btf_array t2) \<and>
     a_index_type (btf_array t1) = a_index_type (btf_array t2) \<and> a_nelems (btf_array t1) = a_nelems (btf_array t2)"

definition btf_compat_array :: "btf_type \<Rightarrow> btf_type \<Rightarrow> bool" where
  "btf_compat_array t1 t2 \<longleftrightarrow> btf_equal_common t1 t2 \<and> a_nelems (btf_array t1) = a_nelems (btf_array t2)"

definition btf_hash_fnproto :: "btf_type \<Rightarrow> u64" where
  "btf_hash_fnproto t =
     fold (\<lambda>p h. hash_combine (hash_combine h (ucast (p_name_off p))) (ucast (p_type p))) (btf_params t) (btf_hash_common t)"

definition btf_equal_fnproto :: "btf_type \<Rightarrow> btf_type \<Rightarrow> bool" where
  "btf_equal_fnproto t1 t2 \<longleftrightarrow> btf_equal_common t1 t2 \<and>
     list_all2 (\<lambda>m1 m2. p_name_off m1 = p_name_off m2 \<and> p_type m1 = p_type m2) (btf_params t1) (btf_params t2)"

definition btf_compat_fnproto :: "btf_type \<Rightarrow> btf_type \<Rightarrow> bool" where
  "btf_compat_fnproto t1 t2 \<longleftrightarrow> t_name_off t1 = t_name_off t2 \<and> t_info t1 = t_info t2 \<and>
     list_all2 (\<lambda>m1 m2. p_name_off m1 = p_name_off m2) (btf_params t1) (btf_params t2)"

section \<open>Primitive types\<close>

text \<open>The loops over the candidates. The first one returns the first candidate that is equal.\<close>

fun find_cand :: "(btf_type \<Rightarrow> bool) \<Rightarrow> btf_dedup \<Rightarrow> u32 \<Rightarrow> u32 list \<Rightarrow> u32 option" where
  "find_cand eq d type_id [] = Some type_id"
| "find_cand eq d type_id (cand_id # cands) = do {
     cand \<leftarrow> type_at d cand_id;
     if eq cand then Some cand_id else find_cand eq d type_id cands
   }"

fun enum_loop :: "btf_dedup \<Rightarrow> btf_type \<Rightarrow> u32 \<Rightarrow> u32 list \<Rightarrow> (u32 \<times> btf_dedup) option" where
  "enum_loop d t type_id [] = Some (type_id, d)"
| "enum_loop d t type_id (cand_id # cands) = do {
     cand \<leftarrow> type_at d cand_id;
     if btf_equal_enum t cand then Some (cand_id, d)
     else if dont_resolve_fwds d then enum_loop d t type_id cands
     else if btf_compat_enum t cand then
       (if btf_is_enum_fwd t then Some (cand_id, d)
        else do { d \<leftarrow> set_map d cand_id type_id; enum_loop d t type_id cands })
     else enum_loop d t type_id cands
   }"

text \<open>The end of the functions for one type: the mapping, and a new candidate.\<close>

definition map_type :: "dedup_env \<Rightarrow> btf_dedup \<Rightarrow> u32 \<Rightarrow> u64 \<Rightarrow> u32 \<Rightarrow> (int \<times> btf_dedup) option" where
  "map_type e d type_id h new_id = do {
     d \<leftarrow> set_map d type_id new_id;
     if type_id = new_id then do {
       (err, d) \<leftarrow> btf_dedup_table_add e d h type_id;
       Some (if err \<noteq> 0 then - ENOMEM else 0, d)
     } else Some (0, d)
   }"

definition btf_dedup_prim_type :: "dedup_env \<Rightarrow> btf_dedup \<Rightarrow> u32 \<Rightarrow> (int \<times> btf_dedup) option" where
  "btf_dedup_prim_type e d type_id = do {
     t \<leftarrow> type_at d type_id;
     case btf_kind t of
       BTF_KIND_INT \<Rightarrow> do {
         cands \<leftarrow> for_each_dedup_cand e d (btf_hash_int t);
         new_id \<leftarrow> find_cand (btf_equal_int t) d type_id cands;
         map_type e d type_id (btf_hash_int t) new_id
       }
     | BTF_KIND_ENUM \<Rightarrow> do {
         cands \<leftarrow> for_each_dedup_cand e d (btf_hash_enum t);
         (new_id, d) \<leftarrow> enum_loop d t type_id cands;
         map_type e d type_id (btf_hash_enum t) new_id
       }
     | BTF_KIND_FWD \<Rightarrow> do {
         cands \<leftarrow> for_each_dedup_cand e d (btf_hash_common t);
         new_id \<leftarrow> find_cand (btf_equal_common t) d type_id cands;
         map_type e d type_id (btf_hash_common t) new_id
       }
     | BTF_KIND_UNKN \<Rightarrow> Some (- EINVAL, d)
     | _ \<Rightarrow> Some (0, d)
   }"

text \<open>A phase: one function for every type, up to the first error.\<close>

fun for_types :: "(btf_dedup \<Rightarrow> u32 \<Rightarrow> (int \<times> btf_dedup) option) \<Rightarrow> btf_dedup \<Rightarrow> nat list \<Rightarrow> (int \<times> btf_dedup) option" where
  "for_types f d [] = Some (0, d)"
| "for_types f d (i # is) = do { (err, d) \<leftarrow> f d (of_nat i); if err \<noteq> 0 then Some (err, d) else for_types f d is }"

definition type_numbers :: "btf_dedup \<Rightarrow> nat list" where
  "type_numbers d = [1..<Suc (btf__get_nr_types (d_btf d))]"

definition btf_dedup_prim_types :: "dedup_env \<Rightarrow> btf_dedup \<Rightarrow> (int \<times> btf_dedup) option" where
  "btf_dedup_prim_types e d = for_types (btf_dedup_prim_type e) d (type_numbers d)"

section \<open>Chains of the mapping\<close>

definition is_type_mapped :: "btf_dedup \<Rightarrow> u32 \<Rightarrow> bool option" where
  "is_type_mapped d type_id = do { m \<leftarrow> map_at d type_id; Some (m \<le> BTF_MAX_NR_TYPES) }"

partial_function (option) resolve_type_id :: "btf_dedup \<Rightarrow> u32 \<Rightarrow> u32 option" where
  "resolve_type_id d type_id = do {
     mapped \<leftarrow> is_type_mapped d type_id;
     m \<leftarrow> map_at d type_id;
     if mapped \<and> m \<noteq> type_id then resolve_type_id d m else Some type_id
   }"

declare resolve_type_id.simps [code]

definition resolve_fwd_id :: "btf_dedup \<Rightarrow> u32 \<Rightarrow> u32 option" where
  "resolve_fwd_id d type_id = do {
     t \<leftarrow> type_at d type_id;
     if \<not> btf_is_fwd t then Some type_id
     else do {
       r \<leftarrow> resolve_type_id d type_id;
       t \<leftarrow> type_at d r;
       Some (if \<not> btf_is_fwd t then r else type_id)
     }
   }"

definition btf_fwd_kind :: "btf_type \<Rightarrow> btf_kind" where
  "btf_fwd_kind t = (if btf_kflag t then BTF_KIND_UNION else BTF_KIND_STRUCT)"

section \<open>Equivalence of type graphs\<close>

text \<open>What is compared of two types themselves: the result, or the pairs of types that must be compared next.\<close>

definition equiv_node :: "bool \<Rightarrow> btf_type \<Rightarrow> btf_type \<Rightarrow> int + (u32 \<times> u32) list" where
  "equiv_node dont_resolve cand_type canon_type =
     (let cand_kind = btf_kind cand_type; canon_kind = btf_kind canon_type in
      if t_name_off cand_type \<noteq> t_name_off canon_type then Inl 0
      else if \<not> dont_resolve \<and> (cand_kind = BTF_KIND_FWD \<or> canon_kind = BTF_KIND_FWD) \<and> cand_kind \<noteq> canon_kind then
        Inl (of_bool (if cand_kind = BTF_KIND_FWD then btf_fwd_kind cand_type = canon_kind else btf_fwd_kind canon_type = cand_kind))
      else if cand_kind \<noteq> canon_kind then Inl 0
      else case cand_kind of
        BTF_KIND_INT \<Rightarrow> Inl (of_bool (btf_equal_int cand_type canon_type))
      | BTF_KIND_ENUM \<Rightarrow>
          Inl (of_bool (if dont_resolve then btf_equal_enum cand_type canon_type else btf_compat_enum cand_type canon_type))
      | BTF_KIND_FWD \<Rightarrow> Inl (of_bool (btf_equal_common cand_type canon_type))
      | BTF_KIND_ARRAY \<Rightarrow>
          if \<not> btf_compat_array cand_type canon_type then Inl 0
          else Inr [(a_index_type (btf_array cand_type), a_index_type (btf_array canon_type)),
                    (a_type (btf_array cand_type), a_type (btf_array canon_type))]
      | BTF_KIND_FUNC_PROTO \<Rightarrow>
          if \<not> btf_compat_fnproto cand_type canon_type then Inl 0
          else Inr ((t_size cand_type, t_size canon_type) #
                    zip (map p_type (btf_params cand_type)) (map p_type (btf_params canon_type)))
      | BTF_KIND_UNKN \<Rightarrow> Inl (- EINVAL) | BTF_KIND_VAR \<Rightarrow> Inl (- EINVAL) | BTF_KIND_DATASEC \<Rightarrow> Inl (- EINVAL)
      | _ \<Rightarrow>
          if btf_is_composite cand_type then
            (if \<not> btf_shallow_equal_struct cand_type canon_type then Inl 0
             else Inr (zip (map m_type (btf_members cand_type)) (map m_type (btf_members canon_type))))
          else if t_info cand_type \<noteq> t_info canon_type then Inl 0
          else Inr [(t_size cand_type, t_size canon_type)])"

fun equiv_pairs :: "(btf_dedup \<Rightarrow> u32 \<Rightarrow> u32 \<Rightarrow> (int \<times> btf_dedup) option) \<Rightarrow> btf_dedup \<Rightarrow> (u32 \<times> u32) list \<Rightarrow> (int \<times> btf_dedup) option" where
  "equiv_pairs f d [] = Some (1, d)"
| "equiv_pairs f d ((a, b) # ps) = do { (eq, d) \<leftarrow> f d a b; if eq \<le> 0 then Some (eq, d) else equiv_pairs f d ps }"

fun is_equiv :: "nat \<Rightarrow> dedup_env \<Rightarrow> btf_dedup \<Rightarrow> u32 \<Rightarrow> u32 \<Rightarrow> (int \<times> btf_dedup) option" where
  "is_equiv 0 e d cand_id canon_id = None"
| "is_equiv (Suc n) e d cand_id canon_id = do {
     r1 \<leftarrow> resolve_type_id d cand_id;
     r2 \<leftarrow> resolve_type_id d canon_id;
     if r1 = r2 then Some (1, d)
     else do {
       canon_id \<leftarrow> resolve_fwd_id d canon_id;
       hypot_type_id \<leftarrow> arr_get (hypot_map d) (unat canon_id);
       if hypot_type_id \<le> BTF_MAX_NR_TYPES then Some (of_bool (hypot_type_id = cand_id), d)
       else do {
         (err, d) \<leftarrow> btf_dedup_hypot_map_add e d canon_id cand_id;
         if err \<noteq> 0 then Some (- ENOMEM, d)
         else do {
           cand_type \<leftarrow> type_at d cand_id;
           canon_type \<leftarrow> type_at d canon_id;
           case equiv_node (dont_resolve_fwds d) cand_type canon_type of
             Inl eq \<Rightarrow> Some (eq, d)
           | Inr pairs \<Rightarrow> equiv_pairs (is_equiv n e) d pairs
         }
       }
     }
   }"

text \<open>Every call that goes deeper has added an entry to the hypothetical mapping, which has one per type.\<close>

definition btf_dedup_is_equiv :: "dedup_env \<Rightarrow> btf_dedup \<Rightarrow> u32 \<Rightarrow> u32 \<Rightarrow> (int \<times> btf_dedup) option" where
  "btf_dedup_is_equiv e d cand_id canon_id = is_equiv (Suc (length (hypot_map d))) e d cand_id canon_id"

section \<open>Structs and unions\<close>

text \<open>One step of the merge: \<open>c\<close> is an element of the list.\<close>

definition merge_step :: "btf_dedup \<Rightarrow> u32 \<Rightarrow> btf_dedup option" where
  "merge_step d cand_type_id = do {
     targ_type_id \<leftarrow> arr_get (hypot_map d) (unat cand_type_id);
     t_id \<leftarrow> resolve_type_id d targ_type_id;
     c_id \<leftarrow> resolve_type_id d cand_type_id;
     t \<leftarrow> type_at d t_id;
     c \<leftarrow> type_at d c_id;
     let t_kind = btf_kind t;
     let c_kind = btf_kind c;
     d \<leftarrow> (if t_kind \<noteq> BTF_KIND_FWD \<and> c_kind = BTF_KIND_FWD then set_map d c_id t_id
          else if t_kind = BTF_KIND_FWD \<and> c_kind \<noteq> BTF_KIND_FWD then set_map d t_id c_id
          else Some d);
     c_mapped \<leftarrow> is_type_mapped d c_id;
     t_mapped \<leftarrow> is_type_mapped d t_id;
     if (t_kind = BTF_KIND_STRUCT \<or> t_kind = BTF_KIND_UNION) \<and> c_kind \<noteq> BTF_KIND_FWD \<and> c_mapped \<and> \<not> t_mapped
     then set_map d t_id c_id else Some d
   }"

fun merge_loop :: "btf_dedup \<Rightarrow> u32 list \<Rightarrow> btf_dedup option" where
  "merge_loop d [] = Some d"
| "merge_loop d (c # cs) = do { d \<leftarrow> merge_step d c; merge_loop d cs }"

definition btf_dedup_merge_hypot_map :: "btf_dedup \<Rightarrow> btf_dedup option" where
  "btf_dedup_merge_hypot_map d = merge_loop d (hypot_list d)"

text \<open>The loop over the candidates of a struct: an error, or the new number.\<close>

fun struct_loop :: "dedup_env \<Rightarrow> btf_dedup \<Rightarrow> btf_type \<Rightarrow> u32 \<Rightarrow> u32 list \<Rightarrow> ((int + u32) \<times> btf_dedup) option" where
  "struct_loop e d t type_id [] = Some (Inr type_id, d)"
| "struct_loop e d t type_id (cand_id # cands) = do {
     cand_type \<leftarrow> type_at d cand_id;
     if \<not> btf_shallow_equal_struct t cand_type then struct_loop e d t type_id cands
     else do {
       d \<leftarrow> btf_dedup_clear_hypot_map d;
       (eq, d) \<leftarrow> btf_dedup_is_equiv e d type_id cand_id;
       if eq < 0 then Some (Inl eq, d)
       else if eq = 0 then struct_loop e d t type_id cands
       else do { d \<leftarrow> btf_dedup_merge_hypot_map d; Some (Inr cand_id, d) }
     }
   }"

definition btf_dedup_struct_type :: "dedup_env \<Rightarrow> btf_dedup \<Rightarrow> u32 \<Rightarrow> (int \<times> btf_dedup) option" where
  "btf_dedup_struct_type e d type_id = do {
     m \<leftarrow> map_at d type_id;
     if m \<le> BTF_MAX_NR_TYPES then Some (0, d)
     else do {
       t \<leftarrow> type_at d type_id;
       if btf_kind t \<noteq> BTF_KIND_STRUCT \<and> btf_kind t \<noteq> BTF_KIND_UNION then Some (0, d)
       else do {
         cands \<leftarrow> for_each_dedup_cand e d (btf_hash_struct t);
         (r, d) \<leftarrow> struct_loop e d t type_id cands;
         case r of Inl eq \<Rightarrow> Some (eq, d) | Inr new_id \<Rightarrow> map_type e d type_id (btf_hash_struct t) new_id
       }
     }
   }"

definition btf_dedup_struct_types :: "dedup_env \<Rightarrow> btf_dedup \<Rightarrow> (int \<times> btf_dedup) option" where
  "btf_dedup_struct_types e d = for_types (btf_dedup_struct_type e) d (type_numbers d)"

section \<open>Types that refer to other types\<close>

text \<open>A place in a type that holds the number of another type: its third word, or a word behind it.\<close>

datatype slot = Type_Word | Extra nat

definition get_slot :: "btf_type \<Rightarrow> slot \<Rightarrow> u32" where
  "get_slot t s = (case s of Type_Word \<Rightarrow> t_size t | Extra i \<Rightarrow> t_extra t ! i)"

definition set_slot :: "btf_type \<Rightarrow> slot \<Rightarrow> u32 \<Rightarrow> btf_type" where
  "set_slot t s v = (case s of Type_Word \<Rightarrow> t\<lparr>t_size := v\<rparr> | Extra i \<Rightarrow> t\<lparr>t_extra := (t_extra t)[i := v]\<rparr>)"

definition set_type :: "btf_dedup \<Rightarrow> u32 \<Rightarrow> btf_type \<Rightarrow> btf_dedup option" where
  "set_type d i t = do {
     ts \<leftarrow> arr_set (types (d_btf d)) (unat i) t;
     Some (d\<lparr>d_btf := (d_btf d)\<lparr>types := ts\<rparr>\<rparr>)
   }"

text \<open>For each place in order: \<open>f\<close> computes the new number, a negative result stops.\<close>

fun for_slots :: "(btf_dedup \<Rightarrow> u32 \<Rightarrow> (int \<times> btf_dedup) option) \<Rightarrow> u32 \<Rightarrow> btf_dedup \<Rightarrow> slot list \<Rightarrow> (int \<times> btf_dedup) option" where
  "for_slots f type_id d [] = Some (0, d)"
| "for_slots f type_id d (s # ss) = do {
     t \<leftarrow> type_at d type_id;
     (r, d) \<leftarrow> f d (get_slot t s);
     if r < 0 then Some (r, d)
     else do {
       t \<leftarrow> type_at d type_id;
       d \<leftarrow> set_type d type_id (set_slot t s (word_of_int r));
       for_slots f type_id d ss
     }
   }"

definition ref_slots :: "btf_type \<Rightarrow> slot list" where
  "ref_slots t = (case btf_kind t of
     BTF_KIND_ARRAY \<Rightarrow> [Extra 0, Extra 1]
   | BTF_KIND_FUNC_PROTO \<Rightarrow> Type_Word # map (\<lambda>i. Extra (2 * i + 1)) [0..<btf_vlen t]
   | _ \<Rightarrow> [Type_Word])"

definition ref_hash :: "btf_type \<Rightarrow> u64" where
  "ref_hash t = (case btf_kind t of
     BTF_KIND_ARRAY \<Rightarrow> btf_hash_array t | BTF_KIND_FUNC_PROTO \<Rightarrow> btf_hash_fnproto t | _ \<Rightarrow> btf_hash_common t)"

definition ref_equal :: "btf_type \<Rightarrow> btf_type \<Rightarrow> bool" where
  "ref_equal t = (case btf_kind t of
     BTF_KIND_ARRAY \<Rightarrow> btf_equal_array t | BTF_KIND_FUNC_PROTO \<Rightarrow> btf_equal_fnproto t | _ \<Rightarrow> btf_equal_common t)"

definition is_ref_kind :: "btf_kind \<Rightarrow> bool" where
  "is_ref_kind k \<longleftrightarrow> k \<in> {BTF_KIND_CONST, BTF_KIND_VOLATILE, BTF_KIND_RESTRICT, BTF_KIND_PTR, BTF_KIND_TYPEDEF, BTF_KIND_FUNC,
     BTF_KIND_ARRAY, BTF_KIND_FUNC_PROTO}"

fun ref_type :: "nat \<Rightarrow> dedup_env \<Rightarrow> btf_dedup \<Rightarrow> u32 \<Rightarrow> (int \<times> btf_dedup) option" where
  "ref_type 0 e d type_id = None"
| "ref_type (Suc n) e d type_id = do {
     m \<leftarrow> map_at d type_id;
     if m = BTF_IN_PROGRESS_ID then Some (- ELOOP, d)
     else if m \<le> BTF_MAX_NR_TYPES then do { r \<leftarrow> resolve_type_id d type_id; Some (sint r, d) }
     else do {
       t \<leftarrow> type_at d type_id;
       d \<leftarrow> set_map d type_id BTF_IN_PROGRESS_ID;
       if \<not> is_ref_kind (btf_kind t) then Some (- EINVAL, d)
       else do {
         (r, d) \<leftarrow> for_slots (ref_type n e) type_id d (ref_slots t);
         if r < 0 then Some (r, d)
         else do {
           t \<leftarrow> type_at d type_id;
           cands \<leftarrow> for_each_dedup_cand e d (ref_hash t);
           new_id \<leftarrow> find_cand (ref_equal t) d type_id cands;
           (err, d) \<leftarrow> map_type e d type_id (ref_hash t) new_id;
           Some (if err \<noteq> 0 then err else sint new_id, d)
         }
       }
     }
   }"

text \<open>A call that goes deeper has marked its type as in progress, and a marked type ends the recursion.\<close>

definition btf_dedup_ref_type :: "dedup_env \<Rightarrow> btf_dedup \<Rightarrow> u32 \<Rightarrow> (int \<times> btf_dedup) option" where
  "btf_dedup_ref_type e d type_id = ref_type (Suc (length (d_map d))) e d type_id"

fun ref_types_loop :: "dedup_env \<Rightarrow> btf_dedup \<Rightarrow> nat list \<Rightarrow> (int \<times> btf_dedup) option" where
  "ref_types_loop e d [] = Some (0, d)"
| "ref_types_loop e d (i # is) = do {
     (err, d) \<leftarrow> btf_dedup_ref_type e d (of_nat i);
     if err < 0 then Some (err, d) else ref_types_loop e d is
   }"

definition btf_dedup_ref_types :: "dedup_env \<Rightarrow> btf_dedup \<Rightarrow> (int \<times> btf_dedup) option" where
  "btf_dedup_ref_types e d = do {
     (err, d) \<leftarrow> ref_types_loop e d (type_numbers d);
     if err < 0 then Some (err, d)
     else do { _ \<leftarrow> hashmap__free (dedup_table d); Some (0, d\<lparr>dedup_table := None\<rparr>) }
   }"

section \<open>Compaction\<close>

fun compact_loop :: "btf_dedup \<Rightarrow> nat \<Rightarrow> nat list \<Rightarrow> (int \<times> nat \<times> btf_dedup) option" where
  "compact_loop d next_type_id [] = Some (0, next_type_id, d)"
| "compact_loop d next_type_id (i # is) = do {
     m \<leftarrow> map_at d (of_nat i);
     if m \<noteq> of_nat i then compact_loop d next_type_id is
     else do {
       t \<leftarrow> type_at d (of_nat i);
       if btf_type_size t < 0 then Some (btf_type_size t, next_type_id, d)
       else do {
         hm \<leftarrow> arr_set (hypot_map d) i (of_nat next_type_id);
         d \<leftarrow> set_type (d\<lparr>hypot_map := hm\<rparr>) (of_nat next_type_id) t;
         compact_loop d (Suc next_type_id) is
       }
     }
   }"

text \<open>\<open>realloc_ok\<close>: the smaller array of types. The hypothetical mapping now maps old numbers to new ones.\<close>

definition btf_dedup_compact_types :: "bool \<Rightarrow> btf_dedup \<Rightarrow> (int \<times> btf_dedup) option" where
  "btf_dedup_compact_types realloc_ok d = do {
     (err, next_type_id, d) \<leftarrow> compact_loop (d\<lparr>hypot_map := 0 # replicate (length (hypot_map d) - 1) BTF_UNPROCESSED_ID\<rparr>) 1 (type_numbers d);
     if err < 0 then Some (err, d)
     else
       let d = d\<lparr>d_btf := (d_btf d)\<lparr>types := take next_type_id (types (d_btf d))\<rparr>\<rparr> in
       Some (if \<not> realloc_ok then - ENOMEM else 0, d)
   }"

section \<open>Rewriting the numbers\<close>

definition btf_dedup_remap_type_id :: "btf_dedup \<Rightarrow> u32 \<Rightarrow> int option" where
  "btf_dedup_remap_type_id d type_id = do {
     resolved_type_id \<leftarrow> resolve_type_id d type_id;
     new_type_id \<leftarrow> arr_get (hypot_map d) (unat resolved_type_id);
     Some (if new_type_id > BTF_MAX_NR_TYPES then - EINVAL else sint new_type_id)
   }"

definition remap_slots :: "btf_type \<Rightarrow> slot list" where
  "remap_slots t = (case btf_kind t of
     BTF_KIND_UNKN \<Rightarrow> [] | BTF_KIND_INT \<Rightarrow> [] | BTF_KIND_ENUM \<Rightarrow> []
   | BTF_KIND_ARRAY \<Rightarrow> [Extra 0, Extra 1]
   | BTF_KIND_STRUCT \<Rightarrow> map (\<lambda>i. Extra (3 * i + 1)) [0..<btf_vlen t]
   | BTF_KIND_UNION \<Rightarrow> map (\<lambda>i. Extra (3 * i + 1)) [0..<btf_vlen t]
   | BTF_KIND_FUNC_PROTO \<Rightarrow> Type_Word # map (\<lambda>i. Extra (2 * i + 1)) [0..<btf_vlen t]
   | BTF_KIND_DATASEC \<Rightarrow> map (\<lambda>i. Extra (3 * i)) [0..<btf_vlen t]
   | _ \<Rightarrow> [Type_Word])"

definition btf_dedup_remap_type :: "btf_dedup \<Rightarrow> u32 \<Rightarrow> (int \<times> btf_dedup) option" where
  "btf_dedup_remap_type d type_id = do {
     t \<leftarrow> type_at d type_id;
     if btf_kind t = BTF_KIND_UNKN then Some (- EINVAL, d)
     else for_slots (\<lambda>d i. do { r \<leftarrow> btf_dedup_remap_type_id d i; Some (r, d) }) type_id d (remap_slots t)
   }"

fun remap_loop :: "btf_dedup \<Rightarrow> nat list \<Rightarrow> (int \<times> btf_dedup) option" where
  "remap_loop d [] = Some (0, d)"
| "remap_loop d (i # is) = do { (r, d) \<leftarrow> btf_dedup_remap_type d (of_nat i); if r < 0 then Some (r, d) else remap_loop d is }"

definition btf_dedup_remap_types :: "btf_dedup \<Rightarrow> (int \<times> btf_dedup) option" where
  "btf_dedup_remap_types d = remap_loop d (type_numbers d)"

section \<open>The whole algorithm\<close>

text \<open>The phases of \<open>btf__dedup\<close> behind the strings: each one runs if the one before has not failed.\<close>

definition and_then :: "(int \<times> btf_dedup) option \<Rightarrow> (btf_dedup \<Rightarrow> (int \<times> btf_dedup) option) \<Rightarrow> (int \<times> btf_dedup) option" where
  "and_then r f = do { (err, d) \<leftarrow> r; if err < 0 then Some (err, d) else f d }"

definition btf_dedup_types :: "dedup_env \<Rightarrow> bool \<Rightarrow> btf_dedup \<Rightarrow> (int \<times> btf_dedup) option" where
  "btf_dedup_types e realloc_ok d =
     and_then (and_then (and_then (and_then (btf_dedup_prim_types e d)
       (btf_dedup_struct_types e)) (btf_dedup_ref_types e)) (btf_dedup_compact_types realloc_ok)) btf_dedup_remap_types"

end
