(* ===== verification/Type_Graph.thy ===== *)
theory Type_Graph
  imports Btf_Dedup
begin

text \<open>
  The types of a BTF section as a graph: a node is a type without the numbers it refers to (\<open>blank\<close>), its edges are
  these numbers in order (\<open>refs\<close>). Two nodes are bisimilar when everything that can be observed from
  them by following edges is equal; this is what removing duplicates has to preserve. The comparison functions of
  \<open>Btf_Dedup\<close> are related to equality of nodes and edges.
\<close>

section \<open>Places in a type\<close>

definition slot_ok :: "btf_type \<Rightarrow> slot \<Rightarrow> bool" where
  "slot_ok t s \<longleftrightarrow> (case s of Type_Word \<Rightarrow> True | Extra i \<Rightarrow> i < length (t_extra t))"

lemma set_slot_simps [simp]:
  "t_name_off (set_slot t s v) = t_name_off t" "t_info (set_slot t s v) = t_info t"
  "length (t_extra (set_slot t s v)) = length (t_extra t)"
  by (simp_all add: set_slot_def split: slot.splits)

lemma btf_kind_cong: "t_info t = t_info t' \<Longrightarrow> btf_kind t = btf_kind t'" "t_info t = t_info t' \<Longrightarrow> btf_vlen t = btf_vlen t'"
  by (simp_all add: btf_kind_def btf_vlen_def)

lemma set_slot_kind [simp]:
  "btf_kind (set_slot t s v) = btf_kind t" "btf_vlen (set_slot t s v) = btf_vlen t" "remap_slots (set_slot t s v) = remap_slots t"
  "btf_type_size (set_slot t s v) = btf_type_size t" "type_ok (set_slot t s v) = type_ok t" "slot_ok (set_slot t s v) s' = slot_ok t s'"
  using btf_kind_cong [of "set_slot t s v" t]
  by (simp_all add: remap_slots_def btf_type_size_def type_ok_def slot_ok_def cong: btf_kind.case_cong slot.case_cong)

lemma get_set_slot: "slot_ok t s \<Longrightarrow> get_slot (set_slot t s v) s' = (if s' = s then v else get_slot t s')"
  by (auto simp: get_slot_def set_slot_def slot_ok_def split: slot.splits)

lemma type_ok_extra: "type_ok t \<Longrightarrow> length (t_extra t) = (nat (btf_type_size t) - 12) div 4"
  by (auto simp: type_ok_def)

text \<open>The types of a table are \<open>btf_void\<close>, which has no kind and nothing behind it, and well-formed types.\<close>

definition node_ok :: "btf_type \<Rightarrow> bool" where
  "node_ok t \<longleftrightarrow> type_ok t \<or> t_info t = 0 \<and> t_extra t = []"

lemma type_ok_node [simp]: "type_ok t \<Longrightarrow> node_ok t"
  by (simp add: node_ok_def)

lemma no_info_kind: "t_info t = 0 \<Longrightarrow> btf_kind t = BTF_KIND_UNKN"
  by (simp add: btf_kind_def btf_kinds_def BTF_INFO_KIND_def)

lemma node_ok_set_slot [simp]: "node_ok (set_slot t s v) = node_ok t"
  by (simp add: node_ok_def) (simp flip: length_0_conv)

lemma remap_slots_ok: "node_ok t \<Longrightarrow> s \<in> set (remap_slots t) \<Longrightarrow> slot_ok t s"
  using no_info_kind [of t]
  by (auto simp: node_ok_def remap_slots_def slot_ok_def type_ok_def btf_type_size_def split: btf_kind.splits slot.splits)

lemma remap_slots_distinct: "distinct (remap_slots t)"
  by (auto simp: remap_slots_def distinct_map inj_on_def split: btf_kind.splits)

lemma ref_slots_remap: "is_ref_kind (btf_kind t) \<Longrightarrow> ref_slots t = remap_slots t"
  by (auto simp: is_ref_kind_def ref_slots_def remap_slots_def)

section \<open>Nodes and edges\<close>

definition refs :: "btf_type \<Rightarrow> u32 list" where
  "refs t = map (get_slot t) (remap_slots t)"

definition blank :: "btf_type \<Rightarrow> btf_type" where
  "blank t = fold (\<lambda>s t. set_slot t s 0) (remap_slots t) t"

lemma fold_blank:
  assumes "\<forall>s \<in> set ss. slot_ok t s"
  shows "t_name_off (fold (\<lambda>s t. set_slot t s 0) ss t) = t_name_off t" "t_info (fold (\<lambda>s t. set_slot t s 0) ss t) = t_info t"
    "length (t_extra (fold (\<lambda>s t. set_slot t s 0) ss t)) = length (t_extra t)"
    "get_slot (fold (\<lambda>s t. set_slot t s 0) ss t) s' = (if s' \<in> set ss then 0 else get_slot t s')"
  using assms by (induction ss arbitrary: t) (auto simp: get_set_slot)

lemma blank_simps [simp]: "node_ok t \<Longrightarrow> t_name_off (blank t) = t_name_off t" "node_ok t \<Longrightarrow> t_info (blank t) = t_info t"
  "node_ok t \<Longrightarrow> length (t_extra (blank t)) = length (t_extra t)"
  using fold_blank [of "remap_slots t" t] remap_slots_ok [of t] by (simp_all add: blank_def)

lemma get_slot_blank: "node_ok t \<Longrightarrow> get_slot (blank t) s = (if s \<in> set (remap_slots t) then 0 else get_slot t s)"
  using fold_blank(4) [of "remap_slots t" t s] remap_slots_ok [of t] by (simp add: blank_def)

lemma btf_type_eqI:
  assumes "t_name_off t = t_name_off u" "t_info t = t_info u" "length (t_extra t) = length (t_extra u)"
    "\<And>s. slot_ok t s \<Longrightarrow> get_slot t s = get_slot u s"
  shows "t = (u :: btf_type)"
proof -
  have "t_size t = t_size u" using assms(4) [of Type_Word] by (simp add: slot_ok_def get_slot_def)
  moreover have "t_extra t = t_extra u"
    using assms(3) assms(4) [of "Extra _"] by (intro nth_equalityI) (auto simp: slot_ok_def get_slot_def)
  ultimately show ?thesis using assms(1,2) by (intro btf_type.equality) auto
qed

text \<open>Equality of nodes, slot by slot.\<close>

lemma blank_eq_iff:
  assumes "node_ok t" "node_ok u"
  shows "blank t = blank u \<longleftrightarrow> t_name_off t = t_name_off u \<and> t_info t = t_info u \<and> length (t_extra t) = length (t_extra u) \<and>
    (\<forall>s. slot_ok t s \<and> s \<notin> set (remap_slots t) \<longrightarrow> get_slot t s = get_slot u s)" (is "?l \<longleftrightarrow> ?r")
proof
  assume l: ?l
  have i: "t_name_off t = t_name_off u" "t_info t = t_info u" "length (t_extra t) = length (t_extra u)"
    using arg_cong [OF l, of t_name_off] arg_cong [OF l, of t_info] arg_cong [OF l, of "\<lambda>t. length (t_extra t)"] assms by simp_all
  moreover have "remap_slots t = remap_slots u"
    using btf_kind_cong [OF i(2)] by (simp add: remap_slots_def cong: btf_kind.case_cong)
  moreover have "get_slot t s = get_slot u s" if "s \<notin> set (remap_slots t)" for s
    using arg_cong [OF l, of "\<lambda>t. get_slot t s"] that calculation by (simp add: get_slot_blank assms)
  ultimately show ?r by blast
next
  assume r: ?r
  then have "remap_slots t = remap_slots u"
    using btf_kind_cong [of t u] by (simp add: remap_slots_def cong: btf_kind.case_cong)
  then show ?l using r assms
    by (intro btf_type_eqI) (auto simp: get_slot_blank slot_ok_def split: slot.splits)
qed

lemma blank_eq_slots: "node_ok t \<Longrightarrow> node_ok u \<Longrightarrow> blank t = blank u \<Longrightarrow> remap_slots t = remap_slots u \<and> btf_kind t = btf_kind u"
  using btf_kind_cong [of t u] by (simp add: blank_eq_iff remap_slots_def cong: btf_kind.case_cong)

text \<open>Equal nodes with equal edges are the same type.\<close>

lemma blank_refs_eq:
  assumes "node_ok t" "node_ok u" "blank t = blank u" "refs t = refs u"
  shows "t = u"
proof (rule btf_type_eqI)
  note b = assms(3) [unfolded blank_eq_iff [OF assms(1,2)]]
  show "t_name_off t = t_name_off u" "t_info t = t_info u" "length (t_extra t) = length (t_extra u)" using b by simp_all
  fix s assume "slot_ok t s"
  then show "get_slot t s = get_slot u s"
    using b blank_eq_slots [OF assms(1-3)] assms(4) by (cases "s \<in> set (remap_slots t)") (auto simp: refs_def)
qed

lemma blank_set_slot: "node_ok t \<Longrightarrow> s \<in> set (remap_slots t) \<Longrightarrow> blank (set_slot t s v) = blank t"
  using remap_slots_ok [of t s] by (auto simp: blank_eq_iff get_set_slot)

section \<open>The comparison functions\<close>

lemma info_size: "t_info t = t_info u \<Longrightarrow> type_ok t \<Longrightarrow> type_ok u \<Longrightarrow> btf_kind t = btf_kind u \<and> btf_vlen t = btf_vlen u \<and>
  length (t_extra t) = length (t_extra u)"
proof -
  assume i: "t_info t = t_info u" and ok: "type_ok t" "type_ok u"
  note k = btf_kind_cong [OF i]
  then have "btf_type_size t = btf_type_size u" by (simp only: btf_type_size_def)
  then show ?thesis using ok k by (simp add: type_ok_def)
qed

lemma pair_words: "\<forall>i<n. xs ! (2 * i) = ys ! (2 * i) \<and> xs ! (2 * i + 1) = ys ! (2 * i + 1) \<Longrightarrow> k < 2 * n \<Longrightarrow> xs ! k = ys ! k"
proof -
  assume h: "\<forall>i<n. xs ! (2 * i) = ys ! (2 * i) \<and> xs ! (2 * i + 1) = ys ! (2 * i + 1)" and k: "k < 2 * n"
  have "k div 2 < n" using k by simp
  moreover have "k = 2 * (k div 2) \<or> k = 2 * (k div 2) + 1" by arith
  ultimately show ?thesis using h by metis
qed

lemma equal_extra:
  assumes "btf_equal_common t u" "\<And>k. k < length (t_extra t) \<Longrightarrow> t_extra t ! k = t_extra u ! k" "type_ok t" "type_ok u"
  shows "t = u"
proof -
  have "length (t_extra t) = length (t_extra u)" using info_size [of t u] assms(1,3,4) by (simp add: btf_equal_common_def)
  then have "t_extra t = t_extra u" using assms(2) by (intro nth_equalityI)
  then show ?thesis using assms(1) by (intro btf_type.equality) (auto simp: btf_equal_common_def)
qed

lemma kind_extra:
  assumes "type_ok t"
  shows "btf_kind t = BTF_KIND_INT \<Longrightarrow> length (t_extra t) = 1" "btf_kind t = BTF_KIND_ENUM \<Longrightarrow> length (t_extra t) = 2 * btf_vlen t"
    "btf_kind t = BTF_KIND_FWD \<Longrightarrow> length (t_extra t) = 0" "btf_kind t = BTF_KIND_ARRAY \<Longrightarrow> length (t_extra t) = 3"
    "btf_kind t = BTF_KIND_STRUCT \<or> btf_kind t = BTF_KIND_UNION \<Longrightarrow> length (t_extra t) = 3 * btf_vlen t"
    "btf_kind t = BTF_KIND_FUNC_PROTO \<Longrightarrow> length (t_extra t) = 2 * btf_vlen t"
    "is_ref_kind (btf_kind t) \<Longrightarrow> btf_kind t \<noteq> BTF_KIND_ARRAY \<Longrightarrow> btf_kind t \<noteq> BTF_KIND_FUNC_PROTO \<Longrightarrow> length (t_extra t) = 0"
  using assms by (auto simp: type_ok_def btf_type_size_def is_ref_kind_def)

lemma btf_equal_int_eq: "btf_equal_int t u \<Longrightarrow> btf_kind t = BTF_KIND_INT \<Longrightarrow> type_ok t \<Longrightarrow> type_ok u \<Longrightarrow> t = u"
  using kind_extra(1) [of t] by (intro equal_extra) (auto simp: btf_equal_int_def)

lemma btf_equal_fwd_eq: "btf_equal_common t u \<Longrightarrow> btf_kind t = BTF_KIND_FWD \<Longrightarrow> type_ok t \<Longrightarrow> type_ok u \<Longrightarrow> t = u"
  using kind_extra(3) [of t] by (intro equal_extra) auto

lemma btf_equal_enum_eq:
  assumes "btf_equal_enum t u" "btf_kind t = BTF_KIND_ENUM" "type_ok t" "type_ok u"
  shows "t = u"
proof (rule equal_extra [OF _ _ assms(3,4)])
  have "\<forall>i<btf_vlen t. t_extra t ! (2 * i) = t_extra u ! (2 * i) \<and> t_extra t ! (2 * i + 1) = t_extra u ! (2 * i + 1)"
    using assms(1) by (auto simp: btf_equal_enum_def btf_enum_def list_all2_conv_all_nth)
  then show "t_extra t ! k = t_extra u ! k" if "k < length (t_extra t)" for k
    by (rule pair_words) (use kind_extra(2) [OF assms(3,2)] that in simp)
qed (use assms(1) in \<open>simp add: btf_equal_enum_def\<close>)

lemma ref_equal_eq: "ref_equal t u \<Longrightarrow> is_ref_kind (btf_kind t) \<Longrightarrow> type_ok t \<Longrightarrow> type_ok u \<Longrightarrow> t = u"
proof -
  assume r: "ref_equal t u" "is_ref_kind (btf_kind t)" and ok: "type_ok t" "type_ok u"
  consider "btf_kind t = BTF_KIND_ARRAY" | "btf_kind t = BTF_KIND_FUNC_PROTO" | "btf_kind t \<noteq> BTF_KIND_ARRAY" "btf_kind t \<noteq> BTF_KIND_FUNC_PROTO"
    by blast
  then show "t = u"
  proof cases
    case 1
    then have "btf_equal_array t u" using r by (simp add: ref_equal_def)
    then show ?thesis using kind_extra(4) [OF ok(1) 1] ok
      by (intro equal_extra) (auto simp: btf_equal_array_def btf_array_def less_Suc_eq numeral_eq_Suc)
  next
    case 2
    then have "btf_equal_fnproto t u" using r by (simp add: ref_equal_def)
    then have w: "\<forall>i<btf_vlen t. t_extra t ! (2 * i) = t_extra u ! (2 * i) \<and> t_extra t ! (2 * i + 1) = t_extra u ! (2 * i + 1)"
      and c: "btf_equal_common t u" by (auto simp: btf_equal_fnproto_def btf_params_def list_all2_conv_all_nth)
    from w have "t_extra t ! k = t_extra u ! k" if "k < length (t_extra t)" for k
      by (rule pair_words) (use kind_extra(6) [OF ok(1) 2] that in simp)
    then show ?thesis by (rule equal_extra [OF c _ ok])
  next
    case 3
    then have "btf_equal_common t u" using r by (auto simp: ref_equal_def is_ref_kind_def)
    then show ?thesis using kind_extra(7) [OF ok(1)] r(2) 3 ok by (intro equal_extra) auto
  qed
qed

text \<open>What the comparison of two graphs checks at a pair of nodes.\<close>

lemma blank_eqI:
  assumes "t_name_off t = t_name_off u" "t_info t = t_info u" "Type_Word \<in> set (remap_slots t) \<or> t_size t = t_size u"
    "\<And>k. k < length (t_extra t) \<Longrightarrow> Extra k \<notin> set (remap_slots t) \<Longrightarrow> t_extra t ! k = t_extra u ! k" "type_ok t" "type_ok u"
  shows "blank t = blank u"
proof -
  have "get_slot t s = get_slot u s" if "slot_ok t s" "s \<notin> set (remap_slots t)" for s
    using that assms(3,4) by (cases s) (auto simp: get_slot_def slot_ok_def)
  then show ?thesis using assms(1,2) info_size [OF assms(2,5,6)] by (simp add: blank_eq_iff assms(5,6))
qed

lemma blank_array:
  assumes "btf_compat_array t u" "btf_kind t = BTF_KIND_ARRAY" "type_ok t" "type_ok u"
  shows "blank t = blank u" "set (zip (refs t) (refs u)) =
    {(a_index_type (btf_array t), a_index_type (btf_array u)), (a_type (btf_array t), a_type (btf_array u))}"
proof -
  have c: "btf_equal_common t u" "t_extra t ! 2 = t_extra u ! 2" using assms(1) by (simp_all add: btf_compat_array_def btf_array_def)
  have "btf_kind u = BTF_KIND_ARRAY" using info_size [of t u] c(1) assms by (simp add: btf_equal_common_def)
  then have s: "remap_slots t = [Extra 0, Extra 1]" "remap_slots u = [Extra 0, Extra 1]" using assms(2) by (simp_all add: remap_slots_def)
  show "blank t = blank u"
  proof (rule blank_eqI [OF _ _ _ _ assms(3,4)])
    fix k assume "k < length (t_extra t)" "Extra k \<notin> set (remap_slots t)"
    then have "k = 2" using kind_extra(4) [OF assms(3,2)] by (auto simp: s less_Suc_eq numeral_eq_Suc)
    then show "t_extra t ! k = t_extra u ! k" using c(2) by simp
  qed (use c(1) in \<open>auto simp: btf_equal_common_def\<close>)
  show "set (zip (refs t) (refs u)) =
      {(a_index_type (btf_array t), a_index_type (btf_array u)), (a_type (btf_array t), a_type (btf_array u))}"
    by (auto simp: refs_def s get_slot_def btf_array_def)
qed

lemma blank_fnproto:
  assumes "btf_compat_fnproto t u" "btf_kind t = BTF_KIND_FUNC_PROTO" "type_ok t" "type_ok u"
  shows "blank t = blank u" "zip (refs t) (refs u) =
    (t_size t, t_size u) # zip (map p_type (btf_params t)) (map p_type (btf_params u))"
proof -
  have c: "t_name_off t = t_name_off u" "t_info t = t_info u" using assms(1) by (simp_all add: btf_compat_fnproto_def)
  note i = info_size [OF c(2) assms(3,4)]
  have n: "t_extra t ! (2 * i) = t_extra u ! (2 * i)" if "i < btf_vlen t" for i
    using assms(1) that by (auto simp: btf_compat_fnproto_def btf_params_def list_all2_conv_all_nth)
  have s: "remap_slots t = Type_Word # map (\<lambda>i. Extra (2 * i + 1)) [0..<btf_vlen t]"
      "remap_slots u = Type_Word # map (\<lambda>i. Extra (2 * i + 1)) [0..<btf_vlen t]"
    using assms(2) i by (simp_all add: remap_slots_def)
  show "blank t = blank u"
  proof (rule blank_eqI [OF c _ _ assms(3,4)])
    fix k assume k: "k < length (t_extra t)" "Extra k \<notin> set (remap_slots t)"
    then have "k div 2 < btf_vlen t" using kind_extra(6) [OF assms(3,2)] by simp
    moreover have "k = 2 * (k div 2)"
    proof (rule ccontr)
      assume "k \<noteq> 2 * (k div 2)"
      then have "k = 2 * (k div 2) + 1" by arith
      then show False using k(2) \<open>k div 2 < btf_vlen t\<close> by (auto simp: s image_iff)
    qed
    ultimately show "t_extra t ! k = t_extra u ! k" using n by metis
  qed (simp add: s)
  show "zip (refs t) (refs u) = (t_size t, t_size u) # zip (map p_type (btf_params t)) (map p_type (btf_params u))"
    using i by (simp add: refs_def s get_slot_def btf_params_def o_def)
qed

lemma blank_struct:
  assumes "btf_shallow_equal_struct t u" "btf_kind t = BTF_KIND_STRUCT \<or> btf_kind t = BTF_KIND_UNION" "type_ok t" "type_ok u"
  shows "blank t = blank u" "zip (refs t) (refs u) = zip (map m_type (btf_members t)) (map m_type (btf_members u))"
proof -
  have c: "t_name_off t = t_name_off u" "t_info t = t_info u" "t_size t = t_size u"
    using assms(1) by (simp_all add: btf_shallow_equal_struct_def btf_equal_common_def)
  note i = info_size [OF c(2) assms(3,4)]
  have n: "t_extra t ! (3 * i) = t_extra u ! (3 * i) \<and> t_extra t ! (3 * i + 2) = t_extra u ! (3 * i + 2)" if "i < btf_vlen t" for i
    using assms(1) that by (auto simp: btf_shallow_equal_struct_def btf_members_def btf_member_def list_all2_conv_all_nth)
  have s: "remap_slots t = map (\<lambda>i. Extra (3 * i + 1)) [0..<btf_vlen t]" "remap_slots u = map (\<lambda>i. Extra (3 * i + 1)) [0..<btf_vlen t]"
    using assms(2) i by (auto simp: remap_slots_def)
  show "blank t = blank u"
  proof (rule blank_eqI [OF c(1,2) _ _ assms(3,4)])
    fix k assume k: "k < length (t_extra t)" "Extra k \<notin> set (remap_slots t)"
    then have v: "k div 3 < btf_vlen t" using kind_extra(5) [OF assms(3,2)] by simp
    have "k \<noteq> 3 * (k div 3) + 1" using k(2) v by (auto simp: s image_iff)
    then have "k = 3 * (k div 3) \<or> k = 3 * (k div 3) + 2" by arith
    then show "t_extra t ! k = t_extra u ! k" using n [OF v] by metis
  qed (simp add: c)
  show "zip (refs t) (refs u) = zip (map m_type (btf_members t)) (map m_type (btf_members u))"
    using i by (simp add: refs_def s get_slot_def btf_members_def btf_member_def o_def)
qed

lemma equiv_node_void:
  assumes "node_ok t" "node_ok u" "\<not> (type_ok t \<and> type_ok u)"
  shows "equiv_node True t u = Inl 0 \<or> equiv_node True t u = Inl (- EINVAL)"
proof -
  have "btf_kind t = BTF_KIND_UNKN \<or> btf_kind u = BTF_KIND_UNKN"
    using assms no_info_kind by (auto simp: node_ok_def)
  then show ?thesis
    by (cases "btf_kind t = btf_kind u") (auto simp: equiv_node_def Let_def)
qed

lemma equiv_node_result:
  assumes "node_ok t" "node_ok u"
  shows "equiv_node True t u = Inl v \<Longrightarrow> v = 0 \<or> v = - EINVAL \<or> v = 1 \<and> t = u"
    "equiv_node True t u = Inr ps \<Longrightarrow> blank t = blank u \<and> set ps = set (zip (refs t) (refs u))"
proof -
  assume v: "equiv_node True t u = Inl v"
  show "v = 0 \<or> v = - EINVAL \<or> v = 1 \<and> t = u"
  proof (cases "type_ok t \<and> type_ok u")
    case True
    have "v = 0 \<or> v = - EINVAL \<or> v = 1 \<and> (btf_kind t = BTF_KIND_INT \<and> btf_equal_int t u \<or>
        btf_kind t = BTF_KIND_ENUM \<and> btf_equal_enum t u \<or> btf_kind t = BTF_KIND_FWD \<and> btf_equal_common t u)"
      using v by (cases "btf_kind t") (simp_all add: equiv_node_def Let_def btf_is_composite_def of_bool_def split: if_splits)
    then show ?thesis using True btf_equal_int_eq btf_equal_enum_eq btf_equal_fwd_eq by blast
  next
    case False
    then show ?thesis using equiv_node_void [OF assms] v by auto
  qed
next
  assume n: "equiv_node True t u = Inr ps"
  then have ok: "type_ok t" "type_ok u" using equiv_node_void [OF assms] by auto
  from n have c: "t_name_off t = t_name_off u" "btf_kind t = btf_kind u" by (auto simp: equiv_node_def Let_def split: if_splits)
  consider "btf_kind t = BTF_KIND_ARRAY" | "btf_kind t = BTF_KIND_FUNC_PROTO" | "btf_kind t = BTF_KIND_STRUCT \<or> btf_kind t = BTF_KIND_UNION"
    | "is_ref_kind (btf_kind t)" "btf_kind t \<noteq> BTF_KIND_ARRAY" "btf_kind t \<noteq> BTF_KIND_FUNC_PROTO"
    using n c by (auto simp: equiv_node_def Let_def is_ref_kind_def split: if_splits btf_kind.splits)
  then show "blank t = blank u \<and> set ps = set (zip (refs t) (refs u))"
  proof cases
    case 1
    then have k: "btf_compat_array t u" "ps = [(a_index_type (btf_array t), a_index_type (btf_array u)), (a_type (btf_array t), a_type (btf_array u))]"
      using n by (auto simp: equiv_node_def Let_def c split: if_splits)
    then show ?thesis using blank_array [OF k(1) 1 ok] by simp
  next
    case 2
    then have k: "btf_compat_fnproto t u" "ps = (t_size t, t_size u) # zip (map p_type (btf_params t)) (map p_type (btf_params u))"
      using n by (auto simp: equiv_node_def Let_def c split: if_splits)
    then show ?thesis using blank_fnproto [OF k(1) 2 ok] by simp
  next
    case 3
    then have k: "btf_shallow_equal_struct t u" "ps = zip (map m_type (btf_members t)) (map m_type (btf_members u))"
      using n by (auto simp: equiv_node_def Let_def c btf_is_composite_def split: if_splits)
    then show ?thesis using blank_struct [OF k(1) 3 ok] by simp
  next
    case 4
    then have k: "t_info t = t_info u" "ps = [(t_size t, t_size u)]"
      using n by (auto simp: equiv_node_def Let_def c btf_is_composite_def is_ref_kind_def split: if_splits)
    have s: "remap_slots t = [Type_Word]" "remap_slots u = [Type_Word]"
      using 4 c by (auto simp: remap_slots_def is_ref_kind_def)
    have "length (t_extra t) = 0" by (rule kind_extra(7) [OF ok(1) 4])
    then have "blank t = blank u" by (intro blank_eqI [OF c(1) k(1) _ _ ok]) (auto simp: s)
    then show ?thesis using k(2) by (simp add: refs_def s get_slot_def)
  qed
qed

section \<open>Bisimilar types\<close>

definition graph_ok :: "btf_type list \<Rightarrow> bool" where
  "graph_ok ts \<longleftrightarrow> (\<forall>t \<in> set ts. node_ok t \<and> (\<forall>r \<in> set (refs t). unat r < length ts))"

coinductive bisim :: "btf_type list \<Rightarrow> btf_type list \<Rightarrow> u32 \<Rightarrow> u32 \<Rightarrow> bool" for ts us where
  step: "unat i < length ts \<Longrightarrow> unat j < length us \<Longrightarrow> blank (ts ! unat i) = blank (us ! unat j) \<Longrightarrow>
    length (refs (ts ! unat i)) = length (refs (us ! unat j)) \<Longrightarrow>
    (\<forall>k < length (refs (ts ! unat i)). bisim ts us (refs (ts ! unat i) ! k) (refs (us ! unat j) ! k)) \<Longrightarrow> bisim ts us i j"

inductive_cases bisimE: "bisim ts us i j"

lemma graph_okD: "graph_ok ts \<Longrightarrow> i < length ts \<Longrightarrow> node_ok (ts ! i)"
  "graph_ok ts \<Longrightarrow> i < length ts \<Longrightarrow> k < length (refs (ts ! i)) \<Longrightarrow> unat (refs (ts ! i) ! k) < length ts"
  unfolding graph_ok_def by (metis nth_mem)+

lemma bisim_range: "bisim ts us i j \<Longrightarrow> unat i < length ts \<and> unat j < length us"
  by (erule bisimE) simp

lemma bisim_refl: "graph_ok ts \<Longrightarrow> unat i < length ts \<Longrightarrow> bisim ts ts i i"
proof (coinduction arbitrary: i)
  case bisim
  then show ?case using graph_okD(2) [of ts "unat i"] by auto
qed

lemma bisim_sym: "bisim ts us i j \<Longrightarrow> bisim us ts j i"
proof (coinduction arbitrary: i j)
  case bisim
  then show ?case by (auto elim!: bisimE)
qed

lemma bisim_trans: "bisim ts us i j \<Longrightarrow> bisim us vs j k \<Longrightarrow> bisim ts vs i k"
proof (coinduction arbitrary: i j k)
  case bisim
  let ?t = "ts ! unat i" and ?v = "vs ! unat k"
  have "bisim ts us (refs ?t ! n) (refs (us ! unat j) ! n) \<and> bisim us vs (refs (us ! unat j) ! n) (refs ?v ! n)"
    if "n < length (refs ?t)" for n using bisim that by (auto elim!: bisimE)
  then have "\<forall>n < length (refs ?t). \<exists>m. bisim ts us (refs ?t ! n) m \<and> bisim us vs m (refs ?v ! n)" by blast
  moreover have "unat i < length ts" "unat k < length vs" "blank ?t = blank ?v" "length (refs ?t) = length (refs ?v)"
    using bisim by (auto elim!: bisimE)
  ultimately show ?case by auto
qed

lemma refs_length: "node_ok t \<Longrightarrow> node_ok u \<Longrightarrow> blank t = blank u \<Longrightarrow> length (refs t) = length (refs u)"
  using blank_eq_slots [of t u] by (simp add: refs_def)

lemma bisimI:
  assumes "graph_ok ts" "graph_ok us" "unat i < length ts" "unat j < length us" "blank (ts ! unat i) = blank (us ! unat j)"
    "\<forall>k < length (refs (ts ! unat i)). bisim ts us (refs (ts ! unat i) ! k) (refs (us ! unat j) ! k)"
  shows "bisim ts us i j"
  using assms refs_length [OF graph_okD(1) [OF assms(1,3)] graph_okD(1) [OF assms(2,4)]] by (intro bisim.step)

lemma bisim_kind:
  assumes "bisim ts us i j" "graph_ok ts" "graph_ok us"
  shows "btf_kind (ts ! unat i) = btf_kind (us ! unat j)"
  using assms(1)
proof (cases rule: bisim.cases)
  case step
  then show ?thesis using blank_eq_slots graph_okD(1) assms(2,3) by metis
qed

text \<open>
  Up to bisimilarity: a relation between two nodes whose edges lead to bisimilar or related nodes is part
  of the bisimilarity.
\<close>

lemma bisim_upto:
  assumes "R i j" "graph_ok ts"
    "\<And>i j. R i j \<Longrightarrow> unat i < length ts \<and> unat j < length ts \<and> blank (ts ! unat i) = blank (ts ! unat j) \<and>
      (\<forall>p \<in> set (zip (refs (ts ! unat i)) (refs (ts ! unat j))). bisim ts ts (fst p) (snd p) \<or> R (fst p) (snd p))"
  shows "bisim ts ts i j"
  using assms(1)
proof (coinduction arbitrary: i j)
  case bisim
  let ?t = "ts ! unat i" and ?u = "ts ! unat j"
  note r = assms(3) [OF bisim]
  then have len: "length (refs ?t) = length (refs ?u)" using refs_length graph_okD(1) [OF assms(2)] by metis
  have "bisim ts ts (refs ?t ! k) (refs ?u ! k) \<or> R (refs ?t ! k) (refs ?u ! k)" if "k < length (refs ?t)" for k
  proof -
    have "(refs ?t ! k, refs ?u ! k) \<in> set (zip (refs ?t) (refs ?u))" using that len by (auto simp: set_zip)
    then show ?thesis using r by fastforce
  qed
  then show ?case using r len by auto
qed

end
