(* ===== verification/Dedup_Map.thy ===== *)
theory Dedup_Map
  imports Type_Graph
begin

text \<open>
  What the deduplication of libbpf/src/btf.c relies on: the table of candidates, a client's view of the hash map as a
  collection of type numbers under a hash, and the chains of the canonical map, which end at a root.
\<close>

section \<open>The table of candidates\<close>

text \<open>The contract: nothing faults, an addition adds the number under its hash or fails and adds nothing.\<close>

locale cand_table =
  fixes add :: "u32 \<Rightarrow> 't \<Rightarrow> u64 \<Rightarrow> (int \<times> 't) option" and cands :: "'t \<Rightarrow> u64 \<Rightarrow> u32 list option" and ok :: "'t \<Rightarrow> bool"
  assumes cands_Some: "ok t \<Longrightarrow> \<exists>cs. cands t h = Some cs"
    and add_Some: "ok t \<Longrightarrow> \<exists>err t'. add i t h = Some (err, t') \<and> ok t' \<and>
      (\<forall>k. set (the (cands t' k)) = set (the (cands t k)) \<union> (if err = 0 \<and> k = h then {i} else {}))"
begin

text \<open>A property of all candidates is kept by additions of numbers that have it.\<close>

lemma add_all:
  assumes "ok t" "\<forall>h. \<forall>c \<in> set (the (cands t h)). P c" "P i"
  shows "\<exists>err t'. add i t h = Some (err, t') \<and> ok t' \<and> (\<forall>h. \<forall>c \<in> set (the (cands t' h)). P c)"
proof -
  obtain err t' where "add i t h = Some (err, t')" "ok t'"
      "\<forall>k. set (the (cands t' k)) = set (the (cands t k)) \<union> (if err = 0 \<and> k = h then {i} else {})"
    using add_Some [OF assms(1)] by blast
  with assms(2,3) show ?thesis by (intro exI [of _ err] exI [of _ t']) (auto split: if_splits)
qed

lemma cands_all:
  assumes "ok t" "\<forall>h. \<forall>c \<in> set (the (cands t h)). P c"
  shows "\<exists>cs. cands t h = Some cs \<and> (\<forall>c \<in> set cs. P c)"
  using cands_Some [OF assms(1)] assms(2) by (metis option.sel)

end

definition table_ok :: "cand_map \<Rightarrow> bool" where
  "table_ok m \<longleftrightarrow> hm_ok m \<and> (\<forall>a b. keys_eq m a b \<longleftrightarrow> a = b)"

lemma for_each_view:
  assumes "hm_ok m"
  shows "\<exists>es. hashmap__for_each_key_entry shift m k = Some es \<and> map snd es = hm_view m k"
  using assms
proof (cases rule: hm_ok_cases)
  case empty
  then show ?thesis by (simp add: hashmap__for_each_key_entry_def Let_def)
next
  case (live bs)
  then show ?thesis using chains_bucket(1) [OF live(2), of shift k] chains_bucket(2) [OF live(2), of k]
    by (simp add: hashmap__for_each_key_entry_def Let_def keys_eq_def)
qed

lemma table_cands_view: "table_ok m \<Longrightarrow> table_cands e m h = Some (hm_view m h)"
  using for_each_view [of m "env_shift e" h] by (auto simp: table_ok_def table_cands_def)

lemma table_add_view:
  assumes "table_ok m"
  shows "\<exists>err m'. table_add e i m h = Some (err, m') \<and> table_ok m' \<and>
    (\<forall>k. set (hm_view m' k) = set (hm_view m k) \<union> (if err = 0 \<and> k = h then {i} else {}))"
proof -
  have ok: "hm_ok m" and eq: "\<And>a b. keys_eq m a b = (a = b)" using assms by (simp_all add: table_ok_def)
  obtain ret old m' where r: "hashmap__insert (env_shift e) (env_grow e i) (env_entry e i) m h i HASHMAP_APPEND = Some (ret, old, m')"
      "hm_ok m'" "keys_eq m' = keys_eq m"
      "(ret, map_option snd old, hm_view m') = insert_spec (keys_eq m) (hashmap_needs_to_grow m) (grow_fails (env_grow e i) m)
         (env_entry e i) h i HASHMAP_APPEND (hm_view m)"
    using insert_refines [OF ok] by metis
  have "set (hm_view m' k) = set (hm_view m k) \<union> (if ret = 0 \<and> k = h then {i} else {})" for k
    using r(4) by (auto simp: insert_spec_def eq ENOMEM_def Let_def split: if_splits)
  then show ?thesis using r(1-3) eq by (auto simp: table_add_def hashmap__append_def table_ok_def)
qed

interpretation table: cand_table "table_add e" "table_cands e" table_ok for e
proof unfold_locales
  show "\<exists>cs. table_cands e t h = Some cs" if "table_ok t" for t h using table_cands_view [OF that] by blast
  show "\<exists>err t'. table_add e i t h = Some (err, t') \<and> table_ok t' \<and>
      (\<forall>k. set (the (table_cands e t' k)) = set (the (table_cands e t k)) \<union> (if err = 0 \<and> k = h then {i} else {}))"
    if "table_ok t" for t i h
    using table_add_view [OF that, of e i h] that by (auto simp: table_cands_view)
qed

section \<open>Chains of the canonical map\<close>

text \<open>\<open>root m i r\<close>: following \<open>m\<close> from \<open>i\<close> ends at \<open>r\<close>, which is mapped to itself or not mapped.\<close>

inductive root :: "u32 list \<Rightarrow> u32 \<Rightarrow> u32 \<Rightarrow> bool" for m where
  here: "unat i < length m \<Longrightarrow> \<not> (m ! unat i \<le> BTF_MAX_NR_TYPES \<and> m ! unat i \<noteq> i) \<Longrightarrow> root m i i"
| next_id: "unat i < length m \<Longrightarrow> m ! unat i \<le> BTF_MAX_NR_TYPES \<Longrightarrow> m ! unat i \<noteq> i \<Longrightarrow> root m (m ! unat i) r \<Longrightarrow> root m i r"

inductive_cases rootE: "root m i r"

lemma root_range: "root m i r \<Longrightarrow> unat i < length m"
  by (erule rootE) auto

lemma root_end: "root m i r \<Longrightarrow> unat r < length m \<and> \<not> (m ! unat r \<le> BTF_MAX_NR_TYPES \<and> m ! unat r \<noteq> r)"
  by (induction rule: root.induct) auto

lemma root_unique: "root m i r \<Longrightarrow> root m i s \<Longrightarrow> r = s"
proof (induction arbitrary: s rule: root.induct)
  case (here i)
  show ?case by (rule rootE [OF here(3)]) (use here(2) in blast)+
next
  case (next_id i r)
  show ?case by (rule rootE [OF next_id(6)]) (use next_id(2,3,5) in blast)+
qed

lemma root_self: "root m i r \<Longrightarrow> root m r r"
  using root_end [of m i r] by (intro root.here) simp_all

lemma root_iff_end: "unat i < length m \<Longrightarrow> m ! unat i = i \<Longrightarrow> root m i r \<longleftrightarrow> r = i"
  using root.here [of i m] root_unique by blast

lemma resolve_root:
  assumes "root (d_map d) i r"
  shows "resolve_type_id d i = Some r"
  using assms
proof (induction rule: root.induct)
  case (here i)
  then show ?case by (subst resolve_type_id.simps) (auto simp: is_type_mapped_def map_at_def arr_get_def)
next
  case (next_id i r)
  then show ?case by (subst resolve_type_id.simps) (auto simp: is_type_mapped_def map_at_def arr_get_def)
qed

definition chains_end :: "u32 list \<Rightarrow> bool" where
  "chains_end m \<longleftrightarrow> (\<forall>i. unat i < length m \<longrightarrow> (\<exists>r. root m i r))"

text \<open>Linking an element that is not its own image to one that is: all chains still end, some at the new place.\<close>

lemma nth_update_id: "unat a < length m \<Longrightarrow> m[unat a := b] ! unat i = (if i = a then b else m ! unat i)"
  by (auto simp: nth_list_update word_unat_eq_iff)

lemma root_link:
  assumes "unat a < length m" "m ! unat a \<noteq> a" "unat b < length m" "m ! unat b = b" "b \<le> BTF_MAX_NR_TYPES"
  defines "m' \<equiv> m[unat a := b]"
  shows "root m i r \<Longrightarrow> root m' i r \<or> root m' i b \<and> root m a r"
proof -
  have ab: "a \<noteq> b" using assms(2,4) by auto
  have len: "length m' = length m" and at: "m' ! unat i = (if i = a then b else m ! unat i)" for i
    using nth_update_id [OF assms(1)] by (simp_all add: m'_def)
  have "root m' b b" using assms(3,4) ab by (intro root.here) (auto simp: len at)
  then have a: "root m' a b" using assms(1,5) ab root.next_id [of a m' b] by (auto simp: len at)
  show "root m' i r \<or> root m' i b \<and> root m a r" if "root m i r"
    using that
  proof (induction rule: root.induct)
    case (here i)
    show ?case
    proof (cases "i = a")
      case True
      then show ?thesis using a root.here [OF here] by simp
    next
      case False
      then have "root m' i i" using here by (intro root.here) (simp_all add: len at)
      then show ?thesis by simp
    qed
  next
    case (next_id i r)
    show ?case
    proof (cases "i = a")
      case True
      then show ?thesis using a root.next_id [OF next_id(1-4)] by simp
    next
      case False
      then have "root m' i x" if "root m' (m ! unat i) x" for x
        using next_id(1-3) that False root.next_id [of i m' x] by (simp add: len at)
      then show ?thesis using next_id(5) root.next_id [OF next_id(1-3)] by blast
    qed
  qed
qed

lemma chains_link:
  assumes "chains_end m" "unat a < length m" "m ! unat a \<noteq> a" "unat b < length m" "m ! unat b = b" "b \<le> BTF_MAX_NR_TYPES"
  shows "chains_end (m[unat a := b])"
  using assms root_link [OF assms(2-6)] unfolding chains_end_def by (metis length_list_update)

text \<open>Changing the entry of an element that is not mapped, to itself or to another mark, changes no root.\<close>

lemma root_mark:
  assumes "unat a < length m" "\<not> m ! unat a \<le> BTF_MAX_NR_TYPES" "b = a \<or> \<not> b \<le> BTF_MAX_NR_TYPES"
  shows "root (m[unat a := b]) i r \<longleftrightarrow> root m i r"
proof -
  let ?m = "m[unat a := b]"
  have at: "?m ! unat i = (if i = a then b else m ! unat i)" for i by (rule nth_update_id [OF assms(1)])
  have "root ?m i r" if "root m i r" using that
  proof (induction rule: root.induct)
    case (here i)
    then show ?case using assms by (intro root.here) (auto simp: at)
  next
    case (next_id i r)
    then have "i \<noteq> a" using assms(2) by auto
    then show ?case using next_id(1-3,5) root.next_id [of i ?m r] by (simp add: at)
  qed
  moreover have "root m i r" if "root ?m i r" using that
  proof (induction rule: root.induct)
    case (here i)
    then show ?case using assms by (intro root.here) (auto simp: at split: if_splits)
  next
    case (next_id i r)
    then have "i \<noteq> a" using assms(3) by (auto simp: at)
    then show ?case using next_id(1-3,5) root.next_id [of i m r] by (simp add: at)
  qed
  ultimately show ?thesis by blast
qed

lemma chains_mark:
  "unat a < length m \<Longrightarrow> \<not> m ! unat a \<le> BTF_MAX_NR_TYPES \<Longrightarrow> b = a \<or> \<not> b \<le> BTF_MAX_NR_TYPES \<Longrightarrow>
   chains_end (m[unat a := b]) \<longleftrightarrow> chains_end m"
  by (simp add: chains_end_def root_mark)

end
