(* ===== verification/Dedup_Sound.thy ===== *)
theory Dedup_Sound
  imports Dedup_Map
begin

text \<open>
  Deduplication loses nothing (libbpf/src/btf.c): without the resolution of forward declarations, every phase keeps
  the chains of the canonical map ending at types bisimilar to where they start, in the graph of the
  original types \<open>ts\<close>, and never faults.
\<close>

section \<open>The invariant\<close>

definition canonical :: "btf_dedup \<Rightarrow> u32 \<Rightarrow> bool" where
  "canonical d c \<longleftrightarrow> unat c < length (d_map d) \<and> d_map d ! unat c = c"

text \<open>A type whose numbers have been replaced by those of bisimilar types.\<close>

definition approx :: "btf_type list \<Rightarrow> btf_type \<Rightarrow> btf_type \<Rightarrow> bool" where
  "approx ts t u \<longleftrightarrow> node_ok u \<and> blank t = blank u \<and> (\<forall>k < length (refs t). bisim ts ts (refs t ! k) (refs u ! k))"

definition table_canonical :: "dedup_env \<Rightarrow> btf_dedup \<Rightarrow> bool" where
  "table_canonical e d \<longleftrightarrow> (\<exists>m. dedup_table d = Some m \<and> table_ok m \<and> (\<forall>h. \<forall>c \<in> set (the (table_cands e m h)). canonical d c))"

definition map_ok :: "btf_type list \<Rightarrow> u32 list \<Rightarrow> bool" where
  "map_ok ts m \<longleftrightarrow> length m = length ts \<and> chains_end m \<and> (\<forall>i r. root m i r \<longrightarrow> bisim ts ts i r)"

definition types_ok :: "btf_type list \<Rightarrow> btf_dedup \<Rightarrow> bool" where
  "types_ok ts d \<longleftrightarrow> graph_ok ts \<and> length ts \<le> 2 ^ 31 \<and> length (types (d_btf d)) = length ts \<and> length (hypot_map d) = length ts \<and>
     (\<forall>i < length ts. approx ts (ts ! i) (types (d_btf d) ! i))"

definition dd_ok :: "dedup_env \<Rightarrow> btf_type list \<Rightarrow> btf_dedup \<Rightarrow> bool" where
  "dd_ok e ts d \<longleftrightarrow> dont_resolve_fwds d \<and> types_ok ts d \<and> map_ok ts (d_map d) \<and> table_canonical e d"

lemma id_le_max: "unat c < n \<Longrightarrow> n \<le> 2 ^ 31 \<Longrightarrow> c \<le> BTF_MAX_NR_TYPES"
  by (simp add: word_le_nat_alt BTF_MAX_NR_TYPES_def)

lemma dd_okD:
  assumes "dd_ok e ts d"
  shows "graph_ok ts" "length ts \<le> 2 ^ 31" "length (types (d_btf d)) = length ts" "length (d_map d) = length ts"
    "chains_end (d_map d)" "root (d_map d) i r \<Longrightarrow> bisim ts ts i r"
    "i' < length ts \<Longrightarrow> approx ts (ts ! i') (types (d_btf d) ! i')" "dont_resolve_fwds d" "table_canonical e d"
    "unat c < length ts \<Longrightarrow> c \<le> BTF_MAX_NR_TYPES"
  using assms id_le_max [of c "length ts"] by (auto simp: dd_ok_def types_ok_def map_ok_def)

lemma canonical_range: "dd_ok e ts d \<Longrightarrow> canonical d c \<Longrightarrow> unat c < length ts \<and> c \<le> BTF_MAX_NR_TYPES"
  using dd_okD(4,10) by (auto simp: canonical_def)

lemma type_at_ok: "dd_ok e ts d \<Longrightarrow> unat i < length ts \<Longrightarrow> type_at d i = Some (types (d_btf d) ! unat i)"
  using dd_okD(3) [of e ts d] by (simp add: type_at_def fault)

lemma map_at_ok: "dd_ok e ts d \<Longrightarrow> unat i < length ts \<Longrightarrow> map_at d i = Some (d_map d ! unat i)"
  using dd_okD(4) [of e ts d] by (simp add: map_at_def fault)

lemma resolves:
  assumes "dd_ok e ts d" "unat i < length ts"
  shows "\<exists>r. root (d_map d) i r \<and> resolve_type_id d i = Some r \<and> bisim ts ts i r \<and> unat r < length ts"
proof -
  obtain r where "root (d_map d) i r" using dd_okD(4,5) [OF assms(1)] assms(2) by (auto simp: chains_end_def)
  then show ?thesis using resolve_root dd_okD(6) [OF assms(1)] bisim_range by blast
qed

lemma cur_node: "dd_ok e ts d \<Longrightarrow> i < length ts \<Longrightarrow> node_ok (types (d_btf d) ! i) \<and> blank (ts ! i) = blank (types (d_btf d) ! i)"
  using dd_okD(7) [of e ts d i] by (auto simp: approx_def)

lemma cur_info: "dd_ok e ts d \<Longrightarrow> i < length ts \<Longrightarrow> t_info (types (d_btf d) ! i) = t_info (ts ! i)"
  using cur_node [of e ts d i] graph_okD(1) [of ts i] dd_okD(1) [of e ts d] by (auto simp: blank_eq_iff)

lemma cur_kind: "dd_ok e ts d \<Longrightarrow> i < length ts \<Longrightarrow> btf_kind (types (d_btf d) ! i) = btf_kind (ts ! i)"
  by (rule btf_kind_cong(1)) (rule cur_info)

lemma cur_type_ok: "dd_ok e ts d \<Longrightarrow> i < length ts \<Longrightarrow> btf_kind (ts ! i) \<noteq> BTF_KIND_UNKN \<Longrightarrow> type_ok (types (d_btf d) ! i)"
  using cur_node [of e ts d i] cur_kind [of e ts d i] no_info_kind [of "types (d_btf d) ! i"] by (auto simp: node_ok_def)

text \<open>Two types that have become equal are bisimilar.\<close>

lemma same_type_bisim:
  assumes "dd_ok e ts d" "unat i < length ts" "unat j < length ts" "types (d_btf d) ! unat i = types (d_btf d) ! unat j"
  shows "bisim ts ts i j"
proof (rule bisimI [OF dd_okD(1) [OF assms(1)] dd_okD(1) [OF assms(1)] assms(2,3)])
  note i = dd_okD(7) [OF assms(1,2)] and j = dd_okD(7) [OF assms(1,3)]
  show b: "blank (ts ! unat i) = blank (ts ! unat j)" using i j assms(4) by (simp add: approx_def)
  note node = graph_okD(1) [OF dd_okD(1) [OF assms(1)]]
  have len: "length (refs (ts ! unat i)) = length (refs (ts ! unat j))"
    by (rule refs_length [OF node [OF assms(2)] node [OF assms(3)] b])
  show "\<forall>k < length (refs (ts ! unat i)). bisim ts ts (refs (ts ! unat i) ! k) (refs (ts ! unat j) ! k)"
  proof (intro allI impI)
    fix k assume "k < length (refs (ts ! unat i))"
    then have "bisim ts ts (refs (ts ! unat i) ! k) (refs (types (d_btf d) ! unat j) ! k)"
      "bisim ts ts (refs (ts ! unat j) ! k) (refs (types (d_btf d) ! unat j) ! k)"
      using i j assms(4) len by (simp_all add: approx_def)
    then show "bisim ts ts (refs (ts ! unat i) ! k) (refs (ts ! unat j) ! k)" by (rule bisim_trans [OF _ bisim_sym])
  qed
qed

section \<open>Changes of the map\<close>

lemma link_ok:
  assumes "dd_ok e ts d" "unat a < length ts" "d_map d ! unat a \<noteq> a" "canonical d b" "bisim ts ts a b"
  shows "set_map d a b = Some (d\<lparr>d_map := (d_map d)[unat a := b]\<rparr>)" "dd_ok e ts (d\<lparr>d_map := (d_map d)[unat a := b]\<rparr>)"
proof -
  let ?m = "d_map d" and ?m' = "(d_map d)[unat a := b]"
  note D = dd_okD [OF assms(1)]
  have b: "unat b < length ?m" "?m ! unat b = b" "b \<le> BTF_MAX_NR_TYPES"
    using assms(4) canonical_range [OF assms(1,4)] by (simp_all add: canonical_def)
  have a: "unat a < length ?m" using assms(2) D(4) by simp
  show "set_map d a b = Some (d\<lparr>d_map := ?m'\<rparr>)" using a by (simp add: set_map_def fault)
  have ch: "chains_end ?m'" by (rule chains_link [OF D(5) a assms(3) b])
  have "bisim ts ts i r" if "root ?m' i r" for i r
  proof -
    have "unat i < length ?m" using root_range [OF that] by simp
    then obtain s where s: "root ?m i s" using D(5) by (auto simp: chains_end_def)
    from root_link [OF a assms(3) b s] show ?thesis
    proof (elim disjE conjE)
      assume "root ?m' i s"
      then show ?thesis using root_unique [OF that] D(6) [OF s] by simp
    next
      assume "root ?m' i b" "root ?m a s"
      then have "bisim ts ts i s" "bisim ts ts s a" "r = b" using D(6) s bisim_sym root_unique [OF that] by auto
      then show ?thesis using assms(5) bisim_trans by blast
    qed
  qed
  then have "map_ok ts ?m'" using ch D(4) by (simp add: map_ok_def)
  moreover have "canonical (d\<lparr>d_map := ?m'\<rparr>) c" if "canonical d c" for c
    using that assms(3) nth_update_id [OF a, of b c] by (auto simp: canonical_def)
  ultimately show "dd_ok e ts (d\<lparr>d_map := ?m'\<rparr>)"
    using assms(1) by (fastforce simp: dd_ok_def types_ok_def table_canonical_def)
qed

lemma mark_ok:
  assumes "dd_ok e ts d" "unat a < length ts" "\<not> d_map d ! unat a \<le> BTF_MAX_NR_TYPES" "b = a \<or> \<not> b \<le> BTF_MAX_NR_TYPES"
  shows "set_map d a b = Some (d\<lparr>d_map := (d_map d)[unat a := b]\<rparr>)" "dd_ok e ts (d\<lparr>d_map := (d_map d)[unat a := b]\<rparr>)"
proof -
  let ?m = "d_map d" and ?m' = "(d_map d)[unat a := b]"
  note D = dd_okD [OF assms(1)]
  have a: "unat a < length ?m" using assms(2) D(4) by simp
  show "set_map d a b = Some (d\<lparr>d_map := ?m'\<rparr>)" using a by (simp add: set_map_def fault)
  have "map_ok ts ?m'" using D(4-6) chains_mark [OF a assms(3,4)] root_mark [OF a assms(3,4)] by (simp add: map_ok_def)
  moreover have "canonical (d\<lparr>d_map := ?m'\<rparr>) c" if "canonical d c" for c
    using that assms(3) nth_update_id [OF a, of b c] canonical_range [OF assms(1) that] by (auto simp: canonical_def)
  ultimately show "dd_ok e ts (d\<lparr>d_map := ?m'\<rparr>)"
    using assms(1) by (fastforce simp: dd_ok_def types_ok_def table_canonical_def)
qed

text \<open>Adding a canonical type to the table.\<close>

lemma table_add_ok:
  assumes "dd_ok e ts d" "canonical d i"
  shows "\<exists>err d'. btf_dedup_table_add e d h i = Some (err, d') \<and> dd_ok e ts d' \<and> (\<exists>m. d' = d\<lparr>dedup_table := m\<rparr>)"
proof -
  obtain m where m: "dedup_table d = Some m" "table_ok m" "\<forall>h. \<forall>c \<in> set (the (table_cands e m h)). canonical d c"
    using dd_okD(9) [OF assms(1)] by (auto simp: table_canonical_def)
  obtain err m' where m': "table_add e i m h = Some (err, m')" "table_ok m'" "\<forall>h. \<forall>c \<in> set (the (table_cands e m' h)). canonical d c"
    using table.add_all [OF m(2,3) assms(2)] by blast
  have "btf_dedup_table_add e d h i = Some (err, d\<lparr>dedup_table := Some m'\<rparr>)" using m(1) m'(1) by (simp add: btf_dedup_table_add_def)
  moreover have "dd_ok e ts (d\<lparr>dedup_table := Some m'\<rparr>)"
    using assms(1) m'(2,3) by (auto simp: dd_ok_def types_ok_def table_canonical_def canonical_def)
  ultimately show ?thesis by blast
qed

lemma cands_ok:
  assumes "dd_ok e ts d"
  shows "\<exists>cs. for_each_dedup_cand e d h = Some cs \<and> (\<forall>c \<in> set cs. canonical d c)"
proof -
  obtain m where m: "dedup_table d = Some m" "table_ok m" "\<forall>h. \<forall>c \<in> set (the (table_cands e m h)). canonical d c"
    using dd_okD(9) [OF assms(1)] by (auto simp: table_canonical_def)
  then show ?thesis using table.cands_all [OF m(2,3), of h] by (simp add: for_each_dedup_cand_def)
qed

lemma find_cand_ok:
  assumes "dd_ok e ts d" "\<forall>c \<in> set cs. canonical d c"
  shows "\<exists>r. find_cand eq d i cs = Some r \<and> (r = i \<or> canonical d r \<and> eq (types (d_btf d) ! unat r))"
  using assms(2)
proof (induction cs)
  case (Cons c cs)
  then have "type_at d c = Some (types (d_btf d) ! unat c)" using type_at_ok [OF assms(1)] canonical_range [OF assms(1)] by simp
  with Cons show ?case by auto
qed simp

text \<open>The end of the functions for one type.\<close>

lemma map_type_link_ok:
  assumes "dd_ok e ts d" "unat i < length ts"
    "new_id = i \<and> \<not> d_map d ! unat i \<le> BTF_MAX_NR_TYPES \<or> d_map d ! unat i \<noteq> i \<and> canonical d new_id \<and> bisim ts ts i new_id"
  shows "\<exists>err d'. map_type e d i h new_id = Some (err, d') \<and> dd_ok e ts d' \<and> (err = 0 \<or> err = - ENOMEM) \<and>
    (\<exists>m. d' = d\<lparr>d_map := (d_map d)[unat i := new_id], dedup_table := m\<rparr>)"
proof (cases "new_id = i")
  case True
  let ?d = "d\<lparr>d_map := (d_map d)[unat i := i]\<rparr>"
  have "\<not> d_map d ! unat i \<le> BTF_MAX_NR_TYPES" using assms(3) True by (auto simp: canonical_def)
  then have set: "set_map d i i = Some ?d" "dd_ok e ts ?d" using mark_ok [OF assms(1,2), of i] by simp_all
  have "canonical ?d i" using assms(2) dd_okD(4) [OF assms(1)] by (simp add: canonical_def)
  from table_add_ok [OF set(2) this, of h] show ?thesis using set(1) True by (auto simp: map_type_def)
next
  case False
  then have set: "set_map d i new_id = Some (d\<lparr>d_map := (d_map d)[unat i := new_id]\<rparr>)"
      "dd_ok e ts (d\<lparr>d_map := (d_map d)[unat i := new_id]\<rparr>)" using link_ok [OF assms(1,2)] assms(3) by blast+
  then show ?thesis using False
    by (intro exI [of _ 0] exI [of _ "d\<lparr>d_map := (d_map d)[unat i := new_id]\<rparr>"] conjI exI [of _ "dedup_table d"]) (simp_all add: map_type_def)
qed

lemma map_type_ok:
  assumes "dd_ok e ts d" "unat i < length ts" "\<not> d_map d ! unat i \<le> BTF_MAX_NR_TYPES"
    "new_id = i \<or> canonical d new_id \<and> bisim ts ts i new_id"
  shows "\<exists>err d'. map_type e d i h new_id = Some (err, d') \<and> dd_ok e ts d' \<and> (err = 0 \<or> err = - ENOMEM) \<and>
    (\<exists>m. d' = d\<lparr>d_map := (d_map d)[unat i := new_id], dedup_table := m\<rparr>)"
proof (rule map_type_link_ok [OF assms(1,2)])
  have "d_map d ! unat i \<noteq> i" using assms(3) dd_okD(10) [OF assms(1,2)] by auto
  then show "new_id = i \<and> \<not> d_map d ! unat i \<le> BTF_MAX_NR_TYPES \<or> d_map d ! unat i \<noteq> i \<and> canonical d new_id \<and> bisim ts ts i new_id"
    using assms(3,4) by blast
qed

section \<open>Primitive types\<close>

definition prim_kind :: "btf_kind \<Rightarrow> bool" where
  "prim_kind k \<longleftrightarrow> k = BTF_KIND_INT \<or> k = BTF_KIND_ENUM \<or> k = BTF_KIND_FWD"

lemma enum_loop_find: "dont_resolve_fwds d \<Longrightarrow> enum_loop d t i cs = map_option (\<lambda>r. (r, d)) (find_cand (btf_equal_enum t) d i cs)"
proof (induction cs)
  case (Cons c cs)
  then show ?case by (cases "type_at d c") simp_all
qed simp

lemma same_kind_ok:
  assumes "t_info t = t_info u" "node_ok u" "type_ok t"
  shows "type_ok u"
  using assms no_info_kind [of t] by (auto simp: node_ok_def type_ok_def btf_type_size_def EINVAL_def)

lemma btf_dedup_prim_type_ok:
  assumes "dd_ok e ts d" "unat i < length ts" "prim_kind (btf_kind (ts ! unat i)) \<Longrightarrow> \<not> d_map d ! unat i \<le> BTF_MAX_NR_TYPES"
  shows "\<exists>err d'. btf_dedup_prim_type e d i = Some (err, d') \<and> dd_ok e ts d' \<and>
    (\<exists>v m. d' = d\<lparr>d_map := (d_map d)[unat i := v], dedup_table := m\<rparr>)"
proof -
  let ?cur = "types (d_btf d)" and ?t = "types (d_btf d) ! unat i"
  have t: "type_at d i = Some ?t" by (rule type_at_ok [OF assms(1,2)])
  have kind: "btf_kind ?t = btf_kind (ts ! unat i)" by (rule cur_kind [OF assms(1,2)])
  have step: "\<exists>err d'. (do { cands \<leftarrow> for_each_dedup_cand e d h; new_id \<leftarrow> find_cand eq d i cands; map_type e d i h new_id }) = Some (err, d') \<and>
      dd_ok e ts d' \<and> (\<exists>v m. d' = d\<lparr>d_map := (d_map d)[unat i := v], dedup_table := m\<rparr>)"
    if "prim_kind (btf_kind ?t)" "\<And>u. eq u \<Longrightarrow> node_ok u \<Longrightarrow> ?t = u" for h eq
  proof -
    obtain cs where cs: "for_each_dedup_cand e d h = Some cs" "\<forall>c \<in> set cs. canonical d c" using cands_ok [OF assms(1)] by blast
    obtain r where r: "find_cand eq d i cs = Some r" "r = i \<or> canonical d r \<and> eq (?cur ! unat r)"
      using find_cand_ok [OF assms(1) cs(2)] by blast
    have "r = i \<or> canonical d r \<and> bisim ts ts i r"
      using r(2) that(2) canonical_range [OF assms(1)] cur_node [OF assms(1)] same_type_bisim [OF assms(1,2)] by blast
    from map_type_ok [OF assms(1,2) _ this, of h] that(1) assms(3) kind obtain err d' where
      "map_type e d i h r = Some (err, d')" "dd_ok e ts d'" "\<exists>v m. d' = d\<lparr>d_map := (d_map d)[unat i := v], dedup_table := m\<rparr>"
      by metis
    then show ?thesis using cs(1) r(1) by simp
  qed
  have ok: "type_ok ?t" if "prim_kind (btf_kind ?t)"
    by (rule cur_type_ok [OF assms(1,2)]) (use that kind in \<open>auto simp: prim_kind_def\<close>)
  have eq: "?t = u" if "btf_kind ?t = BTF_KIND_INT \<and> btf_equal_int ?t u \<or> btf_kind ?t = BTF_KIND_ENUM \<and> btf_equal_enum ?t u \<or>
      btf_kind ?t = BTF_KIND_FWD \<and> btf_equal_common ?t u" "node_ok u" for u
  proof -
    have "t_info ?t = t_info u" using that(1) by (auto simp: btf_equal_int_def btf_equal_enum_def btf_equal_common_def)
    then have "type_ok u" using that ok same_kind_ok [of ?t u] by (auto simp: prim_kind_def)
    then show ?thesis using that ok btf_equal_int_eq btf_equal_enum_eq btf_equal_fwd_eq by (auto simp: prim_kind_def)
  qed
  have enum: "(do { cands \<leftarrow> for_each_dedup_cand e d h; (new_id, d) \<leftarrow> enum_loop d u i cands; map_type e d i h new_id }) =
      (do { cands \<leftarrow> for_each_dedup_cand e d h; new_id \<leftarrow> find_cand (btf_equal_enum u) d i cands; map_type e d i h new_id })" for h u
  proof (cases "for_each_dedup_cand e d h")
    case (Some cs)
    then show ?thesis using enum_loop_find [OF dd_okD(8) [OF assms(1)], of u i cs]
      by (cases "find_cand (btf_equal_enum u) d i cs") simp_all
  qed simp
  have skip: "\<exists>err' d'. Some (err, d) = Some (err', d') \<and> dd_ok e ts d' \<and> (\<exists>v m. d' = d\<lparr>d_map := (d_map d)[unat i := v], dedup_table := m\<rparr>)"
    for err :: int
    using assms(1) by (auto intro!: exI [of _ "d_map d ! unat i"] exI [of _ "dedup_table d"])
  show ?thesis
    using step [of "btf_equal_int ?t" "btf_hash_int ?t"] step [of "btf_equal_enum ?t" "btf_hash_enum ?t"]
      step [of "btf_equal_common ?t" "btf_hash_common ?t"] eq skip
    by (cases "btf_kind ?t") (simp_all add: btf_dedup_prim_type_def t enum prim_kind_def)
qed

text \<open>A phase of the algorithm keeps what each of its steps keeps.\<close>

lemma for_types_phase:
  assumes "\<And>i d. i < n \<Longrightarrow> P i d \<Longrightarrow> \<exists>err d'. f d (of_nat i) = Some (err, d') \<and> P (Suc i) d'" "P i d"
  shows "\<exists>err d' k. for_types f d [i..<n] = Some (err, d') \<and> P k d'"
  using assms(2)
proof (induction "n - i" arbitrary: i d)
  case 0
  then show ?case by auto
next
  case (Suc k)
  then have i: "i < n" "[i..<n] = i # [Suc i..<n]" by (simp_all add: upt_conv_Cons)
  obtain err d' where d': "f d (of_nat i) = Some (err, d')" "P (Suc i) d'" using assms(1) [OF i(1) Suc.prems] by blast
  show ?case
  proof (cases "err = 0")
    case True
    have "k = n - Suc i" using Suc.hyps(2) by simp
    from Suc.hyps(1) [OF this d'(2)] obtain err2 d2 k2 where "for_types f d' [Suc i..<n] = Some (err2, d2)" "P k2 d2" by blast
    then show ?thesis using d' True by (auto simp: i(2))
  qed (use d' in \<open>auto simp: i(2)\<close>)
qed

lemma nat_id: "n \<le> 2 ^ 31 \<Longrightarrow> i < n \<Longrightarrow> unat (of_nat i :: u32) = i"
  by (rule unat_of_nat_u32) simp

lemma type_numbers_eq: "dd_ok e ts d \<Longrightarrow> ts \<noteq> [] \<Longrightarrow> type_numbers d = [1..<length ts]"
  using dd_okD(3) [of e ts d] by (simp add: type_numbers_def btf__get_nr_types_def)

lemma btf_dedup_prim_types_ok:
  assumes "dd_ok e ts d" "ts \<noteq> []" "\<forall>j < length ts. prim_kind (btf_kind (ts ! j)) \<longrightarrow> \<not> d_map d ! j \<le> BTF_MAX_NR_TYPES"
  shows "\<exists>err d'. btf_dedup_prim_types e d = Some (err, d') \<and> dd_ok e ts d' \<and> d_btf d' = d_btf d \<and> hypot_map d' = hypot_map d \<and>
    hypot_list d' = hypot_list d"
proof -
  define P where "P i d' \<longleftrightarrow> dd_ok e ts d' \<and> d_btf d' = d_btf d \<and> hypot_map d' = hypot_map d \<and> hypot_list d' = hypot_list d \<and>
    (\<forall>j. i \<le> j \<and> j < length ts \<and> prim_kind (btf_kind (ts ! j)) \<longrightarrow> \<not> d_map d' ! j \<le> BTF_MAX_NR_TYPES)" for i d'
  have "\<exists>err d' k. for_types (btf_dedup_prim_type e) d [1..<length ts] = Some (err, d') \<and> P k d'"
  proof (rule for_types_phase)
    fix i d1 assume "i < length ts" "P i d1"
    note that = this [unfolded P_def]
    have i: "unat (of_nat i :: u32) = i" by (rule nat_id [OF dd_okD(2) [OF assms(1)] that(1)])
    have ok: "dd_ok e ts d1" and len: "length (d_map d1) = length ts" using that(2) dd_okD(4) by blast+
    have "unat (of_nat i :: u32) < length ts"
      "prim_kind (btf_kind (ts ! unat (of_nat i :: u32))) \<Longrightarrow> \<not> d_map d1 ! unat (of_nat i :: u32) \<le> BTF_MAX_NR_TYPES"
      using that by (simp_all add: i)
    from btf_dedup_prim_type_ok [OF ok this] obtain err d2 v m where d2: "btf_dedup_prim_type e d1 (of_nat i) = Some (err, d2)" "dd_ok e ts d2"
        "d2 = d1\<lparr>d_map := (d_map d1)[i := v], dedup_table := m\<rparr>" unfolding i by blast
    have "P (Suc i) d2" using that(2) d2(2) by (simp add: d2(3) P_def)
    with d2(1) show "\<exists>err d'. btf_dedup_prim_type e d1 (of_nat i) = Some (err, d') \<and> P (Suc i) d'" by blast
  next
    show "P 1 d" using assms by (simp add: P_def)
  qed
  then show ?thesis unfolding btf_dedup_prim_types_def type_numbers_eq [OF assms(1,2)] P_def by blast
qed

end
