(* ===== verification/Dedup_Equiv.thy ===== *)
theory Dedup_Equiv
  imports Dedup_Sound
begin

text \<open>
  The second phase of the deduplication: the side-by-side traversal \<open>btf_dedup_is_equiv\<close> of two type graphs
  ends, stays inside its arrays, and when it succeeds the pairs it has recorded are bisimilar; merging them and mapping the
  struct keeps the invariant of \<open>Dedup_Sound\<close>.
\<close>

section \<open>The hypothetical mapping\<close>

definition hyp :: "btf_dedup \<Rightarrow> u32 \<Rightarrow> u32" where
  "hyp d x = hypot_map d ! unat x"

definition hyp_ok :: "btf_dedup \<Rightarrow> nat \<Rightarrow> bool" where
  "hyp_ok d n \<longleftrightarrow> length (hypot_map d) = n \<and> (\<forall>x \<in> set (hypot_list d). unat x < n \<and> unat (hyp d x) < n) \<and>
     (\<forall>x. unat x < n \<and> x \<notin> set (hypot_list d) \<longrightarrow> hyp d x = BTF_UNPROCESSED_ID)"

lemma hyp_okD:
  assumes "hyp_ok d n"
  shows "length (hypot_map d) = n" "x \<in> set (hypot_list d) \<Longrightarrow> unat x < n" "x \<in> set (hypot_list d) \<Longrightarrow> unat (hyp d x) < n"
    "unat x < n \<Longrightarrow> x \<notin> set (hypot_list d) \<Longrightarrow> hyp d x = BTF_UNPROCESSED_ID"
  using assms by (auto simp: hyp_ok_def)

lemma unprocessed_large: "\<not> BTF_UNPROCESSED_ID \<le> BTF_MAX_NR_TYPES"
proof -
  have "unat (- 1 :: u32) = 2 ^ 32 - 1" by (simp only: unsigned_minus_1_eq_mask) (simp add: mask_eq_exp_minus_1)
  then show ?thesis by (simp add: BTF_UNPROCESSED_ID_def BTF_MAX_NR_TYPES_def word_le_nat_alt)
qed

lemma clear_loop_ok:
  assumes "\<forall>x \<in> set xs. unat x < length hm"
  shows "\<exists>hm'. clear_loop xs hm = Some hm' \<and> length hm' = length hm \<and>
    (\<forall>i. hm' ! unat i = (if i \<in> set xs then BTF_UNPROCESSED_ID else hm ! unat i))"
  using assms
proof (induction xs arbitrary: hm)
  case (Cons x xs)
  let ?hm = "hm[unat x := BTF_UNPROCESSED_ID]"
  have x: "unat x < length hm" using Cons.prems by simp
  obtain hm' where "clear_loop xs ?hm = Some hm'" "length hm' = length hm"
      "\<forall>i. hm' ! unat i = (if i \<in> set xs then BTF_UNPROCESSED_ID else ?hm ! unat i)"
    using Cons.IH [of ?hm] Cons.prems by auto
  then show ?case using x nth_update_id [OF x] by (auto simp: fault)
qed simp

lemma clear_ok:
  assumes "hyp_ok d n"
  shows "\<exists>hm. btf_dedup_clear_hypot_map d = Some (d\<lparr>hypot_map := hm, hypot_list := []\<rparr>) \<and> hyp_ok (d\<lparr>hypot_map := hm, hypot_list := []\<rparr>) n"
proof -
  note H = hyp_okD [OF assms]
  obtain hm where hm: "clear_loop (hypot_list d) (hypot_map d) = Some hm" "length hm = length (hypot_map d)"
      "\<forall>i. hm ! unat i = (if i \<in> set (hypot_list d) then BTF_UNPROCESSED_ID else hypot_map d ! unat i)"
    using clear_loop_ok [of "hypot_list d" "hypot_map d"] H(1,2) by auto
  then have "hyp_ok (d\<lparr>hypot_map := hm, hypot_list := []\<rparr>) n"
    using H(1,4) by (simp add: hyp_ok_def hyp_def)
  moreover have "btf_dedup_clear_hypot_map d = Some (d\<lparr>hypot_map := hm, hypot_list := []\<rparr>)"
    using hm(1) by (simp add: btf_dedup_clear_hypot_map_def)
  ultimately show ?thesis by blast
qed

section \<open>Growing\<close>

text \<open>What a traversal changes: entries are added, those there are keep their value.\<close>

definition grows :: "nat \<Rightarrow> btf_dedup \<Rightarrow> btf_dedup \<Rightarrow> bool" where
  "grows n d d' \<longleftrightarrow> (\<exists>new hm c. d' = d\<lparr>hypot_list := hypot_list d @ new, hypot_map := hm, hypot_cap := c\<rparr>) \<and> hyp_ok d' n \<and>
     (\<forall>x \<in> set (hypot_list d). hyp d' x = hyp d x)"

lemma grows_frame:
  assumes "grows n d d'"
  shows "d_btf d' = d_btf d" "d_map d' = d_map d" "dedup_table d' = dedup_table d" "dont_resolve_fwds d' = dont_resolve_fwds d"
    "set (hypot_list d) \<subseteq> set (hypot_list d')" "hyp_ok d' n" "x \<in> set (hypot_list d) \<Longrightarrow> hyp d' x = hyp d x"
  using assms by (auto simp: grows_def)

lemma grows_refl: "hyp_ok d n \<Longrightarrow> grows n d d"
  unfolding grows_def by (intro conjI exI [of _ "[]"] exI [of _ "hypot_map d"] exI [of _ "hypot_cap d"]) simp_all

lemma grows_trans:
  assumes "grows n d d'" "grows n d' d''"
  shows "grows n d d''"
proof -
  obtain new hm c new' hm' c' where "d' = d\<lparr>hypot_list := hypot_list d @ new, hypot_map := hm, hypot_cap := c\<rparr>"
      "d'' = d'\<lparr>hypot_list := hypot_list d' @ new', hypot_map := hm', hypot_cap := c'\<rparr>"
    using assms by (auto simp: grows_def)
  then have "d'' = d\<lparr>hypot_list := hypot_list d @ (new @ new'), hypot_map := hm', hypot_cap := c'\<rparr>" by simp
  moreover have "hyp d'' x = hyp d x" if "x \<in> set (hypot_list d)" for x
    using that grows_frame(5,7) [OF assms(1)] grows_frame(7) [OF assms(2)] by auto
  ultimately show ?thesis using grows_frame(6) [OF assms(2)] unfolding grows_def by blast
qed

lemma grows_dd_ok: "grows (length ts) d d' \<Longrightarrow> dd_ok e ts d \<Longrightarrow> dd_ok e ts d'"
  using grows_frame(1-4,6) [of "length ts" d d'] by (simp add: dd_ok_def types_ok_def table_canonical_def canonical_def hyp_ok_def)

definition todo :: "nat \<Rightarrow> btf_dedup \<Rightarrow> u32 set" where
  "todo n d = {x. unat x < n \<and> x \<notin> set (hypot_list d)}"

lemma finite_todo [simp]: "finite (todo n d)"
  by (rule finite_subset [OF subset_UNIV]) simp

lemma grows_todo: "grows n d d' \<Longrightarrow> card (todo n d') \<le> card (todo n d)"
  using grows_frame(5) [of n d d'] by (intro card_mono) (auto simp: todo_def)

lemma hypot_map_add_ok:
  assumes "hyp_ok d n" "unat b < n" "b \<notin> set (hypot_list d)" "unat a < n"
  shows "\<exists>err d'. btf_dedup_hypot_map_add e d b a = Some (err, d') \<and> grows n d d' \<and>
    (err = 0 \<longrightarrow> set (hypot_list d') = insert b (set (hypot_list d)) \<and> hyp d' b = a \<and> card (todo n d') < card (todo n d))"
proof -
  note H = hyp_okD [OF assms(1)]
  let ?full = "length (hypot_list d) = hypot_cap d"
  let ?c = "if ?full then hypot_cap d + max 16 (hypot_cap d div 2) else hypot_cap d"
  let ?old = "d\<lparr>hypot_list := hypot_list d @ [], hypot_map := hypot_map d, hypot_cap := ?c\<rparr>"
  let ?d = "d\<lparr>hypot_list := hypot_list d @ [b], hypot_map := (hypot_map d)[unat b := a], hypot_cap := ?c\<rparr>"
  have b: "unat b < length (hypot_map d)" using H(1) assms(2) by simp
  have at: "hyp ?d x = (if x = b then a else hyp d x)" for x using nth_update_id [OF b] by (simp add: hyp_def)
  have "hyp_ok ?d n" unfolding hyp_ok_def at using H assms(2,4) by (auto simp: hyp_def)
  moreover have "\<exists>new hm c. ?d = d\<lparr>hypot_list := hypot_list d @ new, hypot_map := hm, hypot_cap := c\<rparr>"
    by (rule exI, rule exI, rule exI, rule refl)
  ultimately have g: "grows n d ?d" unfolding grows_def at using assms(3) by (intro conjI ballI) auto
  have "hyp_ok ?old n" using assms(1) by (simp add: hyp_ok_def hyp_def)
  moreover have "\<exists>new hm c. ?old = d\<lparr>hypot_list := hypot_list d @ new, hypot_map := hm, hypot_cap := c\<rparr>"
    by (rule exI, rule exI, rule exI, rule refl)
  ultimately have g0: "grows n d ?old" unfolding grows_def by (intro conjI ballI) (simp_all add: hyp_def)
  have "todo n d = insert b (todo n ?d)" "b \<notin> todo n ?d" using assms(2,3) by (auto simp: todo_def)
  then have "card (todo n ?d) < card (todo n d)" by simp
  moreover have "btf_dedup_hypot_map_add e d b a = (if ?full \<and> \<not> env_list e ?c then Some (- ENOMEM, ?old) else Some (0, ?d))"
    using b by (simp add: btf_dedup_hypot_map_add_def Let_def fault)
  ultimately show ?thesis using g g0 at [of b] by (auto simp: ENOMEM_def)
qed

section \<open>The traversal\<close>

definition related :: "btf_type list \<Rightarrow> btf_dedup \<Rightarrow> u32 \<Rightarrow> u32 \<Rightarrow> bool" where
  "related ts d a b \<longleftrightarrow> bisim ts ts a b \<or> b \<in> set (hypot_list d) \<and> hyp d b = a"

definition checked :: "btf_type list \<Rightarrow> btf_dedup \<Rightarrow> u32 \<Rightarrow> bool" where
  "checked ts d b \<longleftrightarrow> (let t = ts ! unat (hyp d b); u = ts ! unat b in
     blank t = blank u \<and> (\<forall>p \<in> set (zip (refs t) (refs u)). related ts d (fst p) (snd p)))"

lemma related_grows: "grows n d d' \<Longrightarrow> related ts d a b \<Longrightarrow> related ts d' a b"
  using grows_frame(5,7) [of n d d'] by (auto simp: related_def)

lemma checked_grows: "grows n d d' \<Longrightarrow> b \<in> set (hypot_list d) \<Longrightarrow> checked ts d b \<Longrightarrow> checked ts d' b"
  using grows_frame(7) [of n d d' b] related_grows [of n d d'] by (simp add: checked_def Let_def)

text \<open>What a call promises: if it succeeds, its two types are related and every new pair has been checked.\<close>

definition equiv_post :: "btf_type list \<Rightarrow> btf_dedup \<Rightarrow> btf_dedup \<Rightarrow> (u32 \<times> u32) set \<Rightarrow> int \<Rightarrow> bool" where
  "equiv_post ts d d' ps eq \<longleftrightarrow> grows (length ts) d d' \<and>
     (0 < eq \<longrightarrow> (\<forall>p \<in> ps. related ts d' (fst p) (snd p)) \<and> (\<forall>x \<in> set (hypot_list d') - set (hypot_list d). checked ts d' x))"

lemma equiv_pairs_post:
  assumes "\<And>d a b. dd_ok e ts d \<Longrightarrow> types (d_btf d) = ts \<Longrightarrow> hyp_ok d (length ts) \<Longrightarrow> unat a < length ts \<Longrightarrow> unat b < length ts \<Longrightarrow>
      card (todo (length ts) d) < n \<Longrightarrow> \<exists>eq d'. f d a b = Some (eq, d') \<and> equiv_post ts d d' {(a, b)} eq"
    "dd_ok e ts d" "types (d_btf d) = ts" "hyp_ok d (length ts)" "\<forall>p \<in> set ps. unat (fst p) < length ts \<and> unat (snd p) < length ts"
    "card (todo (length ts) d) < n"
  shows "\<exists>eq d'. equiv_pairs f d ps = Some (eq, d') \<and> equiv_post ts d d' (set ps) eq"
  using assms(2-6)
proof (induction ps arbitrary: d)
  case Nil
  then show ?case using grows_refl [OF Nil(3)] by (simp add: equiv_post_def)
next
  case (Cons p ps)
  obtain a b where p: "p = (a, b)" by (cases p)
  obtain eq d1 where r: "f d a b = Some (eq, d1)" "equiv_post ts d d1 {(a, b)} eq"
    using assms(1) [OF Cons.prems(1-3), of a b] Cons.prems(4,5) p by auto
  then have g: "grows (length ts) d d1" by (simp add: equiv_post_def)
  show ?case
  proof (cases "eq \<le> 0")
    case True
    then show ?thesis using r g by (auto simp: p equiv_post_def)
  next
    case False
    have "card (todo (length ts) d1) < n" using grows_todo [OF g] Cons.prems(5) by simp
    with Cons.IH [of d1] grows_dd_ok [OF g Cons.prems(1)] grows_frame [OF g] Cons.prems(2,4)
    obtain eq2 d2 where r2: "equiv_pairs f d1 ps = Some (eq2, d2)" "equiv_post ts d1 d2 (set ps) eq2" by auto
    then have g2: "grows (length ts) d1 d2" by (simp add: equiv_post_def)
    have "equiv_post ts d d2 (set (p # ps)) eq2"
      unfolding equiv_post_def
    proof (intro conjI impI ballI)
      show "grows (length ts) d d2" by (rule grows_trans [OF g g2])
    next
      fix q assume "0 < eq2" "q \<in> set (p # ps)"
      then show "related ts d2 (fst q) (snd q)"
        using r(2) r2(2) False related_grows [OF g2] by (auto simp: p equiv_post_def)
    next
      fix x assume "0 < eq2" "x \<in> set (hypot_list d2) - set (hypot_list d)"
      then show "checked ts d2 x"
        using r(2) r2(2) False checked_grows [OF g2, of x] by (auto simp: equiv_post_def)
    qed
    then show ?thesis using r(1) r2(1) False by (simp add: p)
  qed
qed

lemma ref_range: "graph_ok ts \<Longrightarrow> i < length ts \<Longrightarrow> r \<in> set (refs (ts ! i)) \<Longrightarrow> unat r < length ts"
  unfolding graph_ok_def by (meson nth_mem)

lemma zip_refs_range:
  assumes "graph_ok ts" "unat a < length ts" "unat b < length ts" "p \<in> set (zip (refs (ts ! unat a)) (refs (ts ! unat b)))"
  shows "unat (fst p) < length ts \<and> unat (snd p) < length ts"
  using assms ref_range [OF assms(1,2)] ref_range [OF assms(1,3)]
  by (cases p) (auto dest: set_zip_leftD set_zip_rightD)

lemma resolve_fwd_ok:
  assumes "dd_ok e ts d" "types (d_btf d) = ts" "unat b < length ts"
  shows "resolve_fwd_id d b = Some b"
proof -
  obtain r where r: "resolve_type_id d b = Some r" "bisim ts ts b r" "unat r < length ts" using resolves [OF assms(1,3)] by blast
  then have "btf_kind (ts ! unat r) = btf_kind (ts ! unat b)" using bisim_kind dd_okD(1) [OF assms(1)] by metis
  then show ?thesis using r(1) type_at_ok [OF assms(1)] assms(2,3) r(3) by (simp add: resolve_fwd_id_def btf_is_fwd_def)
qed

text \<open>One call, given the promise for the calls it makes.\<close>

lemma is_equiv_post:
  assumes "dd_ok e ts d" "types (d_btf d) = ts" "hyp_ok d (length ts)" "unat a < length ts" "unat b < length ts"
    "card (todo (length ts) d) < n"
  shows "\<exists>eq d'. is_equiv n e d a b = Some (eq, d') \<and> equiv_post ts d d' {(a, b)} eq"
  using assms
proof (induction n arbitrary: d a b)
  case (Suc n)
  note D = dd_okD [OF Suc.prems(1)] and H = hyp_okD [OF Suc.prems(3)]
  obtain r1 where r1: "resolve_type_id d a = Some r1" "bisim ts ts a r1" using resolves [OF Suc.prems(1,4)] by blast
  obtain r2 where r2: "resolve_type_id d b = Some r2" "bisim ts ts b r2" using resolves [OF Suc.prems(1,5)] by blast
  note fwd = resolve_fwd_ok [OF Suc.prems(1,2,5)]
  have get: "arr_get (hypot_map d) (unat b) = Some (hyp d b)" using H(1) Suc.prems(5) by (simp add: fault hyp_def)
  have refl: "grows (length ts) d d" by (rule grows_refl [OF Suc.prems(3)])
  show ?case
  proof (cases "r1 = r2 \<or> b \<in> set (hypot_list d)")
    case True
    have "hyp d b \<le> BTF_MAX_NR_TYPES" if "b \<in> set (hypot_list d)" using H(3) [OF that] D(10) by blast
    moreover have "bisim ts ts a b" if "r1 = r2" using r1(2) r2(2) that bisim_trans bisim_sym by blast
    ultimately show ?thesis using True refl r1(1) r2(1) fwd get
      by (cases "r1 = r2") (auto simp: equiv_post_def related_def)
  next
    case False
    then have un: "\<not> hyp d b \<le> BTF_MAX_NR_TYPES" using H(4) [OF Suc.prems(5)] unprocessed_large by auto
    obtain err d1 where add: "btf_dedup_hypot_map_add e d b a = Some (err, d1)" "grows (length ts) d d1"
        "err = 0 \<longrightarrow> set (hypot_list d1) = insert b (set (hypot_list d)) \<and> hyp d1 b = a \<and> card (todo (length ts) d1) < card (todo (length ts) d)"
      using hypot_map_add_ok [OF Suc.prems(3,5) _ Suc.prems(4), of e] False by blast
    show ?thesis
    proof (cases "err = 0")
      case err: True
      note new = add(3) [rule_format, OF err] and F = grows_frame [OF add(2)]
      have ok1: "dd_ok e ts d1" "types (d_btf d1) = ts" using grows_dd_ok [OF add(2) Suc.prems(1)] F Suc.prems(2) by simp_all
      let ?t = "ts ! unat a" and ?u = "ts ! unat b"
      have at: "type_at d1 a = Some ?t" "type_at d1 b = Some ?u" using type_at_ok [OF ok1(1)] ok1(2) Suc.prems(4,5) by simp_all
      have node: "node_ok ?t" "node_ok ?u" using graph_okD(1) [OF D(1)] Suc.prems(4,5) by simp_all
      have eqn: "is_equiv (Suc n) e d a b = (case equiv_node True ?t ?u of Inl eq \<Rightarrow> Some (eq, d1) | Inr pairs \<Rightarrow> equiv_pairs (is_equiv n e) d1 pairs)"
        using False un r1(1) r2(1) fwd get add(1) err at dd_okD(8) [OF ok1(1)] by simp
      have new_checked: "equiv_post ts d d2 {(a, b)} eq"
        if "grows (length ts) d1 d2" "0 < eq \<Longrightarrow> checked ts d2 b \<and> (\<forall>x \<in> set (hypot_list d2) - set (hypot_list d1). checked ts d2 x)" for d2 eq
        unfolding equiv_post_def
      proof (intro conjI impI ballI)
        show "grows (length ts) d d2" by (rule grows_trans [OF add(2) that(1)])
        note G = grows_frame(5,7) [OF that(1)]
        show "related ts d2 (fst p) (snd p)" if "p \<in> {(a, b)}" for p
          using that new G by (auto simp: related_def)
        show "checked ts d2 x" if "0 < eq" "x \<in> set (hypot_list d2) - set (hypot_list d)" for x
          using that \<open>0 < eq \<Longrightarrow> checked ts d2 b \<and> _\<close> new by auto
      qed
      show ?thesis
      proof (cases "equiv_node True ?t ?u")
        case (Inl v)
        have "checked ts d1 b" if "0 < v"
        proof -
          have "?t = ?u" using equiv_node_result(1) [OF node Inl] that by (auto simp: EINVAL_def)
          moreover have "related ts d1 r r" if "r \<in> set (refs ?u)" for r
            using bisim_refl [OF D(1) ref_range [OF D(1) Suc.prems(5) that]] by (simp add: related_def)
          ultimately show ?thesis using new by (auto simp: checked_def Let_def zip_same)
        qed
        moreover have "grows (length ts) d1 d1" using grows_refl F(6) by blast
        ultimately show ?thesis using eqn Inl new_checked [of d1 v] by simp
      next
        case (Inr ps)
        note node_eq = equiv_node_result(2) [OF node Inr]
        have "\<forall>p \<in> set ps. unat (fst p) < length ts \<and> unat (snd p) < length ts"
          using node_eq zip_refs_range [OF D(1) Suc.prems(4,5)] by blast
        moreover have "card (todo (length ts) d1) < n" using new Suc.prems(6) by linarith
        ultimately obtain eq d2 where r: "equiv_pairs (is_equiv n e) d1 ps = Some (eq, d2)" "equiv_post ts d1 d2 (set ps) eq"
          using equiv_pairs_post [of e ts n "is_equiv n e" d1 ps] Suc.IH ok1 F(6) by blast
        then have g: "grows (length ts) d1 d2" by (simp add: equiv_post_def)
        have "checked ts d2 b \<and> (\<forall>x \<in> set (hypot_list d2) - set (hypot_list d1). checked ts d2 x)" if "0 < eq"
          using r(2) that node_eq new grows_frame(7) [OF g, of b] by (auto simp: equiv_post_def checked_def Let_def)
        from new_checked [OF g this] show ?thesis using eqn Inr r(1) by auto
      qed
    next
      case False
      then have "err \<noteq> 0" .
      have "is_equiv (Suc n) e d a b = Some (- ENOMEM, d1)"
        using \<open>\<not> (r1 = r2 \<or> b \<in> set (hypot_list d))\<close> un r1(1) r2(1) fwd get add(1) False by simp
      then show ?thesis using add(2) by (auto simp: equiv_post_def ENOMEM_def)
    qed
  qed
qed simp

text \<open>After a successful comparison of two types, with nothing recorded before, every pair that was recorded is bisimilar.\<close>

lemma checked_bisim:
  assumes "dd_ok e ts d" "hyp_ok d (length ts)" "\<forall>x \<in> set (hypot_list d). checked ts d x" "b \<in> set (hypot_list d)"
  shows "bisim ts ts (hyp d b) b"
proof (rule bisim_upto [where R = "\<lambda>a b. b \<in> set (hypot_list d) \<and> hyp d b = a"])
  show "graph_ok ts" by (rule dd_okD(1) [OF assms(1)])
  show "unat i < length ts \<and> unat j < length ts \<and> blank (ts ! unat i) = blank (ts ! unat j) \<and>
      (\<forall>p \<in> set (zip (refs (ts ! unat i)) (refs (ts ! unat j))). bisim ts ts (fst p) (snd p) \<or> snd p \<in> set (hypot_list d) \<and> hyp d (snd p) = fst p)"
    if "j \<in> set (hypot_list d) \<and> hyp d j = i" for i j
    using that assms(3) hyp_okD(2,3) [OF assms(2)] by (auto simp: checked_def Let_def related_def)
qed (use assms(4) in simp)

section \<open>Merging\<close>

lemma link_canonical:
  assumes "unat a < length (d_map d)" "d_map d ! unat a \<noteq> a" "a \<noteq> b"
  shows "canonical (d\<lparr>d_map := (d_map d)[unat a := b]\<rparr>) x \<longleftrightarrow> canonical d x"
  using assms nth_update_id [OF assms(1), of b x] by (auto simp: canonical_def)

lemma merge_step_ok:
  assumes "dd_ok e ts d" "types (d_btf d) = ts" "hyp_ok d (length ts)" "c \<in> set (hypot_list d)" "bisim ts ts (hyp d c) c"
  shows "\<exists>d'. merge_step d c = Some d' \<and> dd_ok e ts d' \<and> (\<exists>m. d' = d\<lparr>d_map := m\<rparr>) \<and> (\<forall>x. canonical d' x \<longleftrightarrow> canonical d x)"
proof -
  note D = dd_okD [OF assms(1)] and H = hyp_okD [OF assms(3)]
  have get: "arr_get (hypot_map d) (unat c) = Some (hyp d c)" using H(1) H(2) [OF assms(4)] by (simp add: fault hyp_def)
  obtain t_id where t: "root (d_map d) (hyp d c) t_id" "resolve_type_id d (hyp d c) = Some t_id" "bisim ts ts (hyp d c) t_id" "unat t_id < length ts"
    using resolves [OF assms(1) H(3) [OF assms(4)]] by blast
  obtain c_id where c: "root (d_map d) c c_id" "resolve_type_id d c = Some c_id" "bisim ts ts c c_id" "unat c_id < length ts"
    using resolves [OF assms(1) H(2) [OF assms(4)]] by blast
  have tc: "bisim ts ts t_id c_id" using t(3) c(3) assms(5) bisim_sym bisim_trans by blast
  then have kind: "btf_kind (ts ! unat t_id) = btf_kind (ts ! unat c_id)" using bisim_kind D(1) by blast
  have at: "type_at d t_id = Some (ts ! unat t_id)" "type_at d c_id = Some (ts ! unat c_id)"
    "map_at d t_id = Some (d_map d ! unat t_id)" "map_at d c_id = Some (d_map d ! unat c_id)"
    using type_at_ok [OF assms(1)] map_at_ok [OF assms(1)] assms(2) t(4) c(4) by simp_all
  let ?link = "(btf_kind (ts ! unat t_id) = BTF_KIND_STRUCT \<or> btf_kind (ts ! unat t_id) = BTF_KIND_UNION) \<and>
    btf_kind (ts ! unat c_id) \<noteq> BTF_KIND_FWD \<and> d_map d ! unat c_id \<le> BTF_MAX_NR_TYPES \<and> \<not> d_map d ! unat t_id \<le> BTF_MAX_NR_TYPES"
  have step: "merge_step d c = (if ?link then set_map d t_id c_id else Some d)"
    using get t(2) c(2) at kind by (auto simp: merge_step_def is_type_mapped_def Let_def)
  show ?thesis
  proof (cases ?link)
    case True
    have can: "canonical d c_id" using root_end [OF c(1)] True by (simp add: canonical_def)
    have ne: "d_map d ! unat t_id \<noteq> t_id" using D(10) [OF t(4)] True by auto
    have "t_id \<noteq> c_id" using True by auto
    then show ?thesis using link_ok [OF assms(1) t(4) ne can tc] step True link_canonical [OF _ ne] t(4) D(4) by auto
  next
    case False
    have "\<exists>m. d = d\<lparr>d_map := m\<rparr>" by (rule exI [of _ "d_map d"]) simp
    then show ?thesis using step False assms(1) by (simp only: if_False) blast
  qed
qed

lemma merge_loop_ok:
  assumes "dd_ok e ts d" "types (d_btf d) = ts" "hyp_ok d (length ts)" "\<forall>c \<in> set cs. c \<in> set (hypot_list d) \<and> bisim ts ts (hyp d c) c"
  shows "\<exists>d'. merge_loop d cs = Some d' \<and> dd_ok e ts d' \<and> (\<exists>m. d' = d\<lparr>d_map := m\<rparr>) \<and> (\<forall>x. canonical d' x \<longleftrightarrow> canonical d x)"
  using assms
proof (induction cs arbitrary: d)
  case Nil
  have "\<exists>m. d = d\<lparr>d_map := m\<rparr>" by (rule exI [of _ "d_map d"]) simp
  then show ?case using Nil by auto
next
  case (Cons c cs)
  obtain d1 m where d1: "merge_step d c = Some d1" "dd_ok e ts d1" "d1 = d\<lparr>d_map := m\<rparr>" "\<forall>x. canonical d1 x \<longleftrightarrow> canonical d x"
    using merge_step_ok [OF Cons.prems(1-3), of c] Cons.prems(4) by auto
  have "types (d_btf d1) = ts" "hyp_ok d1 (length ts)" "\<forall>c \<in> set cs. c \<in> set (hypot_list d1) \<and> bisim ts ts (hyp d1 c) c"
    using Cons.prems(2-4) by (simp_all add: d1(3) hyp_ok_def hyp_def)
  from Cons.IH [OF d1(2) this] obtain d2 m2 where d2: "merge_loop d1 cs = Some d2" "dd_ok e ts d2" "d2 = d1\<lparr>d_map := m2\<rparr>"
      "\<forall>x. canonical d2 x \<longleftrightarrow> canonical d1 x" by blast
  have "d2 = d\<lparr>d_map := m2\<rparr>" by (simp add: d2(3) d1(3))
  then show ?case using d1(1,4) d2(1,2,4) by auto
qed

section \<open>Structs and unions\<close>

text \<open>Apart from the map and the hypothetical mapping nothing changes in this phase.\<close>

definition same_graph :: "btf_type list \<Rightarrow> btf_dedup \<Rightarrow> bool" where
  "same_graph ts d \<longleftrightarrow> types (d_btf d) = ts \<and> hyp_ok d (length ts)"

lemma struct_loop_ok:
  assumes "dd_ok e ts d" "same_graph ts d" "unat i < length ts" "\<not> d_map d ! unat i \<le> BTF_MAX_NR_TYPES" "\<forall>c \<in> set cs. canonical d c"
  shows "\<exists>r d'. struct_loop e d t i cs = Some (r, d') \<and> dd_ok e ts d' \<and> same_graph ts d' \<and>
    (\<forall>v. r = Inr v \<longrightarrow> v = i \<and> \<not> d_map d' ! unat i \<le> BTF_MAX_NR_TYPES \<or> d_map d' ! unat i \<noteq> i \<and> canonical d' v \<and> bisim ts ts i v)"
  using assms
proof (induction cs arbitrary: d)
  case (Cons c cs)
  note D = dd_okD [OF Cons.prems(1)]
  have c: "canonical d c" "unat c < length ts" using Cons.prems(5) canonical_range [OF Cons.prems(1)] by simp_all
  have at: "type_at d c = Some (ts ! unat c)" using type_at_ok [OF Cons.prems(1) c(2)] Cons.prems(2) by (simp add: same_graph_def)
  show ?case
  proof (cases "btf_shallow_equal_struct t (ts ! unat c)")
    case False
    then show ?thesis using at Cons.IH [OF Cons.prems(1-4)] Cons.prems(5) by simp
  next
    case True
    obtain hm where clear: "btf_dedup_clear_hypot_map d = Some (d\<lparr>hypot_map := hm, hypot_list := []\<rparr>)"
        "hyp_ok (d\<lparr>hypot_map := hm, hypot_list := []\<rparr>) (length ts)"
      using clear_ok Cons.prems(2) by (auto simp: same_graph_def)
    define d0 where "d0 = d\<lparr>hypot_map := hm, hypot_list := []\<rparr>"
    have d0: "dd_ok e ts d0" "types (d_btf d0) = ts" "hypot_list d0 = []" "d_map d0 = d_map d" "hyp_ok d0 (length ts)"
      using Cons.prems(1,2) clear(2) hyp_okD(1) [OF clear(2)]
      by (simp_all add: d0_def same_graph_def dd_ok_def types_ok_def table_canonical_def canonical_def)
    have "card (todo (length ts) d0) \<le> card {x :: u32. unat x < length ts}" by (intro card_mono) (auto simp: todo_def intro: finite_subset [OF subset_UNIV])
    also have "\<dots> \<le> length ts"
    proof -
      have "{x :: u32. unat x < length ts} \<subseteq> of_nat ` {..<length ts}" by (auto intro!: image_eqI [of _ _ "unat _"])
      then show ?thesis using surj_card_le [of "{..<length ts}"] by (metis card_lessThan finite_lessThan)
    qed
    finally have "card (todo (length ts) d0) < Suc (length (hypot_map d0))" using hyp_okD(1) [OF d0(5)] by simp
    from is_equiv_post [OF d0(1,2,5) Cons.prems(3) c(2) this]
    obtain eq d1 where eq: "btf_dedup_is_equiv e d0 i c = Some (eq, d1)" "equiv_post ts d0 d1 {(i, c)} eq"
      by (auto simp: btf_dedup_is_equiv_def)
    then have g: "grows (length ts) d0 d1" by (simp add: equiv_post_def)
    note F = grows_frame [OF g]
    have ok1: "dd_ok e ts d1" "types (d_btf d1) = ts" using grows_dd_ok [OF g d0(1)] F d0(2) by simp_all
    then have same1: "same_graph ts d1" using F(6) by (simp add: same_graph_def)
    have map1: "d_map d1 = d_map d" using F(2) d0(4) by simp
    have run: "struct_loop e d t i (c # cs) = (if eq < 0 then Some (Inl eq, d1)
        else if eq = 0 then struct_loop e d1 t i cs else do { d \<leftarrow> btf_dedup_merge_hypot_map d1; Some (Inr c, d) })"
      using True at clear(1) eq(1) by (simp add: d0_def)
    consider "eq < 0" | "eq = 0" | "0 < eq" by linarith
    then show ?thesis
    proof cases
      case 1
      then show ?thesis using run ok1(1) same1 by simp
    next
      case 2
      have "\<forall>c \<in> set cs. canonical d1 c" using Cons.prems(5) map1 by (simp add: canonical_def)
      then show ?thesis using Cons.IH [OF ok1(1) same1 Cons.prems(3)] Cons.prems(4) map1 run 2 by simp
    next
      case 3
      have all: "\<forall>x \<in> set (hypot_list d1). checked ts d1 x" using eq(2) 3 d0(3) by (simp add: equiv_post_def)
      have pairs: "\<forall>x \<in> set (hypot_list d1). x \<in> set (hypot_list d1) \<and> bisim ts ts (hyp d1 x) x"
        using checked_bisim [OF ok1(1) F(6) all] by blast
      obtain d2 m where d2: "merge_loop d1 (hypot_list d1) = Some d2" "dd_ok e ts d2" "d2 = d1\<lparr>d_map := m\<rparr>"
          "\<forall>x. canonical d2 x \<longleftrightarrow> canonical d1 x"
        using merge_loop_ok [OF ok1 F(6) pairs] by blast
      have "bisim ts ts i c" using eq(2) 3 pairs by (auto simp: equiv_post_def related_def)
      moreover have "canonical d2 c" using d2(4) c(1) map1 by (simp add: canonical_def)
      moreover have "d_map d2 ! unat i \<noteq> i"
      proof
        assume "d_map d2 ! unat i = i"
        then have "canonical d2 i" using Cons.prems(3) dd_okD(4) [OF d2(2)] by (simp add: canonical_def)
        then have "d_map d ! unat i = i" using d2(4) map1 by (simp add: canonical_def)
        then show False using Cons.prems(4) D(10) [OF Cons.prems(3)] by simp
      qed
      moreover have "same_graph ts d2" using same1 by (simp add: d2(3) same_graph_def hyp_ok_def hyp_def)
      ultimately show ?thesis using run 3 d2(1,2) by (simp add: btf_dedup_merge_hypot_map_def)
    qed
  qed
qed simp

lemma btf_dedup_struct_type_ok:
  assumes "dd_ok e ts d" "same_graph ts d" "unat i < length ts"
  shows "\<exists>err d'. btf_dedup_struct_type e d i = Some (err, d') \<and> dd_ok e ts d' \<and> same_graph ts d'"
proof -
  have m: "map_at d i = Some (d_map d ! unat i)" by (rule map_at_ok [OF assms(1,3)])
  have t: "type_at d i = Some (ts ! unat i)" using type_at_ok [OF assms(1,3)] assms(2) by (simp add: same_graph_def)
  show ?thesis
  proof (cases "d_map d ! unat i \<le> BTF_MAX_NR_TYPES \<or> btf_kind (ts ! unat i) \<noteq> BTF_KIND_STRUCT \<and> btf_kind (ts ! unat i) \<noteq> BTF_KIND_UNION")
    case True
    then show ?thesis using assms(1,2) m t by (auto simp: btf_dedup_struct_type_def)
  next
    case False
    obtain cs where cs: "for_each_dedup_cand e d (btf_hash_struct (ts ! unat i)) = Some cs" "\<forall>c \<in> set cs. canonical d c"
      using cands_ok [OF assms(1)] by blast
    obtain r d1 where r: "struct_loop e d (ts ! unat i) i cs = Some (r, d1)" "dd_ok e ts d1" "same_graph ts d1"
        "\<forall>v. r = Inr v \<longrightarrow> v = i \<and> \<not> d_map d1 ! unat i \<le> BTF_MAX_NR_TYPES \<or> d_map d1 ! unat i \<noteq> i \<and> canonical d1 v \<and> bisim ts ts i v"
      using struct_loop_ok [OF assms _ cs(2)] False by blast
    have run: "btf_dedup_struct_type e d i = (case r of Inl eq \<Rightarrow> Some (eq, d1) | Inr new_id \<Rightarrow> map_type e d1 i (btf_hash_struct (ts ! unat i)) new_id)"
      using False m t cs(1) r(1) by (auto simp: btf_dedup_struct_type_def)
    show ?thesis
    proof (cases r)
      case (Inl eq)
      then show ?thesis using run r(2,3) by simp
    next
      case (Inr v)
      then obtain err d2 m where "map_type e d1 i (btf_hash_struct (ts ! unat i)) v = Some (err, d2)" "dd_ok e ts d2"
          "d2 = d1\<lparr>d_map := (d_map d1)[unat i := v], dedup_table := m\<rparr>"
        using map_type_link_ok [OF r(2) assms(3)] r(4) by blast
      then show ?thesis using run Inr r(3) by (simp add: same_graph_def hyp_ok_def hyp_def)
    qed
  qed
qed

lemma btf_dedup_struct_types_ok:
  assumes "dd_ok e ts d" "same_graph ts d" "ts \<noteq> []"
  shows "\<exists>err d'. btf_dedup_struct_types e d = Some (err, d') \<and> dd_ok e ts d' \<and> same_graph ts d'"
proof -
  have "\<exists>err d'. \<exists>k :: nat. for_types (btf_dedup_struct_type e) d [1..<length ts] = Some (err, d') \<and> (dd_ok e ts d' \<and> same_graph ts d')"
  proof (rule for_types_phase [where P = "\<lambda>i d'. dd_ok e ts d' \<and> same_graph ts d'"])
    fix i d1 assume h: "i < length ts" "dd_ok e ts d1 \<and> same_graph ts d1"
    have "unat (of_nat i :: u32) < length ts" using nat_id [OF dd_okD(2) [OF assms(1)] h(1)] h(1) by simp
    then show "\<exists>err d'. btf_dedup_struct_type e d1 (of_nat i) = Some (err, d') \<and> dd_ok e ts d' \<and> same_graph ts d'"
      using btf_dedup_struct_type_ok h(2) by blast
  qed (use assms in simp)
  then show ?thesis by (simp add: btf_dedup_struct_types_def type_numbers_eq [OF assms(1,3)])
qed

end
