(* ===== verification/Dedup_Ref.thy ===== *)
theory Dedup_Ref
  imports Dedup_Sound
begin

text \<open>
  The third phase of the deduplication: types that refer to other types. The recursion ends, since a type is marked as in
  progress before its references are followed; a number is only replaced by that of a bisimilar type; and when the
  phase succeeds every type is mapped.
\<close>

section \<open>Replacing a number in a type\<close>

lemma approx_slots:
  assumes "node_ok t" "approx ts t u"
  shows "remap_slots u = remap_slots t" "length (refs u) = length (refs t)"
  using assms blank_eq_slots [of t u] by (auto simp: approx_def refs_def)

lemma refs_nth: "k < length (remap_slots t) \<Longrightarrow> refs t ! k = get_slot t (remap_slots t ! k)"
  by (simp add: refs_def)

lemma approx_set:
  assumes "node_ok t" "approx ts t u" "k < length (remap_slots t)" "bisim ts ts (refs t ! k) x"
  shows "approx ts t (set_slot u (remap_slots t ! k) x)"
proof -
  let ?s = "remap_slots t ! k" and ?u = "set_slot u (remap_slots t ! k) x"
  have u: "node_ok u" "blank t = blank u" "remap_slots u = remap_slots t" using assms(2) approx_slots [OF assms(1,2)] by (simp_all add: approx_def)
  have s: "?s \<in> set (remap_slots u)" using assms(3) u(3) by simp
  have "bisim ts ts (refs t ! l) (refs ?u ! l)" if "l < length (refs t)" for l
  proof -
    have l: "l < length (remap_slots t)" using that by (simp add: refs_def)
    have "refs ?u ! l = (if l = k then x else refs u ! l)"
      using refs_nth [of l ?u] refs_nth [of l u] l u(3) get_set_slot [OF remap_slots_ok [OF u(1) s]] remap_slots_distinct [of t] assms(3)
      by (auto simp: nth_eq_iff_index_eq)
    then show ?thesis using assms(2,4) that by (auto simp: approx_def)
  qed
  then show ?thesis using u blank_set_slot [OF u(1) s, of x] by (simp add: approx_def)
qed

lemma set_type_ok:
  assumes "dd_ok e ts d" "unat i < length ts" "approx ts (ts ! unat i) u"
  shows "\<exists>d'. set_type d i u = Some d' \<and> dd_ok e ts d' \<and> d' = d\<lparr>d_btf := (d_btf d)\<lparr>types := (types (d_btf d))[unat i := u]\<rparr>\<rparr>"
proof -
  let ?d = "d\<lparr>d_btf := (d_btf d)\<lparr>types := (types (d_btf d))[unat i := u]\<rparr>\<rparr>"
  have "dd_ok e ts ?d" using assms by (auto simp: dd_ok_def types_ok_def table_canonical_def canonical_def nth_list_update)
  moreover have "set_type d i u = Some ?d" using assms(2) dd_okD(3) [OF assms(1)] by (simp add: set_type_def fault)
  ultimately show ?thesis by blast
qed

lemma cur_ref_range:
  assumes "dd_ok e ts d" "unat i < length ts" "k < length (remap_slots (ts ! unat i))"
  shows "bisim ts ts (refs (ts ! unat i) ! k) (get_slot (types (d_btf d) ! unat i) (remap_slots (ts ! unat i) ! k))"
    "unat (get_slot (types (d_btf d) ! unat i) (remap_slots (ts ! unat i) ! k)) < length ts"
proof -
  note a = dd_okD(7) [OF assms(1,2)] and node = graph_okD(1) [OF dd_okD(1) [OF assms(1)] assms(2)]
  show "bisim ts ts (refs (ts ! unat i) ! k) (get_slot (types (d_btf d) ! unat i) (remap_slots (ts ! unat i) ! k))"
    using a assms(3) refs_nth [of k "types (d_btf d) ! unat i"] approx_slots(1) [OF node a] by (simp add: approx_def refs_def)
  then show "unat (get_slot (types (d_btf d) ! unat i) (remap_slots (ts ! unat i) ! k)) < length ts" using bisim_range by blast
qed

section \<open>Marks\<close>

definition mapped :: "btf_dedup \<Rightarrow> u32 \<Rightarrow> bool" where
  "mapped d i \<longleftrightarrow> d_map d ! unat i \<le> BTF_MAX_NR_TYPES"

text \<open>Mapped types stay mapped, and marks are left alone.\<close>

definition keeps :: "nat \<Rightarrow> btf_dedup \<Rightarrow> btf_dedup \<Rightarrow> bool" where
  "keeps n d d' \<longleftrightarrow> (\<forall>i. unat i < n \<longrightarrow> (mapped d i \<longrightarrow> mapped d' i) \<and>
     (d_map d ! unat i = BTF_IN_PROGRESS_ID \<longrightarrow> d_map d' ! unat i = BTF_IN_PROGRESS_ID))"

definition fresh :: "nat \<Rightarrow> btf_dedup \<Rightarrow> u32 set" where
  "fresh n d = {i. unat i < n \<and> \<not> mapped d i \<and> d_map d ! unat i \<noteq> BTF_IN_PROGRESS_ID}"

lemma keeps_refl [simp]: "keeps n d d"
  by (simp add: keeps_def)

lemma keeps_trans: "keeps n d d' \<Longrightarrow> keeps n d' d'' \<Longrightarrow> keeps n d d''"
  by (simp add: keeps_def)

lemma keeps_map_cong: "d_map d' = d_map d \<Longrightarrow> keeps n d d'"
  by (simp add: keeps_def mapped_def)

lemma finite_fresh [simp]: "finite (fresh n d)"
  by (rule finite_subset [OF subset_UNIV]) simp

lemma in_progress_large: "\<not> BTF_IN_PROGRESS_ID \<le> BTF_MAX_NR_TYPES"
  by (simp add: BTF_IN_PROGRESS_ID_def BTF_MAX_NR_TYPES_def word_le_def)

lemma id_sint:
  assumes "unat x < n" "n \<le> 2 ^ 31"
  shows "sint (x :: u32) = int (unat x)"
proof -
  have "int (unat x) < int (2 ^ 31)" using assms by linarith
  then have "int (unat x) < 2 ^ 31" by (simp only: of_nat_power of_nat_numeral)
  then have "sint (word_of_int (int (unat x)) :: u32) = int (unat x)" by (rule sint_u32_small [rotated]) simp
  then show ?thesis by simp
qed

definition ref_post :: "dedup_env \<Rightarrow> btf_type list \<Rightarrow> btf_dedup \<Rightarrow> u32 \<Rightarrow> int \<Rightarrow> btf_dedup \<Rightarrow> bool" where
  "ref_post e ts d i r d' \<longleftrightarrow> dd_ok e ts d' \<and> keeps (length ts) d d' \<and>
     (0 \<le> r \<longrightarrow> (\<exists>x. r = sint x \<and> unat x < length ts \<and> bisim ts ts i x) \<and> mapped d' i)"

lemma fresh_keeps: "keeps n d d' \<Longrightarrow> card (fresh n d') \<le> card (fresh n d)"
  by (rule card_mono) (auto simp: fresh_def keeps_def)

section \<open>Following the references\<close>

lemma for_slots_post:
  assumes "\<And>d j. dd_ok e ts d \<Longrightarrow> unat j < length ts \<Longrightarrow> card (fresh (length ts) d) < n \<Longrightarrow>
      \<exists>r d'. f d j = Some (r, d') \<and> ref_post e ts d j r d'"
    "unat i < length ts" "dd_ok e ts d" "card (fresh (length ts) d) < n" "set ss \<subseteq> set (remap_slots (ts ! unat i))"
  shows "\<exists>r d'. for_slots f i d ss = Some (r, d') \<and> dd_ok e ts d' \<and> keeps (length ts) d d'"
  using assms(3-5)
proof (induction ss arbitrary: d)
  case (Cons s ss)
  let ?t = "ts ! unat i" and ?cur = "types (d_btf d) ! unat i"
  obtain k where k: "k < length (remap_slots ?t)" "s = remap_slots ?t ! k" using Cons.prems(3) by (auto simp: in_set_conv_nth)
  note v = cur_ref_range [OF Cons.prems(1) assms(2) k(1), folded k(2)]
  have at: "type_at d i = Some ?cur" by (rule type_at_ok [OF Cons.prems(1) assms(2)])
  obtain r d1 where r: "f d (get_slot ?cur s) = Some (r, d1)" "ref_post e ts d (get_slot ?cur s) r d1"
    using assms(1) [OF Cons.prems(1) v(2) Cons.prems(2)] by blast
  then have d1: "dd_ok e ts d1" "keeps (length ts) d d1" by (simp_all add: ref_post_def)
  show ?case
  proof (cases "r < 0")
    case True
    then show ?thesis using at r(1) d1 by simp
  next
    case False
    then obtain x where x: "r = sint x" "unat x < length ts" "bisim ts ts (get_slot ?cur s) x" using r(2) by (auto simp: ref_post_def)
    have "(word_of_int r :: u32) = x" by (simp add: x(1))
    have node: "node_ok ?t" by (rule graph_okD(1) [OF dd_okD(1) [OF Cons.prems(1)] assms(2)])
    have "bisim ts ts (refs ?t ! k) x" using v(1) x(3) by (rule bisim_trans)
    from approx_set [OF node dd_okD(7) [OF d1(1) assms(2)] k(1) this]
    obtain d2 where d2: "set_type d1 i (set_slot (types (d_btf d1) ! unat i) s x) = Some d2" "dd_ok e ts d2"
        "d2 = d1\<lparr>d_btf := (d_btf d1)\<lparr>types := (types (d_btf d1))[unat i := set_slot (types (d_btf d1) ! unat i) s x]\<rparr>\<rparr>"
      using set_type_ok [OF d1(1) assms(2)] k(2) by metis
    have k2: "keeps (length ts) d d2" using d1(2) keeps_map_cong [of d2 d1] d2(3) keeps_trans by fastforce
    then have "card (fresh (length ts) d2) < n" using fresh_keeps Cons.prems(2) by (metis le_less_trans)
    from Cons.IH [OF d2(2) this] Cons.prems(3) obtain r3 d3 where "for_slots f i d2 ss = Some (r3, d3)" "dd_ok e ts d3" "keeps (length ts) d2 d3"
      by auto
    then show ?thesis using at r(1) False type_at_ok [OF d1(1) assms(2)] d2(1) k2 keeps_trans \<open>word_of_int r = x\<close> by auto
  qed
qed auto

lemma ref_type_post:
  assumes "dd_ok e ts d" "unat i < length ts" "card (fresh (length ts) d) < n"
  shows "\<exists>r d'. ref_type n e d i = Some (r, d') \<and> ref_post e ts d i r d'"
  using assms
proof (induction n arbitrary: d i)
  case (Suc n)
  note D = dd_okD [OF Suc.prems(1)]
  have m: "map_at d i = Some (d_map d ! unat i)" by (rule map_at_ok [OF Suc.prems(1,2)])
  obtain rt where rt: "root (d_map d) i rt" "resolve_type_id d i = Some rt" "bisim ts ts i rt" "unat rt < length ts"
    using resolves [OF Suc.prems(1,2)] by blast
  let ?marked = "d_map d ! unat i = BTF_IN_PROGRESS_ID"
  show ?case
  proof (cases "?marked \<or> mapped d i")
    case True
    show ?thesis
    proof (cases ?marked)
      case True
      then show ?thesis using m Suc.prems(1) by (simp add: ref_post_def ELOOP_def)
    next
      case False
      then have "mapped d i" using True by simp
      then have "ref_type (Suc n) e d i = Some (sint rt, d)" using False m rt(2) by (simp add: mapped_def)
      then show ?thesis using Suc.prems(1) rt \<open>mapped d i\<close> by (auto simp: ref_post_def)
    qed
  next
    case new: False
    let ?d = "d\<lparr>d_map := (d_map d)[unat i := BTF_IN_PROGRESS_ID]\<rparr>" and ?t = "types (d_btf d) ! unat i"
    have mark: "set_map d i BTF_IN_PROGRESS_ID = Some ?d" "dd_ok e ts ?d"
      using mark_ok [OF Suc.prems(1,2), of BTF_IN_PROGRESS_ID] new in_progress_large by (simp_all add: mapped_def)
    have i: "unat i < length (d_map d)" using Suc.prems(2) D(4) by simp
    note at_i = nth_update_id [OF i, of BTF_IN_PROGRESS_ID]
    have keep: "keeps (length ts) d ?d" using new by (auto simp: keeps_def mapped_def at_i)
    have "fresh (length ts) d = insert i (fresh (length ts) ?d)" "i \<notin> fresh (length ts) ?d"
      using new Suc.prems(2) in_progress_large by (auto simp: fresh_def mapped_def at_i)
    then have fuel: "card (fresh (length ts) ?d) < n" using Suc.prems(3) by simp
    have at: "type_at d i = Some ?t" by (rule type_at_ok [OF Suc.prems(1,2)])
    have kind: "btf_kind ?t = btf_kind (ts ! unat i)" by (rule cur_kind [OF Suc.prems(1,2)])
    show ?thesis
    proof (cases "is_ref_kind (btf_kind ?t)")
      case False
      then have "ref_type (Suc n) e d i = Some (- EINVAL, ?d)" using new m at mark(1) by (simp add: mapped_def)
      then show ?thesis using mark(2) keep by (simp add: ref_post_def EINVAL_def)
    next
      case ref: True
      have slots: "set (ref_slots ?t) \<subseteq> set (remap_slots (ts ! unat i))"
        using ref_slots_remap [OF ref] approx_slots(1) [OF graph_okD(1) [OF D(1) Suc.prems(2)] D(7) [OF Suc.prems(2)]] by simp
      obtain r d2 where r: "for_slots (ref_type n e) i ?d (ref_slots ?t) = Some (r, d2)" "dd_ok e ts d2" "keeps (length ts) ?d d2"
        using for_slots_post [of e ts n "ref_type n e" i ?d, OF Suc.IH Suc.prems(2) mark(2) fuel slots] by auto
      note D2 = dd_okD [OF r(2)]
      have prog: "d_map d2 ! unat i = BTF_IN_PROGRESS_ID" using r(3) Suc.prems(2) at_i by (simp add: keeps_def)
      have kd: "keeps (length ts) d d2" using keep r(3) by (rule keeps_trans)
      let ?u = "types (d_btf d2) ! unat i"
      have at2: "type_at d2 i = Some ?u" by (rule type_at_ok [OF r(2) Suc.prems(2)])
      show ?thesis
      proof (cases "r < 0")
        case True
        then have "ref_type (Suc n) e d i = Some (r, d2)" using new m at mark(1) ref r(1) by (simp add: mapped_def)
        then show ?thesis using r(2) kd True by (simp add: ref_post_def)
      next
        case False
        obtain cs where cs: "for_each_dedup_cand e d2 (ref_hash ?u) = Some cs" "\<forall>c \<in> set cs. canonical d2 c"
          using cands_ok [OF r(2)] by blast
        obtain x where x: "find_cand (ref_equal ?u) d2 i cs = Some x" "x = i \<or> canonical d2 x \<and> ref_equal ?u (types (d_btf d2) ! unat x)"
          using find_cand_ok [OF r(2) cs(2)] by blast
        have kind2: "btf_kind ?u = btf_kind (ts ! unat i)" by (rule cur_kind [OF r(2) Suc.prems(2)])
        have "bisim ts ts i x" if "x \<noteq> i"
        proof -
          have c: "canonical d2 x" "ref_equal ?u (types (d_btf d2) ! unat x)" using x(2) that by auto
          then have xr: "unat x < length ts" using canonical_range [OF r(2)] by blast
          have okt: "type_ok ?u" by (rule cur_type_ok [OF r(2) Suc.prems(2)]) (use ref kind in \<open>auto simp: is_ref_kind_def\<close>)
          have "t_info ?u = t_info (types (d_btf d2) ! unat x)"
            using c(2) by (auto simp: ref_equal_def btf_equal_array_def btf_equal_fnproto_def btf_equal_common_def split: btf_kind.splits)
          then have "type_ok (types (d_btf d2) ! unat x)" using same_kind_ok cur_node [OF r(2) xr] okt by blast
          then have "?u = types (d_btf d2) ! unat x" using ref_equal_eq c(2) ref kind kind2 okt by metis
          then show ?thesis by (rule same_type_bisim [OF r(2) Suc.prems(2) xr])
        qed
        then have new_ok: "x = i \<or> canonical d2 x \<and> bisim ts ts i x" using x(2) by blast
        have "\<not> d_map d2 ! unat i \<le> BTF_MAX_NR_TYPES" using prog in_progress_large by simp
        from map_type_ok [OF r(2) Suc.prems(2) this new_ok, of "ref_hash ?u"] obtain err d3 m3 where
          d3: "map_type e d2 i (ref_hash ?u) x = Some (err, d3)" "dd_ok e ts d3" "err = 0 \<or> err = - ENOMEM"
            "d3 = d2\<lparr>d_map := (d_map d2)[unat i := x], dedup_table := m3\<rparr>" by blast
        have xr: "unat x < length ts" using new_ok Suc.prems(2) canonical_range [OF r(2)] by blast
        have i2: "unat i < length (d_map d2)" using Suc.prems(2) D2(4) by simp
        have "mapped d3 i" "keeps (length ts) d d3"
          using D(10) [OF xr] kd new nth_update_id [OF i2, of x] by (auto simp: mapped_def keeps_def d3(4))
        moreover have "bisim ts ts i x" using new_ok bisim_refl [OF D(1) Suc.prems(2)] by auto
        moreover have "ref_type (Suc n) e d i = Some (if err \<noteq> 0 then err else sint x, d3)"
          using new m at mark(1) ref r(1) False at2 cs(1) x(1) d3(1) by (simp add: mapped_def)
        ultimately show ?thesis using d3(2,3) xr by (auto simp: ref_post_def ENOMEM_def)
      qed
    qed
  qed
qed simp

text \<open>The phase: if it succeeds, every type is mapped.\<close>

lemma ref_types_loop_ok:
  assumes "dd_ok e ts d" "\<forall>i \<in> set is. i < length ts"
  shows "\<exists>err d'. ref_types_loop e d is = Some (err, d') \<and> dd_ok e ts d' \<and> keeps (length ts) d d' \<and>
    (0 \<le> err \<longrightarrow> (\<forall>i \<in> set is. mapped d' (of_nat i)))"
  using assms
proof (induction "is" arbitrary: d)
  case (Cons i "is")
  have i: "unat (of_nat i :: u32) = i" by (rule nat_id [OF dd_okD(2) [OF Cons.prems(1)]]) (use Cons.prems(2) in simp)
  have "card (fresh (length ts) d) \<le> card {x :: u32. unat x < length ts}"
    by (intro card_mono) (auto simp: fresh_def intro: finite_subset [OF subset_UNIV])
  also have "\<dots> \<le> length ts"
  proof -
    have "{x :: u32. unat x < length ts} \<subseteq> of_nat ` {..<length ts}" by (auto intro!: image_eqI [of _ _ "unat _"])
    then show ?thesis using surj_card_le [of "{..<length ts}"] by (metis card_lessThan finite_lessThan)
  qed
  finally have "card (fresh (length ts) d) < Suc (length (d_map d))" using dd_okD(4) [OF Cons.prems(1)] by simp
  moreover have "unat (of_nat i :: u32) < length ts" using Cons.prems(2) i by simp
  ultimately obtain r d1 where r: "btf_dedup_ref_type e d (of_nat i) = Some (r, d1)" "ref_post e ts d (of_nat i) r d1"
    using ref_type_post [OF Cons.prems(1)] unfolding btf_dedup_ref_type_def by blast
  show ?case
  proof (cases "r < 0")
    case True
    then show ?thesis using r by (auto simp: ref_post_def)
  next
    case False
    obtain err d2 where r2: "ref_types_loop e d1 is = Some (err, d2)" "dd_ok e ts d2" "keeps (length ts) d1 d2"
        "0 \<le> err \<longrightarrow> (\<forall>i \<in> set is. mapped d2 (of_nat i))"
      using Cons.IH [of d1] r(2) Cons.prems(2) by (auto simp: ref_post_def)
    then show ?thesis using r False keeps_trans Cons.prems(2) i by (auto simp: ref_post_def keeps_def)
  qed
qed simp

lemma table_freed: "table_ok m \<Longrightarrow> hashmap__free (Some m) = Some ()"
  by (auto simp: table_ok_def hm_ok_def hashmap__free_def hashmap__clear_def free_ptr_def split: ptr.splits)

lemma btf_dedup_ref_types_ok:
  assumes "dd_ok e ts d" "ts \<noteq> []"
  shows "\<exists>err d'. btf_dedup_ref_types e d = Some (err, d') \<and> types_ok ts d' \<and> map_ok ts (d_map d') \<and>
    hashmap__free (dedup_table d') = Some () \<and>
    (0 \<le> err \<longrightarrow> (\<forall>i. unat i < length ts \<and> i \<noteq> 0 \<longrightarrow> mapped d' i))"
proof -
  obtain err d1 where r: "ref_types_loop e d [1..<length ts] = Some (err, d1)" "dd_ok e ts d1" "keeps (length ts) d d1"
      "0 \<le> err \<longrightarrow> (\<forall>i \<in> set [1..<length ts]. mapped d1 (of_nat i))"
    using ref_types_loop_ok [OF assms(1), of "[1..<length ts]"] by auto
  obtain m where m: "dedup_table d1 = Some m" "table_ok m" using dd_okD(9) [OF r(2)] by (auto simp: table_canonical_def)
  have run: "btf_dedup_ref_types e d = (if err < 0 then Some (err, d1) else Some (0, d1\<lparr>dedup_table := None\<rparr>))"
    using r(1) m table_freed by (simp add: btf_dedup_ref_types_def type_numbers_eq [OF assms(1,2)])
  have "mapped d1 i" if "0 \<le> err" "unat i < length ts" "i \<noteq> 0" for i
  proof -
    have "unat i \<in> set [1..<length ts]" using that by (simp add: Suc_le_eq unat_gt_0)
    then have "mapped d1 (of_nat (unat i))" using r(4) that(1) by blast
    then show ?thesis by simp
  qed
  moreover have "hashmap__free None = Some ()" by (simp add: hashmap__free_def)
  ultimately show ?thesis using run r(2) m table_freed [OF m(2)] by (auto simp: dd_ok_def types_ok_def mapped_def)
qed

lemma dd_ok_freed: "dd_ok e ts d \<Longrightarrow> hashmap__free (dedup_table d) = Some ()"
  using table_freed by (auto simp: dd_ok_def table_canonical_def)

end
