(* ===== verification/Dedup_Done.thy ===== *)
theory Dedup_Done
  imports Dedup_Equiv Dedup_Ref
begin

text \<open>
  The last two phases of the deduplication, compaction and the rewriting of the numbers, and the whole: after a
  run that succeeds every old type has a new number, and the new type is bisimilar to the old one.
\<close>

section \<open>Compaction\<close>

text \<open>
  What the loop has done before type \<open>i\<close>: the first \<open>k\<close> places hold the canonical types before \<open>i\<close>, the
  hypothetical mapping says where; the types from \<open>i\<close> on are untouched. \<open>cur\<close> and \<open>m\<close> are the types and the
  map before the loop.
\<close>

definition kept :: "u32 list \<Rightarrow> u32 \<Rightarrow> bool" where
  "kept m c \<longleftrightarrow> c = 0 \<or> m ! unat c = c"

definition compacted :: "btf_type list \<Rightarrow> u32 list \<Rightarrow> nat \<Rightarrow> nat \<Rightarrow> btf_dedup \<Rightarrow> bool" where
  "compacted cur m i k d \<longleftrightarrow> d_map d = m \<and> length (types (d_btf d)) = length cur \<and> length (hypot_map d) = length cur \<and>
     1 \<le> k \<and> k \<le> i \<and> hyp d 0 = 0 \<and> (\<forall>j. i \<le> j \<and> j < length cur \<longrightarrow> types (d_btf d) ! j = cur ! j) \<and>
     (\<forall>c. unat c < i \<and> kept m c \<longrightarrow> unat (hyp d c) < k \<and> types (d_btf d) ! unat (hyp d c) = cur ! unat c) \<and>
     (\<forall>j < k. \<exists>c. unat c < i \<and> kept m c \<and> unat (hyp d c) = j)"

lemma compact_step:
  assumes "compacted cur m i k d" "i < length cur" "length cur \<le> 2 ^ 31" "length m = length cur" "1 \<le> i"
  shows "m ! i \<noteq> of_nat i \<Longrightarrow> compacted cur m (Suc i) k d"
    "m ! i = of_nat i \<Longrightarrow> compacted cur m (Suc i) (Suc k)
       (d\<lparr>hypot_map := (hypot_map d)[i := of_nat k], d_btf := (d_btf d)\<lparr>types := (types (d_btf d))[k := cur ! i]\<rparr>\<rparr>)"
proof -
  note c = assms(1) [unfolded compacted_def]
  have i: "unat (of_nat i :: u32) = i" by (rule nat_id [OF assms(3,2)])
  have ic: "unat c = i \<longleftrightarrow> c = of_nat i" for c :: u32 using i by (auto simp: word_unat_eq_iff)
  {
    assume no: "m ! i \<noteq> of_nat i"
    have "kept m c \<and> unat c < Suc i \<longleftrightarrow> kept m c \<and> unat c < i" for c
      using no ic [of c] assms(5) by (auto simp: kept_def less_Suc_eq)
    then show "compacted cur m (Suc i) k d" using c unfolding compacted_def by (metis Suc_leD le_SucI)
  next
    assume yes: "m ! i = of_nat i"
    let ?d = "d\<lparr>hypot_map := (hypot_map d)[i := of_nat k], d_btf := (d_btf d)\<lparr>types := (types (d_btf d))[k := cur ! i]\<rparr>\<rparr>"
    have k: "unat (of_nat k :: u32) = k" by (rule nat_id [OF assms(3)]) (use c assms(2) in linarith)
    have hyp: "hyp ?d x = (if unat x = i then of_nat k else hyp d x)" for x
      using c assms(2) by (auto simp: hyp_def nth_list_update)
    have "kept m (of_nat i)" using yes i by (simp add: kept_def)
    then show "compacted cur m (Suc i) (Suc k) ?d"
      unfolding compacted_def hyp using c assms(2) k i
      by (auto simp: nth_list_update less_Suc_eq)
  }
qed

lemma compact_loop_ok:
  assumes "length cur \<le> 2 ^ 31" "length m = length cur" "compacted cur m i k d" "1 \<le> i" "i \<le> length cur"
  shows "\<exists>err k' d'. compact_loop d k [i..<length cur] = Some (err, k', d') \<and> (0 \<le> err \<longrightarrow> compacted cur m (length cur) k' d')"
  using assms(3-5)
proof (induction "length cur - i" arbitrary: i k d)
  case 0
  then show ?case by auto
next
  case (Suc n)
  then have i: "i < length cur" "[i..<length cur] = i # [Suc i..<length cur]" "n = length cur - Suc i" by (simp_all add: upt_conv_Cons)
  note c = Suc.prems(1) [unfolded compacted_def]
  have u: "unat (of_nat i :: u32) = i" by (rule nat_id [OF assms(1) i(1)])
  have at: "map_at d (of_nat i) = Some (m ! i)" "type_at d (of_nat i) = Some (cur ! i)"
    using c i(1) assms(2) by (simp_all add: map_at_def type_at_def u fault)
  note step = compact_step [OF Suc.prems(1) i(1) assms(1,2) Suc.prems(2)]
  show ?case
  proof (cases "m ! i = of_nat i")
    case False
    from Suc.hyps(1) [OF i(3) step(1) [OF False]] i(1) show ?thesis using at False by (simp add: i(2))
  next
    case True
    show ?thesis
    proof (cases "btf_type_size (cur ! i) < 0")
      case True
      then show ?thesis using at \<open>m ! i = of_nat i\<close> by (simp add: i(2))
    next
      case False
      let ?d = "d\<lparr>hypot_map := (hypot_map d)[i := of_nat k], d_btf := (d_btf d)\<lparr>types := (types (d_btf d))[k := cur ! i]\<rparr>\<rparr>"
      have k: "unat (of_nat k :: u32) = k" by (rule nat_id [OF assms(1)]) (use c i(1) in linarith)
      have run: "compact_loop d k (i # [Suc i..<length cur]) = compact_loop ?d (Suc k) [Suc i..<length cur]"
        using at True False c i(1) by (simp add: fault set_type_def k)
      from Suc.hyps(1) [OF i(3) step(2) [OF True]] i(1) show ?thesis unfolding i(2) run by simp
    qed
  qed
qed

text \<open>A state before the compaction, and what is known after it.\<close>

definition phase3_done :: "btf_type list \<Rightarrow> btf_dedup \<Rightarrow> bool" where
  "phase3_done ts d \<longleftrightarrow> types_ok ts d \<and> map_ok ts (d_map d) \<and> (\<forall>i. unat i < length ts \<and> i \<noteq> 0 \<longrightarrow> mapped d i)"

definition phase4_done :: "btf_type list \<Rightarrow> btf_type list \<Rightarrow> btf_dedup \<Rightarrow> bool" where
  "phase4_done ts cur d \<longleftrightarrow> map_ok ts (d_map d) \<and> length (hypot_map d) = length ts \<and> types (d_btf d) \<noteq> [] \<and>
     length (types (d_btf d)) \<le> length ts \<and> hyp d 0 = 0 \<and>
     (\<forall>c. unat c < length ts \<and> kept (d_map d) c \<longrightarrow> unat (hyp d c) < length (types (d_btf d)) \<and>
        types (d_btf d) ! unat (hyp d c) = cur ! unat c) \<and>
     (\<forall>j < length (types (d_btf d)). \<exists>c :: u32. unat c < length ts \<and> types (d_btf d) ! j = cur ! unat c)"

lemma btf_dedup_compact_types_ok:
  assumes "phase3_done ts d" "ts \<noteq> []"
  shows "\<exists>err d'. btf_dedup_compact_types rok d = Some (err, d') \<and> (0 \<le> err \<longrightarrow> d_map d' = d_map d \<and> phase4_done ts (types (d_btf d)) d')"
proof -
  let ?cur = "types (d_btf d)" and ?m = "d_map d"
  have len: "length ?cur = length ts" "length ?m = length ts" "length (hypot_map d) = length ts" "length ts \<le> 2 ^ 31" "0 < length ts"
    using assms by (simp_all add: phase3_done_def types_ok_def map_ok_def)
  define d1 where "d1 = d\<lparr>hypot_map := 0 # replicate (length (hypot_map d) - 1) BTF_UNPROCESSED_ID\<rparr>"
  have start: "compacted ?cur ?m 1 1 d1"
    using len by (auto simp: compacted_def d1_def hyp_def unat_eq_0 kept_def intro!: exI [of _ "0 :: u32"])
  have num: "type_numbers d = [1..<length ?cur]" using len by (simp add: type_numbers_def btf__get_nr_types_def)
  have l: "length ?cur \<le> 2 ^ 31" "length ?m = length ?cur" "1 \<le> length ?cur" using len(1,2,4,5) by linarith+
  obtain err k d2 where r: "compact_loop d1 1 [1..<length ?cur] = Some (err, k, d2)" "0 \<le> err \<longrightarrow> compacted ?cur ?m (length ?cur) k d2"
    using compact_loop_ok [OF l(1,2) start _ l(3)] by auto
  show ?thesis
  proof (cases "err < 0")
    case True
    then show ?thesis using r(1) by (simp add: btf_dedup_compact_types_def num d1_def)
  next
    case False
    let ?d = "d2\<lparr>d_btf := (d_btf d2)\<lparr>types := take k (types (d_btf d2))\<rparr>\<rparr>"
    have c: "compacted ?cur ?m (length ?cur) k d2" using r(2) False by simp
    then have k: "k \<le> length (types (d_btf d2))" "1 \<le> k" by (simp_all add: compacted_def)
    have "phase4_done ts ?cur ?d" unfolding phase4_done_def
    proof (intro conjI allI impI)
      show "map_ok ts (d_map ?d)" "length (hypot_map ?d) = length ts" "types (d_btf ?d) \<noteq> []" "length (types (d_btf ?d)) \<le> length ts" "hyp ?d 0 = 0"
        using c assms(1) len k by (auto simp: compacted_def phase3_done_def hyp_def)
      show "\<exists>c :: u32. unat c < length ts \<and> types (d_btf ?d) ! j = ?cur ! unat c" if "j < length (types (d_btf ?d))" for j
      proof -
        have "j < k" using that by simp
        then obtain c' where "unat c' < length ?cur" "kept ?m c'" "unat (hyp d2 c') = j" using c by (auto simp: compacted_def)
        then show ?thesis using c \<open>j < k\<close> len(1) by (auto simp: compacted_def)
      qed
      fix c' assume "unat c' < length ts \<and> kept (d_map ?d) c'"
      then show "unat (hyp ?d c') < length (types (d_btf ?d))" "types (d_btf ?d) ! unat (hyp ?d c') = ?cur ! unat c'"
        using c k len(1) by (auto simp: compacted_def hyp_def)
    qed
    moreover have "d_map ?d = ?m" using c by (simp add: compacted_def)
    moreover have "btf_dedup_compact_types rok d = Some (if \<not> rok then - ENOMEM else 0, ?d)"
      using r(1) False by (simp add: btf_dedup_compact_types_def num d1_def)
    ultimately show ?thesis by blast
  qed
qed

section \<open>Rewriting the numbers\<close>

text \<open>The new number of an old one.\<close>

definition new_id :: "btf_dedup \<Rightarrow> u32 \<Rightarrow> u32 option" where
  "new_id d x = do { r \<leftarrow> resolve_type_id d x; arr_get (hypot_map d) (unat r) }"

lemma root_kept:
  assumes "root m x r" "length m = n" "\<forall>i :: u32. unat i < n \<and> i \<noteq> 0 \<longrightarrow> m ! unat i \<le> BTF_MAX_NR_TYPES"
  shows "kept m r"
  unfolding kept_def using root_end [OF assms(1)] assms(2,3) by blast

lemma new_id_ok:
  assumes "map_ok ts (d_map d)" "phase4_done ts cur d" "\<forall>i :: u32. unat i < length ts \<and> i \<noteq> 0 \<longrightarrow> d_map d ! unat i \<le> BTF_MAX_NR_TYPES"
    "unat x < length ts"
  shows "\<exists>r y. root (d_map d) x r \<and> new_id d x = Some y \<and> y = hyp d r \<and> unat y < length (types (d_btf d)) \<and> unat r < length ts \<and>
    types (d_btf d) ! unat y = cur ! unat r \<and> bisim ts ts x r"
proof -
  have len: "length (d_map d) = length ts" "length (hypot_map d) = length ts" using assms(1,2) by (simp_all add: map_ok_def phase4_done_def)
  obtain r where r: "root (d_map d) x r" using assms(1,4) len by (auto simp: map_ok_def chains_end_def)
  have "kept (d_map d) r" by (rule root_kept [OF r len(1) assms(3)])
  moreover have "unat r < length ts" using root_end [OF r] len(1) by simp
  ultimately show ?thesis using r assms(1,2) len resolve_root [OF r]
    by (auto simp: new_id_def phase4_done_def map_ok_def fault hyp_def)
qed

text \<open>Rewriting one type.\<close>

lemma for_slots_remap:
  assumes "\<And>s. s \<in> set ss \<Longrightarrow> \<exists>y. g (get_slot t s) = Some y \<and> unat y < 2 ^ 31" "distinct ss" "set ss \<subseteq> set (remap_slots t)"
    "node_ok t" "unat j < length (types (d_btf d))" "types (d_btf d) ! unat j = u" "blank u = blank t" "node_ok u"
    "\<forall>s \<in> set ss. get_slot u s = get_slot t s"
    "\<And>d' x y. d_map d' = d_map d \<Longrightarrow> hypot_map d' = hypot_map d \<Longrightarrow> g x = Some y \<Longrightarrow> unat y < 2 ^ 31 \<Longrightarrow> f d' x = Some (sint y, d')"
  shows "\<exists>u'. for_slots f j d ss = Some (0, d\<lparr>d_btf := (d_btf d)\<lparr>types := (types (d_btf d))[unat j := u']\<rparr>\<rparr>) \<and>
    blank u' = blank t \<and> node_ok u' \<and> (\<forall>s \<in> set (remap_slots t). get_slot u' s = (if s \<in> set ss then the (g (get_slot t s)) else get_slot u s))"
  using assms(1-3,5-10)
proof (induction ss arbitrary: d u)
  case Nil
  have "d = d\<lparr>d_btf := (d_btf d)\<lparr>types := (types (d_btf d))[unat j := u]\<rparr>\<rparr>" using Nil.prems(5) by (simp flip: Nil.prems(5))
  then show ?case using Nil.prems(6,7) by (intro exI [of _ u]) simp
next
  case (Cons s ss)
  obtain y where y: "g (get_slot t s) = Some y" "unat y < 2 ^ 31" using Cons.prems(1) [of s] by auto
  have slots: "remap_slots u = remap_slots t" using blank_eq_slots [OF Cons.prems(7) assms(4) Cons.prems(6)] by simp
  have s: "s \<in> set (remap_slots u)" "slot_ok u s" using Cons.prems(3) slots remap_slots_ok [OF Cons.prems(7), of s] by auto
  let ?u = "set_slot u s y"
  let ?d = "d\<lparr>d_btf := (d_btf d)\<lparr>types := (types (d_btf d))[unat j := ?u]\<rparr>\<rparr>"
  have at: "type_at d j = Some u" using Cons.prems(4,5) by (simp add: type_at_def fault)
  have f: "f d (get_slot u s) = Some (sint y, d)" using Cons.prems(8,9) y by simp
  have pos: "0 \<le> sint y" using id_sint [OF y(2) order_refl] by simp
  have run: "for_slots f j d (s # ss) = for_slots f j ?d ss"
    using at f pos Cons.prems(4) by (simp add: set_type_def fault)
  have "blank ?u = blank t" using blank_set_slot [OF Cons.prems(7) s(1)] Cons.prems(6) by simp
  moreover have "node_ok ?u" using Cons.prems(7) by simp
  moreover have "\<forall>s' \<in> set ss. get_slot ?u s' = get_slot t s'" using Cons.prems(2,8) get_set_slot [OF s(2)] by auto
  ultimately obtain u' where u': "for_slots f j ?d ss = Some (0, ?d\<lparr>d_btf := (d_btf ?d)\<lparr>types := (types (d_btf ?d))[unat j := u']\<rparr>\<rparr>)"
      "blank u' = blank t" "node_ok u'" "\<forall>s' \<in> set (remap_slots t). get_slot u' s' = (if s' \<in> set ss then the (g (get_slot t s')) else get_slot ?u s')"
    using Cons.IH [of ?d ?u] Cons.prems(1-4,9) by auto
  have "get_slot u' s' = (if s' \<in> set (s # ss) then the (g (get_slot t s')) else get_slot u s')" if "s' \<in> set (remap_slots t)" for s'
    using u'(4) that Cons.prems(2) y(1) get_set_slot [OF s(2)] by auto
  then show ?case using u' run by (intro exI [of _ u']) simp
qed

lemma resolve_cong: "d_map d' = d_map d \<Longrightarrow> root (d_map d) x r \<Longrightarrow> resolve_type_id d' x = resolve_type_id d x"
  using resolve_root [of d' x r] resolve_root [of d x r] by simp

lemma btf_dedup_remap_type_ok:
  assumes "map_ok ts (d_map d)" "phase4_done ts cur d" "\<forall>i :: u32. unat i < length ts \<and> i \<noteq> 0 \<longrightarrow> d_map d ! unat i \<le> BTF_MAX_NR_TYPES"
    "length ts \<le> 2 ^ 31" "node_ok t" "\<forall>r \<in> set (refs t). unat r < length ts"
    "d_map d' = d_map d" "hypot_map d' = hypot_map d" "unat j < length (types (d_btf d'))" "types (d_btf d') ! unat j = t"
  shows "btf_dedup_remap_type d' j = Some (- EINVAL, d') \<or>
    (\<exists>u. btf_dedup_remap_type d' j = Some (0, d'\<lparr>d_btf := (d_btf d')\<lparr>types := (types (d_btf d'))[unat j := u]\<rparr>\<rparr>) \<and>
       blank u = blank t \<and> node_ok u \<and> refs u = map (\<lambda>x. the (new_id d x)) (refs t))"
proof -
  have at: "type_at d' j = Some t" using assms(9,10) by (simp add: type_at_def fault)
  define g where "g x = (if unat x < length ts then new_id d x else None)" for x
  define f where "f d x = (do { r \<leftarrow> btf_dedup_remap_type_id d x; Some (r, d) })" for d :: btf_dedup and x
  have new: "\<exists>y. new_id d x = Some y \<and> unat y < 2 ^ 31" if x: "unat x < length ts" for x
  proof -
    obtain y where "new_id d x = Some y" "unat y < length (types (d_btf d))" using new_id_ok [OF assms(1-3) x] by blast
    moreover have "length (types (d_btf d)) \<le> 2 ^ 31" using assms(2,4) by (simp add: phase4_done_def)
    ultimately show ?thesis by (metis less_le_trans)
  qed
  have step: "f d2 x = Some (sint y, d2)" if h: "d_map d2 = d_map d'" "hypot_map d2 = hypot_map d'" "g x = Some y" "unat y < 2 ^ 31" for d2 x y
  proof -
    have x: "unat x < length ts" "new_id d x = Some y" using h(3) by (auto simp: g_def split: if_splits)
    obtain r where "root (d_map d) x r" using new_id_ok [OF assms(1-3) x(1)] by blast
    then have "resolve_type_id d2 x = resolve_type_id d x" by (rule resolve_cong [OF trans [OF h(1) assms(7)]])
    moreover have "\<not> BTF_MAX_NR_TYPES < y" using id_le_max [OF h(4) order_refl] by simp
    ultimately show ?thesis using x(2) h(2) assms(8) by (auto simp: f_def btf_dedup_remap_type_id_def new_id_def split: Option.bind_splits)
  qed
  have valid: "\<exists>y. g (get_slot t s) = Some y \<and> unat y < 2 ^ 31" if "s \<in> set (remap_slots t)" for s
    using new assms(6) that by (simp add: g_def refs_def)
  have "\<exists>u. for_slots f j d' (remap_slots t) = Some (0, d'\<lparr>d_btf := (d_btf d')\<lparr>types := (types (d_btf d'))[unat j := u]\<rparr>\<rparr>) \<and>
      blank u = blank t \<and> node_ok u \<and> (\<forall>s \<in> set (remap_slots t). get_slot u s = (if s \<in> set (remap_slots t) then the (g (get_slot t s)) else get_slot t s))"
    by (rule for_slots_remap [where u = t]) (use valid remap_slots_distinct assms(5,9,10) step in simp_all)
  then obtain u where u: "for_slots f j d' (remap_slots t) = Some (0, d'\<lparr>d_btf := (d_btf d')\<lparr>types := (types (d_btf d'))[unat j := u]\<rparr>\<rparr>)"
      "blank u = blank t" "node_ok u" "\<forall>s \<in> set (remap_slots t). get_slot u s = the (g (get_slot t s))" by auto
  have "refs u = map (\<lambda>x. the (new_id d x)) (refs t)"
    using blank_eq_slots [OF u(3) assms(5) u(2)] u(4) assms(6) by (auto simp: refs_def g_def)
  then show ?thesis using u(1-3) at unfolding btf_dedup_remap_type_def f_def by auto
qed

text \<open>The loop: the types before \<open>i\<close> have their new numbers, the first one is not touched.\<close>

definition remapped :: "btf_dedup \<Rightarrow> nat \<Rightarrow> btf_dedup \<Rightarrow> bool" where
  "remapped d i d' \<longleftrightarrow> (\<exists>us. d' = d\<lparr>d_btf := (d_btf d)\<lparr>types := us\<rparr>\<rparr> \<and> length us = length (types (d_btf d)) \<and>
     us ! 0 = types (d_btf d) ! 0 \<and> (\<forall>j. i \<le> j \<and> j < length us \<longrightarrow> us ! j = types (d_btf d) ! j) \<and>
     (\<forall>j. 1 \<le> j \<and> j < i \<longrightarrow> node_ok (us ! j) \<and> blank (us ! j) = blank (types (d_btf d) ! j) \<and>
        refs (us ! j) = map (\<lambda>x. the (new_id d x)) (refs (types (d_btf d) ! j))))"

lemma remap_loop_ok:
  assumes "map_ok ts (d_map d)" "phase4_done ts cur d" "\<forall>i :: u32. unat i < length ts \<and> i \<noteq> 0 \<longrightarrow> d_map d ! unat i \<le> BTF_MAX_NR_TYPES"
    "length ts \<le> 2 ^ 31" "\<forall>j < length (types (d_btf d)). node_ok (types (d_btf d) ! j) \<and> (\<forall>r \<in> set (refs (types (d_btf d) ! j)). unat r < length ts)"
    "remapped d i d'" "1 \<le> i" "i \<le> length (types (d_btf d))"
  shows "\<exists>err d''. remap_loop d' [i..<length (types (d_btf d))] = Some (err, d'') \<and> (0 \<le> err \<longrightarrow> remapped d (length (types (d_btf d))) d'')"
  using assms(6-8)
proof (induction "length (types (d_btf d)) - i" arbitrary: i d')
  case 0
  then show ?case by auto
next
  case (Suc n)
  let ?N = "length (types (d_btf d))"
  have i: "i < ?N" "[i..<?N] = i # [Suc i..<?N]" "n = ?N - Suc i" using Suc.hyps(2) by (simp_all add: upt_conv_Cons)
  have N: "?N \<le> 2 ^ 31" using assms(2,4) by (simp add: phase4_done_def)
  have u: "unat (of_nat i :: u32) = i" by (rule nat_id [OF N i(1)])
  obtain us where d': "d' = d\<lparr>d_btf := (d_btf d)\<lparr>types := us\<rparr>\<rparr>" "length us = ?N" "us ! 0 = types (d_btf d) ! 0"
      "\<forall>j. i \<le> j \<and> j < length us \<longrightarrow> us ! j = types (d_btf d) ! j"
      "\<forall>j. 1 \<le> j \<and> j < i \<longrightarrow> node_ok (us ! j) \<and> blank (us ! j) = blank (types (d_btf d) ! j) \<and>
        refs (us ! j) = map (\<lambda>x. the (new_id d x)) (refs (types (d_btf d) ! j))"
    using Suc.prems(1) unfolding remapped_def by blast
  have us_i: "us ! i = types (d_btf d) ! i" using d'(2,4) i(1) by simp
  have at: "type_at d' (of_nat i) = Some (types (d_btf d) ! i)" using d'(1,2) us_i i(1) by (simp add: type_at_def u fault)
  have node: "node_ok (types (d_btf d) ! i)" "\<forall>r \<in> set (refs (types (d_btf d) ! i)). unat r < length ts" using assms(5) i(1) by simp_all
  have loc: "d_map d' = d_map d" "hypot_map d' = hypot_map d" "unat (of_nat i :: u32) < length (types (d_btf d'))"
    "types (d_btf d') ! unat (of_nat i :: u32) = types (d_btf d) ! i" using d'(1,2) us_i i(1) u by simp_all
  from btf_dedup_remap_type_ok [OF assms(1-4) node loc] show ?case
  proof (elim disjE exE conjE)
    assume "btf_dedup_remap_type d' (of_nat i) = Some (- EINVAL, d')"
    then show ?thesis by (simp add: i(2) EINVAL_def)
  next
    fix v assume v: "btf_dedup_remap_type d' (of_nat i) = Some (0, d'\<lparr>d_btf := (d_btf d')\<lparr>types := (types (d_btf d'))[unat (of_nat i :: u32) := v]\<rparr>\<rparr>)"
      "blank v = blank (types (d_btf d) ! i)" "node_ok v" "refs v = map (\<lambda>x. the (new_id d x)) (refs (types (d_btf d) ! i))"
    let ?d = "d\<lparr>d_btf := (d_btf d)\<lparr>types := us[i := v]\<rparr>\<rparr>"
    have run: "remap_loop d' (i # [Suc i..<?N]) = remap_loop ?d [Suc i..<?N]" using v(1) by (simp add: d'(1) u)
    have "remapped d (Suc i) ?d" unfolding remapped_def
      using d'(2-5) v(2-4) i(1) Suc.prems(2) by (intro exI [of _ "us[i := v]"]) (auto simp: nth_list_update less_Suc_eq)
    from Suc.hyps(1) [OF i(3) this] i(1) show ?thesis unfolding i(2) run by simp
  qed
qed

section \<open>The whole run\<close>

text \<open>Every old type is bisimilar to the one its new number stands for.\<close>

lemma remapped_bisim:
  assumes "phase3_done ts d3" "d_map d = d_map d3" "phase4_done ts (types (d_btf d3)) d" "remapped d (length (types (d_btf d))) d'"
    "t_info (ts ! 0) = 0" "unat x < length ts" "bisim ts ts x z"
  shows "bisim ts (types (d_btf d')) x (the (new_id d z))"
  using assms(6,7)
proof (coinduction arbitrary: x z)
  case bisim
  let ?cur = "types (d_btf d3)" and ?us = "types (d_btf d')" and ?y = "the (new_id d z)"
  have ok: "types_ok ts d3" "map_ok ts (d_map d)" "\<forall>i :: u32. unat i < length ts \<and> i \<noteq> 0 \<longrightarrow> d_map d ! unat i \<le> BTF_MAX_NR_TYPES"
    using assms(1,2) by (simp_all add: phase3_done_def mapped_def)
  have g: "graph_ok ts" using ok(1) by (simp add: types_ok_def)
  note P = assms(3) [unfolded phase4_done_def]
  have z: "unat z < length ts" using bisim_range [OF bisim(2)] by simp
  obtain r where r: "new_id d z = Some ?y" "?y = hyp d r" "unat ?y < length (types (d_btf d))" "unat r < length ts"
      "types (d_btf d) ! unat ?y = ?cur ! unat r" "bisim ts ts z r"
    using new_id_ok [OF ok(2) assms(3) ok(3) z] by auto
  have xr: "bisim ts ts x r" using bisim(2) r(6) by (rule bisim_trans)
  have node: "node_ok (ts ! unat x)" "node_ok (ts ! unat r)" using graph_okD(1) [OF g] bisim(1) r(4) by simp_all
  have a: "approx ts (ts ! unat r) (?cur ! unat r)" using ok(1) r(4) by (simp add: types_ok_def)
  obtain us where us: "d' = d\<lparr>d_btf := (d_btf d)\<lparr>types := us\<rparr>\<rparr>" "length us = length (types (d_btf d))" "us ! 0 = types (d_btf d) ! 0"
      "\<forall>j. 1 \<le> j \<and> j < length (types (d_btf d)) \<longrightarrow> node_ok (us ! j) \<and> blank (us ! j) = blank (types (d_btf d) ! j) \<and>
        refs (us ! j) = map (\<lambda>x. the (new_id d x)) (refs (types (d_btf d) ! j))"
    using assms(4) unfolding remapped_def by blast
  have new: "blank (us ! unat ?y) = blank (?cur ! unat r) \<and> refs (us ! unat ?y) = map (\<lambda>x. the (new_id d x)) (refs (?cur ! unat r))"
  proof (cases "unat ?y = 0")
    case True
    have "types (d_btf d) ! 0 = ?cur ! 0" using P True r(4) by (metis kept_def le_less_trans unat_0 zero_le)
    moreover have "0 < length ts" using r(4) by linarith
    then have "approx ts (ts ! 0) (?cur ! 0)" using ok(1) by (auto simp: types_ok_def)
    moreover have "remap_slots (ts ! 0) = []" using no_info_kind [OF assms(5)] by (simp add: remap_slots_def)
    ultimately have "refs (?cur ! 0) = []"
      using approx_slots(1) [OF graph_okD(1) [OF g \<open>0 < length ts\<close>]] by (simp add: refs_def)
    then show ?thesis using us(3) r(5) True \<open>types (d_btf d) ! 0 = ?cur ! 0\<close> by simp
  next
    case False
    then show ?thesis using us(4) r(3,5) by (simp add: Suc_le_eq)
  qed
  have blank: "blank (ts ! unat x) = blank (us ! unat ?y)" using new a xr by (auto simp: approx_def elim: bisimE)
  have len: "length (refs (ts ! unat x)) = length (refs (us ! unat ?y))"
    using new approx_slots(2) [OF node(2) a] xr by (auto elim: bisimE)
  have edge: "bisim ts ts (refs (ts ! unat x) ! k) (refs (?cur ! unat r) ! k)" if "k < length (refs (ts ! unat x))" for k
  proof -
    have "bisim ts ts (refs (ts ! unat x) ! k) (refs (ts ! unat r) ! k)" "k < length (refs (ts ! unat r))"
      using xr that by (auto elim: bisimE)
    then show ?thesis using a bisim_trans by (auto simp: approx_def)
  qed
  have "\<exists>z'. refs (us ! unat ?y) ! k = the (new_id d z') \<and> unat (refs (ts ! unat x) ! k) < length ts \<and> bisim ts ts (refs (ts ! unat x) ! k) z'"
    if k: "k < length (refs (ts ! unat x))" for k
    using edge [OF k] bisim_range [OF edge [OF k]] new len k by (intro exI [of _ "refs (?cur ! unat r) ! k"]) auto
  then show ?case using bisim(1) r(3) us(1,2) blank len by auto
qed

text \<open>The start.\<close>

lemma btf_dedup_new_ok:
  assumes "btf_dedup_new ok1 ok2 ok3 ok4 b opts = Some (Inr d)" "graph_ok (types b)" "types b \<noteq> []" "length (types b) \<le> 2 ^ 31"
    "opts = Some os" "o_dont_resolve_fwds os"
  shows "dd_ok e (types b) d" "same_graph (types b) d"
    "\<forall>j < length (types b). prim_kind (btf_kind (types b ! j)) \<longrightarrow> j = 0 \<or> \<not> d_map d ! j \<le> BTF_MAX_NR_TYPES"
proof -
  let ?ts = "types b" and ?h = "if o_table_size os = 1 then btf_dedup_collision_hash_fn else btf_dedup_identity_hash_fn"
  let ?self = "\<lambda>i. btf_is_var (types b ! i) \<or> btf_is_datasec (types b ! i)"
  define m where "m = 0 # map (\<lambda>i. if ?self i then of_nat i else BTF_UNPROCESSED_ID) [1..<length ?ts]"
  define tbl where "tbl = (hashmap__init ?h btf_dedup_equal_fn () :: cand_map)"
  have nr: "Suc (btf__get_nr_types b) = length ?ts" using assms(3) by (simp add: btf__get_nr_types_def)
  have d: "d = \<lparr>d_btf = b, dedup_table = Some tbl, d_map = m, hypot_map = replicate (length ?ts) BTF_UNPROCESSED_ID,
      hypot_list = [], hypot_cap = 0, dont_resolve_fwds = True\<rparr>"
    using assms(1,5,6) by (simp add: btf_dedup_new_def hashmap__new_def Let_def nr m_def tbl_def split: if_splits Option.bind_splits)
  have len: "length m = length ?ts" using assms(3) by (simp add: m_def)
  have at: "m ! unat i = (if i = 0 then 0 else if ?self (unat i) then i else BTF_UNPROCESSED_ID)" if "unat i < length ?ts" for i :: u32
  proof (cases "i = 0")
    case False
    then have "0 < unat i" by (simp add: unat_gt_0)
    then have "m ! unat i = (if ?self (unat i) then of_nat (unat i) else BTF_UNPROCESSED_ID)"
      using that by (simp add: m_def nth_Cons' )
    then show ?thesis using False by simp
  qed (simp add: m_def)
  have root: "root m i i" if "unat i < length ?ts" for i
    using that at [OF that] unprocessed_large len by (intro root.here) auto
  have "map_ok ?ts m" unfolding map_ok_def chains_end_def
  proof (intro conjI allI impI)
    show "bisim ?ts ?ts i r" if "root m i r" for i r
      using root_unique [OF that root] root_range [OF that] len bisim_refl [OF assms(2)] by simp
  qed (use len root in auto)
  moreover have "table_ok tbl" "\<forall>h. the (table_cands e tbl h) = []"
  proof -
    have eq: "keys_eq tbl = (\<lambda>a b. btf_dedup_equal_fn a b ())" by (simp add: keys_eq_def tbl_def hashmap__init_def fun_eq_iff)
    have "key_hash (\<lambda>k. ?h k ()) (\<lambda>a b. btf_dedup_equal_fn a b ())"
      using btf_keys.key_hash_axioms btf_collision_keys.key_hash_axioms by simp
    then have "hm_ok tbl" using eq by (simp add: hm_ok_def) (simp add: tbl_def hashmap__init_def)
    then show "table_ok tbl" by (simp add: table_ok_def eq btf_dedup_equal_fn_def)
    then show "\<forall>h. the (table_cands e tbl h) = []" by (simp add: table_cands_view) (simp add: hm_view_def tbl_def hashmap__init_def)
  qed
  moreover have "approx ?ts (?ts ! i) (?ts ! i)" if "i < length ?ts" for i
    using graph_okD(1) [OF assms(2) that] bisim_refl [OF assms(2) graph_okD(2) [OF assms(2) that]] by (simp add: approx_def)
  ultimately show "dd_ok e ?ts d"
    using assms(2,4) by (auto simp: d dd_ok_def types_ok_def table_canonical_def)
  show "same_graph ?ts d" by (simp add: d same_graph_def hyp_ok_def hyp_def)
  show "\<forall>j < length ?ts. prim_kind (btf_kind (?ts ! j)) \<longrightarrow> j = 0 \<or> \<not> d_map d ! j \<le> BTF_MAX_NR_TYPES"
  proof (intro allI impI)
    fix j assume j: "j < length ?ts" "prim_kind (btf_kind (?ts ! j))"
    then have "\<not> ?self j" by (auto simp: prim_kind_def btf_is_var_def btf_is_datasec_def)
    then show "j = 0 \<or> \<not> d_map d ! j \<le> BTF_MAX_NR_TYPES"
      using at [of "of_nat j"] nat_id [OF assms(4) j(1)] j(1) unprocessed_large by (auto simp: d split: if_splits)
  qed
qed

section \<open>The last two phases leave the hash table alone\<close>

lemma set_type_table: "set_type d i t = Some d' \<Longrightarrow> dedup_table d' = dedup_table d"
  by (auto simp: set_type_def split: Option.bind_splits)

lemma compact_loop_table: "compact_loop d k ks = Some (err, k', d') \<Longrightarrow> dedup_table d' = dedup_table d"
proof (induction ks arbitrary: d k)
  case (Cons i ks)
  then obtain m where m: "map_at d (of_nat i) = Some m" by (auto split: Option.bind_splits)
  show ?case
  proof (cases "m = of_nat i")
    case False
    then show ?thesis using Cons m by simp
  next
    case True
    then obtain t where t: "type_at d (of_nat i) = Some t" using Cons.prems m by (auto split: Option.bind_splits)
    show ?thesis
    proof (cases "btf_type_size t < 0")
      case neg: False
      then obtain hm d1 where r: "set_type (d\<lparr>hypot_map := hm\<rparr>) (of_nat k) t = Some d1" "compact_loop d1 (Suc k) ks = Some (err, k', d')"
        using Cons.prems m t True by (auto split: Option.bind_splits)
      then show ?thesis using set_type_table [OF r(1)] Cons.IH [OF r(2)] by simp
    qed (use Cons.prems m t True in auto)
  qed
qed simp

lemma compact_types_table: "btf_dedup_compact_types rok d = Some (err, d') \<Longrightarrow> dedup_table d' = dedup_table d"
  by (auto simp: btf_dedup_compact_types_def Let_def dest!: compact_loop_table split: Option.bind_splits if_splits)

lemma remap_slots_table:
  "for_slots (\<lambda>d i. do { r \<leftarrow> btf_dedup_remap_type_id d i; Some (r, d) }) i d ss = Some (err, d') \<Longrightarrow> dedup_table d' = dedup_table d"
  by (induction ss arbitrary: d) (auto dest!: set_type_table split: Option.bind_splits if_splits)

lemma remap_type_table: "btf_dedup_remap_type d i = Some (err, d') \<Longrightarrow> dedup_table d' = dedup_table d"
  unfolding btf_dedup_remap_type_def by (auto dest!: remap_slots_table split: Option.bind_splits if_splits)

lemma remap_loop_table: "remap_loop d ks = Some (err, d') \<Longrightarrow> dedup_table d' = dedup_table d"
  by (induction ks arbitrary: d) (auto dest!: remap_type_table split: Option.bind_splits if_splits)

section \<open>All phases\<close>

lemma prim_void: "t_info t = 0 \<Longrightarrow> \<not> prim_kind (btf_kind t)"
  by (simp add: no_info_kind prim_kind_def)

lemma phases_ok:
  assumes "dd_ok e ts d" "same_graph ts d" "ts \<noteq> []" "t_info (ts ! 0) = 0"
    "\<forall>j < length ts. prim_kind (btf_kind (ts ! j)) \<longrightarrow> j = 0 \<or> \<not> d_map d ! j \<le> BTF_MAX_NR_TYPES"
  shows "\<exists>err d'. btf_dedup_types e rok d = Some (err, d') \<and> hashmap__free (dedup_table d') = Some () \<and>
    (0 \<le> err \<longrightarrow> types (d_btf d') \<noteq> [] \<and> length (types (d_btf d')) \<le> length ts \<and>
       (\<forall>x. unat x < length ts \<longrightarrow> (\<exists>y. new_id d' x = Some y \<and> bisim ts (types (d_btf d')) x y)))"
proof -
  have prim: "\<forall>j < length ts. prim_kind (btf_kind (ts ! j)) \<longrightarrow> \<not> d_map d ! j \<le> BTF_MAX_NR_TYPES"
    using assms(4,5) prim_void by (metis gr0I)
  obtain e1 d1 where r1: "btf_dedup_prim_types e d = Some (e1, d1)" "dd_ok e ts d1" "d_btf d1 = d_btf d" "hypot_map d1 = hypot_map d"
      "hypot_list d1 = hypot_list d"
    using btf_dedup_prim_types_ok [OF assms(1,3) prim] by blast
  have s1: "same_graph ts d1" using assms(2) r1(3-5) by (simp add: same_graph_def hyp_ok_def hyp_def)
  obtain e2 d2 where r2: "btf_dedup_struct_types e d1 = Some (e2, d2)" "dd_ok e ts d2"
    using btf_dedup_struct_types_ok [OF r1(2) s1 assms(3)] by blast
  obtain e3 d3 where r3: "btf_dedup_ref_types e d2 = Some (e3, d3)" "types_ok ts d3" "map_ok ts (d_map d3)" "hashmap__free (dedup_table d3) = Some ()"
      "0 \<le> e3 \<longrightarrow> (\<forall>i. unat i < length ts \<and> i \<noteq> 0 \<longrightarrow> mapped d3 i)"
    using btf_dedup_ref_types_ok [OF r2(2) assms(3)] by blast
  show ?thesis
  proof (cases "0 \<le> e1 \<and> 0 \<le> e2 \<and> 0 \<le> e3")
    case True
    then have p3: "phase3_done ts d3" using r3(2,3,5) by (simp add: phase3_done_def)
    obtain e4 d4 where r4: "btf_dedup_compact_types rok d3 = Some (e4, d4)"
        "0 \<le> e4 \<longrightarrow> d_map d4 = d_map d3 \<and> phase4_done ts (types (d_btf d3)) d4"
      using btf_dedup_compact_types_ok [OF p3 assms(3)] by blast
    show ?thesis
    proof (cases "0 \<le> e4")
      case False
      then show ?thesis using True r1(1) r2(1) r3(1,4) r4(1) compact_types_table [OF r4(1)] by (simp add: btf_dedup_types_def and_then_def)
    next
      case pos: True
      let ?cur = "types (d_btf d3)" and ?N = "length (types (d_btf d4))"
      have p4: "phase4_done ts ?cur d4" and m: "d_map d4 = d_map d3" using r4(2) pos by simp_all
      have mo: "map_ok ts (d_map d4)" "\<forall>i :: u32. unat i < length ts \<and> i \<noteq> 0 \<longrightarrow> d_map d4 ! unat i \<le> BTF_MAX_NR_TYPES"
        using p3 by (simp_all add: m phase3_done_def mapped_def)
      have le: "length ts \<le> 2 ^ 31" and g: "graph_ok ts" using r3(2) by (simp_all add: types_ok_def)
      have nodes: "\<forall>j < ?N. node_ok (types (d_btf d4) ! j) \<and> (\<forall>r \<in> set (refs (types (d_btf d4) ! j)). unat r < length ts)"
      proof (intro allI impI)
        fix j assume "j < ?N"
        then obtain c :: u32 where c: "unat c < length ts" "types (d_btf d4) ! j = ?cur ! unat c" using p4 unfolding phase4_done_def by blast
        have a: "approx ts (ts ! unat c) (?cur ! unat c)" using r3(2) c(1) by (simp add: types_ok_def)
        have "unat r < length ts" if "r \<in> set (refs (?cur ! unat c))" for r
        proof -
          obtain k where k: "k < length (refs (?cur ! unat c))" "r = refs (?cur ! unat c) ! k" using \<open>r \<in> set _\<close> by (auto simp: in_set_conv_nth)
          then have "bisim ts ts (refs (ts ! unat c) ! k) r"
            using a approx_slots(2) [OF graph_okD(1) [OF g c(1)] a] by (simp add: approx_def)
          then show ?thesis using bisim_range by blast
        qed
        then show "node_ok (types (d_btf d4) ! j) \<and> (\<forall>r \<in> set (refs (types (d_btf d4) ! j)). unat r < length ts)"
          using a c(2) by (auto simp: approx_def)
      qed
      have N: "1 \<le> ?N" using p4 by (simp add: phase4_done_def Suc_le_eq)
      have "remapped d4 1 d4" unfolding remapped_def by (intro exI [of _ "types (d_btf d4)"]) auto
      from remap_loop_ok [OF mo(1) p4 mo(2) le nodes this _ N] obtain e5 d5 where
        r5: "remap_loop d4 [1..<?N] = Some (e5, d5)" "0 \<le> e5 \<longrightarrow> remapped d4 ?N d5" by auto
      have "Suc (?N - 1) = ?N" using N by simp
      then have num: "type_numbers d4 = [1..<?N]" by (simp only: type_numbers_def btf__get_nr_types_def)
      have run: "btf_dedup_types e rok d = Some (e5, d5)"
        using True pos r1(1) r2(1) r3(1) r4(1) r5(1) by (simp add: btf_dedup_types_def and_then_def btf_dedup_remap_types_def num)
      have "types (d_btf d5) \<noteq> [] \<and> length (types (d_btf d5)) \<le> length ts \<and>
          (\<forall>x. unat x < length ts \<longrightarrow> (\<exists>y. new_id d5 x = Some y \<and> bisim ts (types (d_btf d5)) x y))" if "0 \<le> e5"
      proof (intro conjI allI impI)
        have rm: "remapped d4 ?N d5" using r5(2) that by simp
        then obtain us where us: "d5 = d4\<lparr>d_btf := (d_btf d4)\<lparr>types := us\<rparr>\<rparr>" "length us = ?N" unfolding remapped_def by blast
        show "types (d_btf d5) \<noteq> []" "length (types (d_btf d5)) \<le> length ts" using us N p4 by (auto simp: phase4_done_def)
        fix x :: u32 assume x: "unat x < length ts"
        obtain r y where y: "root (d_map d4) x r" "new_id d4 x = Some y" using new_id_ok [OF mo(1) p4 mo(2) x] by blast
        have "resolve_type_id d5 x = resolve_type_id d4 x" by (rule resolve_cong [OF _ y(1)]) (simp add: us(1))
        then have "new_id d5 x = Some y" using y(2) us(1) by (simp add: new_id_def)
        moreover have "bisim ts (types (d_btf d5)) x (the (new_id d4 x))"
          by (rule remapped_bisim [OF p3 m p4 rm assms(4) x bisim_refl [OF g x]])
        ultimately show "\<exists>y. new_id d5 x = Some y \<and> bisim ts (types (d_btf d5)) x y" using y(2) by auto
      qed
      moreover have "hashmap__free (dedup_table d5) = Some ()"
        using r3(4) compact_types_table [OF r4(1)] remap_loop_table [OF r5(1)] by simp
      ultimately show ?thesis using run by blast
    qed
  next
    case False
    then show ?thesis using r1(1) r2(1) r3(1,4) dd_ok_freed [OF r1(2)] dd_ok_freed [OF r2(2)]
      by (auto simp: btf_dedup_types_def and_then_def)
  qed
qed

section \<open>The property\<close>

text \<open>C37. Deduplication without resolving forward declarations preserves the type graph: on every well-formed table it returns
  (no access outside an array, no endless chain or recursion), and if it reports success then every old type has a new number whose
  type, with everything reachable from it, is indistinguishable from the old one.\<close>

theorem dedup_preserves_graph:
  assumes "btf_dedup_new ok1 ok2 ok3 ok4 b (Some os) = Some (Inr d)" "o_dont_resolve_fwds os"
    "graph_ok (types b)" "types b \<noteq> []" "length (types b) \<le> 2 ^ 31" "t_info (types b ! 0) = 0"
  shows "\<exists>err d'. btf_dedup_types e rok d = Some (err, d') \<and>
    (0 \<le> err \<longrightarrow> types (d_btf d') \<noteq> [] \<and> length (types (d_btf d')) \<le> length (types b) \<and>
      (\<forall>x. unat x < length (types b) \<longrightarrow> (\<exists>y. new_id d' x = Some y \<and> bisim (types b) (types (d_btf d')) x y)))"
  using btf_dedup_new_ok [OF assms(1,3-5) refl assms(2)] phases_ok [of e "types b" d rok] assms(4,6) by blast

text \<open>A machine on which every allocation succeeds, and a table that holds every type twice.\<close>

definition ample :: dedup_env where
  "ample = \<lparr>env_shift = (\<lambda>_. 0), env_grow = (\<lambda>_ _. True), env_entry = (\<lambda>_. True), env_list = (\<lambda>_. True)\<rparr>"

definition run_dedup :: "btf \<Rightarrow> bool \<Rightarrow> (int \<times> btf_dedup) option" where
  "run_dedup b no_fwds = do {
     r \<leftarrow> btf_dedup_new True True True True b (Some \<lparr>o_table_size = 0, o_dont_resolve_fwds = no_fwds\<rparr>);
     case r of Inl err \<Rightarrow> None | Inr d \<Rightarrow> btf_dedup_types ample True d
   }"

definition twice :: btf where
  "twice = \<lparr>types = [btf_void, \<lparr>t_name_off = 1, t_info = 0x01000000, t_size = 4, t_extra = [0x20]\<rparr>,
     \<lparr>t_name_off = 0, t_info = 0x02000000, t_size = 1, t_extra = []\<rparr>,
     \<lparr>t_name_off = 5, t_info = 0x04000001, t_size = 8, t_extra = [9, 2, 0]\<rparr>,
     \<lparr>t_name_off = 1, t_info = 0x01000000, t_size = 4, t_extra = [0x20]\<rparr>,
     \<lparr>t_name_off = 0, t_info = 0x02000000, t_size = 4, t_extra = []\<rparr>,
     \<lparr>t_name_off = 5, t_info = 0x04000001, t_size = 8, t_extra = [9, 5, 0]\<rparr>], strs = []\<rparr>"

lemma twice_new: "\<exists>d. btf_dedup_new True True True True twice (Some \<lparr>o_table_size = 0, o_dont_resolve_fwds = True\<rparr>) = Some (Inr d)"
  by (simp add: btf_dedup_new_def hashmap__new_def Let_def)

lemma twice_ok: "graph_ok (types twice)" "types twice \<noteq> []" "length (types twice) = 7" "t_info (types twice ! 0) = 0"
  by code_simp+

lemma twice_run: "map_option (\<lambda>(err, d). (err, length (types (d_btf d)))) (run_dedup twice True) = Some (0, 4)"
  by code_simp

theorem dedup_preserves_graph_witness:
  "\<exists>d d'. btf_dedup_new True True True True twice (Some \<lparr>o_table_size = 0, o_dont_resolve_fwds = True\<rparr>) = Some (Inr d) \<and>
    btf_dedup_types ample True d = Some (0, d') \<and> length (types (d_btf d')) = 4 \<and>
    (\<exists>y. new_id d' 6 = Some y \<and> bisim (types twice) (types (d_btf d')) 6 y)"
proof -
  obtain d where d: "btf_dedup_new True True True True twice (Some \<lparr>o_table_size = 0, o_dont_resolve_fwds = True\<rparr>) = Some (Inr d)"
    using twice_new by blast
  obtain d' where d': "btf_dedup_types ample True d = Some (0, d')" "length (types (d_btf d')) = 4"
    using twice_run by (auto simp: run_dedup_def d)
  then have "\<exists>y. new_id d' 6 = Some y \<and> bisim (types twice) (types (d_btf d')) 6 y"
    using dedup_preserves_graph [OF d, of ample True] by (auto simp: twice_ok)
  then show ?thesis using d d' by blast
qed

section \<open>Forward declarations\<close>

text \<open>
  With resolution of forward declarations the graph is not preserved. The comparison resolves a forward declaration on the side of the
  canonical type only; on the other side only the names and kinds of the two types are compared, but the merge then follows the
  declaration to its struct and maps that struct, which nothing compared.
\<close>

text \<open>C38. With forward declarations resolved, a declaration that already stands for a struct \<open>s2\<close> is found equivalent to any struct \<open>s\<close> of its
  name, and the merge maps \<open>s2\<close> to \<open>s\<close>, whatever the members of the two are.\<close>

theorem resolved_fwd_merges_unchecked:
  assumes "\<not> dont_resolve_fwds d" "hypot_list d = []" "0 < hypot_cap d" "length (hypot_map d) = length (d_map d)"
    "length (types (d_btf d)) = length (d_map d)"
    "unat f < length (d_map d)" "unat s < length (d_map d)" "unat s2 < length (d_map d)" "s2 \<noteq> s" "s2 \<noteq> f" "s \<noteq> f"
    "btf_kind (types (d_btf d) ! unat f) = BTF_KIND_FWD" "\<not> btf_kflag (types (d_btf d) ! unat f)"
    "btf_kind (types (d_btf d) ! unat s) = BTF_KIND_STRUCT" "btf_kind (types (d_btf d) ! unat s2) = BTF_KIND_STRUCT"
    "t_name_off (types (d_btf d) ! unat f) = t_name_off (types (d_btf d) ! unat s)"
    "d_map d ! unat f = s2" "s2 \<le> BTF_MAX_NR_TYPES" "d_map d ! unat s2 = BTF_UNPROCESSED_ID" "d_map d ! unat s = s" "s \<le> BTF_MAX_NR_TYPES"
    "hypot_map d ! unat s = BTF_UNPROCESSED_ID"
  shows "\<exists>d1 d2. btf_dedup_is_equiv e d f s = Some (1, d1) \<and> btf_dedup_merge_hypot_map d1 = Some d2 \<and>
    d_map d2 = (d_map d)[unat s2 := s]"
proof -
  let ?d = "d\<lparr>hypot_list := [s], hypot_map := (hypot_map d)[unat s := f]\<rparr>"
  have root: "root (d_map d) s s" "root (d_map d) s2 s2" "root (d_map d) f s2"
    using assms unprocessed_large by (auto intro!: root.here root.next_id [of f])
  have res: "resolve_type_id x s = Some s" "resolve_type_id x s2 = Some s2" "resolve_type_id x f = Some s2" if "d_map x = d_map d" for x
    using root that resolve_root by metis+
  have "btf_dedup_is_equiv e d f s = Some (1, ?d)"
    using assms unprocessed_large
    by (simp add: btf_dedup_is_equiv_def res resolve_fwd_id_def type_at_def btf_is_fwd_def btf_dedup_hypot_map_add_def equiv_node_def btf_fwd_kind_def fault Let_def)
  moreover have "btf_dedup_merge_hypot_map ?d = Some (?d\<lparr>d_map := (d_map d)[unat s2 := s]\<rparr>)"
    using assms unprocessed_large
    by (simp add: btf_dedup_merge_hypot_map_def merge_step_def res type_at_def is_type_mapped_def map_at_def set_map_def fault Let_def)
  ultimately show ?thesis by fastforce
qed

definition clash :: btf_dedup where
  "clash = \<lparr>d_btf = \<lparr>types = [btf_void, \<lparr>t_name_off = 1, t_info = 0x01000000, t_size = 4, t_extra = [0x20]\<rparr>,
      \<lparr>t_name_off = 5, t_info = 0x04000001, t_size = 4, t_extra = [9, 1, 0]\<rparr>,
      \<lparr>t_name_off = 5, t_info = 0x07000000, t_size = 0, t_extra = []\<rparr>,
      \<lparr>t_name_off = 5, t_info = 0x04000001, t_size = 4, t_extra = [11, 1, 0]\<rparr>], strs = []\<rparr>,
     dedup_table = None, d_map = [0, 1, 2, 4, BTF_UNPROCESSED_ID], hypot_map = replicate 5 BTF_UNPROCESSED_ID,
     hypot_list = [], hypot_cap = 16, dont_resolve_fwds = False\<rparr>"

theorem resolved_fwd_merges_unchecked_witness:
  "(\<forall>e. \<exists>d1 d2. btf_dedup_is_equiv e clash 3 2 = Some (1, d1) \<and> btf_dedup_merge_hypot_map d1 = Some d2 \<and> d_map d2 = [0, 1, 2, 4, 2]) \<and>
    \<not> btf_shallow_equal_struct (types (d_btf clash) ! 4) (types (d_btf clash) ! 2)"
proof (intro conjI allI)
  show "\<exists>d1 d2. btf_dedup_is_equiv e clash 3 2 = Some (1, d1) \<and> btf_dedup_merge_hypot_map d1 = Some d2 \<and> d_map d2 = [0, 1, 2, 4, 2]" for e
    using resolved_fwd_merges_unchecked [of clash 3 2 4 e]
    by (simp add: clash_def btf_kind_def btf_kinds_def BTF_INFO_KIND_def btf_kflag_def BTF_INFO_KFLAG_def BTF_MAX_NR_TYPES_def)
  show "\<not> btf_shallow_equal_struct (types (d_btf clash) ! 4) (types (d_btf clash) ! 2)" by code_simp
qed

text \<open>A whole run over twelve types: types 2 and 11 are structs of the same name with different members; they become one.\<close>

definition two_foos :: btf where
  "two_foos =
     (let ptr = (\<lambda>x. \<lparr>t_name_off = 0, t_info = 0x02000000, t_size = x, t_extra = []\<rparr>);
          struct = (\<lambda>name bytes mname mtype. \<lparr>t_name_off = name, t_info = 0x04000001, t_size = bytes, t_extra = [mname, mtype, 0]\<rparr>) in
      \<lparr>types = [btf_void, \<lparr>t_name_off = 1, t_info = 0x01000000, t_size = 4, t_extra = [0x20]\<rparr>,
         struct 5 4 13 1, ptr 2, struct 11 8 17 3,
         \<lparr>t_name_off = 5, t_info = 0x07000000, t_size = 0, t_extra = []\<rparr>, ptr 5, struct 9 8 17 6,
         ptr 11, struct 9 8 17 8, struct 11 8 17 6, struct 5 4 15 1], strs = []\<rparr>)"

lemma two_foos_run:
  "map_option (\<lambda>(err, d). (err, new_id d 2, new_id d 11, map m_name_off (btf_members (types (d_btf d) ! 2)))) (run_dedup two_foos False) =
    Some (0, Some 2, Some 2, [13])"
  "map m_name_off (btf_members (types two_foos ! 11)) = [15]"
  by code_simp+

end
