(* ===== verification/Dedup_Strings.thy ===== *)
theory Dedup_Strings
  imports Dedup_Done Btf_Ext "HOL-Library.List_Lexorder" "HOL-Library.Multiset"
begin

text \<open>
  libbpf/src/btf.c, \<open>btf_dedup_strings\<close>: the strings of a BTF section that no type and no line information refers
  to are dropped, the others are kept once, and every reference is rewritten. A pointer to a string is its
  offset in the section; a string entry whose new offset was never written has \<^term>\<open>None\<close> there, and
  reading it is a fault. \<open>qsort\<close> by content is an argument, since it may order equal strings in any way.
\<close>

section \<open>Places that hold the offset of a string\<close>

text \<open>A callback gets an offset and returns its code, the offset that is now in the place, and its context.\<close>

type_synonym 'c str_off_fn = "'c \<Rightarrow> u32 \<Rightarrow> (int \<times> u32 \<times> 'c) option"

definition name_places :: "btf_type \<Rightarrow> nat list" where
  "name_places t = (case btf_kind t of
     BTF_KIND_STRUCT \<Rightarrow> map (\<lambda>j. 3 * j) [0..<btf_vlen t]
   | BTF_KIND_UNION \<Rightarrow> map (\<lambda>j. 3 * j) [0..<btf_vlen t]
   | BTF_KIND_ENUM \<Rightarrow> map (\<lambda>j. 2 * j) [0..<btf_vlen t]
   | BTF_KIND_FUNC_PROTO \<Rightarrow> map (\<lambda>j. 2 * j) [0..<btf_vlen t]
   | _ \<Rightarrow> [])"

fun members_str_off :: "'c str_off_fn \<Rightarrow> 'c \<Rightarrow> btf_type \<Rightarrow> nat list \<Rightarrow> (int \<times> btf_type \<times> 'c) option" where
  "members_str_off fn c t [] = Some (0, t, c)"
| "members_str_off fn c t (j # js) = do {
     off \<leftarrow> arr_get (t_extra t) j;
     (r, off, c) \<leftarrow> fn c off;
     let t = t\<lparr>t_extra := (t_extra t)[j := off]\<rparr>;
     if r \<noteq> 0 then Some (r, t, c) else members_str_off fn c t js
   }"

fun types_str_off :: "'c str_off_fn \<Rightarrow> 'c \<Rightarrow> btf_type list \<Rightarrow> nat list \<Rightarrow> (int \<times> btf_type list \<times> 'c) option" where
  "types_str_off fn c ts [] = Some (0, ts, c)"
| "types_str_off fn c ts (i # is) = do {
     t \<leftarrow> arr_get ts i;
     (r, off, c) \<leftarrow> fn c (t_name_off t);
     let t = t\<lparr>t_name_off := off\<rparr>;
     if r \<noteq> 0 then Some (r, ts[i := t], c)
     else do {
       (r, t, c) \<leftarrow> members_str_off fn c t (name_places t);
       if r \<noteq> 0 then Some (r, ts[i := t], c) else types_str_off fn c (ts[i := t]) is
     }
   }"

text \<open>The records of one ELF section: the offsets of the file name and of the line are their second and third words.\<close>

fun recs_str_off :: "'c str_off_fn \<Rightarrow> 'c \<Rightarrow> bytes \<Rightarrow> nat \<Rightarrow> nat \<Rightarrow> nat \<Rightarrow> (int \<times> bytes \<times> 'c) option" where
  "recs_str_off fn c m rec_size cur 0 = Some (0, m, c)"
| "recs_str_off fn c m rec_size cur (Suc n) = do {
     off \<leftarrow> load32 m (cur + 4);
     (r, off, c) \<leftarrow> fn c off;
     m \<leftarrow> store32 m (cur + 4) off;
     if r \<noteq> 0 then Some (r, m, c)
     else do {
       off \<leftarrow> load32 m (cur + 8);
       (r, off, c) \<leftarrow> fn c off;
       m \<leftarrow> store32 m (cur + 8) off;
       if r \<noteq> 0 then Some (r, m, c) else recs_str_off fn c m rec_size (cur + rec_size) n
     }
   }"

text \<open>
  The record size is an \<open>int\<close> in the code; a section whose records have 2 GB or more is outside of the model.
\<close>

function lines_str_off :: "'c str_off_fn \<Rightarrow> 'c \<Rightarrow> bytes \<Rightarrow> nat \<Rightarrow> nat \<Rightarrow> nat \<Rightarrow> (int \<times> bytes \<times> 'c) option" where
  "lines_str_off fn c m rec_size cur line_data_end =
     (if line_data_end \<le> cur then Some (0, m, c)
      else do {
        num_info \<leftarrow> load32 m (cur + 4);
        off \<leftarrow> load32 m cur;
        (r, off, c) \<leftarrow> fn c off;
        m \<leftarrow> store32 m cur off;
        if r \<noteq> 0 then Some (r, m, c)
        else do {
          (r, m, c) \<leftarrow> recs_str_off fn c m rec_size (cur + 8) (unat num_info);
          if r \<noteq> 0 then Some (r, m, c)
          else lines_str_off fn c m rec_size (cur + 8 + unat num_info * rec_size) line_data_end
        }
      })"
  by pat_completeness auto
termination by (relation "measure (\<lambda>(fn, c, m, rec_size, cur, line_data_end). line_data_end - cur)") auto

declare lines_str_off.simps [simp del]

definition btf_for_each_str_off ::
    "'c str_off_fn \<Rightarrow> 'c \<Rightarrow> btf \<Rightarrow> btf_ext option \<Rightarrow> (int \<times> btf \<times> btf_ext option \<times> 'c) option" where
  "btf_for_each_str_off fn c b ext = do {
     (r, ts, c) \<leftarrow> types_str_off fn c (types b) [1..<Suc (btf__get_nr_types b)];
     let b = b\<lparr>types := ts\<rparr>;
     if r \<noteq> 0 then Some (r, b, ext, c)
     else case ext of
       None \<Rightarrow> Some (0, b, None, c)
     | Some x \<Rightarrow>
         let i = line_info x; start = (case x_info i of None \<Rightarrow> 0 | Some p \<Rightarrow> p) in do {
           (r, m, c) \<leftarrow> lines_str_off fn c (x_data x) (unat (x_rec_size i)) start (start + unat (x_len i));
           Some (r, b, Some (x\<lparr>x_data := m\<rparr>), c)
         }
   }"

section \<open>The index of strings\<close>

record btf_str_ptr =
  s_off :: nat
  s_new :: "u32 option"
  s_used :: bool

definition str_at :: "string \<Rightarrow> nat \<Rightarrow> string" where
  "str_at s p = takeWhile (\<lambda>c. c \<noteq> CHR 0x00) (drop p s)"

text \<open>\<open>strlen\<close> of a string without a NUL character reads behind the section.\<close>

definition strlen_at :: "string \<Rightarrow> nat \<Rightarrow> nat option" where
  "strlen_at s p = (if CHR 0x00 \<in> set (drop p s) then Some (length (str_at s p)) else None)"

text \<open>The array grows before an entry that does not fit; \<open>ok room\<close> says whether there is memory for \<open>room\<close> entries.\<close>

function index_strings :: "(nat \<Rightarrow> bool) \<Rightarrow> string \<Rightarrow> nat \<Rightarrow> nat \<Rightarrow> btf_str_ptr list \<Rightarrow> (int + btf_str_ptr list) option" where
  "index_strings ok s p room ptrs =
     (if length s \<le> p then Some (Inr ptrs)
      else
        let full = (length ptrs + 1 > room); room = (if full then room + max (length ptrs div 2) 16 else room) in
        if full \<and> \<not> ok room then Some (Inl (- ENOMEM))
        else do {
          n \<leftarrow> strlen_at s p;
          index_strings ok s (p + n + 1) room (ptrs @ [\<lparr>s_off = p, s_new = None, s_used = False\<rparr>])
        })"
  by pat_completeness auto
termination by (relation "measure (\<lambda>(ok, s, p, room, ptrs). length s - p)") auto

declare index_strings.simps [simp del]

text \<open>
  \<open>bsearch\<close> over the array, which is sorted by offset whenever it is called: the entry with the offset, or NULL.
\<close>

definition bsearch_str :: "btf_str_ptr list \<Rightarrow> u32 \<Rightarrow> nat option" where
  "bsearch_str ptrs off = find (\<lambda>i. s_off (ptrs ! i) = unat off) [0..<length ptrs]"

definition btf_str_mark_as_used :: "btf_str_ptr list str_off_fn" where
  "btf_str_mark_as_used ptrs off =
     (if off = 0 then Some (0, off, ptrs)
      else case bsearch_str ptrs off of
        None \<Rightarrow> Some (- EINVAL, off, ptrs)
      | Some i \<Rightarrow> Some (0, off, ptrs[i := (ptrs ! i)\<lparr>s_used := True\<rparr>]))"

definition btf_str_remap_offset :: "btf_str_ptr list str_off_fn" where
  "btf_str_remap_offset ptrs off =
     (if off = 0 then Some (0, off, ptrs)
      else case bsearch_str ptrs off of
        None \<Rightarrow> Some (- EINVAL, off, ptrs)
      | Some i \<Rightarrow> do { new_off \<leftarrow> s_new (ptrs ! i); Some (0, new_off, ptrs) })"

section \<open>Groups of equal strings\<close>

definition set_new_off :: "btf_str_ptr list \<Rightarrow> nat list \<Rightarrow> u32 \<Rightarrow> btf_str_ptr list" where
  "set_new_off ptrs js off = fold (\<lambda>j ptrs. ptrs[j := (ptrs ! j)\<lparr>s_new := Some off\<rparr>]) js ptrs"

text \<open>The end of a group: a used one is copied to the temporary storage, which has the size of the section.\<close>

definition emit_group :: "string \<Rightarrow> nat \<Rightarrow> nat \<Rightarrow> bool \<Rightarrow> btf_str_ptr list \<Rightarrow> string \<Rightarrow> (btf_str_ptr list \<times> string) option" where
  "emit_group s grp_idx i grp_used ptrs out =
     (if \<not> grp_used then Some (ptrs, out)
      else
        let str = str_at s (s_off (ptrs ! grp_idx)) in
        if length out + length str + 1 > length s then None
        else Some (set_new_off ptrs [grp_idx..<i] (of_nat (length out)), out @ str @ [CHR 0x00]))"

fun group_loop :: "string \<Rightarrow> nat \<Rightarrow> bool \<Rightarrow> btf_str_ptr list \<Rightarrow> string \<Rightarrow> nat list \<Rightarrow> (btf_str_ptr list \<times> string) option" where
  "group_loop s grp_idx grp_used ptrs out [] = Some (ptrs, out)"
| "group_loop s grp_idx grp_used ptrs out (i # is) =
     (if i < length ptrs \<and> str_at s (s_off (ptrs ! i)) = str_at s (s_off (ptrs ! grp_idx))
      then group_loop s grp_idx (grp_used \<or> s_used (ptrs ! i)) ptrs out is
      else do {
        (ptrs, out) \<leftarrow> emit_group s grp_idx i grp_used ptrs out;
        if i < length ptrs then group_loop s i (s_used (ptrs ! i)) ptrs out is
        else group_loop s grp_idx grp_used ptrs out is
      })"

text \<open>
  \<open>ok\<close> and \<open>tmp_ok\<close> are the allocations. The second sort restores the order by offset, and no two
  offsets are equal.
\<close>

definition btf_dedup_strings ::
    "(nat \<Rightarrow> bool) \<Rightarrow> bool \<Rightarrow> (btf_str_ptr list \<Rightarrow> btf_str_ptr list) \<Rightarrow> btf \<Rightarrow> btf_ext option \<Rightarrow> (int \<times> btf \<times> btf_ext option) option" where
  "btf_dedup_strings ok tmp_ok qsort_content b ext = do {
     idx \<leftarrow> index_strings ok (strs b) 0 0 [];
     case idx of
       Inl err \<Rightarrow> Some (err, b, ext)
     | Inr ptrs \<Rightarrow>
         if \<not> tmp_ok then Some (- ENOMEM, b, ext)
         else do {
           first \<leftarrow> arr_get ptrs 0;
           ptrs \<leftarrow> arr_set ptrs 0 (first\<lparr>s_used := True\<rparr>);
           (err, b, ext, ptrs) \<leftarrow> btf_for_each_str_off btf_str_mark_as_used ptrs b ext;
           if err \<noteq> 0 then Some (err, b, ext)
           else do {
             let ptrs = qsort_content ptrs;
             first \<leftarrow> arr_get ptrs 0;
             (ptrs, out) \<leftarrow> group_loop (strs b) 0 (s_used first) ptrs [] [1..<Suc (length ptrs)];
             let b = b\<lparr>strs := out\<rparr>;
             (err, b, ext, _) \<leftarrow> btf_for_each_str_off btf_str_remap_offset (sort_key s_off ptrs) b ext;
             Some (err, b, ext)
           }
         }
   }"

section \<open>Strings and their starts\<close>

definition terminated :: "string \<Rightarrow> bool" where
  "terminated s \<longleftrightarrow> s \<noteq> [] \<and> last s = CHR 0x00"

text \<open>The offsets from \<open>p\<close> on at which a string starts.\<close>

definition starts_from :: "string \<Rightarrow> nat \<Rightarrow> nat list" where
  "starts_from s p = filter (\<lambda>q. q = 0 \<or> s ! (q - 1) = CHR 0x00) [p..<length s]"

lemma starts_from_end: "length s \<le> p \<Longrightarrow> starts_from s p = []"
  by (simp add: starts_from_def)

lemma terminated_nul: "terminated s \<Longrightarrow> p < length s \<Longrightarrow> CHR 0x00 \<in> set (drop p s)"
  by (metis terminated_def last_drop last_in_set drop_eq_Nil not_le)

lemma str_at_nul:
  assumes "CHR 0x00 \<in> set (drop p s)"
  shows "p + length (str_at s p) < length s" "s ! (p + length (str_at s p)) = CHR 0x00"
    "\<And>k. k < length (str_at s p) \<Longrightarrow> s ! (p + k) \<noteq> CHR 0x00"
proof -
  let ?P = "\<lambda>c. c \<noteq> CHR 0x00"
  have "dropWhile ?P (drop p s) \<noteq> []" using assms by (auto simp: dropWhile_eq_Nil_conv)
  moreover have "length (takeWhile ?P (drop p s)) + length (dropWhile ?P (drop p s)) = length (drop p s)"
    by (metis length_append takeWhile_dropWhile_id)
  ultimately have lt: "length (str_at s p) < length (drop p s)"
    unfolding str_at_def using length_greater_0_conv [of "dropWhile ?P (drop p s)"] by linarith
  then show l: "p + length (str_at s p) < length s" by simp
  show "s ! (p + length (str_at s p)) = CHR 0x00"
    using nth_length_takeWhile [of "\<lambda>c. c \<noteq> CHR 0x00" "drop p s"] lt by (simp add: str_at_def)
  show "s ! (p + k) \<noteq> CHR 0x00" if "k < length (str_at s p)" for k
  proof -
    have "str_at s p ! k = s ! (p + k)" using that l by (simp add: str_at_def takeWhile_nth)
    moreover have "str_at s p ! k \<in> set (takeWhile (\<lambda>c. c \<noteq> CHR 0x00) (drop p s))" using that by (simp add: str_at_def)
    ultimately show ?thesis using set_takeWhileD by fastforce
  qed
qed

lemma starts_from_step:
  assumes "terminated s" "p < length s" "p = 0 \<or> s ! (p - 1) = CHR 0x00"
  shows "starts_from s p = p # starts_from s (p + length (str_at s p) + 1)"
    "p + length (str_at s p) + 1 \<le> length s" "s ! (p + length (str_at s p)) = CHR 0x00"
proof -
  let ?n = "length (str_at s p)"
  note nul = str_at_nul [OF terminated_nul [OF assms(1,2)]]
  show "p + ?n + 1 \<le> length s" "s ! (p + ?n) = CHR 0x00" using nul(1,2) by simp_all
  obtain k where k: "length s = p + ?n + 1 + k" using nul(1) by (metis Suc_eq_plus1 Suc_leI le_Suc_ex)
  have "[Suc p..<p + ?n + 1 + k] = [Suc p..<p + ?n + 1] @ [p + ?n + 1..<p + ?n + 1 + k]" by (rule upt_add_eq_append) simp
  then have "[p..<length s] = p # [Suc p..<p + ?n + 1] @ [p + ?n + 1..<length s]"
    using nul(1) by (simp only: k upt_conv_Cons)
  moreover have "q \<noteq> 0 \<and> s ! (q - 1) \<noteq> CHR 0x00" if "q \<in> set [Suc p..<p + ?n + 1]" for q
  proof -
    have "Suc p \<le> q" "q \<le> p + ?n" using that by auto
    then have "q - 1 - p < ?n" "p + (q - 1 - p) = q - 1" by linarith+
    then show ?thesis using nul(3) [of "q - 1 - p"] \<open>Suc p \<le> q\<close> by simp
  qed
  then have "filter (\<lambda>q. q = 0 \<or> s ! (q - 1) = CHR 0x00) [Suc p..<p + ?n + 1] = []" by (auto simp: filter_empty_conv)
  ultimately show "starts_from s p = p # starts_from s (p + ?n + 1)"
    using assms(3) by (simp add: starts_from_def)
qed

text \<open>The strings fill the section.\<close>

lemma starts_sum:
  assumes "terminated s" "p \<le> length s" "p = 0 \<or> s ! (p - 1) = CHR 0x00"
  shows "(\<Sum>q\<leftarrow>starts_from s p. length (str_at s q) + 1) = length s - p"
  using assms
proof (induction "length s - p" arbitrary: p rule: less_induct)
  case less
  show ?case
  proof (cases "p < length s")
    case True
    note st = starts_from_step [OF less.prems(1) True less.prems(3)]
    show ?thesis using less.hyps [of "p + length (str_at s p) + 1"] st less.prems by simp
  qed (simp add: starts_from_end)
qed

lemma index_strings_ok:
  assumes "terminated s" "p \<le> length s" "p = 0 \<or> s ! (p - 1) = CHR 0x00"
  shows "index_strings ok s p room ptrs = Some (Inl (- ENOMEM)) \<and> \<not> (\<forall>n. ok n) \<or>
    index_strings ok s p room ptrs = Some (Inr (ptrs @ map (\<lambda>q. \<lparr>s_off = q, s_new = None, s_used = False\<rparr>) (starts_from s p)))"
  using assms
proof (induction "length s - p" arbitrary: p room ptrs rule: less_induct)
  case less
  show ?case
  proof (cases "p < length s")
    case True
    note st = starts_from_step [OF less.prems(1) True less.prems(3)]
    have len: "strlen_at s p = Some (length (str_at s p))"
      using terminated_nul [OF less.prems(1) True] by (simp add: strlen_at_def)
    show ?thesis
      using less.hyps [of "p + length (str_at s p) + 1" "if length ptrs + 1 > room then room + max (length ptrs div 2) 16 else room"
          "ptrs @ [\<lparr>s_off = p, s_new = None, s_used = False\<rparr>]"] st less.prems True
      by (subst (1 2) index_strings.simps) (auto simp: len Let_def)
  next
    case False
    then show ?thesis by (simp add: index_strings.simps [of ok s p] starts_from_end)
  qed
qed

lemma starts_from_iff: "q \<in> set (starts_from s 0) \<longleftrightarrow> q < length s \<and> (q = 0 \<or> s ! (q - 1) = CHR 0x00)"
  by (auto simp: starts_from_def)

lemma starts_from_distinct: "distinct (starts_from s p)" "sorted (starts_from s p)"
  by (simp_all add: starts_from_def sorted_wrt_filter)

lemma str_at_append:
  assumes "CHR 0x00 \<in> set (drop n s)"
  shows "str_at (s @ t) n = str_at s n" "CHR 0x00 \<in> set (drop n (s @ t))"
proof -
  have "n < length s" using assms by (metis drop_eq_Nil empty_iff list.set(1) not_le)
  then show "str_at (s @ t) n = str_at s n" "CHR 0x00 \<in> set (drop n (s @ t))"
    using assms by (auto simp: str_at_def takeWhile_append1)
qed

lemma str_at_no_nul: "CHR 0x00 \<notin> set (str_at s p)"
  using set_takeWhileD by (fastforce simp: str_at_def)

lemma str_at_here: "CHR 0x00 \<notin> set u \<Longrightarrow> str_at (s @ u @ [CHR 0x00]) (length s) = u"
  unfolding str_at_def by simp (subst takeWhile_append2, auto)

section \<open>The group loop\<close>

text \<open>\<open>strcmp\<close> orders strings by the codes of their characters.\<close>

definition str_key :: "string \<Rightarrow> nat list" where
  "str_key u = map of_char u"

lemma str_key_inject [simp]: "str_key u = str_key v \<longleftrightarrow> u = v"
  by (simp add: str_key_def inj_map_eq_map inj_on_def)

text \<open>\<open>p\<close> has a new offset, at which the new section holds its string.\<close>

definition placed :: "string \<Rightarrow> string \<Rightarrow> btf_str_ptr \<Rightarrow> bool" where
  "placed s out p \<longleftrightarrow> (\<exists>n. s_new p = Some (of_nat n) \<and> CHR 0x00 \<in> set (drop n out) \<and> str_at out n = str_at s (s_off p))"

lemma placed_append: "placed s out p \<Longrightarrow> placed s (out @ x) p"
  using str_at_append by (fastforce simp: placed_def)

definition same_strs :: "btf_str_ptr list \<Rightarrow> btf_str_ptr list \<Rightarrow> bool" where
  "same_strs ptrs ps \<longleftrightarrow> map s_off ptrs = map s_off ps \<and> map s_used ptrs = map s_used ps"

lemma same_strsD:
  assumes "same_strs ptrs ps"
  shows "length ptrs = length ps" "j < length ps \<Longrightarrow> s_off (ptrs ! j) = s_off (ps ! j) \<and> s_used (ptrs ! j) = s_used (ps ! j)"
proof -
  show l: "length ptrs = length ps" using assms unfolding same_strs_def by (metis length_map)
  show "s_off (ptrs ! j) = s_off (ps ! j) \<and> s_used (ptrs ! j) = s_used (ps ! j)" if "j < length ps"
    using assms that l unfolding same_strs_def by (metis nth_map)
qed

lemma set_new_off_simps:
  assumes "\<forall>j \<in> set js. j < length ptrs"
  shows "same_strs (set_new_off ptrs js off) ptrs"
    "j < length ptrs \<Longrightarrow> s_new (set_new_off ptrs js off ! j) = (if j \<in> set js then Some off else s_new (ptrs ! j))"
proof -
  have "same_strs (set_new_off ptrs js off) ptrs \<and>
      (\<forall>j < length ptrs. s_new (set_new_off ptrs js off ! j) = (if j \<in> set js then Some off else s_new (ptrs ! j)))"
    using assms
  proof (induction js arbitrary: ptrs)
    case Nil
    then show ?case by (simp add: set_new_off_def same_strs_def)
  next
    case (Cons k js)
    let ?ptrs = "ptrs[k := (ptrs ! k)\<lparr>s_new := Some off\<rparr>]"
    have "same_strs ?ptrs ptrs" using Cons.prems by (simp add: same_strs_def list_eq_iff_nth_eq nth_list_update)
    moreover have "set_new_off ptrs (k # js) off = set_new_off ?ptrs js off" by (simp add: set_new_off_def)
    ultimately show ?case using Cons.IH [of ?ptrs] Cons.prems by (auto simp: same_strs_def nth_list_update)
  qed
  then show "same_strs (set_new_off ptrs js off) ptrs"
    "j < length ptrs \<Longrightarrow> s_new (set_new_off ptrs js off ! j) = (if j \<in> set js then Some off else s_new (ptrs ! j))" by blast+
qed

text \<open>
  Between two groups, before entry \<open>g\<close>: all used entries before \<open>g\<close> are placed, and the new section holds their
  strings, each one once and in the order of \<open>strcmp\<close>.
\<close>

definition groups_done :: "string \<Rightarrow> btf_str_ptr list \<Rightarrow> nat \<Rightarrow> btf_str_ptr list \<Rightarrow> string \<Rightarrow> bool" where
  "groups_done s ps g ptrs out \<longleftrightarrow> same_strs ptrs ps \<and>
     (\<forall>j < g. s_used (ps ! j) \<longrightarrow> placed s out (ptrs ! j)) \<and>
     length out \<le> (\<Sum>j < g. length (str_at s (s_off (ps ! j))) + 1) \<and>
     (\<exists>us. out = concat (map (\<lambda>u. u @ [CHR 0x00]) us) \<and> sorted_wrt (<) (map str_key us) \<and>
        set us = {str_at s (s_off (ps ! j)) | j. j < g \<and> s_used (ps ! j)})"

text \<open>A group: equal strings from \<open>g\<close> to \<open>i\<close>, all smaller ones before it.\<close>

definition group_at :: "string \<Rightarrow> btf_str_ptr list \<Rightarrow> nat \<Rightarrow> nat \<Rightarrow> bool" where
  "group_at s ps g i \<longleftrightarrow> g < i \<and> i \<le> length ps \<and>
     (\<forall>j. g \<le> j \<and> j < i \<longrightarrow> str_at s (s_off (ps ! j)) = str_at s (s_off (ps ! g))) \<and>
     (\<forall>j < g. str_key (str_at s (s_off (ps ! j))) < str_key (str_at s (s_off (ps ! g))))"

lemma group_atI:
  assumes "g < i" "i \<le> length ps" "\<And>j. g \<le> j \<Longrightarrow> j < i \<Longrightarrow> str_at s (s_off (ps ! j)) = str_at s (s_off (ps ! g))"
    "\<And>j. j < g \<Longrightarrow> str_key (str_at s (s_off (ps ! j))) < str_key (str_at s (s_off (ps ! g)))"
  shows "group_at s ps g i"
  using assms unfolding group_at_def by blast

lemma emit_group_ok:
  assumes "groups_done s ps g ptrs out" "group_at s ps g i" "(\<Sum>j < length ps. length (str_at s (s_off (ps ! j))) + 1) \<le> length s"
    "used = (\<exists>j. g \<le> j \<and> j < i \<and> s_used (ps ! j))"
  shows "\<exists>ptrs' out'. emit_group s g i used ptrs out = Some (ptrs', out') \<and> groups_done s ps i ptrs' out'"
proof -
  let ?S = "\<lambda>j. str_at s (s_off (ps ! j))"
  note G = assms(2) [unfolded group_at_def]
  have gi: "g < i" "i \<le> length ps" and eq: "\<And>j. g \<le> j \<Longrightarrow> j < i \<Longrightarrow> ?S j = ?S g" and less: "\<And>j. j < g \<Longrightarrow> str_key (?S j) < str_key (?S g)"
    using G by blast+
  have same: "same_strs ptrs ps" and old: "\<And>j. j < g \<Longrightarrow> s_used (ps ! j) \<Longrightarrow> placed s out (ptrs ! j)"
    and len: "length out \<le> (\<Sum>j < g. length (?S j) + 1)" using assms(1) by (auto simp: groups_done_def)
  obtain us where us: "out = concat (map (\<lambda>u. u @ [CHR 0x00]) us)" "sorted_wrt (<) (map str_key us)" "set us = {?S j | j. j < g \<and> s_used (ps ! j)}"
    using assms(1) unfolding groups_done_def by blast
  note sd = same_strsD [OF same]
  have "(\<Sum>j < g. length (?S j) + 1) + (length (?S g) + 1) = (\<Sum>j < Suc g. length (?S j) + 1)" by simp
  also have "\<dots> \<le> (\<Sum>j < i. length (?S j) + 1)" using gi by (intro sum_mono2) auto
  finally have sum_i: "length out + (length (?S g) + 1) \<le> (\<Sum>j < i. length (?S j) + 1)" using len by linarith
  also have "\<dots> \<le> (\<Sum>j < length ps. length (?S j) + 1)" using gi by (intro sum_mono2) auto
  finally have room: "length out + length (?S g) + 1 \<le> length s" using assms(3) by linarith
  show ?thesis
  proof (cases used)
    case False
    then have unused: "\<not> s_used (ps ! j)" if "g \<le> j" "j < i" for j using assms(4) that by blast
    then have lt: "j < g" if "j < i" "s_used (ps ! j)" for j using that by (meson not_le)
    then have "{?S j | j. j < i \<and> s_used (ps ! j)} = {?S j | j. j < g \<and> s_used (ps ! j)}" using gi(1) by fastforce
    then have "\<exists>us. out = concat (map (\<lambda>u. u @ [CHR 0x00]) us) \<and> sorted_wrt (<) (map str_key us) \<and>
        set us = {?S j | j. j < i \<and> s_used (ps ! j)}" using us by metis
    moreover have "\<forall>j < i. s_used (ps ! j) \<longrightarrow> placed s out (ptrs ! j)" using old lt by blast
    moreover have "length out \<le> (\<Sum>j < i. length (?S j) + 1)" using sum_i by linarith
    ultimately have "groups_done s ps i ptrs out" using same unfolding groups_done_def by blast
    then show ?thesis using False by (simp add: emit_group_def)
  next
    case True
    let ?ptrs = "set_new_off ptrs [g..<i] (of_nat (length out))" and ?out = "out @ ?S g @ [CHR 0x00]"
    have js: "\<forall>j \<in> set [g..<i]. j < length ptrs" using gi(2) sd(1) by simp
    note sn = set_new_off_simps [OF js, where off = "of_nat (length out)"]
    note sd' = same_strsD [OF sn(1)]
    have same': "same_strs ?ptrs ps" using sn(1) same by (simp add: same_strs_def)
    have run: "emit_group s g i used ptrs out = Some (?ptrs, ?out)"
      using True room sd gi by (simp add: emit_group_def Let_def)
    have "placed s ?out (?ptrs ! j)" if "j < i" "s_used (ps ! j)" for j
    proof (cases "j < g")
      case True
      then have "s_new (?ptrs ! j) = s_new (ptrs ! j)" "s_off (?ptrs ! j) = s_off (ptrs ! j)"
        using sn(2) [of j] sd'(2) [of j] gi sd(1) by simp_all
      then have "placed s out (?ptrs ! j)" using old [OF True that(2)] by (simp add: placed_def)
      then show ?thesis by (rule placed_append)
    next
      case False
      then have "s_new (?ptrs ! j) = Some (of_nat (length out))" "s_off (?ptrs ! j) = s_off (ps ! j)"
        using sn(2) [of j] sd'(2) [of j] sd gi that(1) by simp_all
      moreover have "str_at ?out (length out) = ?S g" by (rule str_at_here [OF str_at_no_nul])
      ultimately show ?thesis using eq [of j] False that(1) by (auto simp: placed_def)
    qed
    moreover have "length ?out \<le> (\<Sum>j < i. length (?S j) + 1)" using sum_i by simp
    moreover have "\<exists>us. ?out = concat (map (\<lambda>u. u @ [CHR 0x00]) us) \<and> sorted_wrt (<) (map str_key us) \<and>
        set us = {?S j | j. j < i \<and> s_used (ps ! j)}"
    proof (intro exI [of _ "us @ [?S g]"] conjI)
      show "?out = concat (map (\<lambda>u. u @ [CHR 0x00]) (us @ [?S g]))" by (simp add: us(1))
      show "sorted_wrt (<) (map str_key (us @ [?S g]))" using us(2,3) less by (auto simp: sorted_wrt_append)
      obtain k where k: "g \<le> k" "k < i" "s_used (ps ! k)" using True assms(4) by blast
      show "set (us @ [?S g]) = {?S j | j. j < i \<and> s_used (ps ! j)}" (is "_ = ?R")
      proof
        have "?S g \<in> ?R" using k(2,3) eq [OF k(1,2), symmetric] by blast
        then show "set (us @ [?S g]) \<subseteq> ?R" using us(3) gi(1) by force
        show "?R \<subseteq> set (us @ [?S g])"
        proof
          fix x assume "x \<in> ?R"
          then obtain j where j: "x = ?S j" "j < i" "s_used (ps ! j)" by blast
          show "x \<in> set (us @ [?S g])" using us(3) j eq [of j] by (cases "j < g") auto
        qed
      qed
    qed
    ultimately have "groups_done s ps i ?ptrs ?out" using same' by (simp add: groups_done_def)
    then show ?thesis using run by simp
  qed
qed

lemma group_loop_ok:
  assumes "groups_done s ps g ptrs out" "group_at s ps g i" "(\<Sum>j < length ps. length (str_at s (s_off (ps ! j))) + 1) \<le> length s"
    "used = (\<exists>j. g \<le> j \<and> j < i \<and> s_used (ps ! j))" "sorted (map (\<lambda>p. str_key (str_at s (s_off p))) ps)"
  shows "\<exists>ptrs' out'. group_loop s g used ptrs out [i..<Suc (length ps)] = Some (ptrs', out') \<and> groups_done s ps (length ps) ptrs' out'"
  using assms(1,2,4)
proof (induction "length ps - i" arbitrary: g i used ptrs out)
  case 0
  have i: "i = length ps" using 0 by (simp add: group_at_def)
  have len: "length ptrs = length ps" using 0 same_strsD(1) by (auto simp: groups_done_def)
  obtain ptrs' out' where e: "emit_group s g i used ptrs out = Some (ptrs', out')" "groups_done s ps i ptrs' out'"
    using emit_group_ok [OF 0(2,3) assms(3) 0(4)] by blast
  have "length ptrs' = length ps" using e(2) same_strsD(1) by (auto simp: groups_done_def)
  then show ?case using e len by (simp add: i)
next
  case (Suc n)
  let ?S = "\<lambda>j. str_at s (s_off (ps ! j))"
  have i: "i < length ps" "g < i" using Suc(2,4) by (simp_all add: group_at_def)
  note G = Suc.prems(2) [unfolded group_at_def]
  have same: "same_strs p ps" if "groups_done s ps k p o'" for k p o' using that by (simp add: groups_done_def)
  note sd = same_strsD [OF same [OF Suc.prems(1)]]
  have range: "[i..<Suc (length ps)] = i # [Suc i..<Suc (length ps)]" using i(1) by (simp add: upt_conv_Cons)
  have key: "str_key (?S a) \<le> str_key (?S b)" if "a \<le> b" "b < length ps" for a b
    using assms(5) that by (simp add: sorted_iff_nth_mono)
  show ?case
  proof (cases "?S i = ?S g")
    case True
    have "?S j = ?S g" if "g \<le> j" "j < Suc i" for j using G that True less_SucE by blast
    moreover have "g < Suc i" "Suc i \<le> length ps" using i by simp_all
    ultimately have at: "group_at s ps g (Suc i)" using G by (intro group_atI) blast+
    have "((\<exists>j. g \<le> j \<and> j < i \<and> U j) \<or> U i) = (\<exists>j. g \<le> j \<and> j < Suc i \<and> U j)" for U
      using i(2) by (metis less_Suc_eq less_imp_le)
    then have used: "(used \<or> s_used (ps ! i)) = (\<exists>j. g \<le> j \<and> j < Suc i \<and> s_used (ps ! j))" unfolding Suc.prems(3) .
    have "n = length ps - Suc i" using Suc(2) by linarith
    from Suc.hyps(1) [OF this Suc.prems(1) at used]
    have "\<exists>ptrs' out'. group_loop s g (used \<or> s_used (ps ! i)) ptrs out [Suc i..<Suc (length ps)] = Some (ptrs', out') \<and>
        groups_done s ps (length ps) ptrs' out'" .
    then show ?thesis using True i sd by (simp only: range) (simp del: upt_Suc)
  next
    case False
    obtain ptrs' out' where e: "emit_group s g i used ptrs out = Some (ptrs', out')" "groups_done s ps i ptrs' out'"
      using emit_group_ok [OF Suc.prems(1,2) assms(3) Suc.prems(3)] by blast
    note sd' = same_strsD [OF same [OF e(2)]]
    have less: "str_key (?S j) < str_key (?S i)" if "j < i" for j
    proof -
      have "?S j \<noteq> ?S i"
      proof (cases "j < g")
        case True
        then have "str_key (?S j) < str_key (?S g)" using G by blast
        also have "\<dots> \<le> str_key (?S i)" using key [of g i] i by simp
        finally show ?thesis by auto
      next
        case j: False
        then have "?S j = ?S g" using G that not_less by blast
        then show ?thesis using False by simp
      qed
      then show ?thesis using key [of j i] that i(1) by (simp add: order_less_le)
    qed
    have at: "group_at s ps i (Suc i)"
    proof (rule group_atI)
      show "?S j = ?S i" if "i \<le> j" "j < Suc i" for j using le_less_Suc_eq [OF that(1)] that(2) by simp
      show "str_key (?S j) < str_key (?S i)" if "j < i" for j by (rule less [OF that])
    qed (use i(1) in simp_all)
    have used: "s_used (ps ! i) = (\<exists>j. i \<le> j \<and> j < Suc i \<and> s_used (ps ! j))" by (auto simp: less_Suc_eq_le dest: le_antisym)
    have "n = length ps - Suc i" using Suc(2) by linarith
    from Suc.hyps(1) [OF this e(2) at used]
    have "\<exists>ptrs'' out''. group_loop s i (s_used (ps ! i)) ptrs' out' [Suc i..<Suc (length ps)] = Some (ptrs'', out'') \<and>
        groups_done s ps (length ps) ptrs'' out''" .
    then show ?thesis using False i sd sd' e(1) by (simp only: range) (simp del: upt_Suc)
  qed
qed

section \<open>Rewriting all places\<close>

text \<open>The offsets in a type and the type with a function applied to them.\<close>

definition name_refs :: "btf_type \<Rightarrow> u32 list" where
  "name_refs t = t_name_off t # map (\<lambda>j. t_extra t ! j) (name_places t)"

definition map_places :: "(u32 \<Rightarrow> u32) \<Rightarrow> nat list \<Rightarrow> u32 list \<Rightarrow> u32 list" where
  "map_places f js ws = fold (\<lambda>j ws. ws[j := f (ws ! j)]) js ws"

definition map_names :: "(u32 \<Rightarrow> u32) \<Rightarrow> btf_type \<Rightarrow> btf_type" where
  "map_names f t = t\<lparr>t_name_off := f (t_name_off t), t_extra := map_places f (name_places t) (t_extra t)\<rparr>"

definition names_ok :: "btf_type \<Rightarrow> bool" where
  "names_ok t \<longleftrightarrow> (\<forall>j \<in> set (name_places t). j < length (t_extra t))"

text \<open>\<open>btf_void\<close> is not visited.\<close>

definition rename_types :: "(u32 \<Rightarrow> u32) \<Rightarrow> btf_type list \<Rightarrow> btf_type list" where
  "rename_types f ts = (case ts of [] \<Rightarrow> [] | v # ts \<Rightarrow> v # map (map_names f) ts)"

definition type_refs :: "btf_type list \<Rightarrow> u32 list" where
  "type_refs ts = concat (map name_refs (tl ts))"

lemma name_places_cong [simp]: "name_places (t\<lparr>t_name_off := x\<rparr>) = name_places t" "name_places (t\<lparr>t_extra := ws\<rparr>) = name_places t"
  using btf_kind_cong [of "t\<lparr>t_name_off := x\<rparr>" t] btf_kind_cong [of "t\<lparr>t_extra := ws\<rparr>" t]
  by (simp_all add: name_places_def cong: btf_kind.case_cong)

lemma name_places_distinct: "distinct (name_places t)"
  by (auto simp: name_places_def distinct_map inj_on_def split: btf_kind.splits)

text \<open>The same for the records of the line information.\<close>

definition rec_refs :: "bytes \<Rightarrow> u32 list" where
  "rec_refs r = [the (load32 r 4), the (load32 r 8)]"

definition rec_names :: "(u32 \<Rightarrow> u32) \<Rightarrow> bytes \<Rightarrow> bytes" where
  "rec_names f r = take 4 r @ enc32 (f (the (load32 r 4))) @ enc32 (f (the (load32 r 8))) @ drop 12 r"

definition sec_refs :: "ext_sec \<Rightarrow> u32 list" where
  "sec_refs s = fst s # concat (map rec_refs (snd s))"

definition sec_names :: "(u32 \<Rightarrow> u32) \<Rightarrow> ext_sec \<Rightarrow> ext_sec" where
  "sec_names f s = (f (fst s), map (rec_names f) (snd s))"

lemma rec_split:
  assumes "12 \<le> length r"
  shows "r = take 4 r @ enc32 (the (load32 r 4)) @ enc32 (the (load32 r 8)) @ drop 12 r"
proof -
  have "load32 r 4 = Some (the (load32 r 4))" "load32 r 8 = Some (the (load32 r 8))" using assms by (simp_all add: load32_in)
  then have "take 4 (drop 4 r) = enc32 (the (load32 r 4))" "take 4 (drop 8 r) = enc32 (the (load32 r 8))"
    using load32_mem_read by (fastforce simp: mem_read_def split: if_splits)+
  moreover have "drop 4 r = take 4 (drop 4 r) @ drop 8 r" "drop 8 r = take 4 (drop 8 r) @ drop 12 r"
    using append_take_drop_id [of 4 "drop 4 r"] append_take_drop_id [of 4 "drop 8 r"] by simp_all
  ultimately show ?thesis by (metis append_take_drop_id)
qed

lemma length_rec_names [simp]: "12 \<le> length r \<Longrightarrow> length (rec_names f r) = length r"
  by (simp add: rec_names_def)

lemma recs_step:
  assumes "load32 m (cur + 4) = Some a" "fn c a = Some (0, a', c')" "store32 m (cur + 4) a' = Some m'"
    "load32 m' (cur + 8) = Some b" "fn c' b = Some (0, b', c'')" "store32 m' (cur + 8) b' = Some m''"
  shows "recs_str_off fn c m n cur (Suc k) = recs_str_off fn c'' m'' n (cur + n) k"
  by (simp add: assms)

lemma lines_step:
  assumes "cur < line_end" "load32 m (cur + 4) = Some k" "load32 m cur = Some a" "fn c a = Some (0, a', c')" "store32 m cur a' = Some m'"
    "recs_str_off fn c' m' n (cur + 8) (unat k) = Some (0, m'', c'')"
  shows "lines_str_off fn c m n cur line_end = lines_str_off fn c'' m'' n (cur + 8 + unat k * n) line_end"
  using assms(1) by (subst lines_str_off.simps) (simp add: assms(2-6))

locale str_off_fn =
  fixes fn :: "'c str_off_fn" and f :: "u32 \<Rightarrow> u32" and g :: "u32 \<Rightarrow> 'c \<Rightarrow> 'c" and P :: "'c \<Rightarrow> bool" and ok :: "u32 \<Rightarrow> bool"
  assumes fn_ok: "P c \<Longrightarrow> ok x \<Longrightarrow> fn c x = Some (0, f x, g x c) \<and> P (g x c)"
begin

lemma members_ok:
  assumes "P c" "\<forall>j \<in> set js. j < length (t_extra t) \<and> ok (t_extra t ! j)" "distinct js"
  shows "members_str_off fn c t js =
      Some (0, t\<lparr>t_extra := map_places f js (t_extra t)\<rparr>, fold g (map (\<lambda>j. t_extra t ! j) js) c) \<and>
    P (fold g (map (\<lambda>j. t_extra t ! j) js) c)"
  using assms
proof (induction js arbitrary: t c)
  case (Cons j js)
  let ?x = "t_extra t ! j"
  let ?t = "t\<lparr>t_extra := (t_extra t)[j := f ?x]\<rparr>"
  have fn: "fn c ?x = Some (0, f ?x, g ?x c)" "P (g ?x c)" using fn_ok [OF Cons.prems(1), of ?x] Cons.prems(2) by simp_all
  have same: "t_extra ?t ! k = t_extra t ! k" if "k \<in> set js" for k using that Cons.prems(3) by (cases "k = j") auto
  then have mp: "map ((!) ((t_extra t)[j := f ?x])) js = map ((!) (t_extra t)) js" by simp
  have "\<forall>k \<in> set js. k < length (t_extra ?t) \<and> ok (t_extra ?t ! k)" using Cons.prems(2) same by simp
  moreover have "distinct js" using Cons.prems(3) by simp
  ultimately show ?case using Cons.IH [OF fn(2), of ?t] fn(1) Cons.prems(2) by (simp add: fault map_places_def mp)
qed (simp add: map_places_def)

lemma type_step:
  assumes "P c" "names_ok t" "\<forall>x \<in> set (name_refs t). ok x" "i < length ts" "ts ! i = t"
  shows "types_str_off fn c ts (i # ks) = types_str_off fn (fold g (name_refs t) c) (ts[i := map_names f t]) ks" "P (fold g (name_refs t) c)"
proof -
  let ?t = "t\<lparr>t_name_off := f (t_name_off t)\<rparr>" and ?c = "g (t_name_off t) c"
  have fn: "fn c (t_name_off t) = Some (0, f (t_name_off t), ?c)" "P ?c" using fn_ok [OF assms(1)] assms(3) by (simp_all add: name_refs_def)
  have m: "\<forall>j \<in> set (name_places ?t). j < length (t_extra ?t) \<and> ok (t_extra ?t ! j)"
    using assms(2,3) by (simp add: names_ok_def name_refs_def)
  note r = members_ok [OF fn(2) m name_places_distinct]
  show "types_str_off fn c ts (i # ks) = types_str_off fn (fold g (name_refs t) c) (ts[i := map_names f t]) ks" "P (fold g (name_refs t) c)"
    using r fn(1) assms(4,5) by (simp_all add: fault map_names_def name_refs_def)
qed

lemma types_ok:
  assumes "P c" "k \<le> length ts" "\<forall>t \<in> set (drop k ts). names_ok t \<and> (\<forall>x \<in> set (name_refs t). ok x)"
  shows "types_str_off fn c ts [k..<length ts] =
      Some (0, take k ts @ map (map_names f) (drop k ts), fold g (concat (map name_refs (drop k ts))) c) \<and>
    P (fold g (concat (map name_refs (drop k ts))) c)"
  using assms
proof (induction "length ts - k" arbitrary: k ts c)
  case (Suc n)
  let ?ts = "ts[k := map_names f (ts ! k)]"
  have k: "k < length ts" using Suc(2) by simp
  have d: "drop k ts = ts ! k # drop (Suc k) ts" using k by (simp add: Cons_nth_drop_Suc)
  have t: "names_ok (ts ! k)" "\<forall>x \<in> set (name_refs (ts ! k)). ok x" using Suc.prems(3) by (simp_all add: d)
  note st = type_step(1) [OF Suc.prems(1) t k refl, where ks = "[Suc k..<length ts]"] type_step(2) [OF Suc.prems(1) t k refl]
  have "[k..<length ts] = k # [Suc k..<length ts]" using k by (simp add: upt_conv_Cons)
  moreover have "drop (Suc k) ?ts = drop (Suc k) ts" "take (Suc k) ?ts = take k ts @ [map_names f (ts ! k)]"
    using k by (simp_all add: take_Suc_conv_app_nth)
  moreover have "n = length ?ts - Suc k" using Suc(2) by simp
  ultimately show ?case using Suc.hyps(1) [of ?ts "Suc k" "fold g (name_refs (ts ! k)) c"] st k Suc.prems(3) by (simp add: d)
qed simp

lemma recs_ok:
  assumes "P c" "\<forall>r \<in> set rs. length r = n \<and> (\<forall>x \<in> set (rec_refs r). ok x)" "12 \<le> n" "length pre = p"
  shows "recs_str_off fn c (pre @ concat rs @ post) n p (length rs) =
      Some (0, pre @ concat (map (rec_names f) rs) @ post, fold g (concat (map rec_refs rs)) c) \<and>
    P (fold g (concat (map rec_refs rs)) c)"
  using assms
proof (induction rs arbitrary: c pre p)
  case (Cons r rs)
  let ?a = "the (load32 r 4)" and ?b = "the (load32 r 8)" and ?rest = "concat rs @ post"
  have len: "length r = n" and oks: "ok ?a" "ok ?b" using Cons.prems(2) by (simp_all add: rec_refs_def)
  have r: "r = take 4 r @ enc32 ?a @ enc32 ?b @ drop 12 r" using rec_split [of r] len Cons.prems(3) by simp
  have t4: "length (take 4 r) = 4" using len Cons.prems(3) by simp
  have fa: "fn c ?a = Some (0, f ?a, g ?a c)" "P (g ?a c)" using fn_ok [OF Cons.prems(1) oks(1)] by simp_all
  have fb: "fn (g ?a c) ?b = Some (0, f ?b, g ?b (g ?a c))" "P (g ?b (g ?a c))" using fn_ok [OF fa(2) oks(2)] by simp_all
  have m0: "pre @ concat (r # rs) @ post = (pre @ take 4 r) @ enc32 ?a @ (enc32 ?b @ drop 12 r @ ?rest)"
    using arg_cong [OF r, of "\<lambda>x. pre @ x @ ?rest"] by simp
  have m1: "(pre @ take 4 r) @ enc32 (f ?a) @ (enc32 ?b @ drop 12 r @ ?rest) = (pre @ take 4 r @ enc32 (f ?a)) @ enc32 ?b @ (drop 12 r @ ?rest)"
    by simp
  have p: "length (pre @ take 4 r) = p + 4" "length (pre @ take 4 r @ enc32 (f ?a)) = p + 8" using t4 Cons.prems(4) by simp_all
  have l: "load32 (pre @ concat (r # rs) @ post) (p + 4) = Some ?a"
    "store32 (pre @ concat (r # rs) @ post) (p + 4) (f ?a) = Some ((pre @ take 4 r) @ enc32 (f ?a) @ (enc32 ?b @ drop 12 r @ ?rest))"
    unfolding m0 by (rule load32_enc_at [OF p(1)], rule store32_at [OF p(1)]) simp
  have l': "load32 ((pre @ take 4 r) @ enc32 (f ?a) @ (enc32 ?b @ drop 12 r @ ?rest)) (p + 8) = Some ?b"
    "store32 ((pre @ take 4 r) @ enc32 (f ?a) @ (enc32 ?b @ drop 12 r @ ?rest)) (p + 8) (f ?b) =
       Some ((pre @ take 4 r @ enc32 (f ?a)) @ enc32 (f ?b) @ (drop 12 r @ ?rest))"
    unfolding m1 by (rule load32_enc_at [OF p(2)], rule store32_at [OF p(2)]) simp
  have m2: "(pre @ take 4 r @ enc32 (f ?a)) @ enc32 (f ?b) @ (drop 12 r @ ?rest) = (pre @ rec_names f r) @ concat rs @ post"
    by (simp add: rec_names_def)
  have "length (pre @ rec_names f r) = p + n" using len Cons.prems(3,4) by simp
  note ih = Cons.IH [OF fb(2) _ Cons.prems(3) this]
  have run: "recs_str_off fn c (pre @ concat (r # rs) @ post) n p (length (r # rs)) =
      recs_str_off fn (g ?b (g ?a c)) ((pre @ rec_names f r) @ concat rs @ post) n (p + n) (length rs)"
    unfolding m2 [symmetric] using recs_step [where n = n, OF l(1) fa(1) l(2) l'(1) fb(1) l'(2)] by simp
  show ?case unfolding run using ih Cons.prems(2) by (simp add: rec_refs_def)
qed simp

lemma lines_ok:
  assumes "P c" "\<forall>s \<in> set ss. sec_ok rec s \<and> (\<forall>x \<in> set (sec_refs s). ok x)" "12 \<le> unat rec" "length pre = p"
  shows "lines_str_off fn c (pre @ enc_secs ss @ post) (unat rec) p (p + length (enc_secs ss)) =
      Some (0, pre @ enc_secs (map (sec_names f) ss) @ post, fold g (concat (map sec_refs ss)) c) \<and>
    P (fold g (concat (map sec_refs ss)) c)"
  using assms
proof (induction ss arbitrary: c pre p)
  case Nil
  then show ?case by (simp add: lines_str_off.simps [of fn c _ _ p] enc_secs_def)
next
  case (Cons s ss)
  obtain name rs where s: "s = (name, rs)" by (cases s)
  let ?n = "of_nat (length rs) :: u32" and ?rest = "enc_secs ss @ post" and ?m = "pre @ enc_secs (s # ss) @ post"
  have sec: "length rs < 2 ^ 32" "\<forall>r \<in> set rs. length r = unat rec" "ok name" "\<forall>r \<in> set rs. \<forall>x \<in> set (rec_refs r). ok x"
    using Cons.prems(2) by (auto simp: s sec_ok_def sec_refs_def)
  have n: "unat ?n = length rs" using sec(1) by (rule unat_of_nat_u32)
  have fn: "fn c name = Some (0, f name, g name c)" "P (g name c)" using fn_ok [OF Cons.prems(1) sec(3)] by simp_all
  have clen: "length (concat xs) = length xs * unat rec" if "\<forall>x \<in> set xs. length x = unat rec" for xs :: "bytes list"
    using that by (induction xs) auto
  have m: "?m = pre @ enc32 name @ (enc32 ?n @ concat rs @ ?rest)" by (simp add: enc_secs_def enc_sec_def s)
  have len: "length (enc_secs (s # ss)) = 8 + length rs * unat rec + length (enc_secs ss)"
    using clen [OF sec(2)] by (simp add: enc_secs_def enc_sec_def s)
  have l: "load32 ?m p = Some name" "store32 ?m p (f name) = Some (pre @ enc32 (f name) @ (enc32 ?n @ concat rs @ ?rest))"
    unfolding m by (rule load32_enc_at [OF Cons.prems(4)], rule store32_at [OF Cons.prems(4)]) simp
  have l4: "load32 ?m (p + 4) = Some ?n"
    using load32_enc_at [of "pre @ enc32 name" "p + 4" ?n "concat rs @ ?rest"] Cons.prems(4) unfolding m by (simp only: append_assoc length_append length_enc)
  let ?pre = "pre @ enc32 (f name) @ enc32 ?n"
  have recs: "recs_str_off fn (g name c) (?pre @ concat rs @ ?rest) (unat rec) (p + 8) (length rs) =
      Some (0, ?pre @ concat (map (rec_names f) rs) @ ?rest, fold g (concat (map rec_refs rs)) (g name c))"
    "P (fold g (concat (map rec_refs rs)) (g name c))"
    using recs_ok [OF fn(2), of rs "unat rec" ?pre "p + 8" ?rest] sec Cons.prems(3,4) by simp_all
  let ?c = "fold g (concat (map rec_refs rs)) (g name c)" and ?pre' = "?pre @ concat (map (rec_names f) rs)"
  have "length ?pre' = p + 8 + length rs * unat rec"
    using clen [of "map (rec_names f) rs"] sec(2) Cons.prems(3,4) by simp
  note ih = Cons.IH [OF recs(2) _ Cons.prems(3) this]
  have sn: "enc_secs (map (sec_names f) (s # ss)) = enc32 (f name) @ enc32 ?n @ concat (map (rec_names f) rs) @ enc_secs (map (sec_names f) ss)"
    and sn1: "enc_sec (sec_names f (name, rs)) = enc32 (f name) @ enc32 ?n @ concat (map (rec_names f) rs)"
    by (simp_all add: enc_secs_def enc_sec_def sec_names_def s)
  have e: "p + length (enc_secs (s # ss)) = p + 8 + length rs * unat rec + length (enc_secs ss)" using len by simp
  have run: "lines_str_off fn c ?m (unat rec) p (p + length (enc_secs (s # ss))) =
      lines_str_off fn ?c (?pre' @ enc_secs ss @ post) (unat rec) (p + 8 + length rs * unat rec) (p + 8 + length rs * unat rec + length (enc_secs ss))"
  proof -
    have "p < p + length (enc_secs (s # ss))" using len by simp
    moreover have "recs_str_off fn (g name c) (pre @ enc32 (f name) @ (enc32 ?n @ concat rs @ ?rest)) (unat rec) (p + 8) (unat ?n) =
        Some (0, ?pre' @ enc_secs ss @ post, ?c)" using recs(1) by (simp only: n append_assoc)
    ultimately have "lines_str_off fn c ?m (unat rec) p (p + length (enc_secs (s # ss))) =
        lines_str_off fn ?c (?pre' @ enc_secs ss @ post) (unat rec) (p + 8 + unat ?n * unat rec) (p + length (enc_secs (s # ss)))"
      using lines_step [where fn = fn and c = c and a = name and m = ?m and cur = p, OF _ l4 l(1) fn(1) l(2)] by blast
    then show ?thesis by (simp only: e n)
  qed
  show ?case unfolding run using ih Cons.prems(2) by (simp add: sn sn1 sec_refs_def s)
qed

end

text \<open>A callback that leaves the places alone, like the one that marks strings: \<open>q\<close> is what it does to its context.\<close>

fun run_offs :: "('c \<Rightarrow> u32 \<Rightarrow> (int \<times> 'c) option) \<Rightarrow> 'c \<Rightarrow> u32 list \<Rightarrow> (int \<times> 'c) option" where
  "run_offs q c [] = Some (0, c)"
| "run_offs q c (x # xs) = do { (r, c) \<leftarrow> q c x; if r \<noteq> 0 then Some (r, c) else run_offs q c xs }"

lemma run_offs_append:
  "run_offs q c (xs @ ys) = do { (r, c) \<leftarrow> run_offs q c xs; if r \<noteq> 0 then Some (r, c) else run_offs q c ys }"
  by (induction xs arbitrary: c) (auto split: Option.bind_splits)

lemma store32_same:
  assumes "load32 m p = Some a"
  shows "store32 m p a = Some m"
proof -
  have r: "take 4 (drop p m) = enc32 a" "p + 4 \<le> length m"
    using load32_mem_read [OF assms] by (auto simp: mem_read_def split: if_splits)
  have "m = take p m @ enc32 a @ drop (p + 4) m" by (metis r(1) append_take_drop_id drop_drop add.commute)
  then show ?thesis using store32_at [of "take p m" p "enc32 a" "drop (p + 4) m" a] r(2) by simp
qed

lemma load32_inside: "length pre = p \<Longrightarrow> k + 4 \<le> length r \<Longrightarrow> load32 (pre @ r @ post) (p + k) = Some (the (load32 r k))"
  by (simp add: load32_in nth_append)

locale read_only_fn =
  fixes fn :: "'c str_off_fn" and q :: "'c \<Rightarrow> u32 \<Rightarrow> (int \<times> 'c) option"
  assumes fn_q: "fn c x = do { (r, c) \<leftarrow> q c x; Some (r, x, c) }"
begin

lemma members_ro:
  assumes "\<forall>j \<in> set js. j < length (t_extra t)"
  shows "members_str_off fn c t js = do { (r, c) \<leftarrow> run_offs q c (map (\<lambda>j. t_extra t ! j) js); Some (r, t, c) }"
  using assms by (induction js arbitrary: c) (auto simp: fault fn_q split: Option.bind_splits)

lemma type_ro:
  assumes "names_ok t" "i < length ts" "ts ! i = t"
  shows "types_str_off fn c ts (i # ks) =
    do { (r, c) \<leftarrow> run_offs q c (name_refs t); if r \<noteq> 0 then Some (r, ts, c) else types_str_off fn c ts ks }"
proof -
  have t: "t\<lparr>t_name_off := t_name_off t\<rparr> = t" by simp
  have m: "members_str_off fn c t (name_places t) = do { (r, c) \<leftarrow> run_offs q c (map (\<lambda>j. t_extra t ! j) (name_places t)); Some (r, t, c) }" for c
    by (rule members_ro) (use assms(1) in \<open>simp add: names_ok_def\<close>)
  have u: "ts[i := t] = ts" using assms(2,3) by auto
  show ?thesis using assms(2,3) by (auto simp: fault fn_q t m u name_refs_def split: Option.bind_splits)
qed

lemma types_ro:
  assumes "k \<le> length ts" "\<forall>t \<in> set (drop k ts). names_ok t"
  shows "types_str_off fn c ts [k..<length ts] =
    do { (r, c) \<leftarrow> run_offs q c (concat (map name_refs (drop k ts))); Some (r, ts, c) }"
  using assms
proof (induction "length ts - k" arbitrary: k c)
  case (Suc n)
  have k: "k < length ts" using Suc(2) by simp
  have d: "drop k ts = ts ! k # drop (Suc k) ts" using k by (simp add: Cons_nth_drop_Suc)
  have "[k..<length ts] = k # [Suc k..<length ts]" using k by (simp add: upt_conv_Cons)
  moreover have "names_ok (ts ! k)" using Suc.prems(2) by (simp add: d)
  moreover have "types_str_off fn c' ts [Suc k..<length ts] =
      do { (r, c) \<leftarrow> run_offs q c' (concat (map name_refs (drop (Suc k) ts))); Some (r, ts, c) }" for c'
    using Suc.hyps(1) [of "Suc k"] Suc(2) Suc.prems(2) k by (simp add: d)
  ultimately show ?case using type_ro [OF _ k refl] by (auto simp: d run_offs_append split: Option.bind_splits)
qed simp

lemma recs_step_ro:
  assumes "load32 m (cur + 4) = Some a" "load32 m (cur + 8) = Some b"
  shows "recs_str_off fn c m n cur (Suc k) =
    do { (r, c) \<leftarrow> run_offs q c [a, b]; if r \<noteq> 0 then Some (r, m, c) else recs_str_off fn c m n (cur + n) k }"
  using assms assms [THEN store32_same] by (auto simp: fn_q split: Option.bind_splits)

lemma lines_step_ro:
  assumes "cur < line_end" "load32 m (cur + 4) = Some k" "load32 m cur = Some a"
  shows "lines_str_off fn c m n cur line_end = do {
    (r, c) \<leftarrow> q c a;
    if r \<noteq> 0 then Some (r, m, c)
    else do {
      (r, m, c) \<leftarrow> recs_str_off fn c m n (cur + 8) (unat k);
      if r \<noteq> 0 then Some (r, m, c) else lines_str_off fn c m n (cur + 8 + unat k * n) line_end
    } }"
  using assms assms(3) [THEN store32_same] by (subst lines_str_off.simps) (auto simp: fn_q split: Option.bind_splits)

lemma recs_ro:
  assumes "\<forall>r \<in> set rs. length r = n" "12 \<le> n" "length pre = p"
  shows "recs_str_off fn c (pre @ concat rs @ post) n p (length rs) =
    do { (r, c) \<leftarrow> run_offs q c (concat (map rec_refs rs)); Some (r, pre @ concat rs @ post, c) }"
  using assms
proof (induction rs arbitrary: c pre p)
  case (Cons r rs)
  let ?m = "pre @ concat (r # rs) @ post"
  have len: "length r = n" using Cons.prems(1) by simp
  have l: "load32 ?m (p + 4) = Some (the (load32 r 4))" "load32 ?m (p + 8) = Some (the (load32 r 8))"
    using load32_inside [OF Cons.prems(3), of 4 r "concat rs @ post"] load32_inside [OF Cons.prems(3), of 8 r "concat rs @ post"]
      len Cons.prems(2) by simp_all
  have "recs_str_off fn c' ?m n (p + n) (length rs) = do { (r, c) \<leftarrow> run_offs q c' (concat (map rec_refs rs)); Some (r, ?m, c) }" for c'
    using Cons.IH [of "pre @ r" "p + n" c'] Cons.prems len by simp
  moreover have "recs_str_off fn c ?m n p (length (r # rs)) = do { (r', c) \<leftarrow> run_offs q c (rec_refs r);
      if r' \<noteq> 0 then Some (r', ?m, c) else recs_str_off fn c ?m n (p + n) (length rs) }"
    using recs_step_ro [OF l] by (simp only: list.size add_Suc_right add_0_right rec_refs_def)
  ultimately show ?case by (auto simp: run_offs_append split: Option.bind_splits)
qed simp

lemma lines_ro:
  assumes "\<forall>s \<in> set ss. sec_ok rec s" "12 \<le> unat rec" "length pre = p"
  shows "lines_str_off fn c (pre @ enc_secs ss @ post) (unat rec) p (p + length (enc_secs ss)) =
    do { (r, c) \<leftarrow> run_offs q c (concat (map sec_refs ss)); Some (r, pre @ enc_secs ss @ post, c) }"
  using assms
proof (induction ss arbitrary: c pre p)
  case Nil
  then show ?case by (simp add: lines_str_off.simps [of fn c _ _ p] enc_secs_def)
next
  case (Cons s ss)
  obtain name rs where s: "s = (name, rs)" by (cases s)
  let ?n = "of_nat (length rs) :: u32" and ?m = "pre @ enc_secs (s # ss) @ post"
  have sec: "length rs < 2 ^ 32" "\<forall>r \<in> set rs. length r = unat rec" using Cons.prems(1) by (auto simp: s sec_ok_def)
  have n: "unat ?n = length rs" using sec(1) by (rule unat_of_nat_u32)
  have "length (concat xs) = length xs * unat rec" if "\<forall>x \<in> set xs. length x = unat rec" for xs :: "bytes list"
    using that by (induction xs) auto
  note clen = this [OF sec(2)]
  have m: "?m = pre @ enc32 name @ enc32 ?n @ concat rs @ enc_secs ss @ post" by (simp add: enc_secs_def enc_sec_def s)
  have len: "length (enc_secs (s # ss)) = 8 + length rs * unat rec + length (enc_secs ss)"
    using clen by (simp add: enc_secs_def enc_sec_def s)
  have l: "load32 ?m p = Some name" unfolding m by (rule load32_enc_at [OF Cons.prems(3)])
  have "load32 ((pre @ enc32 name) @ enc32 ?n @ concat rs @ enc_secs ss @ post) (p + 4) = Some ?n"
    by (rule load32_enc_at) (simp add: Cons.prems(3))
  then have l4: "load32 ?m (p + 4) = Some ?n" by (simp only: m append_assoc)
  have recs: "recs_str_off fn c' ?m (unat rec) (p + 8) (length rs) = do { (r, c) \<leftarrow> run_offs q c' (concat (map rec_refs rs)); Some (r, ?m, c) }" for c'
    using recs_ro [OF sec(2) Cons.prems(2), of "pre @ enc32 name @ enc32 ?n" "p + 8" c' "enc_secs ss @ post"] Cons.prems(3) unfolding m by simp
  have rest: "lines_str_off fn c' ?m (unat rec) (p + 8 + length rs * unat rec) (p + 8 + length rs * unat rec + length (enc_secs ss)) =
      do { (r, c) \<leftarrow> run_offs q c' (concat (map sec_refs ss)); Some (r, ?m, c) }" for c'
    using Cons.IH [of "pre @ enc32 name @ enc32 ?n @ concat rs" "p + 8 + length rs * unat rec" c'] Cons.prems clen unfolding m by simp
  let ?stop = "p + 8 + length rs * unat rec + length (enc_secs ss)"
  have "p < ?stop" by simp
  note step = lines_step_ro [OF this l4 l, of c "unat rec"]
  define M where "M = ?m"
  note facts = step [folded M_def, unfolded n] recs [folded M_def] rest [folded M_def]
  have "lines_str_off fn c M (unat rec) p ?stop = do { (r, c) \<leftarrow> run_offs q c (sec_refs s @ concat (map sec_refs ss)); Some (r, M, c) }"
    unfolding facts(1) by (auto simp: sec_refs_def s run_offs_append facts(2,3) split: Option.bind_splits)
  moreover have e: "p + length (enc_secs (s # ss)) = ?stop" using len by simp
  moreover have c: "concat (map sec_refs (s # ss)) = sec_refs s @ concat (map sec_refs ss)" by simp
  ultimately show ?case unfolding e c M_def by blast
qed

end

section \<open>Marking and remapping\<close>

lemma bsearch_str_Some:
  assumes "distinct (map s_off ptrs)" "i < length ptrs" "s_off (ptrs ! i) = unat x"
  shows "bsearch_str ptrs x = Some i"
proof -
  have "s_off (ptrs ! j) \<noteq> unat x" if "j < i" for j
    using assms that nth_eq_iff_index_eq [OF assms(1), of i j] by auto
  then show ?thesis using assms(2,3) by (auto simp: bsearch_str_def find_Some_iff intro!: exI [of _ i])
qed

lemma bsearch_str_None: "unat x \<notin> s_off ` set ptrs \<Longrightarrow> bsearch_str ptrs x = None"
  unfolding bsearch_str_def find_None_iff by (metis atLeastLessThan_iff image_eqI nth_mem set_upt)

definition mark_step :: "btf_str_ptr list \<Rightarrow> u32 \<Rightarrow> (int \<times> btf_str_ptr list) option" where
  "mark_step ptrs x = map_option (\<lambda>(r, _, ptrs). (r, ptrs)) (btf_str_mark_as_used ptrs x)"

interpretation mark: read_only_fn btf_str_mark_as_used mark_step
  by unfold_locales (auto simp: btf_str_mark_as_used_def mark_step_def split: option.splits)

text \<open>Every offset that is 0 or the start of a string marks its string; another one ends the run with an error.\<close>

definition start_ok :: "btf_str_ptr list \<Rightarrow> u32 \<Rightarrow> bool" where
  "start_ok ptrs x \<longleftrightarrow> x = 0 \<or> unat x \<in> s_off ` set ptrs"

definition marked :: "btf_str_ptr list \<Rightarrow> u32 list \<Rightarrow> btf_str_ptr list" where
  "marked ptrs xs = map (\<lambda>p. p\<lparr>s_used := s_used p \<or> s_off p \<in> unat ` (set xs - {0})\<rparr>) ptrs"

lemma mark_step_ok:
  assumes "distinct (map s_off ptrs)" "start_ok ptrs x"
  shows "mark_step ptrs x = Some (0, marked ptrs [x])"
proof (cases "x = 0")
  case True
  then show ?thesis by (simp add: mark_step_def btf_str_mark_as_used_def marked_def)
next
  case False
  then obtain i where i: "i < length ptrs" "s_off (ptrs ! i) = unat x"
    using assms(2) by (auto simp: start_ok_def in_set_conv_nth)
  have "ptrs[i := (ptrs ! i)\<lparr>s_used := True\<rparr>] = marked ptrs [x]"
  proof (rule nth_equalityI)
    fix j assume "j < length (ptrs[i := (ptrs ! i)\<lparr>s_used := True\<rparr>])"
    then show "ptrs[i := (ptrs ! i)\<lparr>s_used := True\<rparr>] ! j = marked ptrs [x] ! j"
      using False i nth_eq_iff_index_eq [OF assms(1), of i j] by (auto simp: marked_def nth_list_update)
  qed (simp add: marked_def)
  then show ?thesis using False bsearch_str_Some [OF assms(1) i] by (simp add: mark_step_def btf_str_mark_as_used_def)
qed

lemma marked_simps [simp]: "map s_off (marked ptrs xs) = map s_off ptrs" "map s_new (marked ptrs xs) = map s_new ptrs"
  "length (marked ptrs xs) = length ptrs" "s_off ` set (marked ptrs xs) = s_off ` set ptrs"
  by (simp_all add: marked_def image_image)

lemma run_marks:
  assumes "distinct (map s_off ptrs)"
  shows "\<forall>x \<in> set xs. start_ok ptrs x \<Longrightarrow> run_offs mark_step ptrs xs = Some (0, marked ptrs xs)"
    "\<exists>x \<in> set xs. \<not> start_ok ptrs x \<Longrightarrow> \<exists>ptrs'. run_offs mark_step ptrs xs = Some (- EINVAL, ptrs')"
proof -
  have ok: "start_ok (marked ptrs ys) x = start_ok ptrs x" for ptrs ys x by (simp add: start_ok_def)
  have twice: "marked (marked ptrs [x]) xs = marked ptrs (x # xs)" for ptrs x xs
  proof -
    have gen: "map (\<lambda>p. p\<lparr>s_used := s_used p \<or> s_off p \<in> B\<rparr>) (map (\<lambda>p. p\<lparr>s_used := s_used p \<or> s_off p \<in> A\<rparr>) ptrs) =
        map (\<lambda>p. p\<lparr>s_used := s_used p \<or> s_off p \<in> A \<union> B\<rparr>) ptrs" for A B by (simp add: o_def disj_assoc)
    have "(set [x] - {0}) \<union> (set xs - {0}) = set (x # xs) - {0}" by auto
    then show ?thesis unfolding marked_def gen by (simp only: image_Un [symmetric])
  qed
  have bad: "mark_step ptrs x = Some (- EINVAL, ptrs)" if "\<not> start_ok ptrs x" for ptrs x
    using that bsearch_str_None by (simp add: start_ok_def mark_step_def btf_str_mark_as_used_def)
  show "run_offs mark_step ptrs xs = Some (0, marked ptrs xs)" if "\<forall>x \<in> set xs. start_ok ptrs x"
    using assms that
  proof (induction xs arbitrary: ptrs)
    case Nil
    then show ?case by (simp add: marked_def)
  next
    case (Cons x xs)
    then show ?case using mark_step_ok [of ptrs x] Cons.IH [of "marked ptrs [x]"] by (simp add: ok twice)
  qed
  show "\<exists>ptrs'. run_offs mark_step ptrs xs = Some (- EINVAL, ptrs')" if "\<exists>x \<in> set xs. \<not> start_ok ptrs x"
    using assms that
  proof (induction xs arbitrary: ptrs)
    case (Cons x xs)
    show ?case
    proof (cases "start_ok ptrs x")
      case True
      then show ?thesis using mark_step_ok [of ptrs x] Cons.IH [of "marked ptrs [x]"] Cons.prems by (simp add: ok)
    qed (simp add: bad EINVAL_def)
  qed simp
qed

definition new_off_of :: "btf_str_ptr list \<Rightarrow> u32 \<Rightarrow> u32" where
  "new_off_of ptrs x =
     (if x = 0 then 0 else case bsearch_str ptrs x of None \<Rightarrow> 0 | Some i \<Rightarrow> the (s_new (ptrs ! i)))"

interpretation remap: str_off_fn btf_str_remap_offset "new_off_of ptrs" "\<lambda>x c. c" "\<lambda>c. c = ptrs \<and> distinct (map s_off ptrs)"
    "\<lambda>x. x = 0 \<or> (\<exists>p \<in> set ptrs. s_off p = unat x \<and> s_new p \<noteq> None)" for ptrs
proof unfold_locales
  fix c :: "btf_str_ptr list" and x :: u32
  assume c: "c = ptrs \<and> distinct (map s_off ptrs)" and x: "x = 0 \<or> (\<exists>p \<in> set ptrs. s_off p = unat x \<and> s_new p \<noteq> None)"
  show "btf_str_remap_offset c x = Some (0, new_off_of ptrs x, c) \<and> c = ptrs \<and> distinct (map s_off ptrs)"
  proof (cases "x = 0")
    case True
    then show ?thesis using c by (simp add: btf_str_remap_offset_def new_off_of_def)
  next
    case False
    then obtain i where "i < length ptrs" "s_off (ptrs ! i) = unat x" "s_new (ptrs ! i) \<noteq> None"
      using x by (auto simp: in_set_conv_nth)
    then show ?thesis using False c bsearch_str_Some [of ptrs i x] by (auto simp: btf_str_remap_offset_def new_off_of_def)
  qed
qed

text \<open>The sections of the line information of an optional \<open>btf_ext\<close>.\<close>

definition ext_lines :: "btf_ext option \<Rightarrow> ext_sec list \<Rightarrow> bool" where
  "ext_lines ext ss \<longleftrightarrow> (case ext of None \<Rightarrow> ss = [] | Some x \<Rightarrow> info_holds (x_data x) 16 (line_info x) ss)"

lemma ext_lines_cases:
  assumes "info_holds (x_data x) 16 (line_info x) ss"
  obtains pre post where "x_data x = pre @ enc_secs ss @ post" "length pre = (case x_info (line_info x) of None \<Rightarrow> 0 | Some p \<Rightarrow> p)"
    "unat (x_len (line_info x)) = length (enc_secs ss)" "\<forall>s \<in> set ss. sec_ok (x_rec_size (line_info x)) s" "ss \<noteq> [] \<Longrightarrow> 12 \<le> unat (x_rec_size (line_info x))"
proof (cases "line_info x = no_info \<and> ss = []")
  case True
  then show thesis using that [of "[]" "x_data x"] by (simp add: enc_secs_def no_info_def)
next
  case False
  let ?i = "line_info x"
  obtain p where p: "x_info ?i = Some p" "16 \<le> x_rec_size ?i" "\<forall>s \<in> set ss. sec_ok (x_rec_size ?i) s"
      "mem_read (x_data x) p (unat (x_len ?i)) = Some (enc_secs ss)"
    using assms False by (auto simp: info_holds_def)
  have r: "take (unat (x_len ?i)) (drop p (x_data x)) = enc_secs ss" "p + unat (x_len ?i) \<le> length (x_data x)"
    using p(4) by (auto simp: mem_read_def split: if_splits)
  have "x_data x = take p (x_data x) @ enc_secs ss @ drop (p + unat (x_len ?i)) (x_data x)"
    by (metis r(1) append_take_drop_id drop_drop add.commute)
  moreover have "length (take p (x_data x)) = p" using r(2) by simp
  moreover have "unat (x_len ?i) = length (enc_secs ss)" using mem_read_length [OF p(4)] by simp
  moreover have "12 \<le> unat (x_rec_size ?i)" using p(2) by (simp add: word_le_nat_alt)
  ultimately show thesis using that p(1,3) by simp
qed

definition all_refs :: "btf_type list \<Rightarrow> ext_sec list \<Rightarrow> u32 list" where
  "all_refs ts ss = type_refs ts @ concat (map sec_refs ss)"

lemma each_mark:
  assumes "types b \<noteq> []" "\<forall>t \<in> set (tl (types b)). names_ok t" "ext_lines ext ss"
  shows "btf_for_each_str_off btf_str_mark_as_used ptrs b ext =
    do { (r, ptrs) \<leftarrow> run_offs mark_step ptrs (all_refs (types b) ss); Some (r, b, ext, ptrs) }"
proof -
  have n: "[1..<Suc (btf__get_nr_types b)] = [1..<length (types b)]" using assms(1) by (simp add: btf__get_nr_types_def)
  have d: "drop (Suc 0) (types b) = tl (types b)" by (simp add: drop_Suc)
  have ts: "types_str_off btf_str_mark_as_used ptrs (types b) [1..<length (types b)] =
      do { (r, c) \<leftarrow> run_offs mark_step ptrs (type_refs (types b)); Some (r, types b, c) }"
    using mark.types_ro [of 1 "types b" ptrs] assms(1,2) by (simp add: d type_refs_def Suc_le_eq)
  show ?thesis
  proof (cases ext)
    case None
    then have "ss = []" using assms(3) by (simp add: ext_lines_def)
    then show ?thesis using None unfolding btf_for_each_str_off_def n ts by (auto simp: all_refs_def split: Option.bind_splits)
  next
    case (Some x)
    then have "info_holds (x_data x) 16 (line_info x) ss" using assms(3) by (simp add: ext_lines_def)
    from this obtain pre post where x: "x_data x = pre @ enc_secs ss @ post"
        "length pre = (case x_info (line_info x) of None \<Rightarrow> 0 | Some p \<Rightarrow> p)" "unat (x_len (line_info x)) = length (enc_secs ss)"
        "\<forall>s \<in> set ss. sec_ok (x_rec_size (line_info x)) s" "ss \<noteq> [] \<Longrightarrow> 12 \<le> unat (x_rec_size (line_info x))"
      using ext_lines_cases [of x ss thesis] by blast
    let ?p = "case x_info (line_info x) of None \<Rightarrow> 0 | Some p \<Rightarrow> p"
    have "lines_str_off btf_str_mark_as_used c (x_data x) (unat (x_rec_size (line_info x))) ?p (?p + unat (x_len (line_info x))) =
        do { (r, c) \<leftarrow> run_offs mark_step c (concat (map sec_refs ss)); Some (r, x_data x, c) }" for c
    proof (cases "ss = []")
      case True
      then show ?thesis using x(3) by (simp add: enc_secs_def lines_str_off.simps [of _ c _ _ ?p])
    next
      case False
      then show ?thesis unfolding x(1,3) using mark.lines_ro [OF x(4) x(5) x(2), of c post] by blast
    qed
    then show ?thesis using Some unfolding btf_for_each_str_off_def n ts
      by (auto simp: all_refs_def run_offs_append Let_def split: Option.bind_splits)
  qed
qed

lemma fold_unit: "fold (\<lambda>x c. c) xs c = c"
  by (induction xs) simp_all

lemma enc_secs_names:
  assumes "\<forall>s \<in> set ss. sec_ok rec s" "12 \<le> unat rec"
  shows "length (enc_secs (map (sec_names f) ss)) = length (enc_secs ss)" "\<forall>s \<in> set (map (sec_names f) ss). sec_ok rec s"
proof -
  have "sum_list (map length (map (rec_names f) rs)) = sum_list (map length rs)" if "\<forall>r \<in> set rs. length r = unat rec" for rs
    using that assms(2) by (induction rs) auto
  then have "length (enc_sec (sec_names f s)) = length (enc_sec s)" if "s \<in> set ss" for s
    using that assms(1) by (auto simp: enc_sec_def sec_names_def sec_ok_def length_concat)
  then have "map (length \<circ> (enc_sec \<circ> sec_names f)) ss = map (length \<circ> enc_sec) ss" by simp
  then show "length (enc_secs (map (sec_names f) ss)) = length (enc_secs ss)" by (simp only: enc_secs_def length_concat map_map o_assoc)
  show "\<forall>s \<in> set (map (sec_names f) ss). sec_ok rec s" using assms by (auto simp: sec_ok_def sec_names_def)
qed

lemma each_remap:
  assumes "types b \<noteq> []" "\<forall>t \<in> set (tl (types b)). names_ok t" "ext_lines ext ss" "distinct (map s_off ptrs)"
    "\<forall>x \<in> set (all_refs (types b) ss). x = 0 \<or> (\<exists>p \<in> set ptrs. s_off p = unat x \<and> s_new p \<noteq> None)"
  shows "\<exists>ext'. btf_for_each_str_off btf_str_remap_offset ptrs b ext =
      Some (0, b\<lparr>types := rename_types (new_off_of ptrs) (types b)\<rparr>, ext', ptrs) \<and>
    ext_lines ext' (map (sec_names (new_off_of ptrs)) ss)"
proof -
  let ?f = "new_off_of ptrs"
  have P: "ptrs = ptrs \<and> distinct (map s_off ptrs)" using assms(4) by simp
  have n: "[1..<Suc (btf__get_nr_types b)] = [1..<length (types b)]" using assms(1) by (simp add: btf__get_nr_types_def)
  have d: "drop (Suc 0) (types b) = tl (types b)" "take (Suc 0) (types b) @ map (map_names ?f) (tl (types b)) = rename_types ?f (types b)"
    using assms(1) by (simp_all add: drop_Suc rename_types_def neq_Nil_conv split: list.splits) 
  have ts: "types_str_off btf_str_remap_offset ptrs (types b) [1..<length (types b)] = Some (0, rename_types ?f (types b), ptrs)"
  proof -
    have "x = 0 \<or> (\<exists>p \<in> set ptrs. s_off p = unat x \<and> s_new p \<noteq> None)" if "t \<in> set (tl (types b))" "x \<in> set (name_refs t)" for t x
    proof -
      have "x \<in> set (all_refs (types b) ss)" using that by (auto simp: all_refs_def type_refs_def)
      then show ?thesis using assms(5) by blast
    qed
    then have "\<forall>t \<in> set (drop (Suc 0) (types b)). names_ok t \<and> (\<forall>x \<in> set (name_refs t). x = 0 \<or> (\<exists>p \<in> set ptrs. s_off p = unat x \<and> s_new p \<noteq> None))"
      using assms(2) unfolding d by blast
    from remap.types_ok [OF P _ this] show ?thesis using assms(1) by (simp add: d fold_unit Suc_le_eq)
  qed
  show ?thesis
  proof (cases ext)
    case None
    then show ?thesis using assms(3) unfolding btf_for_each_str_off_def n ts by (simp add: ext_lines_def)
  next
    case (Some x)
    let ?i = "line_info x" and ?ss = "map (sec_names ?f) ss"
    have holds: "info_holds (x_data x) 16 ?i ss" using Some assms(3) by (simp add: ext_lines_def)
    from this obtain pre post where x: "x_data x = pre @ enc_secs ss @ post"
        "length pre = (case x_info ?i of None \<Rightarrow> 0 | Some p \<Rightarrow> p)" "unat (x_len ?i) = length (enc_secs ss)"
        "\<forall>s \<in> set ss. sec_ok (x_rec_size ?i) s" "ss \<noteq> [] \<Longrightarrow> 12 \<le> unat (x_rec_size ?i)"
      using ext_lines_cases [of x ss thesis] by blast
    let ?p = "case x_info ?i of None \<Rightarrow> 0 | Some p \<Rightarrow> p"
    have "lines_str_off btf_str_remap_offset ptrs (x_data x) (unat (x_rec_size ?i)) ?p (?p + unat (x_len ?i)) =
        Some (0, pre @ enc_secs ?ss @ post, ptrs) \<and> info_holds (pre @ enc_secs ?ss @ post) 16 ?i ?ss"
    proof (cases "ss = []")
      case True
      then show ?thesis using x(1,3) holds by (simp add: enc_secs_def lines_str_off.simps [of _ ptrs _ _ ?p])
    next
      case False
      have oks: "\<forall>s \<in> set ss. sec_ok (x_rec_size ?i) s \<and> (\<forall>y \<in> set (sec_refs s). y = 0 \<or> (\<exists>p \<in> set ptrs. s_off p = unat y \<and> s_new p \<noteq> None))"
        using x(4) assms(5) by (auto simp: all_refs_def)
      have "lines_str_off btf_str_remap_offset ptrs (x_data x) (unat (x_rec_size ?i)) ?p (?p + unat (x_len ?i)) =
          Some (0, pre @ enc_secs ?ss @ post, ptrs)"
        unfolding x(1,3) using remap.lines_ok [OF P oks x(5) [OF False] x(2), of post] by (simp add: fold_unit)
      moreover note names = enc_secs_names [OF x(4) x(5) [OF False], of ?f]
      obtain p where p: "x_info ?i = Some p" "16 \<le> x_rec_size ?i" "x_rec_size ?i AND 3 = 0"
        using holds False by (auto simp: info_holds_def)
      have "mem_read (pre @ enc_secs ?ss @ post) p (unat (x_len ?i)) = Some (enc_secs ?ss)"
        by (rule mem_read_at) (use x(2,3) p(1) names(1) in simp_all)
      then have "info_holds (pre @ enc_secs ?ss @ post) 16 ?i ?ss" using p names(2) False by (auto simp: info_holds_def)
      ultimately show ?thesis by blast
    qed
    then show ?thesis using Some unfolding btf_for_each_str_off_def n ts by (auto simp: ext_lines_def Let_def)
  qed
qed

section \<open>The strings after the deduplication\<close>

text \<open>What \<open>qsort\<close> promises: the same entries, in the order of \<open>strcmp\<close> on their strings.\<close>

definition sorts_content :: "string \<Rightarrow> (btf_str_ptr list \<Rightarrow> btf_str_ptr list) \<Rightarrow> bool" where
  "sorts_content s q \<longleftrightarrow> (\<forall>ps. mset (q ps) = mset ps \<and> sorted (map (\<lambda>p. str_key (str_at s (s_off p))) (q ps)))"

definition str_sec :: "string \<Rightarrow> bool" where
  "str_sec s \<longleftrightarrow> terminated s \<and> hd s = CHR 0x00 \<and> length s < 2 ^ 32"

lemma concat_strs_first:
  assumes "sorted_wrt (<) (map str_key us)" "[] \<in> set us"
  shows "\<exists>vs. us = [] # vs"
proof (cases us)
  case (Cons u vs)
  have "u = []"
  proof (rule ccontr)
    assume "u \<noteq> []"
    then have "str_key u < str_key []" using assms by (auto simp: Cons)
    then show False by (simp add: str_key_def)
  qed
  then show ?thesis using Cons by blast
qed (use assms(2) in simp)

lemma strings_grouped:
  assumes "str_sec s" "ps = marked (map (\<lambda>q. \<lparr>s_off = q, s_new = None, s_used = q = 0\<rparr>) (starts_from s 0)) xs"
    "\<forall>x \<in> set xs. x = 0 \<or> unat x \<in> set (starts_from s 0)" "sorts_content s q"
  shows "\<exists>ptrs out us. group_loop s 0 (s_used (q ps ! 0)) (q ps) [] [1..<Suc (length (q ps))] = Some (ptrs, out) \<and>
    distinct (map s_off ptrs) \<and> s_off ` set ptrs = set (starts_from s 0) \<and> length out \<le> length s \<and>
    (\<forall>p \<in> set ptrs. s_off p \<in> unat ` (set xs - {0}) \<longrightarrow> placed s out p) \<and>
    out = concat (map (\<lambda>u. u @ [CHR 0x00]) us) \<and> sorted_wrt (<) (map str_key us) \<and> set us = {[]} \<union> (\<lambda>x. str_at s (unat x)) ` set xs"
proof -
  let ?st = "starts_from s 0" and ?S = "\<lambda>p. str_at s (s_off p)"
  have tm: "terminated s" "hd s = CHR 0x00" using assms(1) by (simp_all add: str_sec_def)
  have at0: "str_at s 0 = []" using tm by (simp add: str_at_def terminated_def takeWhile_eq_Nil_iff)
  have offs: "map s_off ps = ?st" by (simp add: assms(2) o_def)
  have len0: "0 < length s" using tm by (simp add: terminated_def)
  have zero: "0 \<in> set ?st" using len0 by (simp add: starts_from_iff)
  have used: "s_used p \<longleftrightarrow> s_off p = 0 \<or> s_off p \<in> unat ` (set xs - {0})" if "p \<in> set ps" for p
    using that by (auto simp: assms(2) marked_def)
  have q: "mset (q ps) = mset ps" "sorted (map (\<lambda>p. str_key (?S p)) (q ps))" using assms(4) by (simp_all add: sorts_content_def)
  have set_q: "set (q ps) = set ps" using q(1) by (rule mset_eq_setD)
  have ne: "q ps \<noteq> []" using zero offs set_q by (metis empty_iff list.set(1) list.simps(8) set_empty)
  have "(\<Sum>p\<leftarrow>q ps. length (?S p) + 1) = (\<Sum>p\<leftarrow>ps. length (?S p) + 1)"
    using q(1) by (metis mset_map sum_mset_sum_list)
  also have "\<dots> = (\<Sum>x\<leftarrow>map s_off ps. length (str_at s x) + 1)" by (simp add: o_def)
  also have "\<dots> = length s" unfolding offs using starts_sum [OF tm(1), of 0] by simp
  finally have sum: "(\<Sum>j < length (q ps). length (?S (q ps ! j)) + 1) = length s"
    by (simp add: sum_list_sum_nth atLeast0LessThan)
  have g0: "groups_done s (q ps) 0 (q ps) []" by (simp add: groups_done_def same_strs_def)
  have at: "group_at s (q ps) 0 1" by (rule group_atI) (use ne in \<open>simp_all add: Suc_le_eq\<close>)
  have "s_used (q ps ! 0) = (\<exists>j. 0 \<le> j \<and> j < 1 \<and> s_used (q ps ! j))" by simp
  from group_loop_ok [OF g0 at _ this q(2)] sum obtain ptrs out where
    run: "group_loop s 0 (s_used (q ps ! 0)) (q ps) [] [1..<Suc (length (q ps))] = Some (ptrs, out)"
      "groups_done s (q ps) (length (q ps)) ptrs out" by auto
  have same: "same_strs ptrs (q ps)" and pl: "\<And>j. j < length (q ps) \<Longrightarrow> s_used (q ps ! j) \<Longrightarrow> placed s out (ptrs ! j)"
    and len: "length out \<le> length s" using run(2) sum by (simp_all add: groups_done_def)
  obtain us where us: "out = concat (map (\<lambda>u. u @ [CHR 0x00]) us)" "sorted_wrt (<) (map str_key us)"
      "set us = {?S (q ps ! j) | j. j < length (q ps) \<and> s_used (q ps ! j)}"
    using run(2) unfolding groups_done_def by blast
  note sd = same_strsD [OF same]
  have "mset (map s_off ptrs) = mset (map s_off ps)" using same q(1) unfolding same_strs_def by (metis mset_map)
  then have m: "mset (map s_off ptrs) = mset ?st" by (simp only: offs)
  have "distinct (map s_off ptrs)" using mset_eq_imp_distinct_iff [OF m] starts_from_distinct(1) by blast
  moreover have "s_off ` set ptrs = set ?st" using mset_eq_setD [OF m] by simp
  moreover have "placed s out p" if p: "p \<in> set ptrs" and off: "s_off p \<in> unat ` (set xs - {0})" for p
  proof -
    obtain j where j: "j < length (q ps)" "p = ptrs ! j" using p unfolding in_set_conv_nth sd(1) by blast
    have "q ps ! j \<in> set ps" using nth_mem [OF j(1)] by (simp only: set_q)
    moreover have "s_off (q ps ! j) \<in> unat ` (set xs - {0})" using off sd(2) [OF j(1)] by (simp only: j(2))
    ultimately have "s_used (q ps ! j)" using used by blast
    then show ?thesis using pl j by simp
  qed
  moreover have "set us = {[]} \<union> (\<lambda>x. str_at s (unat x)) ` set xs"
  proof -
    have "set us = ?S ` {p \<in> set (q ps). s_used p}" unfolding us(3) set_conv_nth [of "q ps"] by blast
    also have "\<dots> = ?S ` {p \<in> set ps. s_used p}" by (simp only: set_q)
    also have "\<dots> = str_at s ` (s_off ` {p \<in> set ps. s_used p})" by (simp add: image_image)
    also have "s_off ` {p \<in> set ps. s_used p} = {x \<in> set ?st. x = 0 \<or> x \<in> unat ` (set xs - {0})}"
      using used unfolding offs [symmetric] by auto
    also have "\<dots> = {0} \<union> unat ` (set xs - {0})" using zero assms(3) by auto
    also have "{0} \<union> unat ` (set xs - {0}) = unat ` (insert 0 (set xs))" by force
    also have "str_at s ` \<dots> = {[]} \<union> (\<lambda>x. str_at s (unat x)) ` set xs" by (simp add: image_image at0)
    finally show ?thesis .
  qed
  ultimately show ?thesis using run(1) len us(1,2) by blast
qed

lemma name_placed:
  assumes "placed s out p" "s_off p = unat x" "unat x < length s" "length out < 2 ^ 32" "strs b = s" "strs b' = out"
  shows "\<exists>n. s_new p = Some n \<and> btf__name_by_offset b' n = btf__name_by_offset b x"
proof -
  obtain n where n: "s_new p = Some (of_nat n)" "CHR 0x00 \<in> set (drop n out)" "str_at out n = str_at s (unat x)"
    using assms(1,2) by (auto simp: placed_def)
  have "n < length out" using n(2) by (metis drop_eq_Nil empty_iff list.set(1) not_le)
  moreover then have "unat (of_nat n :: u32) = n" using assms(4) by (intro unat_of_nat_u32) simp
  ultimately show ?thesis using n assms(3,5,6) by (simp add: btf__name_by_offset_def str_at_def)
qed

lemma first_marked:
  assumes "terminated s"
  shows "arr_get (map (\<lambda>q. \<lparr>s_off = q, s_new = None, s_used = False\<rparr>) (starts_from s 0)) 0 = Some \<lparr>s_off = 0, s_new = None, s_used = False\<rparr>"
    "arr_set (map (\<lambda>q. \<lparr>s_off = q, s_new = None, s_used = False\<rparr>) (starts_from s 0)) 0 \<lparr>s_off = 0, s_new = None, s_used = True\<rparr> =
      Some (map (\<lambda>q. \<lparr>s_off = q, s_new = None, s_used = q = 0\<rparr>) (starts_from s 0))"
proof -
  have "0 < length s" using assms by (simp add: terminated_def)
  from starts_from_step(1) [OF assms this] obtain qs where qs: "starts_from s 0 = 0 # qs" by auto
  moreover have "0 \<notin> set qs" using starts_from_distinct(1) [of s 0] by (simp add: qs)
  ultimately show "arr_get (map (\<lambda>q. \<lparr>s_off = q, s_new = None, s_used = False\<rparr>) (starts_from s 0)) 0 = Some \<lparr>s_off = 0, s_new = None, s_used = False\<rparr>"
    "arr_set (map (\<lambda>q. \<lparr>s_off = q, s_new = None, s_used = False\<rparr>) (starts_from s 0)) 0 \<lparr>s_off = 0, s_new = None, s_used = True\<rparr> =
      Some (map (\<lambda>q. \<lparr>s_off = q, s_new = None, s_used = q = 0\<rparr>) (starts_from s 0))"
    by (auto simp: arr_get_def arr_set_def) (metis gr_zeroI)
qed

definition strings_kept :: "btf \<Rightarrow> ext_sec list \<Rightarrow> btf \<Rightarrow> btf_ext option \<Rightarrow> bool" where
  "strings_kept b ss b' ext' \<longleftrightarrow> (\<exists>f us. types b' = rename_types f (types b) \<and> ext_lines ext' (map (sec_names f) ss) \<and>
     (\<forall>x \<in> set (all_refs (types b) ss). btf__name_by_offset b' (f x) = btf__name_by_offset b x) \<and>
     strs b' = concat (map (\<lambda>u. u @ [CHR 0x00]) us) \<and> sorted_wrt (<) (map str_key us) \<and>
     set us = {[]} \<union> (\<lambda>x. str_at (strs b) (unat x)) ` set (all_refs (types b) ss))"

lemma dedup_strings_ok:
  assumes "str_sec (strs b)" "types b \<noteq> []" "\<forall>t \<in> set (tl (types b)). names_ok t" "ext_lines ext ss" "sorts_content (strs b) q"
  shows "\<exists>err b' ext'. btf_dedup_strings ok tmp_ok q b ext = Some (err, b', ext') \<and>
    (err = 0 \<and> strings_kept b ss b' ext' \<or>
     b' = b \<and> ext' = ext \<and>
       (err = - ENOMEM \<and> \<not> (tmp_ok \<and> (\<forall>n. ok n)) \<or>
        err = - EINVAL \<and> (\<exists>x \<in> set (all_refs (types b) ss). x \<noteq> 0 \<and> unat x \<notin> set (starts_from (strs b) 0))))"
proof -
  let ?s = "strs b" and ?refs = "all_refs (types b) ss" and ?st = "starts_from (strs b) 0"
  let ?fresh = "map (\<lambda>q. \<lparr>s_off = q, s_new = None, s_used = False\<rparr>) ?st" and ?init = "map (\<lambda>q. \<lparr>s_off = q, s_new = None, s_used = q = 0\<rparr>) ?st"
  have tm: "terminated ?s" "length ?s < 2 ^ 32" "hd ?s = CHR 0x00" using assms(1) by (simp_all add: str_sec_def)
  note first = first_marked [OF tm(1)]
  have dist: "distinct (map s_off ?init)" using starts_from_distinct(1) by (simp add: o_def)
  have sok: "start_ok ?init x \<longleftrightarrow> x = 0 \<or> unat x \<in> set ?st" for x by (simp add: start_ok_def image_image)
  from index_strings_ok [OF tm(1) le0 disjI1 [OF refl], of ok 0 "[]"] show ?thesis
  proof (elim disjE conjE)
    assume "index_strings ok ?s 0 0 [] = Some (Inl (- ENOMEM))" "\<not> (\<forall>n. ok n)"
    then show ?thesis by (auto simp: btf_dedup_strings_def)
  next
    assume "index_strings ok ?s 0 0 [] = Some (Inr ([] @ ?fresh))"
    then have idx: "index_strings ok ?s 0 0 [] = Some (Inr ?fresh)" by simp
    show ?thesis
    proof (cases tmp_ok)
      case False
      then show ?thesis using idx by (auto simp: btf_dedup_strings_def)
    next
      case tmp: True
      note mark = each_mark [OF assms(2-4), of ?init]
      show ?thesis
      proof (cases "\<forall>x \<in> set ?refs. start_ok ?init x")
        case False
        then obtain c where "run_offs mark_step ?init ?refs = Some (- EINVAL, c)" using run_marks(2) [OF dist] by blast
        then have "btf_dedup_strings ok tmp_ok q b ext = Some (- EINVAL, b, ext)"
          using idx tmp first mark by (simp add: btf_dedup_strings_def EINVAL_def)
        then show ?thesis using False sok by auto
      next
        case True
        let ?ps = "marked ?init ?refs"
        have run: "run_offs mark_step ?init ?refs = Some (0, ?ps)" by (rule run_marks(1) [OF dist True])
        have starts: "\<forall>x \<in> set ?refs. x = 0 \<or> unat x \<in> set ?st" using True sok by blast
        obtain ptrs out us where g: "group_loop ?s 0 (s_used (q ?ps ! 0)) (q ?ps) [] [1..<Suc (length (q ?ps))] = Some (ptrs, out)"
            "distinct (map s_off ptrs)" "s_off ` set ptrs = set ?st" "length out \<le> length ?s"
            "\<forall>p \<in> set ptrs. s_off p \<in> unat ` (set ?refs - {0}) \<longrightarrow> placed ?s out p"
            "out = concat (map (\<lambda>u. u @ [CHR 0x00]) us)" "sorted_wrt (<) (map str_key us)"
            "set us = {[]} \<union> (\<lambda>x. str_at ?s (unat x)) ` set ?refs"
          using strings_grouped [OF assms(1) refl starts assms(5)] by (elim exE conjE)
        let ?ptrs = "sort_key s_off ptrs" and ?b = "b\<lparr>strs := out\<rparr>"
        let ?f = "new_off_of ?ptrs"
        have srt: "distinct (map s_off ?ptrs)" "set ?ptrs = set ptrs"
          using g(2) mset_eq_imp_distinct_iff [of "map s_off ?ptrs" "map s_off ptrs"] by simp_all
        have "length out < 2 ^ 32" using g(4) tm(2) by simp
        have found: "\<exists>p n. p \<in> set ptrs \<and> s_off p = unat x \<and> s_new p = Some n \<and> btf__name_by_offset (?b\<lparr>types := ts\<rparr>) n = btf__name_by_offset b x"
          if x: "x \<in> set ?refs" "x \<noteq> 0" for x ts
        proof -
          have "unat x \<in> set ?st" using starts x by blast
          then obtain p where p: "p \<in> set ptrs" "s_off p = unat x" using g(3) by (metis imageE)
          then have "placed ?s out p" using g(5) x by blast
          moreover have "unat x < length ?s" using \<open>unat x \<in> set ?st\<close> by (simp add: starts_from_iff)
          ultimately show ?thesis
            using name_placed [of ?s out p x b "?b\<lparr>types := ts\<rparr>"] p \<open>length out < 2 ^ 32\<close> by auto
        qed
        have "\<forall>x \<in> set (all_refs (types ?b) ss). x = 0 \<or> (\<exists>p \<in> set ?ptrs. s_off p = unat x \<and> s_new p \<noteq> None)"
          using found srt(2) by fastforce
        from each_remap [OF _ _ assms(4) srt(1) this] assms(2,3) obtain ext' where
          r: "btf_for_each_str_off btf_str_remap_offset ?ptrs ?b ext = Some (0, ?b\<lparr>types := rename_types ?f (types b)\<rparr>, ext', ?ptrs)"
            "ext_lines ext' (map (sec_names ?f) ss)" by auto
        let ?b' = "?b\<lparr>types := rename_types ?f (types b)\<rparr>"
        have "q ?ps \<noteq> []"
        proof
          assume "q ?ps = []"
          then have "mset ?ps = {#}" using assms(5) unfolding sorts_content_def by (metis mset.simps(1))
          then have "?st = []" by (simp add: marked_def)
          then show False using first(1) by (simp add: arr_get_def)
        qed
        then have "arr_get (q ?ps) 0 = Some (q ?ps ! 0)" by (simp add: fault)
        then have "btf_dedup_strings ok tmp_ok q b ext = Some (0, ?b', ext')"
          using idx tmp first mark run g(1) r(1) by (simp add: btf_dedup_strings_def Let_def del: upt_Suc)
        moreover have "btf__name_by_offset ?b' (?f x) = btf__name_by_offset b x" if x: "x \<in> set ?refs" for x
        proof (cases "x = 0")
          case True
          obtain vs where "us = [] # vs" using concat_strs_first [OF g(7)] g(8) by blast
          then have "btf__name_by_offset ?b' 0 = Some []" by (simp add: btf__name_by_offset_def g(6))
          moreover have "btf__name_by_offset b 0 = Some []"
            using tm by (cases ?s) (simp_all add: btf__name_by_offset_def terminated_def)
          ultimately show ?thesis using True by (simp add: new_off_of_def)
        next
          case False
          obtain p n where p: "p \<in> set ?ptrs" "s_off p = unat x" "s_new p = Some n" "btf__name_by_offset ?b' n = btf__name_by_offset b x"
            using found [OF x False] srt(2) by blast
          obtain i where i: "i < length ?ptrs" "?ptrs ! i = p" using p(1) unfolding in_set_conv_nth by blast
          then have "bsearch_str ?ptrs x = Some i" using bsearch_str_Some [OF srt(1) i(1)] p(2) by simp
          then show ?thesis using False i p by (simp add: new_off_of_def)
        qed
        ultimately show ?thesis using r(2) g(6-8) by (auto simp: strings_kept_def intro!: exI [of _ ?f] exI [of _ us])
      qed
    qed
  qed
qed

end
