(* ===== verification/Dedup_Whole.thy ===== *)
theory Dedup_Whole
  imports Dedup_Strings
begin

text \<open>
  libbpf/src/btf.c, \<open>btf__dedup\<close>: the strings, then the types. Rewriting the offsets of names leaves the graph
  of the types alone, the phases for types leave the strings alone, and so the properties of the two halves
  are properties of the whole.
\<close>

section \<open>The whole deduplication\<close>

text \<open>
  \<open>ok1\<close> to \<open>ok4\<close>, \<open>ok\<close>, \<open>tmp_ok\<close>, \<open>e\<close> and \<open>realloc_ok\<close> are the allocations of the parts. The working structure is freed at
  the end; what stays are the types, the strings and the line information, changed in place.
\<close>

definition btf__dedup ::
    "bool \<Rightarrow> bool \<Rightarrow> bool \<Rightarrow> bool \<Rightarrow> (nat \<Rightarrow> bool) \<Rightarrow> bool \<Rightarrow> (btf_str_ptr list \<Rightarrow> btf_str_ptr list) \<Rightarrow> dedup_env \<Rightarrow> bool \<Rightarrow>
     btf \<Rightarrow> btf_ext option \<Rightarrow> btf_dedup_opts option \<Rightarrow> (int \<times> btf \<times> btf_ext option) option" where
  "btf__dedup ok1 ok2 ok3 ok4 ok tmp_ok qsort_content e realloc_ok b ext opts = do {
     r \<leftarrow> btf_dedup_new ok1 ok2 ok3 ok4 b opts;
     case r of
       Inl _ \<Rightarrow> Some (- EINVAL, b, ext)
     | Inr d \<Rightarrow> do {
         (err, b, ext) \<leftarrow> btf_dedup_strings ok tmp_ok qsort_content b ext;
         let d = d\<lparr>d_btf := b\<rparr>;
         (err, d) \<leftarrow> (if err < 0 then Some (err, d) else btf_dedup_types e realloc_ok d);
         _ \<leftarrow> btf_dedup_free d;
         Some (err, d_btf d, ext)
       }
   }"

section \<open>Renaming and the graph\<close>

lemma map_places_simps [simp]:
  "length (map_places f js ws) = length ws" "k \<notin> set js \<Longrightarrow> map_places f js ws ! k = ws ! k"
  by (induction js arbitrary: ws) (auto simp: map_places_def)

lemma map_names_simps [simp]: "t_info (map_names f t) = t_info t" "t_size (map_names f t) = t_size t"
  "length (t_extra (map_names f t)) = length (t_extra t)"
  by (simp_all add: map_names_def)

lemma map_names_kind [simp]: "btf_kind (map_names f t) = btf_kind t" "btf_vlen (map_names f t) = btf_vlen t"
  "remap_slots (map_names f t) = remap_slots t" "btf_type_size (map_names f t) = btf_type_size t" "type_ok (map_names f t) = type_ok t"
  using btf_kind_cong [of "map_names f t" t]
  by (simp_all add: remap_slots_def btf_type_size_def type_ok_def cong: btf_kind.case_cong)

lemma node_ok_map_names [simp]: "node_ok (map_names f t) = node_ok t"
  by (simp add: node_ok_def flip: length_0_conv)

lemma three_times: "3 * a + 1 \<noteq> 3 * (b :: nat)" "2 * a + 1 \<noteq> 2 * (b :: nat)"
  by presburger+

lemma name_places_slots: "Extra k \<in> set (remap_slots t) \<Longrightarrow> k \<notin> set (name_places t)"
  using three_times by (auto simp: remap_slots_def name_places_def split: btf_kind.splits)

lemma refs_map_names [simp]: "refs (map_names f t) = refs t"
proof -
  have "get_slot (map_names f t) s = get_slot t s" if "s \<in> set (remap_slots t)" for s
  proof (cases s)
    case (Extra k)
    then have "k \<notin> set (name_places t)" using name_places_slots [of k t] that by simp
    then show ?thesis using Extra by (simp add: get_slot_def map_names_def)
  qed (simp add: get_slot_def)
  then show ?thesis by (simp add: refs_def)
qed

lemma node_ok_names: "node_ok t \<Longrightarrow> names_ok t"
  using no_info_kind [of t]
  by (auto simp: node_ok_def names_ok_def name_places_def type_ok_def btf_type_size_def split: btf_kind.splits)

lemma rename_types_simps [simp]: "length (rename_types f ts) = length ts" "rename_types f ts = [] \<longleftrightarrow> ts = []"
  "ts \<noteq> [] \<Longrightarrow> rename_types f ts ! 0 = ts ! 0"
  by (cases ts; simp add: rename_types_def)+

lemma rename_types_graph: "graph_ok ts \<Longrightarrow> graph_ok (rename_types f ts)"
  by (cases ts) (auto simp: graph_ok_def rename_types_def)

lemma rename_types_kind: "i < length ts \<Longrightarrow> btf_kind (rename_types f ts ! i) = btf_kind (ts ! i)"
  by (cases ts; cases i) (simp_all add: rename_types_def)

lemma dedup_new_renamed:
  assumes "btf_dedup_new ok1 ok2 ok3 ok4 b opts = Some (Inr d)" "types b' = rename_types f (types b)"
  shows "btf_dedup_new ok1 ok2 ok3 ok4 b' opts = Some (Inr (d\<lparr>d_btf := b'\<rparr>))"
proof -
  have n: "btf__get_nr_types b' = btf__get_nr_types b" using assms(2) by (simp add: btf__get_nr_types_def)
  have "map (\<lambda>i. if btf_is_var (types b' ! i) \<or> btf_is_datasec (types b' ! i) then of_nat i else BTF_UNPROCESSED_ID) [1..<Suc (btf__get_nr_types b)] =
      map (\<lambda>i. if btf_is_var (types b ! i) \<or> btf_is_datasec (types b ! i) then of_nat i else BTF_UNPROCESSED_ID) [1..<Suc (btf__get_nr_types b)]"
    by (rule map_cong [OF refl])
       (auto simp: assms(2) btf_is_var_def btf_is_datasec_def rename_types_kind btf__get_nr_types_def less_diff_conv simp del: upt_Suc)
  then show ?thesis using assms(1)
    by (auto simp: btf_dedup_new_def Let_def n simp del: upt_Suc split: if_splits sum.splits Option.bind_splits)
qed

section \<open>What the phases for types leave alone\<close>

text \<open>The strings are not touched.\<close>

definition same_strs_of :: "btf_dedup \<Rightarrow> (int \<times> btf_dedup) option \<Rightarrow> bool" where
  "same_strs_of d r \<longleftrightarrow> (\<forall>err d'. r = Some (err, d') \<longrightarrow> strs (d_btf d') = strs (d_btf d))"

lemma set_map_strs: "set_map d i v = Some d' \<Longrightarrow> d_btf d' = d_btf d"
  by (auto simp: set_map_def split: Option.bind_splits)

lemma set_type_strs: "set_type d i t = Some d' \<Longrightarrow> strs (d_btf d') = strs (d_btf d)"
  by (auto simp: set_type_def split: Option.bind_splits)

lemma map_type_strs: "map_type e d i h n = Some (err, d') \<Longrightarrow> d_btf d' = d_btf d"
  by (auto simp: map_type_def btf_dedup_table_add_def dest!: set_map_strs split: Option.bind_splits if_splits)

lemma enum_loop_strs: "enum_loop d t i cs = Some (n, d') \<Longrightarrow> d_btf d' = d_btf d"
  by (induction d t i cs rule: enum_loop.induct) (auto dest!: set_map_strs split: Option.bind_splits if_splits)

lemma prim_type_strs: "same_strs_of d (btf_dedup_prim_type e d i)"
  by (auto simp: same_strs_of_def btf_dedup_prim_type_def dest!: map_type_strs enum_loop_strs split: Option.bind_splits btf_kind.splits)

lemma same_strs_ofI: "(\<And>err d'. r = Some (err, d') \<Longrightarrow> strs (d_btf d') = strs (d_btf d)) \<Longrightarrow> same_strs_of d r"
  by (simp add: same_strs_of_def)

lemma same_strs_ofD: "same_strs_of d r \<Longrightarrow> r = Some (err, d') \<Longrightarrow> strs (d_btf d') = strs (d_btf d)"
  by (simp add: same_strs_of_def)

lemma for_types_strs:
  assumes "\<And>d i. same_strs_of d (f d i)"
  shows "same_strs_of d (for_types f d ks)"
proof (induction ks arbitrary: d)
  case (Cons k ks)
  show ?case
  proof (rule same_strs_ofI)
    fix err d' assume "for_types f d (k # ks) = Some (err, d')"
    then obtain e1 d1 where r: "f d (of_nat k) = Some (e1, d1)" "(if e1 \<noteq> 0 then Some (e1, d1) else for_types f d1 ks) = Some (err, d')"
      by (auto split: Option.bind_splits)
    then show "strs (d_btf d') = strs (d_btf d)"
      using same_strs_ofD [OF assms r(1)] same_strs_ofD [OF Cons.IH [of d1], of err d'] by (auto split: if_splits)
  qed
qed (simp add: same_strs_of_def)

lemma hypot_add_strs: "btf_dedup_hypot_map_add e d a c = Some (err, d') \<Longrightarrow> d_btf d' = d_btf d"
  by (auto simp: btf_dedup_hypot_map_add_def Let_def split: Option.bind_splits if_splits)

lemma equiv_pairs_strs:
  assumes "\<And>d a c err d'. f d a c = Some (err, d') \<Longrightarrow> d_btf d' = d_btf d" "equiv_pairs f d ps = Some (err, d')"
  shows "d_btf d' = d_btf d"
  using assms(2) by (induction ps arbitrary: d) (auto dest!: assms(1) split: Option.bind_splits if_splits)

lemma is_equiv_strs: "is_equiv n e d a c = Some (err, d') \<Longrightarrow> d_btf d' = d_btf d"
proof (induction n arbitrary: d a c err d')
  case (Suc n)
  then show ?case
    by (auto dest!: hypot_add_strs equiv_pairs_strs [where f = "is_equiv n e", rotated] split: Option.bind_splits if_splits sum.splits)
qed simp

lemma merge_strs: "merge_loop d cs = Some d' \<Longrightarrow> d_btf d' = d_btf d"
proof (induction cs arbitrary: d)
  case (Cons c cs)
  have "merge_step d c = Some d'' \<Longrightarrow> d_btf d'' = d_btf d" for d''
    by (auto simp: merge_step_def Let_def dest!: set_map_strs split: Option.bind_splits if_splits)
  then show ?case using Cons by (fastforce split: Option.bind_splits)
qed simp

lemma clear_strs: "btf_dedup_clear_hypot_map d = Some d' \<Longrightarrow> d_btf d' = d_btf d"
  by (auto simp: btf_dedup_clear_hypot_map_def split: Option.bind_splits)

lemma struct_loop_strs: "struct_loop e d t i cs = Some (r, d') \<Longrightarrow> d_btf d' = d_btf d"
proof (induction cs arbitrary: d)
  case (Cons c cs)
  then obtain cand where cand: "type_at d c = Some cand" by (auto split: Option.bind_splits)
  show ?case
  proof (cases "btf_shallow_equal_struct t cand")
    case False
    then show ?thesis using Cons cand by simp
  next
    case True
    then obtain d1 eq d2 where r: "btf_dedup_clear_hypot_map d = Some d1" "btf_dedup_is_equiv e d1 i c = Some (eq, d2)"
        "(if eq < 0 then Some (Inl eq, d2) else if eq = 0 then struct_loop e d2 t i cs
          else do { d \<leftarrow> btf_dedup_merge_hypot_map d2; Some (Inr c, d) }) = Some (r, d')"
      using Cons.prems cand by (auto split: Option.bind_splits)
    have "d_btf d2 = d_btf d" using clear_strs [OF r(1)] is_equiv_strs [OF r(2) [unfolded btf_dedup_is_equiv_def]] by simp
    moreover have "d_btf d' = d_btf d2"
      using r(3) Cons.IH [of d2] merge_strs [of d2] by (auto simp: btf_dedup_merge_hypot_map_def split: if_splits Option.bind_splits)
    ultimately show ?thesis by simp
  qed
qed simp

lemma struct_type_strs: "same_strs_of d (btf_dedup_struct_type e d i)"
proof (rule same_strs_ofI)
  fix err d' assume "btf_dedup_struct_type e d i = Some (err, d')"
  then show "strs (d_btf d') = strs (d_btf d)"
    by (auto simp: btf_dedup_struct_type_def dest!: struct_loop_strs map_type_strs split: Option.bind_splits if_splits sum.splits)
qed

lemma for_slots_strs:
  assumes "\<And>d i. same_strs_of d (f d i)"
  shows "same_strs_of d (for_slots f i d ss)"
proof (induction ss arbitrary: d)
  case (Cons s ss)
  show ?case
  proof (rule same_strs_ofI)
    fix err d' assume run: "for_slots f i d (s # ss) = Some (err, d')"
    then obtain t r d1 where r: "type_at d i = Some t" "f d (get_slot t s) = Some (r, d1)" by (auto split: Option.bind_splits)
    have s1: "strs (d_btf d1) = strs (d_btf d)" by (rule same_strs_ofD [OF assms r(2)])
    show "strs (d_btf d') = strs (d_btf d)"
    proof (cases "r < 0")
      case True
      then show ?thesis using run r s1 by simp
    next
      case False
      then obtain t' d2 where "set_type d1 i t' = Some d2" "for_slots f i d2 ss = Some (err, d')"
        using run r by (auto split: Option.bind_splits)
      then show ?thesis using set_type_strs [of d1 i t' d2] same_strs_ofD [OF Cons.IH [of d2], of err d'] s1 by simp
    qed
  qed
qed (simp add: same_strs_of_def)

lemma ref_type_strs: "same_strs_of d (ref_type n e d i)"
proof (induction n arbitrary: d i)
  case (Suc n)
  show ?case
  proof (rule same_strs_ofI)
    fix err d' assume run: "ref_type (Suc n) e d i = Some (err, d')"
    then obtain m where m: "map_at d i = Some m" by (auto split: Option.bind_splits)
    show "strs (d_btf d') = strs (d_btf d)"
    proof (cases "m = BTF_IN_PROGRESS_ID \<or> m \<le> BTF_MAX_NR_TYPES")
      case True
      then show ?thesis using run m by (auto split: Option.bind_splits if_splits)
    next
      case False
      then obtain t d1 where d1: "type_at d i = Some t" "set_map d i BTF_IN_PROGRESS_ID = Some d1"
        using run m by (auto split: Option.bind_splits)
      show ?thesis
      proof (cases "is_ref_kind (btf_kind t)")
        case ref: True
        then obtain r d2 where d2: "for_slots (ref_type n e) i d1 (ref_slots t) = Some (r, d2)"
          using run m False d1 by (auto split: Option.bind_splits)
        have s2: "strs (d_btf d2) = strs (d_btf d1)" by (rule same_strs_ofD [OF for_slots_strs d2]) (rule Suc.IH)
        then show ?thesis using run m False d1 d2 ref set_map_strs [OF d1(2)]
          by (auto dest!: map_type_strs split: Option.bind_splits if_splits)
      qed (use run m False d1 set_map_strs [OF d1(2)] in auto)
    qed
  qed
qed (simp add: same_strs_of_def)

lemma ref_types_strs: "same_strs_of d (btf_dedup_ref_types e d)"
proof -
  have loop: "same_strs_of d (ref_types_loop e d ks)" for ks
  proof (induction ks arbitrary: d)
    case (Cons k ks)
    show ?case
    proof (rule same_strs_ofI)
      fix err d' assume "ref_types_loop e d (k # ks) = Some (err, d')"
      then obtain e1 d1 where r: "btf_dedup_ref_type e d (of_nat k) = Some (e1, d1)"
          "(if e1 < 0 then Some (e1, d1) else ref_types_loop e d1 ks) = Some (err, d')" by (auto split: Option.bind_splits)
      then show "strs (d_btf d') = strs (d_btf d)"
        using same_strs_ofD [OF ref_type_strs r(1) [unfolded btf_dedup_ref_type_def]] same_strs_ofD [OF Cons.IH [of d1], of err d']
        by (auto split: if_splits)
    qed
  qed (simp add: same_strs_of_def)
  show ?thesis
    by (rule same_strs_ofI) (auto simp: btf_dedup_ref_types_def dest!: same_strs_ofD [OF loop] split: Option.bind_splits if_splits)
qed

lemma compact_loop_strs: "compact_loop d k ks = Some (err, k', d') \<Longrightarrow> strs (d_btf d') = strs (d_btf d)"
proof (induction ks arbitrary: d k)
  case (Cons i ks)
  then obtain m where m: "map_at d (of_nat i) = Some m" by (auto split: Option.bind_splits)
  show ?case
  proof (cases "m = of_nat i")
    case False
    then show ?thesis using Cons m by simp
  next
    case True
    then obtain t where t: "type_at d (of_nat i) = Some t" using Cons.prems m by (auto split: Option.bind_splits)
    show ?thesis
    proof (cases "btf_type_size t < 0")
      case neg: False
      then obtain hm d1 where r: "set_type (d\<lparr>hypot_map := hm\<rparr>) (of_nat k) t = Some d1" "compact_loop d1 (Suc k) ks = Some (err, k', d')"
        using Cons.prems m t True by (auto split: Option.bind_splits)
      then show ?thesis using set_type_strs [OF r(1)] Cons.IH [OF r(2)] by simp
    qed (use Cons.prems m t True in auto)
  qed
qed simp

lemma compact_types_strs: "same_strs_of d (btf_dedup_compact_types rok d)"
  by (rule same_strs_ofI) (auto simp: btf_dedup_compact_types_def Let_def dest!: compact_loop_strs split: Option.bind_splits if_splits)

lemma remap_types_strs: "same_strs_of d (btf_dedup_remap_types d)"
proof -
  have one: "same_strs_of d (btf_dedup_remap_type d i)" for d i
  proof (rule same_strs_ofI)
    fix err d' assume r: "btf_dedup_remap_type d i = Some (err, d')"
    then obtain t where t: "type_at d i = Some t" by (auto simp: btf_dedup_remap_type_def split: Option.bind_splits)
    show "strs (d_btf d') = strs (d_btf d)"
    proof (cases "btf_kind t = BTF_KIND_UNKN")
      case False
      then have run: "for_slots (\<lambda>d i. do { r \<leftarrow> btf_dedup_remap_type_id d i; Some (r, d) }) i d (remap_slots t) = Some (err, d')"
        using r t by (simp add: btf_dedup_remap_type_def)
      show ?thesis
        by (rule same_strs_ofD [OF for_slots_strs run]) (auto simp: same_strs_of_def split: Option.bind_splits)
    qed (use r t in \<open>simp add: btf_dedup_remap_type_def\<close>)
  qed
  have "same_strs_of d (remap_loop d ks)" for ks
  proof (induction ks arbitrary: d)
    case (Cons k ks)
    show ?case
    proof (rule same_strs_ofI)
      fix err d' assume "remap_loop d (k # ks) = Some (err, d')"
      then obtain e1 d1 where r: "btf_dedup_remap_type d (of_nat k) = Some (e1, d1)"
          "(if e1 < 0 then Some (e1, d1) else remap_loop d1 ks) = Some (err, d')" by (auto split: Option.bind_splits)
      then show "strs (d_btf d') = strs (d_btf d)"
        using same_strs_ofD [OF one r(1)] same_strs_ofD [OF Cons.IH [of d1], of err d'] by (auto split: if_splits)
    qed
  qed (simp add: same_strs_of_def)
  then show ?thesis by (simp add: btf_dedup_remap_types_def)
qed

lemma and_then_strs:
  assumes "same_strs_of d r" "\<And>d. same_strs_of d (f d)"
  shows "same_strs_of d (and_then r f)"
proof (rule same_strs_ofI)
  fix err d' assume "and_then r f = Some (err, d')"
  then obtain e1 d1 where a: "r = Some (e1, d1)" "(if e1 < 0 then Some (e1, d1) else f d1) = Some (err, d')"
    by (auto simp: and_then_def split: Option.bind_splits)
  then show "strs (d_btf d') = strs (d_btf d)"
    using same_strs_ofD [OF assms(1) a(1)] same_strs_ofD [OF assms(2) [of d1], of err d'] by (auto split: if_splits)
qed

lemma dedup_types_strs: "btf_dedup_types e rok d = Some (err, d') \<Longrightarrow> strs (d_btf d') = strs (d_btf d)"
proof (erule same_strs_ofD [rotated])
  show "same_strs_of d (btf_dedup_types e rok d)"
    unfolding btf_dedup_types_def btf_dedup_prim_types_def btf_dedup_struct_types_def
    by (intro and_then_strs for_types_strs prim_type_strs struct_type_strs ref_types_strs compact_types_strs remap_types_strs)
qed

section \<open>The property of the whole\<close>

lemma refs_at_names:
  assumes "graph_ok ts"
  shows "\<forall>t \<in> set (tl ts). names_ok t"
proof
  fix t assume "t \<in> set (tl ts)"
  then have "t \<in> set ts" by (cases ts) auto
  then show "names_ok t" using assms node_ok_names by (auto simp: graph_ok_def)
qed

lemma new_table_freed: "hashmap__new ok h eq ctx = Inr table \<Longrightarrow> hashmap__free (Some table) = Some ()"
  by (auto simp: hashmap__new_def hashmap__free_def hashmap__clear_def hashmap__init_def free_ptr_def split: if_splits)

lemma dedup_new_returns: "\<exists>r. btf_dedup_new ok1 ok2 ok3 ok4 b opts = Some r"
  unfolding btf_dedup_new_def Let_def btf_dedup_free_def
  by (auto simp del: upt_Suc dest!: new_table_freed split: sum.split)


definition named_twice :: btf where
  "named_twice = \<lparr>types = [btf_void, \<lparr>t_name_off = 1, t_info = 0x01000000, t_size = 4, t_extra = [0x20]\<rparr>,
     \<lparr>t_name_off = 0, t_info = 0x02000000, t_size = 1, t_extra = []\<rparr>,
     \<lparr>t_name_off = 5, t_info = 0x04000001, t_size = 8, t_extra = [9, 2, 0]\<rparr>,
     \<lparr>t_name_off = 11, t_info = 0x01000000, t_size = 4, t_extra = [0x20]\<rparr>,
     \<lparr>t_name_off = 0, t_info = 0x02000000, t_size = 4, t_extra = []\<rparr>,
     \<lparr>t_name_off = 15, t_info = 0x04000001, t_size = 8, t_extra = [19, 5, 0]\<rparr>],
   strs = concat (map (\<lambda>u. u @ [CHR 0x00]) ['''', ''int'', ''foo'', ''a'', ''int'', ''foo'', ''a''])\<rparr>"

definition by_content :: "string \<Rightarrow> btf_str_ptr list \<Rightarrow> btf_str_ptr list" where
  "by_content s = sort_key (\<lambda>p. str_key (str_at s (s_off p)))"

lemma by_content_sorts: "sorts_content s (by_content s)"
  by (simp add: sorts_content_def by_content_def)

lemma named_twice_ok: "graph_ok (types named_twice)" "types named_twice \<noteq> []" "length (types named_twice) = 7"
    "t_info (types named_twice ! 0) = 0" "terminated (strs named_twice)" "hd (strs named_twice) = CHR 0x00" "length (strs named_twice) = 21"
  by code_simp+

lemma named_twice_strings: "map_option (\<lambda>(err, b, ext). (err, strs b, map t_name_off (types b)))
    (btf_dedup_strings (\<lambda>_. True) True (by_content (strs named_twice)) named_twice None) =
  Some (0, concat (map (\<lambda>u. u @ [CHR 0x00]) ['''', ''a'', ''foo'', ''int'']), [0, 7, 0, 3, 7, 0, 3])"
  by code_simp

lemma named_twice_run: "map_option (\<lambda>(err, b, ext). (err, strs b, types b))
    (btf__dedup True True True True (\<lambda>_. True) True (by_content (strs named_twice)) ample True named_twice None
       (Some \<lparr>o_table_size = 0, o_dont_resolve_fwds = True\<rparr>)) =
  Some (0, concat (map (\<lambda>u. u @ [CHR 0x00]) ['''', ''a'', ''foo'', ''int'']),
    [btf_void, \<lparr>t_name_off = 7, t_info = 0x01000000, t_size = 4, t_extra = [0x20]\<rparr>,
     \<lparr>t_name_off = 0, t_info = 0x02000000, t_size = 1, t_extra = []\<rparr>,
     \<lparr>t_name_off = 3, t_info = 0x04000001, t_size = 8, t_extra = [1, 2, 0]\<rparr>])"
  by code_simp


end
