(* ===== verification/Spec2Isabelle.thy ===== *)
theory Spec2Isabelle
  imports Xdp_Policy Parsing_Helpers Rewrite_Helpers Policy_Main Xdp_Loader Trace_Read Xdp_Stats Btf_Names Libbpf_Errno Perf_Ring Pinning Xsk_Ring Jhash Linfo Btf_Ext Dedup_Whole
begin

text \<open>
  A verification development of the anti-DoS program: an XDP program that filters packets in the kernel,
  the user-space programs that load it, feed its lists, watch its samples and statistics, and the parts of
  the vendored libbpf (libbpf/src) and of the shared headers that those programs run through.

  The program. \<open>main/xdp_prog_kern.c\<close> runs on every received packet: it parses the headers
  (\<open>main/common/parsing.h\<close>), asks the white list and the black list and applies its fixed rules
  (\<open>main/common/check_rules.h\<close>), counts the packet in a per-CPU map and hands a sample of a passed packet to
  user space through the perf ring of its CPU. \<open>main/start_policy.c\<close> reads a policy file, drains the rings into
  a queue, once a second counts the packets of every source to a protected address, writes offenders into
  the black list and removes them when their lock has expired. The two programs meet in the maps only.
  \<open>main/xdp_loader.c\<close> loads the program, attaches it and pins the maps; \<open>main/update_list.c\<close> fills a list
  from a file; \<open>main/xdp_stats.c\<close> and \<open>main/trace_read.c\<close> report. All of them use \<open>common/*.c\<close> for options,
  pinned maps and attaching, and libbpf for everything that talks to the kernel.

  Conventions (\<open>Prelude\<close>, \<open>Bytes\<close>, \<open>Text\<close>). Machine integers are words of their width, C's \<open>int\<close> is \<open>int\<close>
  where its width does not matter and a signed reading of a word where it does. Memory is a list of bytes, a
  pointer an offset; a load, store, array access or string function outside its memory is a fault, the
  value \<^term>\<open>None\<close> of the option monad, so "the result is \<open>Some r\<close>" states memory safety. Negative error numbers
  are the results the code returns. System calls and the calls into code that is not modelled are
  functions in a record (\<open>bpf_env\<close>, \<open>nl_env\<close>, \<open>fs_env\<close>, \<open>obj_env\<close>), with the documented
  laws as named hypotheses (for instance \<open>black_list_kernel\<close>); whether an allocation succeeds is an argument.

  The XDP program.
  \<^item> \<open>Headers\<close>, \<open>Parsing\<close>: the layouts of the protocol headers, and \<open>parse_ethhdr\<close>, \<open>parse_iphdr\<close>,
    \<open>parse_icmphdr\<close>, \<open>parse_udphdr\<close>, \<open>parse_tcphdr\<close>. The locale \<open>header_parser\<close> is the contract of a parser (it
    never reads behind \<open>data_end\<close>, fails with -1, moves the cursor behind the header);
    \<open>header_parser_frame\<close> adds that a failure leaves the cursor. Every parser of this file and of
    \<open>common/parsing_helpers.h\<close> is an interpretation; the XDP program uses the facts of the locale.
  \<^item> \<open>Xdp_Kernel\<close>: the maps, \<open>in_white_list\<close>, \<open>in_black_list\<close>, \<open>tcp_stupid\<close>, \<open>icmp_stupid\<close>, \<open>xdp_stats_record_action\<close>.
  \<^item> \<open>Xdp_Prog\<close>: \<open>xdp_parser_func\<close>, split at its \<open>switch\<close> into the definitions \<open>xdp_ipv4_case\<close> and so on, and
    \<open>packet_view\<close>/\<open>xdp_spec\<close>, what the program decides from an abstract view of the packet. \<open>Xdp_Policy\<close> proves
    the refinement and reads the properties off the specification.
  \<^item> \<open>Parsing_Helpers\<close>, \<open>Rewrite_Helpers\<close>: the helper headers of \<open>common/\<close> with VLAN tags and IPv6.

  The policy daemon (\<open>main/start_policy.c\<close>).
  \<^item> \<open>Policy_Stats\<close>: the counting loops of \<open>detect_attackers\<close>; \<open>Policy_Block\<close>: its second half, \<open>policy_change_black_list\<close>
    and the table of locks; \<open>Poller\<close>: one iteration of \<open>event_poller\<close> and sequences of them; \<open>Policy_Load\<close>: \<open>load_policy\<close>;
    \<open>Perf_Ring\<close>: the reader of a perf ring and its callback; \<open>Policy_Main\<close>: \<open>setup_perf_poller\<close> and \<open>main\<close>.
    The global variables are the record \<open>poller\<close>. Uninitialised arrays of the code are arguments.
  \<^item> This theory: detection and filtering together.

  The other programs. \<open>Bpf_User\<close> and \<open>Xdp_Loader\<close> (\<open>common/common_user_bpf_xdp.c\<close>, \<open>common/common_libbpf.c\<close>,
  \<open>main/xdp_loader.c\<close>), \<open>Common_Params\<close> (\<open>common/common_params.c\<close>), \<open>Update_List\<close> (\<open>main/update_list.c\<close>,
  \<open>headers/bpf_util.h\<close>), \<open>Trace_Read\<close> (\<open>main/trace_read.c\<close>), \<open>Xdp_Stats\<close> (\<open>main/xdp_stats.c\<close>).

  libbpf and the headers.
  \<^item> \<open>Hashmap\<close> (\<open>hashmap.c\<close>): the locale \<open>key_hash\<close> is what the map needs of its hash and equality functions,
    interpreted for the strings of \<open>btf_dump.c\<close> and both key functions of \<open>btf.c\<close>; every operation refines an abstract
    map from keys to lists of values. \<open>Btf_Names\<close> is its client in \<open>btf_dump.c\<close>.
  \<^item> \<open>Nlattr\<close>, \<open>Netlink\<close> (\<open>nlattr.c\<close>, \<open>netlink.c\<close>): attributes and requests, by which a program is attached.
  \<^item> \<open>Pinning\<close> (the pinning functions of \<open>libbpf.c\<close>), \<open>Libbpf_Errno\<close>, \<open>Xsk_Ring\<close> (\<open>xsk.h\<close>: the rings of AF_XDP, two
    processes as a step relation with an invariant), \<open>Linfo\<close> (\<open>bpf_prog_linfo.c\<close>), \<open>Jhash\<close> (\<open>headers/jhash.h\<close>).
  \<^item> \<open>Btf\<close>, \<open>Btf_Parse\<close>, \<open>Btf_Ext\<close> (\<open>btf.c\<close>): the types of a BTF section, the queries over them, the parser from bytes,
    and the sections of function and line information with their relocation.
  \<^item> \<open>Btf_Dedup\<close> (\<open>btf.c\<close>, \<open>btf_dedup_types\<close>): the phases of the deduplication that work on types, one group of
    definitions per phase. \<open>Type_Graph\<close>: what a table of types means, its graph with bisimilarity \<open>bisim\<close>, and the
    condition \<open>graph_ok\<close> on its input. \<open>Dedup_Map\<close>: the locale \<open>cand_table\<close> of the table of candidates, the map of representatives and its roots; \<open>Dedup_Sound\<close>: equal and
    shallowly equal types are similar, and the phase of primitive types; \<open>Dedup_Equiv\<close>: the comparison of two graphs under a
    hypothetical mapping, and the phase of structs; \<open>Dedup_Ref\<close>: the phase of references; \<open>Dedup_Done\<close>: compaction and
    renumbering, the theorem over all phases, and the run that merges two different structs behind a forward declaration.
  \<^item> \<open>Dedup_Strings\<close>: the phase of strings, the locales \<open>str_off_fn\<close> (a callback over all offsets of names) and
    \<open>read_only_fn\<close>, interpreted for marking and rewriting. \<open>Dedup_Whole\<close>: \<open>btf__dedup\<close> itself.

  What the lemmas show. Parsers and readers of bytes: no fault, and round trips with an encoder. Loops over shared
  tables: invariants and bounds, and the inputs at which the bounds are left (the overflow properties). State
  machines: invariants over all reachable states. Optimised or layered code: agreement with a specification. Deduplication:
  no fault, every type bisimilar to its replacement, every name kept and stored once.

  Termination. Recursion over lists and counters is structural or has a measure. \<open>bpf_netlink_recv\<close> and the loop
  of the perf ring may run for ever and are \<open>partial_function\<close>s, so that not returning is \<^term>\<open>None\<close>; that they
  return is proved. \<open>btf__resolve_size\<close> and \<open>btf__resolve_type\<close> are bounded by the code itself, by 32 steps. The endless
  loops of the daemons are runs over a sequence of inputs of any length. The traversals \<open>btf_dedup_is_equiv\<close>
  and \<open>btf_dedup_ref_type\<close> of the graph of types get as fuel the number of types plus one; a call that goes deeper first
  marks a type that was not marked, so the fuel never runs out, which is part of what is proved. The walk along
  the map, \<open>resolve_type_id\<close>, is a \<open>partial_function\<close>, and it ends on every map that the phases build.

  Not modelled. Reading ELF files, relocating and loading programs (\<open>libbpf.c\<close>, libelf is not part of the
  repository), the wrappers of the bpf(2) system call (\<open>bpf.c\<close>), the probes of kernel features (\<open>libbpf_probes.c\<close>),
  loading BTF into the kernel (the end of \<open>btf__load\<close> and \<open>btf__get_from_id\<close> in \<open>btf.c\<close>),
  the printing of C declarations (\<open>btf_dump.c\<close> apart from names), the setup of AF_XDP sockets (\<open>xsk.c\<close>),
  and the constants of the kernel's headers that no modelled code names. What is printed for the user
  is left out unless printing is the purpose of the program. Pointers are compared only within one object.
\<close>

section \<open>Detection and filtering together\<close>

text \<open>
  The user-space program and the XDP program meet in the map \<open>black_list\<close>: user space stores one
  value per CPU, and a lookup by the program finds the value of its own CPU.
\<close>

definition lookup_percpu :: "nat \<Rightarrow> (u32 \<Rightarrow> u32 list option) \<Rightarrow> u32 \<Rightarrow> u32 option" where
  "lookup_percpu cpu contents a = map_option (\<lambda>vs. vs ! cpu) (contents a)"

lemma lookup_percpu_None [simp]: "lookup_percpu cpu contents a = None \<longleftrightarrow> contents a = None"
  by (simp add: lookup_percpu_def)

lemma black_listed_dropped:
  assumes "packet_view m = Ipv4 a d frag len l4" "white_list xst a = None" "black_list xst a \<noteq> None"
  shows "map_option fst (xdp_parser_func m xst) = Some XDP_DROP"
  using assms by (simp add: xdp_parser_func_spec xdp_spec_def)



text \<open>C5. A blocked address is released: when its lock was recorded at time t, the sweep at any
time with \<open>now - t \<ge> 5\<close> takes it out of the kernel's black list, and the XDP program passes its
well-formed packets with an accepted transport header again.\<close>

theorem blocked_is_released:
  assumes "black_list_kernel env (black_list_path st) view" "ready st" "table_sized (count_down st)"
    "ip \<noteq> 0" "0 \<in> set (fst (count_down st))" "tick - prev = 1"
    "\<not> now - ucast (ucast (tm (time_calls st)) :: u32) < LOCK_TIME"
    "packet_view m = Ipv4 ip d frag len l4" "\<not> transport_drop frag len l4"
    "xdp_stats_map xst XDP_PASS \<noteq> None"
  shows "\<exists>st1 st2. block_offender env ncpus tm ip st = Some st1 \<and>
    poll_sweep env ncpus now (st1\<lparr>prev_time := prev, time_end := tick\<rparr>) = Some st2 \<and>
    map_option fst (xdp_parser_func m (xst\<lparr>black_list := lookup_percpu cpu (view (kernel st2))\<rparr>)) = Some XDP_PASS"
proof -
  obtain st1 where st1: "block_offender env ncpus tm ip st = Some st1" "ready st1"
      "table_sized (count_down st1)" "pin_dir st1 = pin_dir st"
      "(ip, ucast (tm (time_calls st))) \<in> set (locks (count_down st1))"
    using block_offender_effect [OF assms(1-3), of ncpus tm ip] assms(4,5) by auto
  let ?st = "st1\<lparr>prev_time := prev, time_end := tick\<rparr>"
  have "black_list_kernel env (black_list_path ?st) view" "ready ?st"
    "table_sized (count_down ?st)" "time_end ?st - prev_time ?st = 1"
    using assms(1,6) st1 by (simp_all add: black_list_path_def ready_def)
  from poll_sweep_effect [OF this, of ncpus now] obtain st2
    where st2: "poll_sweep env ncpus now ?st = Some st2"
      and v: "view (kernel st2) = (\<lambda>a. if \<exists>t. (a, t) \<in> set (locks (count_down ?st)) \<and> \<not> now - ucast t < LOCK_TIME
         then None else view (kernel ?st) a)" by blast
  have "view (kernel st2) ip = None" using st1(5) assms(7) by (auto simp: v)
  obtain r where r: "xdp_stats_map xst XDP_PASS = Some r" using assms(10) by blast
  have "map_option fst (xdp_parser_func m (xst\<lparr>black_list := lookup_percpu cpu (view (kernel st2))\<rparr>)) = Some XDP_PASS"
    using \<open>view (kernel st2) ip = None\<close> assms(8,9) r by (auto simp: xdp_parser_func_spec xdp_spec_def record_pass)
  with st1(1) st2 show ?thesis by blast
qed

lemma blocked_is_released_witness:
  "\<exists>st1 st2. block_offender demo_env 4 (\<lambda>n. 101) 0x0300000A (demo_poller [] []) = Some st1 \<and>
    poll_sweep demo_env 4 106 (st1\<lparr>prev_time := 105, time_end := 106\<rparr>) = Some st2 \<and>
    map_option fst (xdp_parser_func (demo_syn 3 0)
      (demo_state\<lparr>black_list := lookup_percpu 2 (kernel st2)\<rparr>)) = Some XDP_PASS"
proof -
  have "\<not> (106 :: u64) - ucast (ucast (101 :: u64) :: u32) < LOCK_TIME" by (simp add: LOCK_TIME_def)
  moreover have "0 \<in> set (fst (count_down (demo_poller [] [])))" by (simp add: demo_poller_def)
  moreover have "xdp_stats_map demo_state XDP_PASS \<noteq> None" by (simp add: demo_state_def xdp_action_defs)
  ultimately show ?thesis
    using blocked_is_released [where st = "demo_poller [] []" and ip = "0x0300000A" and now = 106
        and tm = "\<lambda>n. 101" and ncpus = 4 and cpu = 2 and prev = 105 and tick = 106,
        OF demo_kernel demo_ready(1,2), OF _ _ _ _ demo_views(2) [of 3, unfolded demo_sources], of demo_state]
    by simp
qed

end
